(* ===== verification/YH_Prelude.thy ===== *)
theory YH_Prelude
  imports Main "HOL-Library.Word"
begin

text \<open>
  Shared vocabulary of the development: the machine types of
  \<^verbatim>\<open>kernel/types.h\<close>, the outcome of a kernel function that may panic or
  loop for ever, the byte-addressed memory with its 32-bit little-endian loads
  and stores, and the generic lemmas on words and lists that the component
  theories use.
\<close>

unbundle bit_operations_syntax

named_theorems mem_simps \<open>loads after stores\<close>
named_theorems res_simps \<open>sequencing of outcomes\<close>

section \<open>Machine types\<close>

type_synonym uint8 = "8 word"
type_synonym uint16 = "16 word"
type_synonym uint32 = "32 word"
type_synonym uint64 = "64 word"
type_synonym addr = "32 word"
type_synonym mem = "addr \<Rightarrow> uint8"

section \<open>Outcomes\<close>

text \<open>
  A kernel function returns (\<open>Ok\<close>), ends in \<^verbatim>\<open>panic(s)\<close> (\<open>Panic s\<close>), or
  never returns because a loop of its own does not end (\<open>Loop\<close>).
\<close>

datatype 'a res = Ok 'a | Panic string | Loop

primrec bind_res :: "'a res \<Rightarrow> ('a \<Rightarrow> 'b res) \<Rightarrow> 'b res" where
  "bind_res (Ok x) f = f x"
| "bind_res (Panic s) f = Panic s"
| "bind_res Loop f = Loop"

definition of_opt :: "'a option \<Rightarrow> 'a res" where
  "of_opt r = (case r of None \<Rightarrow> Loop | Some x \<Rightarrow> Ok x)"

lemma of_opt_simps [simp]:
  "of_opt None = Loop" "of_opt (Some x) = Ok x"
  by (simp_all add: of_opt_def)

lemma bind_res_Ok_iff [res_simps]:
  "bind_res r f = Ok y \<longleftrightarrow> (\<exists>x. r = Ok x \<and> f x = Ok y)"
  by (cases r) auto

lemma bind_res_assoc [res_simps]:
  "bind_res (bind_res r f) g = bind_res r (\<lambda>x. bind_res (f x) g)"
  by (cases r) auto

lemma bind_res_OkE:
  assumes "bind_res r f = Ok y"
  obtains x where "r = Ok x" "f x = Ok y"
  using assms by (auto simp: bind_res_Ok_iff)

section \<open>Words\<close>

lemma unat_less_32: "unat (a :: 32 word) < 4294967296"
  using unsigned_less [of a, where 'a = nat] by simp

lemma unat_of_nat_small32:
  "n < 2 ^ 32 \<Longrightarrow> unat (of_nat n :: 32 word) = n"
  by (simp add: unat_of_nat take_bit_nat_eq_self)

lemma unat_pow2_32: "k < 32 \<Longrightarrow> unat (2 ^ k :: 32 word) = 2 ^ k"
proof -
  assume k: "k < 32"
  have "(2::nat) ^ k < 2 ^ 32"
    using k by (intro power_strict_increasing) simp_all
  from unat_of_nat_small32 [OF this] show ?thesis
    by simp
qed

lemma unat_plus_small:
  fixes a b :: "32 word"
  assumes "unat a + unat b < 4294967296"
  shows "unat (a + b) = unat a + unat b"
  using assms by (simp add: unat_word_ariths)

lemma unat_add_of_nat:
  fixes a :: "32 word"
  assumes "unat a + n < 4294967296"
  shows "unat (a + of_nat n) = unat a + n"
proof -
  have "unat (of_nat n :: 32 word) = n"
    using assms by (intro unat_of_nat_small32) simp
  with assms show ?thesis
    by (simp add: unat_plus_small)
qed

section \<open>Memory\<close>

text \<open>
  Kernel addresses are physical addresses (the kernel page table is the
  identity on RAM), so one map from 32-bit addresses to bytes serves for
  pointers, page-table pages, the links of the free lists and user data.
\<close>

definition ld32 :: "mem \<Rightarrow> addr \<Rightarrow> uint32" where
  "ld32 m a = ucast (m a) OR push_bit 8 (ucast (m (a + 1)))
     OR push_bit 16 (ucast (m (a + 2))) OR push_bit 24 (ucast (m (a + 3)))"

definition st32 :: "mem \<Rightarrow> addr \<Rightarrow> uint32 \<Rightarrow> mem" where
  "st32 m a v = m(a := ucast v, a + 1 := ucast (drop_bit 8 v),
     a + 2 := ucast (drop_bit 16 v), a + 3 := ucast (drop_bit 24 v))"

lemma bytes_of_word32:
  fixes v :: "32 word"
  shows "ucast (ucast v :: 8 word) OR push_bit 8 (ucast (ucast (drop_bit 8 v) :: 8 word))
     OR push_bit 16 (ucast (ucast (drop_bit 16 v) :: 8 word))
     OR push_bit 24 (ucast (ucast (drop_bit 24 v) :: 8 word)) = v"
  apply (rule bit_word_eqI)
  apply (auto simp: bit_simps not_less)
  subgoal for n by (cases "n < 24") auto
  done

lemma ld32_st32_same [simp, mem_simps]: "ld32 (st32 m a v) a = v"
  by (simp add: ld32_def st32_def bytes_of_word32)

lemma aligned4_add:
  fixes a :: "32 word"
  assumes "unat a mod 4 = 0"
  shows "unat (a + 1) = unat a + 1" "unat (a + 2) = unat a + 2" "unat (a + 3) = unat a + 3"
proof -
  have "unat a + 3 < 4294967296"
    using unat_less_32 [of a] assms by arith
  then show "unat (a + 1) = unat a + 1" "unat (a + 2) = unat a + 2" "unat (a + 3) = unat a + 3"
    by (simp_all add: unat_word_ariths)
qed

lemma aligned4_block:
  fixes a :: "32 word"
  assumes "unat a mod 4 = 0"
  shows "\<forall>x \<in> {a, a + 1, a + 2, a + 3}. unat x div 4 = unat a div 4"
  using aligned4_add [OF assms] assms by auto

lemma ld32_st32_other [mem_simps]:
  fixes a b :: "32 word"
  assumes "unat a mod 4 = 0" "unat b mod 4 = 0" "a \<noteq> b"
  shows "ld32 (st32 m a v) b = ld32 m b"
proof -
  have "unat a div 4 \<noteq> unat b div 4"
    using assms by (metis div_mult_mod_eq unsigned_word_eqI)
  with aligned4_block [OF assms(1)] aligned4_block [OF assms(2)]
  have "\<forall>x \<in> {a, a + 1, a + 2, a + 3}. x \<notin> {b, b + 1, b + 2, b + 3}"
    by metis
  then show ?thesis
    unfolding ld32_def st32_def by auto
qed

lemma st32_outside:
  assumes "x \<notin> {a, a + 1, a + 2, a + 3}"
  shows "st32 m a v x = m x"
  using assms by (simp add: st32_def)

end
