(* ===== verification/Div64.thy ===== *)
theory Div64
  imports YH_Prelude "HOL-Library.Signed_Division"
begin

text \<open>
  \<^verbatim>\<open>user/div64.c\<close>: the 64-bit division routines that the compiler calls on a
  32-bit target without hardware support. Words keep their width, so the shifts
  of the restoring division wrap as in C; the lemmas show that none of them
  loses a bit.
\<close>

section \<open>The routines\<close>

primrec udivmod64_loop :: "uint64 \<Rightarrow> uint64 \<Rightarrow> nat \<Rightarrow> uint64 \<Rightarrow> uint64 \<Rightarrow> uint64 \<times> uint64" where
  "udivmod64_loop n d 0 q r = (q, r)"
| "udivmod64_loop n d (Suc i) q r =
     (let r1 = push_bit 1 r OR (drop_bit i n AND 1)
      in if r1 \<ge> d then udivmod64_loop n d i (q OR push_bit i 1) (r1 - d)
         else udivmod64_loop n d i q r1)"

definition udivmod64 :: "uint64 \<Rightarrow> uint64 \<Rightarrow> uint64 \<times> uint64" where
  "udivmod64 n d = (if d = 0 then (0, 0) else udivmod64_loop n d 64 0 0)"

definition udivdi3 :: "uint64 \<Rightarrow> uint64 \<Rightarrow> uint64" where
  "udivdi3 n d = fst (udivmod64 n d)"

definition umoddi3 :: "uint64 \<Rightarrow> uint64 \<Rightarrow> uint64" where
  "umoddi3 n d = snd (udivmod64 n d)"

definition uabs64 :: "uint64 \<Rightarrow> uint64" where
  "uabs64 x = (if x <s 0 then - (x + 1) + 1 else x)"

definition divdi3 :: "uint64 \<Rightarrow> uint64 \<Rightarrow> uint64" where
  "divdi3 n d =
     (let neg = ((n <s 0) \<noteq> (d <s 0)); q = fst (udivmod64 (uabs64 n) (uabs64 d))
      in if neg then - q else q)"

definition moddi3 :: "uint64 \<Rightarrow> uint64 \<Rightarrow> uint64" where
  "moddi3 n d =
     (let r = snd (udivmod64 (uabs64 n) (uabs64 d)) in if n <s 0 then - r else r)"

section \<open>Unsigned division\<close>

lemma unat_less_64: "unat (a :: 64 word) < 18446744073709551616"
  using unsigned_less [of a, where 'a = nat] by simp

lemma unat_pow2_64: "k < 64 \<Longrightarrow> unat (2 ^ k :: 64 word) = 2 ^ k"
proof -
  assume "k < 64"
  then have "(2::nat) ^ k < 2 ^ 64"
    by (intro power_strict_increasing) simp_all
  then show ?thesis
    using unat_of_nat [of "2 ^ k", where 'a = 64] by simp
qed

lemma shift_in_bit:
  fixes r n :: uint64
  assumes "2 * unat r + 1 < 18446744073709551616"
  shows "unat (push_bit 1 r OR (drop_bit i n AND 1)) = 2 * unat r + unat n div 2 ^ i mod 2"
proof -
  let ?b = "drop_bit i n AND 1"
  have "unat ?b = unat n div 2 ^ i mod 2"
    by (simp only: unsigned_and_eq unat_drop_bit_eq unsigned_1) (simp only: and_one_eq drop_bit_eq_div)
  moreover have "unat (push_bit 1 r) = 2 * unat r"
    using assms by (simp add: unat_word_ariths)
  moreover have "push_bit 1 r OR 1 = push_bit 1 r + 1"
    by (simp add: or_one_eq)
  moreover have "unat (push_bit 1 r + 1) = unat (push_bit 1 r) + 1" if "unat (push_bit 1 r) = 2 * unat r"
    using that assms by (subst unat_word_ariths) (simp del: push_bit_numeral)
  moreover have "?b = 0 \<or> ?b = 1"
    by (metis and_one_eq not_mod_2_eq_0_eq_1)
  ultimately show ?thesis
    by (elim disjE) (simp_all only: or.right_neutral unsigned_0 unsigned_1 add_0_right)
qed

lemma set_low_bit:
  fixes q :: uint64
  assumes "unat q = 2 ^ Suc i * a" "i < 64"
  shows "unat (q OR push_bit i 1) = 2 ^ i * (2 * a + 1)"
proof -
  have "unat (q OR push_bit i 1) = unat q OR push_bit i 1"
    using assms(2) by (simp add: unsigned_or_eq unat_pow2_64)
  also have "\<dots> = unat q + of_bool (\<not> bit (unat q) i) * 2 ^ i"
    by (simp only: set_bit_eq_or [symmetric] set_bit_eq)
  finally show ?thesis using assms(1) by (simp add: algebra_simps bit_iff_odd)
qed

lemma udivmod64_loop_spec:
  assumes "0 < unat d" "unat r < unat d" "unat q = 2 ^ k * a" "unat n div 2 ^ k = a * unat d + unat r" "k \<le> 64"
  shows "unat n = unat (fst (udivmod64_loop n d k q r)) * unat d + unat (snd (udivmod64_loop n d k q r))
         \<and> unat (snd (udivmod64_loop n d k q r)) < unat d"
  using assms(2-)
proof (induction k arbitrary: q r a)
  case (Suc i)
  let ?r = "push_bit 1 r OR (drop_bit i n AND 1)"
  have half: "unat n div 2 ^ i = 2 * (unat n div 2 ^ Suc i) + unat n div 2 ^ i mod 2"
    by (simp only: power_Suc2 div_mult2_eq mult_div_mod_eq)
  have le: "unat n div 2 ^ i \<le> unat n" by (rule div_le_dividend)
  have "2 * unat r \<le> 2 * (unat n div 2 ^ Suc i)" using Suc.prems(3) by simp
  then have "2 * unat r \<le> unat n div 2 ^ i" using half by linarith
  then have "2 * unat r < 18446744073709551616" using le unat_less_64 [of n] by linarith
  then have "2 * unat r + 1 < 18446744073709551616" by presburger
  then have r: "unat ?r = 2 * unat r + unat n div 2 ^ i mod 2" by (rule shift_in_bit)
  have v: "unat n div 2 ^ i = 2 * a * unat d + unat ?r"
    using half Suc.prems(3) r by simp
  show ?case
  proof (cases "d \<le> ?r")
    case True
    then have s: "unat (?r - d) = unat ?r - unat d" "unat d \<le> unat ?r"
      by (simp_all add: unat_sub word_le_nat_alt)
    have "unat n div 2 ^ i mod 2 \<le> 1" by simp
    then have "unat (?r - d) < unat d" using s r Suc.prems(1) by linarith
    moreover have "unat n div 2 ^ i = (2 * a + 1) * unat d + unat (?r - d)"
      using v s by simp
    ultimately show ?thesis
      using Suc.IH [of "?r - d" "q OR push_bit i 1" "2 * a + 1"] set_low_bit [OF Suc.prems(2)] Suc.prems(4) True
      by (simp add: Let_def)
  next
    case False
    then have "unat ?r < unat d" by (simp add: word_le_nat_alt)
    moreover have "unat q = 2 ^ i * (2 * a)" using Suc.prems(2) by simp
    ultimately show ?thesis
      using Suc.IH [of ?r q "2 * a"] v Suc.prems(4) False by (simp add: Let_def)
  qed
qed simp

lemma udivmod64_spec:
  assumes "d \<noteq> 0"
  shows "unat (fst (udivmod64 n d)) = unat n div unat d" "unat (snd (udivmod64 n d)) = unat n mod unat d"
proof -
  have d: "0 < unat d" using assms by (simp add: unat_gt_0)
  have "unat n div 2 ^ 64 = 0" using unat_less_64 [of n] by simp
  then have "unat n = unat (fst (udivmod64 n d)) * unat d + unat (snd (udivmod64 n d))"
      "unat (snd (udivmod64 n d)) < unat d"
    using udivmod64_loop_spec [OF d, of 0 0 64 0 n] d assms by (simp_all add: udivmod64_def)
  then show "unat (fst (udivmod64 n d)) = unat n div unat d" "unat (snd (udivmod64 n d)) = unat n mod unat d"
    by (simp_all add: div_mult_self1)
qed

section \<open>Signed division\<close>

lemma sint_neg_iff: "(x :: uint64) <s 0 \<longleftrightarrow> sint x < 0"
  by (simp add: word_sless_alt)

lemma sint_range64: "- 9223372036854775808 \<le> sint (x :: uint64)" "sint (x :: uint64) < 9223372036854775808"
  using sint_ge [of x] sint_lt [of x] by simp_all

lemma uint_sint64:
  fixes x :: uint64
  shows "uint x = (if sint x < 0 then sint x + 18446744073709551616 else sint x)"
proof -
  have "uint x = sint x mod 18446744073709551616"
    by (simp add: uint_sint take_bit_eq_mod)
  moreover have "sint x mod 18446744073709551616 = sint x" if "0 \<le> sint x"
    using that sint_range64 [of x] by (intro mod_pos_pos_trivial) simp_all
  moreover have "sint x mod 18446744073709551616 = (sint x + 18446744073709551616) mod 18446744073709551616"
    by simp
  moreover have "(sint x + 18446744073709551616) mod 18446744073709551616 = sint x + 18446744073709551616"
    if "sint x < 0"
    using that sint_range64 [of x] by (intro mod_pos_pos_trivial) simp_all
  ultimately show ?thesis by (metis linorder_not_less)
qed

lemma uint_uabs64: "uint (uabs64 x) = \<bar>sint x\<bar>"
proof (cases "sint x < 0")
  case True
  then have "uint (uabs64 x) = (- uint x) mod 18446744073709551616"
    by (simp add: uabs64_def sint_neg_iff uint_word_ariths)
  also have "\<dots> = (- sint x + (-1) * 18446744073709551616) mod 18446744073709551616"
    using True by (simp add: uint_sint64)
  also have "\<dots> = - sint x mod 18446744073709551616"
    by (rule mod_mult_self1)
  also have "\<dots> = - sint x"
    using True sint_range64 [of x] by (intro mod_pos_pos_trivial) simp_all
  finally show ?thesis using True by simp
next
  case False
  then show ?thesis by (simp add: uabs64_def sint_neg_iff uint_sint64)
qed

lemma sint_small:
  fixes q :: uint64
  shows "uint q < 9223372036854775808 \<Longrightarrow> sint q = uint q"
    and "uint q \<le> 9223372036854775808 \<Longrightarrow> sint (- q) = - uint q"
proof -
  have "sint q = (uint q + 9223372036854775808) mod 18446744073709551616 - 9223372036854775808"
    using int_word_sint [of "uint q", where 'a = 64] by simp
  then show "uint q < 9223372036854775808 \<Longrightarrow> sint q = uint q"
    by (simp add: mod_pos_pos_trivial)
  have "- q = word_of_int (- uint q)" by simp
  then have "sint (- q) = (- uint q + 9223372036854775808) mod 18446744073709551616 - 9223372036854775808"
    using int_word_sint [of "- uint q", where 'a = 64] by (simp only:) simp
  moreover have "(9223372036854775808 - uint q) mod 18446744073709551616 = 9223372036854775808 - uint q"
    if "uint q \<le> 9223372036854775808"
    using that uint_ge_0 [of q] by (intro mod_pos_pos_trivial) linarith+
  ultimately show "uint q \<le> 9223372036854775808 \<Longrightarrow> sint (- q) = - uint q"
    by simp
qed

lemma uint_udivmod64:
  assumes "d \<noteq> 0"
  shows "uint (fst (udivmod64 n d)) = uint n div uint d" "uint (snd (udivmod64 n d)) = uint n mod uint d"
  by (simp_all only: uint_nat udivmod64_spec [OF assms] of_nat_div of_nat_mod)

lemma uabs64_eq_0_iff [simp]: "uabs64 d = 0 \<longleftrightarrow> d = 0"
proof -
  have "uabs64 d = 0 \<longleftrightarrow> uint (uabs64 d) = 0" by (simp add: uint_0_iff)
  also have "\<dots> \<longleftrightarrow> sint d = 0" by (simp add: uint_uabs64)
  also have "\<dots> \<longleftrightarrow> uint d = 0"
    using uint_sint64 [of d] sint_range64 [of d] by (auto split: if_splits)
  finally show ?thesis by (simp add: uint_0_iff)
qed

lemma abs_div_le:
  fixes a b :: int
  assumes "b \<noteq> 0"
  shows "\<bar>a\<bar> div \<bar>b\<bar> \<le> \<bar>a\<bar>"
proof -
  have "\<bar>a\<bar> div \<bar>b\<bar> \<le> \<bar>a\<bar> div 1"
    using assms by (intro zdiv_mono2) simp_all
  then show ?thesis by simp
qed

lemma divdi3_spec:
  assumes "d \<noteq> 0" "\<not> (sint n = - 9223372036854775808 \<and> sint d = - 1)"
  shows "sint (divdi3 n d) = sint n sdiv sint d"
proof -
  let ?q = "fst (udivmod64 (uabs64 n) (uabs64 d))"
  have d: "sint d \<noteq> 0" using assms(1) uint_sint64 [of d] by (auto simp: uint_0_iff)
  have q: "uint ?q = \<bar>sint n\<bar> div \<bar>sint d\<bar>"
    using uint_udivmod64(1) [of "uabs64 d" "uabs64 n"] assms(1) by (simp add: uint_uabs64)
  have le: "\<bar>sint n\<bar> div \<bar>sint d\<bar> \<le> \<bar>sint n\<bar>" using d by (rule abs_div_le)
  have ub: "\<bar>sint n\<bar> \<le> 9223372036854775808" using sint_range64 [of n] by linarith
  show ?thesis
  proof (cases "(n <s 0) \<noteq> (d <s 0)")
    case True
    then have "sint (divdi3 n d) = - uint ?q"
      using sint_small(2) [of ?q] q le ub by (simp add: divdi3_def Let_def)
    moreover have "sgn (sint n) * sgn (sint d) = -1 \<or> sint n = 0"
      using True d by (auto simp: sint_neg_iff sgn_if)
    ultimately show ?thesis using q by (auto simp: signed_divide_int_def)
  next
    case False
    have "\<bar>sint n\<bar> div \<bar>sint d\<bar> < 9223372036854775808"
    proof (cases "\<bar>sint n\<bar> = 9223372036854775808")
      case True
      then have n: "sint n = - 9223372036854775808" using sint_range64 [of n] by linarith
      then have "sint d < 0" using False by (simp add: sint_neg_iff)
      then have "2 \<le> \<bar>sint d\<bar>" using n assms(2) by linarith
      then have "\<bar>sint n\<bar> div \<bar>sint d\<bar> \<le> \<bar>sint n\<bar> div 2"
        by (intro zdiv_mono2) simp_all
      then show ?thesis using True by simp
    qed (use le ub in linarith)
    then have "sint (divdi3 n d) = uint ?q"
      using sint_small(1) [of ?q] q False by (simp add: divdi3_def Let_def)
    moreover have "sgn (sint n) * sgn (sint d) = 1 \<or> sint n = 0"
      using False d by (auto simp: sint_neg_iff sgn_if)
    ultimately show ?thesis using q by (auto simp: signed_divide_int_def)
  qed
qed

lemma moddi3_spec:
  assumes "d \<noteq> 0"
  shows "sint (moddi3 n d) = sint n smod sint d"
proof -
  let ?r = "snd (udivmod64 (uabs64 n) (uabs64 d))"
  have d: "sint d \<noteq> 0" using assms(1) uint_sint64 [of d] by (auto simp: uint_0_iff)
  have r: "uint ?r = \<bar>sint n\<bar> mod \<bar>sint d\<bar>"
    using uint_udivmod64(2) [of "uabs64 d" "uabs64 n"] assms(1) by (simp add: uint_uabs64)
  have "\<bar>sint n\<bar> mod \<bar>sint d\<bar> < \<bar>sint d\<bar>" using d by simp
  moreover have "\<bar>sint d\<bar> \<le> 9223372036854775808" using sint_range64 [of d] by linarith
  ultimately have b: "uint ?r < 9223372036854775808" using r by linarith
  have "sint (moddi3 n d) = (if sint n < 0 then - uint ?r else uint ?r)"
    using sint_small [of ?r] b by (simp add: moddi3_def Let_def sint_neg_iff)
  also have "\<dots> = sgn (sint n) * (\<bar>sint n\<bar> mod \<bar>sint d\<bar>)"
    using r by (auto simp: sgn_if)
  finally show ?thesis by (simp add: signed_modulo_int_def)
qed

text \<open>
  C31. For every dividend and every divisor other than 0, the unsigned routines
  compute the quotient and the remainder of the 64-bit values: the shift of the
  partial remainder never loses a bit, even for divisors above \<open>2 ^ 63\<close>.
  Division by 0 gives 0 and 0.
\<close>

theorem udivmod64_correct:
  "unat (udivdi3 n d) = (if d = 0 then 0 else unat n div unat d) \<and>
   unat (umoddi3 n d) = (if d = 0 then 0 else unat n mod unat d)"
  using udivmod64_spec [of d n] by (simp_all add: udivdi3_def umoddi3_def udivmod64_def)

text \<open>
  C40. The signed routines truncate towards zero as C requires, for every pair of
  64-bit values except a zero divisor and, for the quotient, the one case that
  does not fit (\<open>INT64_MIN / -1\<close>).
\<close>

theorem divdi3_truncates:
  assumes "d \<noteq> 0"
  shows "sint (moddi3 n d) = sint n smod sint d \<and>
    (\<not> (sint n = - (2 ^ 63) \<and> sint d = - 1) \<longrightarrow> sint (divdi3 n d) = sint n sdiv sint d)"
  using moddi3_spec [OF assms] divdi3_spec [OF assms] by simp_all

theorem divdi3_truncates_witness:
  "sint (divdi3 (word_of_int (-7)) 2) = -3 \<and> sint (moddi3 (word_of_int (-7)) 2) = -1"
proof -
  have "sint (word_of_int (-7) :: uint64) = -7" "sint (2 :: uint64) = 2" by simp_all
  then show ?thesis
    using divdi3_truncates [of 2 "word_of_int (-7)"]
    by (simp add: signed_divide_int_def signed_modulo_int_def)
qed

end
