(* ===== verification/Spinlock.thy ===== *)
theory Spinlock
  imports YH_Prelude
begin

text \<open>
  \<^verbatim>\<open>kernel/spinlock.c\<close> on the single CPU of this kernel. \<open>intr\<close> is the interrupt
  enable bit that \<^verbatim>\<open>intr_get\<close>, \<^verbatim>\<open>intr_on\<close> and \<^verbatim>\<open>intr_off\<close> read and write; the pointer
  \<^verbatim>\<open>lk->cpu\<close> is \<open>None\<close> for 0 and \<open>Some 0\<close> for \<^verbatim>\<open>&bootcpu\<close>, the only value \<^verbatim>\<open>mycpu\<close>
  returns. The lemmas justify leaving the brackets \<^verbatim>\<open>acquire(&l) ... release(&l)\<close>
  out of the models of the other components.
\<close>

section \<open>Operations\<close>

record cpu =
  noff :: int
  intena :: bool
  intr :: bool

record spinlock =
  locked :: bool
  lcpu :: "nat option"

definition mycpu :: nat where "mycpu = 0"

definition initlock :: "spinlock" where
  "initlock = \<lparr>locked = False, lcpu = None\<rparr>"

definition holding :: "spinlock \<Rightarrow> bool" where
  "holding lk \<longleftrightarrow> locked lk \<and> lcpu lk = Some mycpu"

definition push_off :: "cpu \<Rightarrow> cpu" where
  "push_off c =
     (let old = intr c; c1 = c\<lparr>intr := False\<rparr>;
          c2 = (if noff c1 = 0 then c1\<lparr>intena := old\<rparr> else c1)
      in c2\<lparr>noff := noff c2 + 1\<rparr>)"

definition pop_off :: "cpu \<Rightarrow> cpu res" where
  "pop_off c =
     (if intr c then Panic ''pop_off - interruptible''
      else if noff c < 1 then Panic ''pop_off''
      else let c1 = c\<lparr>noff := noff c - 1\<rparr>
           in Ok (if noff c1 = 0 \<and> intena c1 then c1\<lparr>intr := True\<rparr> else c1))"

definition acquire :: "spinlock \<Rightarrow> cpu \<Rightarrow> (spinlock \<times> cpu) res" where
  "acquire lk c =
     (let c1 = push_off c
      in if holding lk then Panic ''acquire''
         else if locked lk then Panic ''acquire busy''
         else Ok (lk\<lparr>locked := True, lcpu := Some mycpu\<rparr>, c1))"

definition release :: "spinlock \<Rightarrow> cpu \<Rightarrow> (spinlock \<times> cpu) res" where
  "release lk c =
     (if \<not> holding lk then Panic ''release''
      else let lk1 = lk\<lparr>lcpu := None, locked := False\<rparr>
           in bind_res (pop_off c) (\<lambda>c1. Ok (lk1, c1)))"

section \<open>A machine with many locks\<close>

text \<open>One step of kernel code as far as its locks are concerned.\<close>

datatype 'l lock_op = Acquire 'l | Release 'l

record 'l lock_state =
  lks :: "'l \<Rightarrow> spinlock"
  hart :: cpu

definition lock_step :: "'l lock_op \<Rightarrow> 'l lock_state \<Rightarrow> 'l lock_state res" where
  "lock_step lop s =
     (case lop of
        Acquire l \<Rightarrow> bind_res (acquire (lks s l) (hart s)) (\<lambda>(lk, c). Ok (s\<lparr>lks := (lks s)(l := lk), hart := c\<rparr>))
      | Release l \<Rightarrow> bind_res (release (lks s l) (hart s)) (\<lambda>(lk, c). Ok (s\<lparr>lks := (lks s)(l := lk), hart := c\<rparr>)))"

primrec lock_run :: "'l lock_op list \<Rightarrow> 'l lock_state \<Rightarrow> 'l lock_state res" where
  "lock_run [] s = Ok s"
| "lock_run (x # xs) s = bind_res (lock_step x s) (lock_run xs)"

definition held :: "'l lock_state \<Rightarrow> 'l set" where
  "held s = {l. locked (lks s l)}"

text \<open>
  \<open>lock_inv b s\<close>: the depth counter is the number of locks held, interrupts are
  off while a lock is held, \<open>b\<close> is the interrupt state to go back to, and a
  taken lock belongs to this CPU.
\<close>

definition lock_inv :: "bool \<Rightarrow> 'l lock_state \<Rightarrow> bool" where
  "lock_inv b s \<longleftrightarrow> finite (held s) \<and> noff (hart s) = int (card (held s)) \<and>
     (\<forall>l. lcpu (lks s l) = (if locked (lks s l) then Some mycpu else None)) \<and>
     (if held s = {} then intr (hart s) = b else \<not> intr (hart s) \<and> intena (hart s) = b)"

lemma lock_inv_holding: "lock_inv b s \<Longrightarrow> holding (lks s l) \<longleftrightarrow> l \<in> held s"
  by (simp add: lock_inv_def holding_def held_def)

lemma held_upd: "held (s\<lparr>lks := (lks s)(l := lk), hart := c\<rparr>) = (if locked lk then insert l (held s) else held s - {l})"
  by (auto simp: held_def)

lemma lock_step_acquire:
  assumes "lock_inv b s"
  shows "if l \<in> held s then lock_step (Acquire l) s = Panic ''acquire''
         else \<exists>s'. lock_step (Acquire l) s = Ok s' \<and> lock_inv b s' \<and> held s' = insert l (held s)"
proof (cases "l \<in> held s")
  case True
  then show ?thesis using lock_inv_holding [OF assms] by (simp add: lock_step_def acquire_def)
next
  case False
  then have "lock_step (Acquire l) s = Ok (s\<lparr>lks := (lks s)(l := (lks s l)\<lparr>locked := True, lcpu := Some mycpu\<rparr>),
      hart := push_off (hart s)\<rparr>)" (is "_ = Ok ?s")
    using lock_inv_holding [OF assms] by (simp add: lock_step_def acquire_def held_def)
  moreover have h: "held ?s = insert l (held s)" by (simp only: held_upd) simp
  moreover have "lock_inv b ?s"
  proof -
    have "card (held s) = 0 \<longleftrightarrow> held s = {}" using assms by (simp add: lock_inv_def)
    then show ?thesis
      using assms False unfolding lock_inv_def h by (auto simp: push_off_def Let_def)
  qed
  ultimately show ?thesis using False by auto
qed

lemma lock_step_release:
  assumes "lock_inv b s"
  shows "if l \<notin> held s then lock_step (Release l) s = Panic ''release''
         else \<exists>s'. lock_step (Release l) s = Ok s' \<and> lock_inv b s' \<and> held s' = held s - {l}"
proof (cases "l \<in> held s")
  case False
  then show ?thesis using lock_inv_holding [OF assms] by (simp add: lock_step_def release_def)
next
  case True
  have fin: "finite (held s)" and c: "noff (hart s) = int (card (held s))" "\<not> intr (hart s)" "intena (hart s) = b"
    using assms True by (auto simp: lock_inv_def split: if_splits)
  have pos: "0 < card (held s)" using True fin by (auto simp: card_gt_0_iff)
  let ?c = "if noff (hart s) = 1 \<and> b then (hart s)\<lparr>noff := noff (hart s) - 1, intr := True\<rparr>
            else (hart s)\<lparr>noff := noff (hart s) - 1\<rparr>"
  have "pop_off (hart s) = Ok ?c"
    using c pos by (simp add: pop_off_def Let_def)
  then have "lock_step (Release l) s = Ok (s\<lparr>lks := (lks s)(l := (lks s l)\<lparr>lcpu := None, locked := False\<rparr>), hart := ?c\<rparr>)"
      (is "_ = Ok ?s")
    using True lock_inv_holding [OF assms] by (simp add: lock_step_def release_def)
  moreover have h: "held ?s = held s - {l}" by (simp only: held_upd) simp
  moreover have "lock_inv b ?s"
  proof -
    have "card (held s - {l}) = card (held s) - 1" using True fin by simp
    moreover have "held s - {l} = {} \<longleftrightarrow> card (held s) = 1"
      using True fin by (metis card_1_singleton_iff card_gt_0_iff Diff_empty Diff_insert0 insert_Diff is_singletonI' calculation card_0_eq diff_is_0_eq finite_Diff le_antisym less_one linorder_not_le pos)
    ultimately show ?thesis
      using assms pos c fin unfolding lock_inv_def h by auto
  qed
  ultimately show ?thesis using True by auto
qed

lemma lock_run_inv:
  "lock_inv b s \<Longrightarrow> case lock_run ops s of
     Ok s' \<Rightarrow> lock_inv b s' | Panic e \<Rightarrow> e \<in> {''acquire'', ''release''} | Loop \<Rightarrow> False"
proof (induction ops arbitrary: s)
  case (Cons x xs)
  have "(\<exists>s'. lock_step x s = Ok s' \<and> lock_inv b s') \<or> lock_step x s \<in> {Panic ''acquire'', Panic ''release''}"
  proof (cases x)
    case (Acquire l)
    then show ?thesis using lock_step_acquire [OF Cons.prems, of l] by (auto split: if_splits)
  next
    case (Release l)
    then show ?thesis using lock_step_release [OF Cons.prems, of l] by (auto split: if_splits)
  qed
  then show ?case using Cons.IH by auto
qed simp

text \<open>
  C24. Whatever sequence of acquires and releases the kernel performs, in any
  nesting order: \<^verbatim>\<open>noff\<close> counts the locks held, interrupts are off while any lock
  is held, and when the last one is released interrupts are back to what they
  were and \<^verbatim>\<open>noff\<close> is 0. The only possible panics are acquiring a lock already
  held and releasing one not held: \<^verbatim>\<open>acquire busy\<close> and the panics of \<^verbatim>\<open>pop_off\<close>
  cannot happen.
\<close>

theorem lock_discipline:
  assumes "lock_inv b s"
  shows "case lock_run ops s of
           Ok s' \<Rightarrow> noff (hart s') = int (card (held s')) \<and> (held s' \<noteq> {} \<longrightarrow> \<not> intr (hart s')) \<and>
                    (held s' = {} \<longrightarrow> intr (hart s') = b \<and> noff (hart s') = 0)
         | Panic e \<Rightarrow> e \<in> {''acquire'', ''release''}
         | Loop \<Rightarrow> False"
  using lock_run_inv [OF assms, of ops] by (auto simp: lock_inv_def split: res.splits)

definition quiet :: "nat lock_state" where
  "quiet = \<lparr>lks = (\<lambda>_. initlock), hart = \<lparr>noff = 0, intena = False, intr = True\<rparr>\<rparr>"

lemma quiet_inv: "lock_inv True quiet"
  by (simp add: lock_inv_def quiet_def held_def initlock_def)

theorem lock_discipline_witness:
  "\<exists>s'. lock_run [Acquire 1, Acquire 2, Release 1, Release 2] quiet = Ok s' \<and> intr (hart s') \<and> noff (hart s') = 0"
proof -
  obtain s' where r: "lock_run [Acquire 1, Acquire 2, Release 1, Release 2] quiet = Ok s'" and h: "held s' = {}"
    by (auto simp: lock_step_def acquire_def release_def quiet_def initlock_def holding_def push_off_def pop_off_def
        Let_def held_def)
  show ?thesis
    using lock_discipline [OF quiet_inv, of "[Acquire 1, Acquire 2, Release 1, Release 2]"] r h by simp
qed

end
