(* ===== verification/Riscv.thy ===== *)
theory Riscv
  imports YH_Prelude
begin

text \<open>
  The constants and macros of \<^verbatim>\<open>kernel/riscv.h\<close> and \<^verbatim>\<open>kernel/memlayout.h\<close>
  that the memory code computes with: page rounding, the Sv32 page-table entry
  layout, the virtual-address split and the layout of physical and virtual
  memory. The lemmas say what the bit operations mean arithmetically.
\<close>

section \<open>Pages\<close>

definition PGSIZE :: uint32 where
  "PGSIZE = 4096"

definition PGROUNDUP :: "uint32 \<Rightarrow> uint32" where
  "PGROUNDUP sz = (sz + PGSIZE - 1) AND NOT (PGSIZE - 1)"

definition PGROUNDDOWN :: "uint32 \<Rightarrow> uint32" where
  "PGROUNDDOWN a = a AND NOT (PGSIZE - 1)"

section \<open>Page-table entries\<close>

definition PTE_V :: uint32 where "PTE_V = push_bit 0 1"
definition PTE_R :: uint32 where "PTE_R = push_bit 1 1"
definition PTE_W :: uint32 where "PTE_W = push_bit 2 1"
definition PTE_X :: uint32 where "PTE_X = push_bit 3 1"
definition PTE_U :: uint32 where "PTE_U = push_bit 4 1"
definition PTE_COW :: uint32 where "PTE_COW = push_bit 8 1"

definition PA2PTE :: "uint32 \<Rightarrow> uint32" where
  "PA2PTE pa = push_bit 10 (drop_bit 12 pa)"

definition PTE2PA :: "uint32 \<Rightarrow> uint32" where
  "PTE2PA pte = push_bit 12 (drop_bit 10 pte)"

definition PTE_FLAGS :: "uint32 \<Rightarrow> uint32" where
  "PTE_FLAGS pte = pte AND 0x3FF"

definition PXSHIFT :: "nat \<Rightarrow> nat" where
  "PXSHIFT level = 12 + 10 * level"

definition PX :: "nat \<Rightarrow> uint32 \<Rightarrow> uint32" where
  "PX level va = drop_bit (PXSHIFT level) va AND 0x3FF"

section \<open>Memory layout\<close>

definition KERNBASE :: uint32 where "KERNBASE = 0x80000000"
definition PHYSTOP :: uint32 where "PHYSTOP = KERNBASE + 128 * 1024 * 1024"

text \<open>\<^verbatim>\<open>MAXVA\<close> is a 64-bit constant, so what is computed from it is 64 bits wide.\<close>

definition MAXVA :: uint64 where "MAXVA = push_bit 32 1"
definition TRAMPOLINE :: uint64 where "TRAMPOLINE = MAXVA - ucast PGSIZE"
definition TRAPFRAME :: uint64 where "TRAPFRAME = TRAMPOLINE - ucast PGSIZE"
definition KSTACK :: "nat \<Rightarrow> uint64" where
  "KSTACK p = TRAMPOLINE - (of_nat p + 1) * 2 * ucast PGSIZE"

lemmas pte_bit_defs = PTE_V_def PTE_R_def PTE_W_def PTE_X_def PTE_U_def PTE_COW_def
lemmas layout_defs = PGSIZE_def KERNBASE_def PHYSTOP_def MAXVA_def TRAMPOLINE_def TRAPFRAME_def

lemma PTE_vals:
  "PTE_V = 1" "PTE_R = 2" "PTE_W = 4" "PTE_X = 8" "PTE_U = 16" "PTE_COW = 256"
  by (simp_all add: pte_bit_defs push_bit_eq_mult)

lemma layout_vals:
  "PGSIZE = 4096" "KERNBASE = 0x80000000" "PHYSTOP = 0x88000000"
  "MAXVA = 0x100000000" "TRAMPOLINE = 0xFFFFF000" "TRAPFRAME = 0xFFFFE000"
  by (simp_all add: layout_defs push_bit_eq_mult)

section \<open>Rounding\<close>

lemma PGSIZE_mask: "PGSIZE - 1 = mask 12"
  by (simp add: PGSIZE_def mask_eq_exp_minus_1)

lemma and_not_mask12: "(a :: 32 word) AND NOT (mask 12) = push_bit 12 (drop_bit 12 a)"
  by (rule bit_word_eqI) (auto simp: bit_simps)

lemma unat_push_drop12: "unat (push_bit 12 (drop_bit 12 (a :: 32 word))) = unat a div 4096 * 4096"
proof -
  have "unat a div 4096 * 4096 < 4294967296"
    by (rule le_less_trans [OF div_times_less_eq_dividend unat_less_32])
  then show ?thesis
    by (simp add: push_bit_eq_mult drop_bit_eq_div unat_word_ariths unat_div_distrib)
qed

lemma unat_PGROUNDDOWN: "unat (PGROUNDDOWN a) = unat a div 4096 * 4096"
  by (simp add: PGROUNDDOWN_def PGSIZE_mask and_not_mask12 unat_push_drop12)

lemma PGROUNDUP_down: "PGROUNDUP sz = PGROUNDDOWN (sz + (PGSIZE - 1))"
  by (simp add: PGROUNDUP_def PGROUNDDOWN_def algebra_simps)

lemma unat_PGROUNDUP:
  assumes "unat sz \<le> 4294963200"
  shows "unat (PGROUNDUP sz) = (unat sz + 4095) div 4096 * 4096"
proof -
  have "unat (sz + 4095) = unat sz + 4095"
    using assms unat_plus_small [of sz 4095] by simp
  then show ?thesis
    by (simp add: PGROUNDUP_down unat_PGROUNDDOWN PGSIZE_def)
qed

lemma PGROUNDDOWN_aligned [simp]: "unat (PGROUNDDOWN a) mod 4096 = 0"
  by (simp add: unat_PGROUNDDOWN)

lemma PGROUNDDOWN_eq_iff: "PGROUNDDOWN a = PGROUNDDOWN b \<longleftrightarrow> unat a div 4096 = unat b div 4096"
  by (simp add: word_unat_eq_iff unat_PGROUNDDOWN)

lemma PGROUNDDOWN_id: "unat a mod 4096 = 0 \<Longrightarrow> PGROUNDDOWN a = a"
  by (metis add.right_neutral div_mult_mod_eq unat_PGROUNDDOWN unsigned_word_eqI)

lemma aligned4_same_page:
  assumes "unat a mod 4 = 0" "x \<in> {a, a + 1, a + 2, a + 3}"
  shows "PGROUNDDOWN x = PGROUNDDOWN a"
proof -
  have "unat x div 4 = unat a div 4"
    using aligned4_block [OF assms(1)] assms(2) by blast
  then have "unat x div 4 div 1024 = unat a div 4 div 1024" by simp
  then show ?thesis
    by (simp add: PGROUNDDOWN_eq_iff div_mult2_eq [symmetric])
qed

lemma ld32_page_cong:
  assumes "unat a mod 4 = 0" "\<And>x. PGROUNDDOWN x = PGROUNDDOWN a \<Longrightarrow> m' x = m x"
  shows "ld32 m' a = ld32 m a"
proof -
  have "m' x = m x" if "x \<in> {a, a + 1, a + 2, a + 3}" for x
    using aligned4_same_page [OF assms(1) that] assms(2) by blast
  then show ?thesis
    by (simp add: ld32_def)
qed

lemma st32_other_page:
  assumes "unat a mod 4 = 0" "PGROUNDDOWN x \<noteq> PGROUNDDOWN a"
  shows "st32 m a v x = m x"
  using assms aligned4_same_page by (metis st32_outside)

section \<open>Page-table entries: encoding and decoding\<close>

lemma mask10: "(0x3FF :: 32 word) = mask 10"
  by (simp add: mask_eq_exp_minus_1)

lemma aligned12_bits: "unat (pa :: 32 word) mod 4096 = 0 \<Longrightarrow> push_bit 12 (drop_bit 12 pa) = pa"
  using PGROUNDDOWN_id by (simp add: PGROUNDDOWN_def PGSIZE_mask and_not_mask12)

lemma no_high_bits: "fl AND NOT (mask 10) = 0 \<Longrightarrow> bit (fl :: 32 word) n \<Longrightarrow> n < 10"
  by (metis bit_and_iff bit_mask_iff bit_not_iff impossible_bit bit_0_eq bot_apply bot_bool_def)

lemma PTE2PA_PA2PTE:
  assumes "unat pa mod 4096 = 0" "fl AND NOT 0x3FF = 0"
  shows "PTE2PA (PA2PTE pa OR fl) = pa"
proof -
  have "push_bit 12 (drop_bit 10 (push_bit 10 (drop_bit 12 pa) OR fl)) = push_bit 12 (drop_bit 12 pa)"
    using no_high_bits [OF assms(2) [unfolded mask10]]
    by (intro bit_word_eqI) (fastforce simp: bit_simps)
  with aligned12_bits [OF assms(1)] show ?thesis
    by (simp add: PTE2PA_def PA2PTE_def)
qed

lemma PTE_FLAGS_PA2PTE:
  assumes "fl AND NOT 0x3FF = 0"
  shows "PTE_FLAGS (PA2PTE pa OR fl) = fl"
  unfolding PTE_FLAGS_def PA2PTE_def mask10
  using no_high_bits [OF assms[unfolded mask10]]
  by (intro bit_word_eqI) (auto simp: bit_simps)

lemma unat_PX1: "unat (PX 1 va) = unat va div 4194304"
proof -
  have "PX 1 va = drop_bit 22 va"
    unfolding PX_def PXSHIFT_def mask10
    by (rule bit_word_eqI) (auto simp: bit_simps dest: bit_imp_le_length)
  then show ?thesis
    by (simp add: drop_bit_eq_div unat_div_distrib)
qed

lemma unat_PX0: "unat (PX 0 va) = unat va div 4096 mod 1024"
  unfolding PX_def PXSHIFT_def mask10
  by (simp flip: take_bit_eq_mask  add: take_bit_eq_mod drop_bit_eq_div unat_div_distrib unat_mod_distrib)

end
