(* ===== verification/Kstring.thy ===== *)
theory Kstring
  imports Riscv
begin

text \<open>
  \<^verbatim>\<open>kernel/string.c\<close>: the memory and string routines over the byte memory.
  Each routine is its loop, one memory update per assignment; the lemmas give
  the closed form of the two that everything else uses (\<open>memset\<close>, \<open>memmove\<close>)
  and relate the string routines to the C string a pointer denotes.
\<close>

section \<open>The routines\<close>

function memset_loop :: "mem \<Rightarrow> addr \<Rightarrow> uint8 \<Rightarrow> nat \<Rightarrow> nat \<Rightarrow> mem" where
  "memset_loop m cdst c i n =
     (if i < n then memset_loop (m(cdst + of_nat i := c)) cdst c (Suc i) n else m)"
  by pat_completeness auto
termination
  by (relation "measure (\<lambda>(m, cdst, c, i, n). n - i)") auto

declare memset_loop.simps [simp del]

definition memset :: "mem \<Rightarrow> addr \<Rightarrow> uint32 \<Rightarrow> uint32 \<Rightarrow> mem" where
  "memset m dst c n = memset_loop m dst (ucast c) 0 (unat n)"

primrec memcmp_loop :: "mem \<Rightarrow> addr \<Rightarrow> addr \<Rightarrow> nat \<Rightarrow> int" where
  "memcmp_loop m s1 s2 0 = 0"
| "memcmp_loop m s1 s2 (Suc n) =
     (if m s1 \<noteq> m s2 then uint (m s1) - uint (m s2)
      else memcmp_loop m (s1 + 1) (s2 + 1) n)"

definition memcmp :: "mem \<Rightarrow> addr \<Rightarrow> addr \<Rightarrow> uint32 \<Rightarrow> int" where
  "memcmp m v1 v2 n = memcmp_loop m v1 v2 (unat n)"

primrec copy_down :: "mem \<Rightarrow> addr \<Rightarrow> addr \<Rightarrow> nat \<Rightarrow> mem" where
  "copy_down m d s 0 = m"
| "copy_down m d s (Suc n) = copy_down (m(d - 1 := m (s - 1))) (d - 1) (s - 1) n"

primrec copy_up :: "mem \<Rightarrow> addr \<Rightarrow> addr \<Rightarrow> nat \<Rightarrow> mem" where
  "copy_up m d s 0 = m"
| "copy_up m d s (Suc n) = copy_up (m(d := m s)) (d + 1) (s + 1) n"

definition memmove :: "mem \<Rightarrow> addr \<Rightarrow> addr \<Rightarrow> uint32 \<Rightarrow> mem" where
  "memmove m dst src n =
     (if n = 0 then m
      else if src < dst \<and> src + n > dst then copy_down m (dst + n) (src + n) (unat n)
      else copy_up m dst src (unat n))"

definition memcpy :: "mem \<Rightarrow> addr \<Rightarrow> addr \<Rightarrow> uint32 \<Rightarrow> mem" where
  "memcpy m dst src n = memmove m dst src n"

primrec strncmp_loop :: "mem \<Rightarrow> addr \<Rightarrow> addr \<Rightarrow> nat \<Rightarrow> int" where
  "strncmp_loop m p q 0 = 0"
| "strncmp_loop m p q (Suc n) =
     (if m p \<noteq> 0 \<and> m p = m q then strncmp_loop m (p + 1) (q + 1) n
      else uint (m p) - uint (m q))"

definition strncmp :: "mem \<Rightarrow> addr \<Rightarrow> addr \<Rightarrow> uint32 \<Rightarrow> int" where
  "strncmp m p q n = strncmp_loop m p q (unat n)"

primrec zero_fill :: "mem \<Rightarrow> addr \<Rightarrow> nat \<Rightarrow> mem" where
  "zero_fill m s 0 = m"
| "zero_fill m s (Suc n) = zero_fill (m(s := 0)) (s + 1) n"

primrec strncpy_loop :: "mem \<Rightarrow> addr \<Rightarrow> addr \<Rightarrow> nat \<Rightarrow> mem" where
  "strncpy_loop m s t 0 = m"
| "strncpy_loop m s t (Suc n) =
     (let m' = m(s := m t)
      in if m t = 0 then zero_fill m' (s + 1) n else strncpy_loop m' (s + 1) (t + 1) n)"

definition strncpy :: "mem \<Rightarrow> addr \<Rightarrow> addr \<Rightarrow> int \<Rightarrow> mem" where
  "strncpy m s t n = strncpy_loop m s t (nat n)"

primrec safestrcpy_loop :: "mem \<Rightarrow> addr \<Rightarrow> addr \<Rightarrow> nat \<Rightarrow> mem" where
  "safestrcpy_loop m s t 0 = m(s := 0)"
| "safestrcpy_loop m s t (Suc n) =
     (let m' = m(s := m t)
      in if m t = 0 then m'(s + 1 := 0) else safestrcpy_loop m' (s + 1) (t + 1) n)"

definition safestrcpy :: "mem \<Rightarrow> addr \<Rightarrow> addr \<Rightarrow> int \<Rightarrow> mem" where
  "safestrcpy m s t n = (if n \<le> 0 then m else safestrcpy_loop m s t (nat (n - 1)))"

partial_function (option) strlen_from :: "mem \<Rightarrow> addr \<Rightarrow> nat \<Rightarrow> nat option" where
  "strlen_from m s n = (if m (s + of_nat n) \<noteq> 0 then strlen_from m s (Suc n) else Some n)"

declare strlen_from.simps [code]

definition strlen :: "mem \<Rightarrow> addr \<Rightarrow> nat option" where
  "strlen m s = strlen_from m s 0"

section \<open>Filling\<close>

lemma memset_loop_eq:
  assumes "n \<le> 4294967295" "i \<le> n"
  shows "memset_loop m cdst c i n =
     (\<lambda>x. if i \<le> unat (x - cdst) \<and> unat (x - cdst) < n then c else m x)"
  using assms
proof (induction m cdst c i n rule: memset_loop.induct)
  case (1 m cdst c i n)
  show ?case
  proof (cases "i < n")
    case True
    have i: "unat (of_nat i :: 32 word) = i"
      using True "1.prems" by (intro unat_of_nat_small32) simp
    have eq: "x = cdst + of_nat i \<longleftrightarrow> unat (x - cdst) = i" for x
      using i by (metis add_diff_cancel_left' diff_add_cancel add.commute unsigned_word_eqI)
    show ?thesis
      using True "1.IH" "1.prems" eq
      by (subst memset_loop.simps) (fastforce simp: fun_eq_iff)
  next
    case False
    then show ?thesis
      using "1.prems" by (subst memset_loop.simps) (auto simp: fun_eq_iff)
  qed
qed

lemma memset_eq: "memset m dst c n = (\<lambda>x. if unat (x - dst) < unat n then ucast c else m x)"
proof -
  have "unat n \<le> 4294967295"
    using unat_less_32 [of n] by simp
  then show ?thesis
    by (simp add: memset_def memset_loop_eq)
qed

section \<open>Moving\<close>

lemma word32_shift_index:
  fixes d s x :: "32 word"
  assumes "unat d \<le> unat x" "unat x < unat d + n" "unat s + n \<le> 4294967296"
  shows "unat (s + (x - d)) = unat s + (unat x - unat d)"
proof -
  have "unat (x - d) = unat x - unat d"
    using assms(1) by (simp add: unat_sub word_le_nat_alt)
  with assms show ?thesis
    by (subst unat_plus_small) simp_all
qed

lemma unat_Suc32:
  fixes d :: "32 word"
  shows "unat d + 1 < 4294967296 \<Longrightarrow> unat (d + 1) = unat d + 1"
  by (simp add: unat_word_ariths)

lemma copy_up_eq:
  assumes "unat d + n \<le> 4294967296" "unat s + n \<le> 4294967296"
    and "unat d \<le> unat s \<or> unat s + n \<le> unat d"
  shows "copy_up m d s n x =
     (if unat d \<le> unat x \<and> unat x < unat d + n then m (s + (x - d)) else m x)"
  using assms
proof (induction n arbitrary: m d s)
  case 0
  then show ?case by auto
next
  case (Suc k)
  show ?case
  proof (cases "k = 0")
    case True
    moreover have "unat x = unat d \<longleftrightarrow> x = d"
      by (simp add: word_unat_eq_iff)
    ultimately show ?thesis by auto
  next
    case False
    have d1: "unat (d + 1) = unat d + 1" and s1: "unat (s + 1) = unat s + 1"
      using Suc.prems False by (simp_all add: unat_Suc32)
    have IH: "copy_up (m(d := m s)) (d + 1) (s + 1) k x =
       (if unat d + 1 \<le> unat x \<and> unat x < unat d + 1 + k
        then (m(d := m s)) (s + (x - d)) else (m(d := m s)) x)"
    proof -
      have "s + 1 + (x - (d + 1)) = s + (x - d)" by simp
      moreover have "unat d + 1 \<le> unat s + 1 \<or> unat s + 1 + k \<le> unat d + 1"
        using Suc.prems by linarith
      ultimately show ?thesis
        using Suc.IH [of "d + 1" "s + 1" "m(d := m s)"] Suc.prems unfolding d1 s1
        by (simp del: fun_upd_apply)
    qed
    have ne: "s + (x - d) \<noteq> d" if "unat d + 1 \<le> unat x" "unat x < unat d + 1 + k"
    proof -
      have "unat (s + (x - d)) \<noteq> unat d"
        using that Suc.prems word32_shift_index [of d x "Suc k" s] by linarith
      then show ?thesis by metis
    qed
    have "unat x = unat d \<longleftrightarrow> x = d"
      by (simp add: word_unat_eq_iff)
    then show ?thesis
      using IH ne by (auto simp del: fun_upd_apply simp: fun_upd_same fun_upd_other)
  qed
qed

lemma copy_down_eq:
  assumes "unat d + n \<le> 4294967296" "unat s + n \<le> 4294967296" "unat s < unat d"
  shows "copy_down m (d + of_nat n) (s + of_nat n) n x =
     (if unat d \<le> unat x \<and> unat x < unat d + n then m (s + (x - d)) else m x)"
  using assms
proof (induction n arbitrary: m)
  case 0
  then show ?case by auto
next
  case (Suc k)
  let ?m = "m(d + of_nat k := m (s + of_nat k))"
  have dk: "unat (d + of_nat k) = unat d + k" and sk: "unat (s + of_nat k) = unat s + k"
    using Suc.prems by (simp_all add: unat_add_of_nat)
  have "copy_down m (d + of_nat (Suc k)) (s + of_nat (Suc k)) (Suc k) x =
      copy_down ?m (d + of_nat k) (s + of_nat k) k x"
    by (simp add: algebra_simps)
  also have "\<dots> = (if unat d \<le> unat x \<and> unat x < unat d + k then ?m (s + (x - d)) else ?m x)"
    using Suc by simp
  also have "\<dots> = (if unat d \<le> unat x \<and> unat x < unat d + Suc k then m (s + (x - d)) else m x)"
  proof -
    have "s + (x - d) \<noteq> d + of_nat k" if "unat d \<le> unat x" "unat x < unat d + k"
    proof -
      have "unat (s + (x - d)) < unat (d + of_nat k)"
        using that Suc.prems dk word32_shift_index [of d x "Suc k" s] by linarith
      then show ?thesis by (metis less_irrefl)
    qed
    moreover have "x = d + of_nat k \<longleftrightarrow> unat x = unat d + k"
      using dk by (metis unsigned_word_eqI)
    moreover have "x = d + of_nat k \<Longrightarrow> s + (x - d) = s + of_nat k" by simp
    ultimately show ?thesis by auto
  qed
  finally show ?case .
qed

lemma memmove_eq:
  assumes "unat dst + unat n \<le> 4294967296" "unat src + unat n \<le> 4294967296"
  shows "memmove m dst src n x =
     (if unat dst \<le> unat x \<and> unat x < unat dst + unat n then m (src + (x - dst)) else m x)"
proof (cases "n = 0")
  case True
  then show ?thesis by (auto simp: memmove_def)
next
  case False
  show ?thesis
  proof (cases "src < dst \<and> src + n > dst")
    case True
    then show ?thesis
      using False assms copy_down_eq [of dst "unat n" src m x]
      by (simp add: memmove_def word_less_nat_alt)
  next
    case False': False
    have "unat dst \<le> unat src \<or> unat src + unat n \<le> unat dst"
    proof (cases "unat src + unat n = 4294967296")
      case True
      with assms(1) show ?thesis by linarith
    next
      case False
      then have "unat (src + n) = unat src + unat n"
        using assms by (simp add: unat_plus_small)
      with False' show ?thesis
        by (auto simp: word_less_nat_alt)
    qed
    then show ?thesis
      using False False' assms copy_up_eq [of dst "unat n" src m x]
      by (auto simp: memmove_def)
  qed
qed

section \<open>C strings\<close>

text \<open>
  The string of at most \<open>n\<close> bytes at \<open>p\<close>: the bytes up to the first zero
  byte, or \<open>n\<close> bytes when there is none among them.
\<close>

primrec cstr :: "mem \<Rightarrow> addr \<Rightarrow> nat \<Rightarrow> uint8 list" where
  "cstr m p 0 = []"
| "cstr m p (Suc n) = (if m p = 0 then [] else m p # cstr m (p + 1) n)"

lemma cstr_upd_outside:
  assumes "unat p + n < 4294967296" "unat x < unat p \<or> unat p + n \<le> unat x"
  shows "cstr (m(x := v)) p n = cstr m p n"
  using assms
proof (induction n arbitrary: p)
  case 0
  then show ?case by simp
next
  case (Suc n)
  have "unat (p + 1) = unat p + 1"
    using Suc.prems by (simp add: unat_Suc32)
  then have "cstr (m(x := v)) (p + 1) n = cstr m (p + 1) n"
    using Suc.prems by (intro Suc.IH) auto
  moreover have "p \<noteq> x"
    using Suc.prems by auto
  ultimately show ?case
    by (simp add: fun_upd_other del: fun_upd_apply)
qed

lemma strncmp_loop_eq_0: "strncmp_loop m p q n = 0 \<longleftrightarrow> cstr m p n = cstr m q n"
  by (induction n arbitrary: p q) (auto simp: word_uint_eq_iff)

lemma strncmp_eq_0: "strncmp m p q n = 0 \<longleftrightarrow> cstr m p (unat n) = cstr m q (unat n)"
  by (simp add: strncmp_def strncmp_loop_eq_0)

lemma memcmp_loop_eq_0:
  "memcmp_loop m p q n = 0 \<longleftrightarrow> (\<forall>i<n. m (p + of_nat i) = m (q + of_nat i))"
proof (induction n arbitrary: p q)
  case 0
  then show ?case by simp
next
  case (Suc n)
  have "(\<forall>i<Suc n. m (p + of_nat i) = m (q + of_nat i)) \<longleftrightarrow>
     m p = m q \<and> (\<forall>i<n. m (p + 1 + of_nat i) = m (q + 1 + of_nat i))"
    by (simp add: All_less_Suc2 add.assoc)
  with Suc show ?case
    by (auto simp: word_uint_eq_iff)
qed

lemma safestrcpy_loop_outside:
  assumes "unat s + k < 4294967296" "unat x < unat s \<or> unat s + k < unat x"
  shows "safestrcpy_loop m s t k x = m x"
  using assms
proof (induction k arbitrary: m s t)
  case 0
  then show ?case by auto
next
  case (Suc k)
  have "unat (s + 1) = unat s + 1"
    using Suc.prems by (simp add: unat_Suc32)
  with Suc show ?case
    by (auto simp: Let_def)
qed

lemma safestrcpy_loop_cstr:
  assumes "unat s + k < 4294967296" "unat t + k < 4294967296"
    and "unat s + k < unat t \<or> unat t + k < unat s"
  shows "cstr (safestrcpy_loop m s t k) s (Suc k) = cstr m t k"
  using assms
proof (induction k arbitrary: m s t)
  case 0
  then show ?case by simp
next
  case (Suc k)
  let ?m = "m(s := m t)"
  have s1: "unat (s + 1) = unat s + 1" and t1: "unat (t + 1) = unat t + 1"
    using Suc.prems by (simp_all add: unat_Suc32)
  show ?case
  proof (cases "m t = 0")
    case True
    then show ?thesis by (simp add: Let_def)
  next
    case False
    have same: "safestrcpy_loop ?m (s + 1) (t + 1) k s = m t"
      using Suc.prems s1 by (subst safestrcpy_loop_outside) auto
    have "cstr ?m (t + 1) k = cstr m (t + 1) k"
      using Suc.prems t1 by (intro cstr_upd_outside) auto
    moreover have "cstr (safestrcpy_loop ?m (s + 1) (t + 1) k) (s + 1) (Suc k) = cstr ?m (t + 1) k"
      using Suc.prems s1 t1 by (intro Suc.IH) auto
    ultimately show ?thesis
      using False same by (simp add: Let_def)
  qed
qed

lemma strlen_from_stop:
  assumes "\<forall>i. k \<le> i \<and> i < k + n \<longrightarrow> m (s + of_nat i) \<noteq> 0" "m (s + of_nat (k + n)) = 0"
  shows "strlen_from m s k = Some (k + n)"
  using assms
proof (induction n arbitrary: k)
  case 0
  then show ?case by (simp add: strlen_from.simps)
next
  case (Suc n)
  have "strlen_from m s (Suc k) = Some (Suc k + n)"
    using Suc.prems by (intro Suc.IH) auto
  moreover have "m (s + of_nat k) \<noteq> 0"
    using Suc.prems(1) by simp
  ultimately show ?case
    by (subst strlen_from.simps) simp
qed

lemma strlen_eq:
  assumes "\<forall>i<n. m (s + of_nat i) \<noteq> 0" "m (s + of_nat n) = 0"
  shows "strlen m s = Some n"
  using strlen_from_stop [of 0 n m s] assms by (simp add: strlen_def)

end
