(* ===== verification/Kalloc.thy ===== *)
theory Kalloc
  imports Kstring
begin

text \<open>
  \<^verbatim>\<open>kernel/kalloc.c\<close>: the reference-counted buddy allocator of physical pages.
  The free lists are the C code's: singly linked through the first word of each
  free page, so they live in the same byte memory (\<open>phys\<close>) that the rest of the
  kernel writes. \<^verbatim>\<open>kmem.lock\<close> brackets every operation; \<open>Spinlock\<close> shows that
  such a bracket on a free lock leaves the lock and the CPU as they were, so
  the operations are modelled as what happens inside it.

  \<open>kend\<close> is the linker symbol \<^verbatim>\<open>end\<close>, the first address after the kernel
  image; it is part of the state because every operation reads it and none
  writes it.
\<close>

section \<open>State\<close>

definition MAX_ORDER :: nat where "MAX_ORDER = 15"
definition NPAGES :: nat where "NPAGES = unat ((PHYSTOP - KERNBASE) div PGSIZE)"
definition PG_BUDDY_FREE :: uint8 where "PG_BUDDY_FREE = 1"

record free_area =
  freelist :: addr
  nr_free :: uint32

record kmem =
  phys :: mem
  kend :: addr
  free_areas :: "nat \<Rightarrow> free_area"
  refcnt :: "nat \<Rightarrow> uint16"
  page_state :: "nat \<Rightarrow> uint8"

section \<open>Operations\<close>

definition pa2idx :: "uint32 \<Rightarrow> nat" where
  "pa2idx pa = unat ((pa - KERNBASE) div PGSIZE)"

definition idx2pa :: "nat \<Rightarrow> uint32" where
  "idx2pa idx = KERNBASE + of_nat idx * PGSIZE"

function set_state_loop :: "(nat \<Rightarrow> uint8) \<Rightarrow> nat \<Rightarrow> uint8 \<Rightarrow> nat \<Rightarrow> nat \<Rightarrow> (nat \<Rightarrow> uint8)" where
  "set_state_loop ps idx st i npages =
     (if i < npages then set_state_loop (ps(idx + i := st)) idx st (Suc i) npages else ps)"
  by pat_completeness auto
termination
  by (relation "measure (\<lambda>(ps, idx, st, i, npages). npages - i)") auto

declare set_state_loop.simps [simp del]

definition set_block_state :: "nat \<Rightarrow> nat \<Rightarrow> uint8 \<Rightarrow> kmem \<Rightarrow> kmem" where
  "set_block_state idx order st s =
     s\<lparr>page_state := set_state_loop (page_state s) idx st 0 (push_bit order 1)\<rparr>"

definition freelist_push :: "nat \<Rightarrow> addr \<Rightarrow> kmem \<Rightarrow> kmem" where
  "freelist_push order r s =
     s\<lparr>phys := st32 (phys s) r (freelist (free_areas s order)),
       free_areas := (free_areas s)(order :=
         \<lparr>freelist = r, nr_free = nr_free (free_areas s order) + 1\<rparr>)\<rparr>"

definition freelist_pop :: "nat \<Rightarrow> kmem \<Rightarrow> addr \<times> kmem" where
  "freelist_pop order s =
     (let r = freelist (free_areas s order)
      in if r \<noteq> 0 then
           (r, s\<lparr>free_areas := (free_areas s)(order :=
                 \<lparr>freelist = ld32 (phys s) r, nr_free = nr_free (free_areas s order) - 1\<rparr>)\<rparr>)
         else (r, s))"

definition freelist_unlink :: "nat \<Rightarrow> addr \<Rightarrow> addr \<Rightarrow> kmem \<Rightarrow> kmem" where
  "freelist_unlink order p prev s =
     (let s' = (if prev \<noteq> 0 then s\<lparr>phys := st32 (phys s) prev (ld32 (phys s) p)\<rparr>
                else s\<lparr>free_areas := (free_areas s)(order :=
                       (free_areas s order)\<lparr>freelist := ld32 (phys s) p\<rparr>)\<rparr>)
      in s'\<lparr>free_areas := (free_areas s')(order :=
             (free_areas s' order)\<lparr>nr_free := nr_free (free_areas s' order) - 1\<rparr>)\<rparr>)"

partial_function (option) freelist_remove_loop ::
    "nat \<Rightarrow> addr \<Rightarrow> addr \<Rightarrow> addr \<Rightarrow> kmem \<Rightarrow> (bool \<times> kmem) option" where
  "freelist_remove_loop order target p prev s =
     (if p = 0 then Some (False, s)
      else if p = target then Some (True, freelist_unlink order p prev s)
      else freelist_remove_loop order target (ld32 (phys s) p) p s)"

declare freelist_remove_loop.simps [code]

definition freelist_remove :: "nat \<Rightarrow> addr \<Rightarrow> kmem \<Rightarrow> (bool \<times> kmem) option" where
  "freelist_remove order target s =
     freelist_remove_loop order target (freelist (free_areas s order)) 0 s"

function find_order :: "kmem \<Rightarrow> nat \<Rightarrow> nat" where
  "find_order s order =
     (if order \<le> MAX_ORDER
      then (if freelist (free_areas s order) \<noteq> 0 then order else find_order s (Suc order))
      else order)"
  by pat_completeness auto
termination
  by (relation "measure (\<lambda>(s, order). Suc MAX_ORDER - order)") auto

declare find_order.simps [simp del]

primrec split_loop :: "nat \<Rightarrow> nat \<Rightarrow> kmem \<Rightarrow> kmem" where
  "split_loop idx 0 s = s"
| "split_loop idx (Suc order) s =
     (let buddy_idx = idx + push_bit order 1
      in split_loop idx order
           (freelist_push order (idx2pa buddy_idx)
             (set_block_state buddy_idx order PG_BUDDY_FREE s)))"

definition buddy_alloc_order0 :: "kmem \<Rightarrow> addr \<times> kmem" where
  "buddy_alloc_order0 s =
     (let order = find_order s 0
      in if order > MAX_ORDER then (0, s)
         else let (r, s1) = freelist_pop order s;
                  idx = pa2idx r
              in (idx2pa idx, split_loop idx order (set_block_state idx order 0 s1)))"

function coalesce :: "nat \<Rightarrow> nat \<Rightarrow> kmem \<Rightarrow> kmem option" where
  "coalesce idx order s =
     (if order < MAX_ORDER then
        let buddy_idx = idx XOR push_bit order 1
        in if buddy_idx \<ge> NPAGES then Some (freelist_push order (idx2pa idx) s)
           else if page_state s buddy_idx \<noteq> PG_BUDDY_FREE
           then Some (freelist_push order (idx2pa idx) s)
           else (case freelist_remove order (idx2pa buddy_idx) s of
               None \<Rightarrow> None
             | Some (False, s1) \<Rightarrow> Some (freelist_push order (idx2pa idx) s1)
             | Some (True, s1) \<Rightarrow>
                 let s2 = set_block_state buddy_idx order 0 (set_block_state idx order 0 s1);
                     idx' = (if buddy_idx < idx then buddy_idx else idx)
                 in coalesce idx' (Suc order)
                      (set_block_state idx' (Suc order) PG_BUDDY_FREE s2))
      else Some (freelist_push order (idx2pa idx) s))"
  by pat_completeness auto
termination
  by (relation "measure (\<lambda>(idx, order, s). MAX_ORDER - order)") auto

declare coalesce.simps [simp del]

definition buddy_free_order0 :: "nat \<Rightarrow> kmem \<Rightarrow> kmem option" where
  "buddy_free_order0 idx s = coalesce idx 0 (set_block_state idx 0 PG_BUDDY_FREE s)"

definition kaddref :: "uint32 \<Rightarrow> kmem \<Rightarrow> kmem res" where
  "kaddref pa s =
     (if pa mod PGSIZE \<noteq> 0 \<or> pa < KERNBASE \<or> pa \<ge> PHYSTOP then Panic ''kaddref''
      else let idx = pa2idx pa
           in if refcnt s idx = 0 then Panic ''kaddref: zero''
              else Ok (s\<lparr>refcnt := (refcnt s)(idx := refcnt s idx + 1)\<rparr>))"

definition kfree :: "addr \<Rightarrow> kmem \<Rightarrow> kmem res" where
  "kfree pa s =
     (if pa mod PGSIZE \<noteq> 0 \<or> pa < kend s \<or> pa \<ge> PHYSTOP then Panic ''kfree''
      else let idx = pa2idx pa
           in if refcnt s idx < 1 then Panic ''kfree: ref''
              else let s1 = s\<lparr>refcnt := (refcnt s)(idx := refcnt s idx - 1)\<rparr>
                   in if refcnt s1 idx > 0 then Ok s1
                      else of_opt (buddy_free_order0 idx
                             (s1\<lparr>phys := memset (phys s1) pa 1 PGSIZE\<rparr>)))"

definition kalloc :: "kmem \<Rightarrow> addr \<times> kmem" where
  "kalloc s =
     (let (r, s1) = buddy_alloc_order0 s
      in if r \<noteq> 0
         then (r, s1\<lparr>refcnt := (refcnt s1)(pa2idx r := 1),
                     phys := memset (phys s1) r 5 PGSIZE\<rparr>)
         else (r, s1))"

partial_function (option) freerange_loop :: "addr \<Rightarrow> addr \<Rightarrow> kmem \<Rightarrow> kmem res option" where
  "freerange_loop p pa_end s =
     (if p + PGSIZE \<le> pa_end then
        (case kfree p (s\<lparr>refcnt := (refcnt s)(pa2idx p := 1)\<rparr>) of
           Ok s' \<Rightarrow> freerange_loop (p + PGSIZE) pa_end s'
         | Panic e \<Rightarrow> Some (Panic e)
         | Loop \<Rightarrow> None)
      else Some (Ok s))"

declare freerange_loop.simps [code]

definition freerange :: "addr \<Rightarrow> addr \<Rightarrow> kmem \<Rightarrow> kmem res" where
  "freerange pa_start pa_end s =
     bind_res (of_opt (freerange_loop (PGROUNDUP pa_start) pa_end s)) (\<lambda>r. r)"

definition kinit :: "kmem \<Rightarrow> kmem res" where
  "kinit s = freerange (kend s) PHYSTOP
     (s\<lparr>free_areas := (\<lambda>_. \<lparr>freelist = 0, nr_free = 0\<rparr>),
        refcnt := (\<lambda>_. 0), page_state := (\<lambda>_. 0)\<rparr>)"

end
