(* ===== verification/Buddy.thy ===== *)
theory Buddy
  imports Kalloc
begin

text \<open>
  Correctness of the buddy allocator of \<open>Kalloc\<close>: the invariant relating the
  linked free lists in memory to the set of free pages, its preservation by
  every operation, and what each operation does to that set.
\<close>

section \<open>Page indices and page addresses\<close>

lemma NPAGES_val: "NPAGES = 32768"
  by (simp add: NPAGES_def layout_vals)

lemma unat_idx2pa: "i < NPAGES \<Longrightarrow> unat (idx2pa i) = 2147483648 + i * 4096"
proof -
  assume i: "i < NPAGES"
  have "unat (of_nat (i * 4096) :: 32 word) = i * 4096"
    using i by (intro unat_of_nat_small32) (simp add: NPAGES_val)
  then have "unat (KERNBASE + of_nat (i * 4096)) = unat KERNBASE + i * 4096"
    using i by (subst unat_plus_small) (simp_all add: NPAGES_val layout_vals)
  then show ?thesis
    by (simp add: idx2pa_def layout_vals)
qed

lemma idx2pa_inj:
  assumes "i < NPAGES" "j < NPAGES"
  shows "idx2pa i = idx2pa j \<longleftrightarrow> i = j"
proof
  assume "idx2pa i = idx2pa j"
  then have "2147483648 + i * 4096 = 2147483648 + j * 4096"
    using unat_idx2pa [OF assms(1)] unat_idx2pa [OF assms(2)] by metis
  then show "i = j" by linarith
qed simp

lemma idx2pa_nonzero: "i < NPAGES \<Longrightarrow> idx2pa i \<noteq> 0"
  using unat_idx2pa [of i] by (metis add_is_0 unsigned_0 zero_neq_numeral)

lemma idx2pa_aligned: "i < NPAGES \<Longrightarrow> unat (idx2pa i) mod 4096 = 0"
  by (simp add: unat_idx2pa)

lemma idx2pa_aligned4: "i < NPAGES \<Longrightarrow> unat (idx2pa i) mod 4 = 0"
  by (simp add: unat_idx2pa)

lemma idx2pa_range:
  assumes "i < NPAGES"
  shows "idx2pa i mod PGSIZE = 0" "KERNBASE \<le> idx2pa i" "idx2pa i < PHYSTOP"
proof -
  show "idx2pa i mod PGSIZE = 0"
    using idx2pa_aligned [OF assms] by (simp add: word_unat_eq_iff unat_mod_distrib layout_vals)
  show "KERNBASE \<le> idx2pa i" "idx2pa i < PHYSTOP"
    using unat_idx2pa [OF assms] assms
    by (simp_all add: word_le_nat_alt word_less_nat_alt layout_vals NPAGES_val)
qed

lemma unat_pa2idx:
  assumes "KERNBASE \<le> pa"
  shows "pa2idx pa = (unat pa - 2147483648) div 4096"
proof -
  have "unat (pa - KERNBASE) = unat pa - unat KERNBASE"
    using assms by (rule unat_sub)
  then show ?thesis
    by (simp add: pa2idx_def unat_div_distrib layout_vals)
qed

lemma pa2idx_idx2pa [simp]: "i < NPAGES \<Longrightarrow> pa2idx (idx2pa i) = i"
  by (simp add: unat_pa2idx idx2pa_range unat_idx2pa)

lemma pa2idx_valid:
  assumes "pa mod PGSIZE = 0" "KERNBASE \<le> pa" "pa < PHYSTOP"
  shows "pa2idx pa < NPAGES" "idx2pa (pa2idx pa) = pa"
proof -
  have lo: "2147483648 \<le> unat pa" and hi: "unat pa < 2281701376"
    using assms(2,3) by (simp_all add: word_le_nat_alt word_less_nat_alt layout_vals)
  have al: "unat pa mod 4096 = 0"
    using assms(1) by (simp add: word_unat_eq_iff unat_mod_distrib layout_vals)
  show n: "pa2idx pa < NPAGES"
    using lo hi by (simp add: unat_pa2idx assms NPAGES_val less_mult_imp_div_less)
  have "(unat pa - 2147483648) div 4096 * 4096 = unat pa - 2147483648"
    using lo al by (simp add: dvd_div_mult_self dvd_diff_nat mod_eq_0_iff_dvd)
  then show "idx2pa (pa2idx pa) = pa"
    using lo n by (simp add: word_unat_eq_iff unat_idx2pa unat_pa2idx assms(2))
qed

section \<open>Marking a block\<close>

lemma set_state_loop_eq:
  assumes "i \<le> n"
  shows "set_state_loop ps idx st i n = (\<lambda>p. if idx + i \<le> p \<and> p < idx + n then st else ps p)"
  using assms
proof (induction ps idx st i n rule: set_state_loop.induct)
  case (1 ps idx st i n)
  show ?case
  proof (cases "i < n")
    case True
    then show ?thesis
      using 1 by (subst set_state_loop.simps) (fastforce simp: fun_eq_iff)
  next
    case False
    then show ?thesis
      using "1.prems" by (subst set_state_loop.simps) (auto simp: fun_eq_iff)
  qed
qed

lemma set_block_state_eq:
  "set_block_state idx k st s =
     s\<lparr>page_state := \<lambda>p. if p \<in> {idx..<idx + 2 ^ k} then st else page_state s p\<rparr>"
  by (simp add: set_block_state_def set_state_loop_eq push_bit_eq_mult)

lemma set_block_state_sels [simp]:
  "phys (set_block_state idx k st s) = phys s"
  "kend (set_block_state idx k st s) = kend s"
  "free_areas (set_block_state idx k st s) = free_areas s"
  "refcnt (set_block_state idx k st s) = refcnt s"
  by (simp_all add: set_block_state_def)

section \<open>Linked lists in memory\<close>

primrec flist :: "mem \<Rightarrow> addr \<Rightarrow> addr list \<Rightarrow> bool" where
  "flist m p [] \<longleftrightarrow> p = 0"
| "flist m p (x # xs) \<longleftrightarrow> p = x \<and> x \<noteq> 0 \<and> flist m (ld32 m x) xs"

lemma flist_cong:
  "(\<And>x. x \<in> set xs \<Longrightarrow> ld32 m' x = ld32 m x) \<Longrightarrow> flist m' p xs \<longleftrightarrow> flist m p xs"
  by (induction xs arbitrary: p) auto

lemma flist_null [simp]: "flist m 0 xs \<longleftrightarrow> xs = []"
  by (cases xs) auto

lemma flist_st32_outside:
  assumes "a \<notin> set xs" "unat a mod 4 = 0" "\<And>x. x \<in> set xs \<Longrightarrow> unat x mod 4 = 0"
  shows "flist (st32 m a v) p xs \<longleftrightarrow> flist m p xs"
  using assms by (intro flist_cong ld32_st32_other) auto


lemma flist_unlink:
  assumes "flist m p (xs @ a # t # ys)" "distinct (xs @ a # t # ys)"
    and "\<And>x. x \<in> set (xs @ a # t # ys) \<Longrightarrow> unat x mod 4 = 0"
  shows "flist (st32 m a (ld32 m t)) p (xs @ a # ys)"
  using assms
proof (induction xs arbitrary: p)
  case Nil
  then show ?case
    using flist_st32_outside [of a ys m "ld32 m t" "ld32 m t"] by auto
next
  case (Cons x xs)
  have "ld32 (st32 m a (ld32 m t)) x = ld32 m x"
    using Cons.prems by (intro ld32_st32_other) auto
  then show ?case
    using Cons by auto
qed

definition span4 :: "addr set \<Rightarrow> addr set" where
  "span4 A = (\<Union>y \<in> A. {y, y + 1, y + 2, y + 3})"

lemma freelist_unlink_eq:
  "freelist_unlink k p prev s =
     s\<lparr>phys := (if prev \<noteq> 0 then st32 (phys s) prev (ld32 (phys s) p) else phys s),
       free_areas := (free_areas s)(k :=
         \<lparr>freelist = (if prev \<noteq> 0 then freelist (free_areas s k) else ld32 (phys s) p),
          nr_free = nr_free (free_areas s k) - 1\<rparr>)\<rparr>"
  by (cases "free_areas s k") (auto simp: freelist_unlink_def Let_def)

lemma remove_loop:
  assumes "flist (phys s) (freelist (free_areas s k)) (pre @ suf)" "flist (phys s) p suf"
    and "prev = (if pre = [] then 0 else last pre)" "distinct (pre @ suf)"
    and "\<And>x. x \<in> set (pre @ suf) \<Longrightarrow> unat x mod 4 = 0 \<and> x \<noteq> 0" "target \<notin> set pre"
  shows "if target \<in> set suf
    then \<exists>m h. freelist_remove_loop k target p prev s = Some (True,
        s\<lparr>phys := m, free_areas := (free_areas s)(k :=
          \<lparr>freelist = h, nr_free = nr_free (free_areas s k) - 1\<rparr>)\<rparr>) \<and>
        flist m h (remove1 target (pre @ suf)) \<and>
        (\<forall>x. x \<notin> span4 (set (pre @ suf)) \<longrightarrow> m x = phys s x)
    else freelist_remove_loop k target p prev s = Some (False, s)"
  using assms
proof (induction suf arbitrary: pre p prev)
  case Nil
  then show ?case
    by (simp add: freelist_remove_loop.simps)
next
  case (Cons t ys)
  have p: "p = t" "t \<noteq> 0" and ys: "flist (phys s) (ld32 (phys s) t) ys"
    using Cons.prems(2) by auto
  show ?case
  proof (cases "t = target")
    case True
    have rem: "remove1 target (pre @ t # ys) = pre @ ys"
      using True Cons.prems(6) by (simp add: remove1_append)
    have run: "freelist_remove_loop k target p prev s = Some (True, freelist_unlink k t prev s)"
      using p True by (simp add: freelist_remove_loop.simps)
    show ?thesis
    proof (cases pre rule: rev_cases)
      case Nil
      then show ?thesis
        using run rem ys True Cons.prems(3)
        by (auto simp: freelist_unlink_eq intro!: exI [of _ "phys s"]
            exI [of _ "ld32 (phys s) target"])
    next
      case (snoc xs a)
      then have prev: "prev = a" "a \<noteq> 0"
        using Cons.prems(3,5) by auto
      have "flist (st32 (phys s) a (ld32 (phys s) t)) (freelist (free_areas s k)) (xs @ a # ys)"
        using Cons.prems snoc by (intro flist_unlink) auto
      moreover have "x \<notin> span4 (set (pre @ t # ys)) \<Longrightarrow>
          st32 (phys s) a (ld32 (phys s) t) x = phys s x" for x
        using snoc by (intro st32_outside) (auto simp: span4_def)
      ultimately show ?thesis
        using run rem True prev snoc
        by (simp add: freelist_unlink_eq) blast
    qed
  next
    case False
    have step: "freelist_remove_loop k target p prev s =
        freelist_remove_loop k target (ld32 (phys s) t) t s"
      using p False by (subst freelist_remove_loop.simps) simp
    have mem: "target \<in> set (t # ys) \<longleftrightarrow> target \<in> set ys"
      using False by auto
    show ?thesis
      unfolding mem step
      using Cons.IH [of "pre @ [t]" "ld32 (phys s) t" t, unfolded append_assoc append.simps]
        Cons.prems ys False by auto
  qed
qed

section \<open>Buddies\<close>

lemma xor_pow2_add:
  fixes i :: nat
  assumes "2 ^ Suc k dvd i"
  shows "i XOR push_bit k 1 = i + 2 ^ k" "(i + 2 ^ k) XOR push_bit k 1 = i"
proof -
  obtain j where "i = 2 ^ Suc k * j" using assms by blast
  then have "i div 2 ^ k = 2 * j" by simp
  then have "\<not> bit i k" by (simp add: bit_iff_odd)
  then show *: "i XOR push_bit k 1 = i + 2 ^ k"
    by (simp only: flip_bit_eq_xor [symmetric]) (simp add: flip_bit_eq_if set_bit_eq)
  show "(i + 2 ^ k) XOR push_bit k 1 = i"
    by (simp only: * [symmetric] xor.assoc) simp
qed

lemma buddy_cases:
  fixes i :: nat
  assumes "2 ^ k dvd i"
  obtains "2 ^ Suc k dvd i" "i XOR push_bit k 1 = i + 2 ^ k"
    | "2 ^ k \<le> i" "2 ^ Suc k dvd i - 2 ^ k" "i XOR push_bit k 1 = i - 2 ^ k"
proof -
  obtain j where j: "i = 2 ^ k * j" using assms by blast
  show ?thesis
  proof (cases "even j")
    case True
    then have "2 ^ Suc k dvd i"
      using j by (metis mult.commute mult_dvd_mono dvd_refl power_Suc)
    then show ?thesis
      using that(1) xor_pow2_add(1) by blast
  next
    case False
    then have le: "2 ^ k \<le> i" using j by (cases j) auto
    have "i - 2 ^ k = 2 ^ k * (j - 1)" using j by (simp add: diff_mult_distrib2)
    moreover have "even (j - 1)" using False by simp
    ultimately have "2 ^ Suc k dvd i - 2 ^ k"
      by (metis mult.commute mult_dvd_mono dvd_refl power_Suc)
    then show ?thesis
      using that(2) le xor_pow2_add(2) [of k "i - 2 ^ k"] by simp
  qed
qed

section \<open>The invariant\<close>

text \<open>
  A free list of order \<open>k\<close> holds the first page of blocks of \<open>2 ^ k\<close> pages;
  \<open>fl k\<close> is the list of these page indices, the ghost state of the proof.
\<close>

definition blk :: "nat \<Rightarrow> nat \<Rightarrow> nat set" where
  "blk k i = {i..<i + 2 ^ k}"

definition free_pages :: "(nat \<Rightarrow> nat list) \<Rightarrow> nat set" where
  "free_pages fl = (\<Union>k \<in> {..MAX_ORDER}. \<Union>i \<in> set (fl k). blk k i)"

definition blocks_ok :: "(nat \<Rightarrow> nat list) \<Rightarrow> bool" where
  "blocks_ok fl \<longleftrightarrow>
     (\<forall>k \<le> MAX_ORDER. distinct (fl k)) \<and>
     (\<forall>k \<le> MAX_ORDER. \<forall>i \<in> set (fl k). 2 ^ k dvd i \<and> i + 2 ^ k \<le> NPAGES) \<and>
     (\<forall>k i k' i' p. k \<le> MAX_ORDER \<longrightarrow> i \<in> set (fl k) \<longrightarrow> k' \<le> MAX_ORDER \<longrightarrow> i' \<in> set (fl k') \<longrightarrow>
        p \<in> blk k i \<longrightarrow> p \<in> blk k' i' \<longrightarrow> k = k' \<and> i = i')"

definition merged :: "(nat \<Rightarrow> nat list) \<Rightarrow> bool" where
  "merged fl \<longleftrightarrow> (\<forall>k < MAX_ORDER. \<forall>i \<in> set (fl k). i XOR push_bit k 1 \<notin> set (fl k))"

definition lists_ok :: "kmem \<Rightarrow> (nat \<Rightarrow> nat list) \<Rightarrow> bool" where
  "lists_ok s fl \<longleftrightarrow>
     (\<forall>k \<le> MAX_ORDER. flist (phys s) (freelist (free_areas s k)) (map idx2pa (fl k)) \<and>
        nr_free (free_areas s k) = of_nat (length (fl k)))"

definition pages_ok :: "kmem \<Rightarrow> (nat \<Rightarrow> nat list) \<Rightarrow> bool" where
  "pages_ok s fl \<longleftrightarrow>
     (\<forall>p. page_state s p = PG_BUDDY_FREE \<longleftrightarrow> p \<in> free_pages fl) \<and>
     (\<forall>p \<in> free_pages fl. refcnt s p = 0 \<and> kend s \<le> idx2pa p)"

definition kmem_inv :: "kmem \<Rightarrow> (nat \<Rightarrow> nat list) \<Rightarrow> bool" where
  "kmem_inv s fl \<longleftrightarrow>
     blocks_ok fl \<and> merged fl \<and> lists_ok s fl \<and> pages_ok s fl \<and> KERNBASE \<le> kend s"

text \<open>The bytes of a set of pages.\<close>

definition pbytes :: "nat set \<Rightarrow> addr set" where
  "pbytes F = {x. \<exists>i \<in> F. PGROUNDDOWN x = idx2pa i}"

subsection \<open>Blocks\<close>

lemma blk_self [simp]: "i \<in> blk k i"
  by (simp add: blk_def)

lemma free_pagesI: "k \<le> MAX_ORDER \<Longrightarrow> i \<in> set (fl k) \<Longrightarrow> p \<in> blk k i \<Longrightarrow> p \<in> free_pages fl"
  unfolding free_pages_def by blast

lemma free_pagesE:
  assumes "p \<in> free_pages fl"
  obtains k i where "k \<le> MAX_ORDER" "i \<in> set (fl k)" "p \<in> blk k i"
  using assms unfolding free_pages_def by blast

lemma free_pages_iff:
  "p \<in> free_pages fl \<longleftrightarrow> (\<exists>k i. k \<le> MAX_ORDER \<and> i \<in> set (fl k) \<and> p \<in> blk k i)"
  unfolding free_pages_def by blast

lemma blocks_ok_node:
  assumes "blocks_ok fl" "k \<le> MAX_ORDER" "i \<in> set (fl k)"
  shows "2 ^ k dvd i" "i + 2 ^ k \<le> NPAGES" "i < NPAGES" "i \<in> free_pages fl"
proof -
  show "2 ^ k dvd i" and le: "i + 2 ^ k \<le> NPAGES"
    using assms unfolding blocks_ok_def by blast+
  have "0 < (2::nat) ^ k" by simp
  with le show "i < NPAGES" by linarith
  show "i \<in> free_pages fl"
    using assms(2,3) by (auto intro: free_pagesI)
qed

lemma free_pages_bound: "blocks_ok fl \<Longrightarrow> p \<in> free_pages fl \<Longrightarrow> p < NPAGES"
  by (elim free_pagesE) (use blocks_ok_node(2) in \<open>fastforce simp: blk_def\<close>)

lemma blocks_ok_push:
  assumes "blocks_ok fl" "k \<le> MAX_ORDER" "2 ^ k dvd i" "i + 2 ^ k \<le> NPAGES"
    and "blk k i \<inter> free_pages fl = {}"
  shows "blocks_ok (fl(k := i # fl k))"
    and "free_pages (fl(k := i # fl k)) = blk k i \<union> free_pages fl"
proof -
  let ?fl = "fl(k := i # fl k)"
  have new: "j \<in> set (?fl l) \<longleftrightarrow> j \<in> set (fl l) \<or> (l = k \<and> j = i)" for j l
    by auto
  have dis: "p \<notin> blk k i" if "l \<le> MAX_ORDER" "j \<in> set (fl l)" "p \<in> blk l j" for j l p
    using that assms(5) free_pagesI by blast
  have "i \<notin> set (fl k)"
    using dis [of k i i] assms(2) by auto
  then have d: "\<forall>l \<le> MAX_ORDER. distinct (?fl l)"
    using assms(1) by (simp add: blocks_ok_def)
  have b: "\<forall>l \<le> MAX_ORDER. \<forall>j \<in> set (?fl l). 2 ^ l dvd j \<and> j + 2 ^ l \<le> NPAGES"
    using blocks_ok_node(1,2) [OF assms(1)] assms(3,4) by (metis new)
  have "l = l' \<and> j = j'"
    if "l \<le> MAX_ORDER" "j \<in> set (?fl l)" "l' \<le> MAX_ORDER" "j' \<in> set (?fl l')"
      "p \<in> blk l j" "p \<in> blk l' j'" for l j l' j' p
    using that assms(1) dis unfolding new blocks_ok_def by metis
  then have u: "\<forall>l j l' j' p. l \<le> MAX_ORDER \<longrightarrow> j \<in> set (?fl l) \<longrightarrow> l' \<le> MAX_ORDER \<longrightarrow>
      j' \<in> set (?fl l') \<longrightarrow> p \<in> blk l j \<longrightarrow> p \<in> blk l' j' \<longrightarrow> l = l' \<and> j = j'"
    by blast
  from d b u show "blocks_ok ?fl"
    unfolding blocks_ok_def by (intro conjI)
  show "free_pages ?fl = blk k i \<union> free_pages fl"
    using assms(2) unfolding set_eq_iff Un_iff free_pages_iff new by blast
qed

lemma blocks_ok_remove:
  assumes "blocks_ok fl" "k \<le> MAX_ORDER" "i \<in> set (fl k)"
  shows "blocks_ok (fl(k := remove1 i (fl k)))"
    and "free_pages (fl(k := remove1 i (fl k))) = free_pages fl - blk k i"
proof -
  let ?fl = "fl(k := remove1 i (fl k))"
  have di: "distinct (fl k)"
    using assms(1,2) by (simp add: blocks_ok_def)
  then have mem: "j \<in> set (?fl l) \<longleftrightarrow> j \<in> set (fl l) \<and> \<not> (l = k \<and> j = i)" for j l
    by auto
  have d: "\<forall>l \<le> MAX_ORDER. distinct (?fl l)"
    using assms(1) by (simp add: blocks_ok_def)
  have b: "\<forall>l \<le> MAX_ORDER. \<forall>j \<in> set (?fl l). 2 ^ l dvd j \<and> j + 2 ^ l \<le> NPAGES"
    using blocks_ok_node(1,2) [OF assms(1)] by (metis mem)
  have u: "\<forall>l j l' j' p. l \<le> MAX_ORDER \<longrightarrow> j \<in> set (?fl l) \<longrightarrow> l' \<le> MAX_ORDER \<longrightarrow>
      j' \<in> set (?fl l') \<longrightarrow> p \<in> blk l j \<longrightarrow> p \<in> blk l' j' \<longrightarrow> l = l' \<and> j = j'"
    using assms(1) unfolding mem blocks_ok_def by meson
  from d b u show "blocks_ok ?fl"
    unfolding blocks_ok_def by (intro conjI)
  have dis: "p \<notin> blk k i" if "l \<le> MAX_ORDER" "j \<in> set (fl l)" "p \<in> blk l j" "\<not> (l = k \<and> j = i)" for j l p
    using that assms unfolding blocks_ok_def by blast
  show "free_pages ?fl = free_pages fl - blk k i"
    using dis assms(2,3) unfolding set_eq_iff Diff_iff free_pages_iff mem by blast
qed

lemma merged_push:
  assumes "merged fl" "k < MAX_ORDER \<Longrightarrow> i XOR push_bit k 1 \<notin> set (fl k)"
  shows "merged (fl(k := i # fl k))"
proof -
  have "i XOR push_bit k 1 \<noteq> i"
    by (metis push_bit_eq_0_iff xor.assoc xor.right_neutral xor_self_eq zero_neq_one xor.left_neutral)
  moreover have "j XOR push_bit k 1 \<noteq> i" if "k < MAX_ORDER" "j \<in> set (fl k)" for j
    using that assms(2) by (metis xor.assoc xor.right_neutral xor_self_eq)
  ultimately show ?thesis
    using assms unfolding merged_def by (simp add: fun_upd_def) 
qed

lemma merged_remove: "merged fl \<Longrightarrow> merged (fl(k := remove1 i (fl k)))"
  unfolding merged_def by (simp add: fun_upd_def) (meson notin_set_remove1)

subsection \<open>The lists in memory\<close>

lemma idx2pa_page: "i < NPAGES \<Longrightarrow> PGROUNDDOWN (idx2pa i) = idx2pa i"
  by (simp add: PGROUNDDOWN_id idx2pa_aligned)

lemma lists_okD:
  assumes "lists_ok s fl" "k \<le> MAX_ORDER"
  shows "flist (phys s) (freelist (free_areas s k)) (map idx2pa (fl k))"
    and "nr_free (free_areas s k) = of_nat (length (fl k))"
  using assms by (auto simp: lists_ok_def)

lemma lists_ok_frame:
  assumes "lists_ok s fl" "blocks_ok fl" "free_areas s' = free_areas s"
    and "\<And>x. x \<in> pbytes (free_pages fl) \<Longrightarrow> phys s' x = phys s x"
  shows "lists_ok s' fl"
proof -
  have "ld32 (phys s') (idx2pa i) = ld32 (phys s) (idx2pa i)"
    if "k \<le> MAX_ORDER" "i \<in> set (fl k)" for k i
    using that blocks_ok_node [OF assms(2) that] assms(4)
    by (intro ld32_page_cong) (auto simp: idx2pa_aligned4 idx2pa_page pbytes_def)
  then have "flist (phys s') p (map idx2pa (fl k)) \<longleftrightarrow> flist (phys s) p (map idx2pa (fl k))"
    if "k \<le> MAX_ORDER" for p k
    using that by (intro flist_cong) auto
  then show ?thesis
    using assms(1,3) by (simp add: lists_ok_def)
qed

lemma lists_ok_cong:
  "free_areas s' = free_areas s \<Longrightarrow> phys s' = phys s \<Longrightarrow> lists_ok s' fl = lists_ok s fl"
  by (simp add: lists_ok_def)

lemma lists_ok_push:
  assumes "lists_ok s fl" "blocks_ok fl" "k \<le> MAX_ORDER" "i \<notin> free_pages fl" "i < NPAGES"
  shows "lists_ok (freelist_push k (idx2pa i) s) (fl(k := i # fl k))"
proof -
  let ?m = "st32 (phys s) (idx2pa i) (freelist (free_areas s k))"
  have same: "flist ?m p (map idx2pa (fl l)) \<longleftrightarrow> flist (phys s) p (map idx2pa (fl l))"
    if "l \<le> MAX_ORDER" for p l
  proof (rule flist_st32_outside)
    have *: "j \<noteq> i \<and> j < NPAGES" if "j \<in> set (fl l)" for j
      using that \<open>l \<le> MAX_ORDER\<close> blocks_ok_node(3,4) [OF assms(2)] assms(4) by blast
    show "idx2pa i \<notin> set (map idx2pa (fl l))"
    proof
      assume "idx2pa i \<in> set (map idx2pa (fl l))"
      then obtain j where "j \<in> set (fl l)" "idx2pa i = idx2pa j" by auto
      with * [of j] assms(5) show False by (metis idx2pa_inj)
    qed
    show "unat (idx2pa i) mod 4 = 0"
      using assms(5) by (rule idx2pa_aligned4)
    show "unat x mod 4 = 0" if "x \<in> set (map idx2pa (fl l))" for x
      using that * by (auto simp: idx2pa_aligned4)
  qed
  have "flist ?m (freelist (free_areas s k)) (map idx2pa (fl k))"
    using same [OF assms(3)] lists_okD(1) [OF assms(1,3)] by simp
  then show ?thesis
    using assms(1,3) same idx2pa_nonzero [OF assms(5)]
    by (auto simp: lists_ok_def freelist_push_def)
qed

lemma lists_ok_pop:
  assumes "lists_ok s fl" "blocks_ok fl" "k \<le> MAX_ORDER" "fl k = i # is"
  shows "freelist_pop k s = (idx2pa i, s\<lparr>free_areas := (free_areas s)(k :=
           \<lparr>freelist = ld32 (phys s) (idx2pa i), nr_free = nr_free (free_areas s k) - 1\<rparr>)\<rparr>)"
    and "lists_ok (snd (freelist_pop k s)) (fl(k := remove1 i (fl k)))"
proof -
  have "freelist (free_areas s k) = idx2pa i" "idx2pa i \<noteq> 0"
    and tl: "flist (phys s) (ld32 (phys s) (idx2pa i)) (map idx2pa is)"
    using lists_okD(1) [OF assms(1,3)] assms(4) by auto
  then show pop: "freelist_pop k s = (idx2pa i, s\<lparr>free_areas := (free_areas s)(k :=
           \<lparr>freelist = ld32 (phys s) (idx2pa i), nr_free = nr_free (free_areas s k) - 1\<rparr>)\<rparr>)"
    by (simp add: freelist_pop_def Let_def)
  show "lists_ok (snd (freelist_pop k s)) (fl(k := remove1 i (fl k)))"
    unfolding pop using assms(1,4) tl lists_okD(2) [OF assms(1,3)]
    by (simp add: lists_ok_def)
qed

lemma span4_pbytes:
  assumes "\<And>i. i \<in> A \<Longrightarrow> i < NPAGES"
  shows "span4 (idx2pa ` A) \<subseteq> pbytes A"
proof
  fix x
  assume "x \<in> span4 (idx2pa ` A)"
  then obtain i where i: "i \<in> A" "x \<in> {idx2pa i, idx2pa i + 1, idx2pa i + 2, idx2pa i + 3}"
    by (auto simp: span4_def)
  then have "PGROUNDDOWN x = idx2pa i"
    using aligned4_same_page [of "idx2pa i" x] assms by (simp only: idx2pa_aligned4 idx2pa_page)
  with i(1) show "x \<in> pbytes A"
    by (auto simp: pbytes_def)
qed

lemma remove1_map_idx2pa:
  assumes "\<And>j. j \<in> set xs \<Longrightarrow> j < NPAGES" "i < NPAGES"
  shows "remove1 (idx2pa i) (map idx2pa xs) = map idx2pa (remove1 i xs)"
  using assms by (induction xs) (auto simp: idx2pa_inj)

lemma of_nat_length_remove1:
  "i \<in> set xs \<Longrightarrow> (of_nat (length (remove1 i xs)) :: 32 word) = of_nat (length xs) - 1"
  using length_pos_if_in_set [of i xs]
  by (simp add: length_remove1 of_nat_diff [of "Suc 0"] Suc_le_eq)

lemma freelist_remove_spec:
  assumes "lists_ok s fl" "blocks_ok fl" "k \<le> MAX_ORDER" "i < NPAGES"
  shows "i \<notin> set (fl k) \<Longrightarrow> freelist_remove k (idx2pa i) s = Some (False, s)"
    and "i \<in> set (fl k) \<Longrightarrow> \<exists>m h. let s' = s\<lparr>phys := m, free_areas := (free_areas s)(k :=
             \<lparr>freelist = h, nr_free = nr_free (free_areas s k) - 1\<rparr>)\<rparr>
           in freelist_remove k (idx2pa i) s = Some (True, s') \<and>
              lists_ok s' (fl(k := remove1 i (fl k))) \<and>
              (\<forall>x. x \<notin> pbytes (free_pages fl) \<longrightarrow> m x = phys s x)"
proof -
  let ?xs = "map idx2pa (fl k)"
  have lt: "j < NPAGES" if "l \<le> MAX_ORDER" "j \<in> set (fl l)" for j l
    using that blocks_ok_node(3) [OF assms(2)] by blast
  have di: "distinct (fl k)"
    using assms(2,3) by (simp add: blocks_ok_def)
  then have dx: "distinct ?xs"
    using lt [OF assms(3)] by (auto simp: distinct_map inj_on_def idx2pa_inj)
  have mem: "idx2pa i \<in> set ?xs \<longleftrightarrow> i \<in> set (fl k)"
    using assms(4) lt [OF assms(3)] by (auto simp: idx2pa_inj)
  have al: "unat x mod 4 = 0 \<and> x \<noteq> 0" if "x \<in> set ?xs" for x
    using that lt [OF assms(3)] by (auto simp: idx2pa_aligned4 idx2pa_nonzero)
  show "i \<notin> set (fl k) \<Longrightarrow> freelist_remove k (idx2pa i) s = Some (False, s)"
    using remove_loop [of s k "[]" ?xs "freelist (free_areas s k)" 0 "idx2pa i"]
      lists_okD(1) [OF assms(1,3)] dx al mem by (simp add: freelist_remove_def)
  assume i: "i \<in> set (fl k)"
  obtain m h where m: "freelist_remove k (idx2pa i) s = Some (True,
        s\<lparr>phys := m, free_areas := (free_areas s)(k :=
          \<lparr>freelist = h, nr_free = nr_free (free_areas s k) - 1\<rparr>)\<rparr>)"
    and h: "flist m h (remove1 (idx2pa i) ?xs)"
    and fr: "\<And>x. x \<notin> span4 (set ?xs) \<Longrightarrow> m x = phys s x"
    using remove_loop [of s k "[]" ?xs "freelist (free_areas s k)" 0 "idx2pa i"]
      lists_okD(1) [OF assms(1,3)] dx al mem i by (auto simp: freelist_remove_def)
  have sp: "span4 (set ?xs) \<subseteq> pbytes (set (fl k))"
    using span4_pbytes [of "set (fl k)"] lt [OF assms(3)] by simp
  let ?s = "s\<lparr>phys := m, free_areas := (free_areas s)(k :=
             \<lparr>freelist = h, nr_free = nr_free (free_areas s k) - 1\<rparr>)\<rparr>"
  have other: "flist m p (map idx2pa (fl l)) \<longleftrightarrow> flist (phys s) p (map idx2pa (fl l))"
    if l: "l \<le> MAX_ORDER" "l \<noteq> k" for l p
  proof (rule flist_cong)
    fix y
    assume "y \<in> set (map idx2pa (fl l))"
    then obtain j where j: "j \<in> set (fl l)" "y = idx2pa j" by auto
    have "x \<notin> pbytes (set (fl k))" if xp: "PGROUNDDOWN x = idx2pa j" for x
    proof
      assume "x \<in> pbytes (set (fl k))"
      then obtain j' where "j' \<in> set (fl k)" "idx2pa j = idx2pa j'"
        using xp by (auto simp: pbytes_def)
      then have "j \<in> set (fl k)"
        using lt j(1) l(1) assms(3) by (metis idx2pa_inj)
      then show False
        using assms(2,3) l j(1) unfolding blocks_ok_def by (meson blk_self)
    qed
    then show "ld32 m y = ld32 (phys s) y"
      using j lt [OF l(1) j(1)] fr sp
      by (intro ld32_page_cong) (auto simp: idx2pa_aligned4 idx2pa_page)
  qed
  have "lists_ok ?s (fl(k := remove1 i (fl k)))"
    using other h lists_okD [OF assms(1)] i lt [OF assms(3)] assms(4)
    by (simp add: lists_ok_def remove1_map_idx2pa of_nat_length_remove1)
  moreover have "m x = phys s x" if "x \<notin> pbytes (free_pages fl)" for x
  proof (rule fr)
    have "pbytes (set (fl k)) \<subseteq> pbytes (free_pages fl)"
      using blocks_ok_node(4) [OF assms(2,3)] by (auto simp: pbytes_def)
    then show "x \<notin> span4 (set ?xs)"
      using that sp by blast
  qed
  ultimately show "\<exists>m h. let s' = s\<lparr>phys := m, free_areas := (free_areas s)(k :=
             \<lparr>freelist = h, nr_free = nr_free (free_areas s k) - 1\<rparr>)\<rparr>
           in freelist_remove k (idx2pa i) s = Some (True, s') \<and>
              lists_ok s' (fl(k := remove1 i (fl k))) \<and>
              (\<forall>x. x \<notin> pbytes (free_pages fl) \<longrightarrow> m x = phys s x)"
    using m by (intro exI [of _ m] exI [of _ h]) (simp add: Let_def)
qed

section \<open>What the operations keep\<close>

text \<open>
  \<open>claimable\<close> is what a block must satisfy to enter the free set: in range,
  aligned, not free already, referenced by nobody and above the kernel image.
\<close>

definition claimable :: "kmem \<Rightarrow> (nat \<Rightarrow> nat list) \<Rightarrow> nat \<Rightarrow> nat \<Rightarrow> bool" where
  "claimable s fl k i \<longleftrightarrow>
     k \<le> MAX_ORDER \<and> 2 ^ k dvd i \<and> i + 2 ^ k \<le> NPAGES \<and> blk k i \<inter> free_pages fl = {} \<and>
     (\<forall>p \<in> blk k i. refcnt s p = 0 \<and> kend s \<le> idx2pa p)"

definition same_outside :: "kmem \<Rightarrow> kmem \<Rightarrow> nat set \<Rightarrow> bool" where
  "same_outside s s' F \<longleftrightarrow>
     refcnt s' = refcnt s \<and> kend s' = kend s \<and> (\<forall>x. x \<notin> pbytes F \<longrightarrow> phys s' x = phys s x)"

lemma same_outside_trans:
  "same_outside s t F \<Longrightarrow> same_outside t u G \<Longrightarrow> F \<union> G \<subseteq> H \<Longrightarrow> same_outside s u H"
  unfolding same_outside_def pbytes_def by (auto simp: subset_iff)

lemma same_outside_mono: "same_outside s t F \<Longrightarrow> F \<subseteq> H \<Longrightarrow> same_outside s t H"
  unfolding same_outside_def pbytes_def by auto

lemma same_outside_state [simp]: "same_outside (set_block_state i k st s) t F = same_outside s t F"
  by (simp add: same_outside_def)

lemma claimable_lt: "claimable s fl k i \<Longrightarrow> i < NPAGES \<and> i \<notin> free_pages fl \<and> k \<le> MAX_ORDER"
proof -
  assume "claimable s fl k i"
  then have c: "i + 2 ^ k \<le> NPAGES" "blk k i \<inter> free_pages fl = {}" "k \<le> MAX_ORDER"
    by (simp_all add: claimable_def)
  have "0 < (2::nat) ^ k" by simp
  then have "i < NPAGES" using c(1) by linarith
  moreover have "i \<notin> free_pages fl" using c(2) blk_self by blast
  ultimately show ?thesis using c(3) by simp
qed

lemma page_state_set_block:
  "page_state (set_block_state i k st s) p = (if p \<in> blk k i then st else page_state s p)"
  by (simp add: set_block_state_eq blk_def)

lemma push_inv:
  assumes "kmem_inv s fl" "claimable s fl k i"
    and "k < MAX_ORDER \<Longrightarrow> i XOR push_bit k 1 \<notin> set (fl k)"
  defines "s' \<equiv> freelist_push k (idx2pa i) (set_block_state i k PG_BUDDY_FREE s)"
  shows "kmem_inv s' (fl(k := i # fl k))"
    and "free_pages (fl(k := i # fl k)) = blk k i \<union> free_pages fl"
    and "same_outside s s' (blk k i)"
proof -
  note c = assms(2) [unfolded claimable_def] claimable_lt [OF assms(2)]
  show fp: "free_pages (fl(k := i # fl k)) = blk k i \<union> free_pages fl"
    using blocks_ok_push(2) [of fl k i] assms(1) c by (simp add: kmem_inv_def)
  have "blocks_ok (fl(k := i # fl k))"
    using blocks_ok_push(1) [of fl k i] assms(1) c by (simp add: kmem_inv_def)
  moreover have "lists_ok s' (fl(k := i # fl k))"
    unfolding s'_def using assms(1) c
    by (intro lists_ok_push) (auto simp: kmem_inv_def cong: lists_ok_cong)
  moreover have "page_state s' = page_state (set_block_state i k PG_BUDDY_FREE s)"
    "refcnt s' = refcnt s" "kend s' = kend s"
    by (simp_all add: s'_def freelist_push_def)
  moreover have "merged (fl(k := i # fl k))"
    using merged_push assms(1,3) by (simp add: kmem_inv_def)
  ultimately show "kmem_inv s' (fl(k := i # fl k))"
    using assms(1) c fp unfolding kmem_inv_def pages_ok_def
    by (auto simp: page_state_set_block)
  have "st32 m (idx2pa i) v x = m x" if "x \<notin> pbytes (blk k i)" for m v x
    using that c blk_self [of i k]
    by (intro st32_other_page) (auto simp: pbytes_def idx2pa_aligned4 idx2pa_page simp del: blk_self)
  then show "same_outside s s' (blk k i)"
    by (simp add: same_outside_def s'_def freelist_push_def)
qed

end
