(* ===== verification/Buddy_Ops.thy ===== *)
theory Buddy_Ops
  imports Buddy
begin

text \<open>
  The operations of \<^verbatim>\<open>kernel/kalloc.c\<close> against the invariant of \<open>Buddy\<close>: each
  keeps \<open>kmem_inv\<close>, changes the set of free pages by exactly the page it
  hands out or takes back, and writes no byte outside the free pages and that
  page.
\<close>

section \<open>Splitting and allocating\<close>

lemma lists_ok_state [simp]: "lists_ok (set_block_state i k st s) fl = lists_ok s fl"
  by (simp add: lists_ok_def)

lemma blk_Suc: "blk (Suc k) i = blk k i \<union> blk k (i + 2 ^ k)"
  by (auto simp: blk_def)

lemma blk_0 [simp]: "blk 0 i = {i}"
  by (auto simp: blk_def)

lemma split_loop_inv:
  assumes "kmem_inv s fl" "claimable s fl k i"
  shows "\<exists>fl'. kmem_inv (split_loop i k s) fl' \<and>
           free_pages fl' = free_pages fl \<union> (blk k i - {i}) \<and>
           same_outside s (split_loop i k s) (blk k i - {i})"
  using assms
proof (induction k arbitrary: s fl)
  case 0
  then show ?case by (auto simp: same_outside_def)
next
  case (Suc k)
  let ?b = "i + 2 ^ k"
  let ?s = "freelist_push k (idx2pa ?b) (set_block_state ?b k PG_BUDDY_FREE s)"
  let ?fl = "fl(k := ?b # fl k)"
  note c = Suc.prems(2) [unfolded claimable_def]
  have al: "2 ^ k dvd i" "2 ^ k dvd ?b"
    using c by (auto elim: dvd_mult_left intro: dvd_add)
  have sub: "blk k i \<subseteq> blk (Suc k) i" "blk k ?b \<subseteq> blk (Suc k) i" "blk k i \<inter> blk k ?b = {}"
    by (auto simp: blk_def)
  have ub: "claimable s fl k ?b"
    using c al sub unfolding claimable_def by auto
  have "i \<notin> set (fl k)"
    using claimable_lt [OF Suc.prems(2)] free_pagesI [of k i fl i] by auto
  then have nb: "?b XOR push_bit k 1 \<notin> set (fl k)"
    using c xor_pow2_add(2) [of k i] by simp
  note push = push_inv [OF Suc.prems(1) ub nb]
  have "claimable ?s ?fl k i"
    using c al sub push(2,3) unfolding claimable_def same_outside_def by auto
  from Suc.IH [OF push(1) this] obtain fl' where fl': "kmem_inv (split_loop i k ?s) fl'"
      "free_pages fl' = free_pages ?fl \<union> (blk k i - {i})"
      "same_outside ?s (split_loop i k ?s) (blk k i - {i})"
    by blast
  have u: "(blk k ?b \<union> free_pages fl) \<union> (blk k i - {i}) = free_pages fl \<union> (blk (Suc k) i - {i})"
    using sub blk_self [of i k] by (auto simp: blk_Suc simp del: blk_self)
  have "same_outside s (split_loop i k ?s) (blk (Suc k) i - {i})"
    by (rule same_outside_trans [OF push(3) fl'(3)])
      (use sub blk_self [of i k] in \<open>auto simp del: blk_self\<close>)
  then show ?case
    using fl'(1,2) push(2) u by (intro exI [of _ fl']) (simp add: Let_def)
qed

lemma find_order_spec:
  assumes "lists_ok s fl" "\<And>k. k < n \<Longrightarrow> fl k = []" "n \<le> Suc MAX_ORDER"
  shows "(find_order s n \<le> MAX_ORDER \<longrightarrow> fl (find_order s n) \<noteq> []) \<and>
         (MAX_ORDER < find_order s n \<longrightarrow> (\<forall>k \<le> MAX_ORDER. fl k = []))"
  using assms(2,3)
proof (induction "Suc MAX_ORDER - n" arbitrary: n)
  case 0
  then show ?case by (subst (1 2 3) find_order.simps) auto
next
  case (Suc d)
  then have n: "n \<le> MAX_ORDER" by simp
  have nul: "freelist (free_areas s n) = 0 \<longleftrightarrow> fl n = []"
    using lists_okD(1) [OF assms(1) n] by (cases "fl n") (auto simp: flist_null)
  show ?case
  proof (cases "fl n = []")
    case True
    then have "find_order s n = find_order s (Suc n)"
      using n nul by (subst find_order.simps) simp
    moreover have "fl k = []" if "k < Suc n" for k
      using that True Suc.prems(1) less_Suc_eq by blast
    ultimately show ?thesis
      using Suc.hyps(1) [of "Suc n"] Suc.hyps(2) n by simp
  next
    case False
    then have "find_order s n = n"
      using n nul by (subst find_order.simps) simp
    then show ?thesis using False n by simp
  qed
qed

text \<open>
  \<open>buddy_alloc_order0\<close>: 0 exactly when no page is free; otherwise one free page
  leaves the free set.
\<close>

lemma free_pages_empty: "free_pages fl = {} \<longleftrightarrow> (\<forall>k \<le> MAX_ORDER. fl k = [])"
  unfolding free_pages_def by (auto simp: blk_def)

lemma pop_inv:
  assumes inv: "kmem_inv s fl" and k: "k \<le> MAX_ORDER" and fl: "fl k = i # is"
  defines "s1 \<equiv> set_block_state i k 0 (snd (freelist_pop k s))"
  shows "kmem_inv s1 (fl(k := remove1 i (fl k)))"
    and "claimable s1 (fl(k := remove1 i (fl k))) k i"
    and "fst (freelist_pop k s) = idx2pa i"
    and "same_outside s s1 {}"
proof -
  have ok: "blocks_ok fl" "lists_ok s fl" "pages_ok s fl" "KERNBASE \<le> kend s" and i: "i \<in> set (fl k)"
    using inv fl by (auto simp: kmem_inv_def)
  note pop = lists_ok_pop [where fl = fl, OF ok(2,1) k fl]
  note rem = blocks_ok_remove [OF ok(1) k i]
  show "fst (freelist_pop k s) = idx2pa i"
    by (simp add: pop(1))
  have st: "page_state (snd (freelist_pop k s)) = page_state s" "refcnt s1 = refcnt s"
      "kend s1 = kend s" "phys s1 = phys s"
    by (simp_all add: s1_def pop(1))
  show "same_outside s s1 {}"
    using st by (simp add: same_outside_def)
  have sub: "blk k i \<subseteq> free_pages fl"
    using free_pagesI [of k i fl] k i by auto
  have "lists_ok s1 (fl(k := remove1 i (fl k)))"
    using pop(2) unfolding s1_def by (simp cong: lists_ok_cong)
  moreover have "pages_ok s1 (fl(k := remove1 i (fl k)))"
    using ok(3) unfolding pages_ok_def st rem(2)
    by (simp add: s1_def page_state_set_block st(1)) (auto simp: PG_BUDDY_FREE_def)
  moreover have "merged (fl(k := remove1 i (fl k)))"
    using inv merged_remove by (auto simp: kmem_inv_def)
  ultimately show "kmem_inv s1 (fl(k := remove1 i (fl k)))"
    using rem(1) ok(4) st by (simp add: kmem_inv_def)
  show "claimable s1 (fl(k := remove1 i (fl k))) k i"
    using blocks_ok_node [OF ok(1) k i] ok(3) sub k
    unfolding claimable_def rem(2) st pages_ok_def by auto
qed

lemma buddy_alloc_none:
  assumes "kmem_inv s fl" "free_pages fl = {}"
  shows "buddy_alloc_order0 s = (0, s)"
proof -
  have "MAX_ORDER < find_order s 0"
    using find_order_spec [of s fl 0] assms free_pages_empty [of fl]
    by (metis kmem_inv_def less_nat_zero_code not_le zero_le)
  then show ?thesis by (simp add: buddy_alloc_order0_def)
qed

lemma buddy_alloc_some:
  assumes inv: "kmem_inv s fl" and "free_pages fl \<noteq> {}"
  obtains i s' fl' where "buddy_alloc_order0 s = (idx2pa i, s')" "i \<in> free_pages fl"
    "kmem_inv s' fl'" "free_pages fl' = free_pages fl - {i}" "same_outside s s' (free_pages fl - {i})"
proof -
  define k where "k = find_order s 0"
  have "k \<le> MAX_ORDER" "fl k \<noteq> []"
    using find_order_spec [of s fl 0] assms free_pages_empty [of fl] unfolding k_def
    by (metis kmem_inv_def less_nat_zero_code not_le zero_le)+
  then obtain i "is" where k: "k \<le> MAX_ORDER" and fl: "fl k = i # is"
    by (cases "fl k") auto
  define s1 where "s1 = set_block_state i k 0 (snd (freelist_pop k s))"
  note pop = pop_inv [where fl = fl, OF inv k fl, folded s1_def]
  have ok: "blocks_ok fl" and i: "i \<in> set (fl k)"
    using inv fl by (auto simp: kmem_inv_def)
  have sub: "blk k i \<subseteq> free_pages fl"
    using free_pagesI [of k i fl] k i by auto
  obtain fl' where fl': "kmem_inv (split_loop i k s1) fl'"
      "free_pages fl' = (free_pages fl - blk k i) \<union> (blk k i - {i})"
      "same_outside s1 (split_loop i k s1) (blk k i - {i})"
    using split_loop_inv [OF pop(1,2)] blocks_ok_remove(2) [OF ok k i] by auto
  show thesis
  proof (rule that)
    show "buddy_alloc_order0 s = (idx2pa i, split_loop i k s1)"
      using k pop(3) blocks_ok_node(3) [OF ok k i]
      by (cases "freelist_pop k s") (simp add: buddy_alloc_order0_def k_def [symmetric] s1_def Let_def)
    show "i \<in> free_pages fl" by (rule blocks_ok_node(4) [OF ok k i])
    show "free_pages fl' = free_pages fl - {i}"
      using fl'(2) sub blk_self [of i k] by (auto simp del: blk_self)
    show "same_outside s (split_loop i k s1) (free_pages fl - {i})"
      using pop(4) fl'(3) by (rule same_outside_trans) (use sub in auto)
  qed (rule fl'(1))
qed

section \<open>Freeing and coalescing\<close>

lemma buddy_lt:
  assumes "2 ^ k dvd i" "i + 2 ^ k \<le> NPAGES" "k < MAX_ORDER"
  shows "i XOR push_bit k 1 < NPAGES"
  using assms(1)
proof (cases rule: buddy_cases)
  case 1
  have "2 ^ Suc k dvd NPAGES"
    using assms(3) le_imp_power_dvd [of "Suc k" 15 "2::nat"] by (simp add: NPAGES_val MAX_ORDER_def)
  then obtain c where c: "NPAGES = 2 ^ Suc k * c" ..
  obtain a where a: "i = 2 ^ Suc k * a" using 1(1) ..
  have "0 < (2::nat) ^ k" by simp
  then have "2 ^ Suc k * a < 2 ^ Suc k * c"
    using assms(2) a c by linarith
  then have "Suc a \<le> c" by simp
  then have "2 ^ Suc k * Suc a \<le> 2 ^ Suc k * c"
    by (rule mult_le_mono2)
  then have "i + 2 ^ Suc k \<le> NPAGES"
    using a c by simp
  moreover have "i + 2 ^ k < i + 2 ^ Suc k" by simp
  ultimately have "i + 2 ^ k < NPAGES" by (rule less_le_trans [rotated])
  then show ?thesis using 1(2) by simp
next
  case 2
  have "0 < (2::nat) ^ k" by simp
  then have "i - 2 ^ k < NPAGES" using assms(2) by linarith
  then show ?thesis using 2(3) by simp
qed

lemma blk_merge:
  assumes "2 ^ k dvd i"
  defines "b \<equiv> i XOR push_bit k 1"
  defines "j \<equiv> if b < i then b else i"
  shows "blk (Suc k) j = blk k i \<union> blk k b" "2 ^ Suc k dvd j" "blk k i \<inter> blk k b = {}"
  using assms(1)
proof (atomize (full), cases rule: buddy_cases)
  case 1
  then show "blk (Suc k) j = blk k i \<union> blk k b \<and> 2 ^ Suc k dvd j \<and> blk k i \<inter> blk k b = {}"
    by (auto simp: j_def b_def blk_def)
next
  case 2
  have "i - 2 ^ k < i" using 2(1) by (simp add: less_le_trans [of 0 "2 ^ k" i])
  then show "blk (Suc k) j = blk k i \<union> blk k b \<and> 2 ^ Suc k dvd j \<and> blk k i \<inter> blk k b = {}"
    using 2 by (auto simp: j_def b_def blk_def)
qed

lemma blk_bound: "i + 2 ^ k \<le> n \<longleftrightarrow> blk k i \<subseteq> {..<n}"
proof
  assume "blk k i \<subseteq> {..<n}"
  moreover have p: "0 < (2::nat) ^ k" by simp
  then have "i + (2 ^ k - 1) \<in> blk k i"
    unfolding blk_def atLeastLessThan_iff by linarith
  ultimately have "i + (2 ^ k - 1) < n" by blast
  with p show "i + 2 ^ k \<le> n" by linarith
qed (auto simp: blk_def)

lemma remove_inv:
  assumes inv: "kmem_inv t fl" and c: "claimable t fl k i" "k < MAX_ORDER"
  defines "b \<equiv> i XOR push_bit k 1"
  assumes b: "b \<in> set (fl k)"
  obtains s1 where "freelist_remove k (idx2pa b) (set_block_state i k PG_BUDDY_FREE t) = Some (True, s1)"
    "kmem_inv (set_block_state b k 0 (set_block_state i k 0 s1)) (fl(k := remove1 b (fl k)))"
    "same_outside t s1 (free_pages fl)"
proof -
  let ?s = "set_block_state i k PG_BUDDY_FREE t" and ?fl = "fl(k := remove1 b (fl k))"
  have k: "k \<le> MAX_ORDER" using c(2) by simp
  have ok: "blocks_ok fl" "lists_ok ?s fl" "pages_ok t fl" "merged fl" "KERNBASE \<le> kend t"
    using inv by (auto simp: kmem_inv_def cong: lists_ok_cong)
  note rem = blocks_ok_remove [OF ok(1) k b]
  let ?upd = "\<lambda>m h. ?s\<lparr>phys := m, free_areas := (free_areas ?s)(k :=
          \<lparr>freelist = h, nr_free = nr_free (free_areas ?s k) - 1\<rparr>)\<rparr>"
  obtain m h where m: "freelist_remove k (idx2pa b) ?s = Some (True, ?upd m h)"
    and l: "lists_ok (?upd m h) ?fl" and fr: "\<And>x. x \<notin> pbytes (free_pages fl) \<Longrightarrow> m x = phys ?s x"
    using freelist_remove_spec(2) [OF ok(2,1) k blocks_ok_node(3) [OF ok(1) k b] b]
    unfolding Let_def by blast
  let ?s1 = "?upd m h"
  let ?s2 = "set_block_state b k 0 (set_block_state i k 0 ?s1)"
  have st: "refcnt ?s2 = refcnt t" "kend ?s2 = kend t"
      "page_state ?s2 p = (if p \<in> blk k b \<union> blk k i then 0 else page_state t p)" for p
    by (simp_all add: page_state_set_block)
  have "lists_ok ?s2 ?fl"
    using l by simp
  moreover have "pages_ok ?s2 ?fl"
    using ok(3) c(1) unfolding pages_ok_def st rem(2) claimable_def
    by (auto simp: PG_BUDDY_FREE_def)
  ultimately have "kmem_inv ?s2 ?fl"
    using rem(1) merged_remove [OF ok(4)] ok(5) st by (simp add: kmem_inv_def)
  moreover have "same_outside t ?s1 (free_pages fl)"
    using fr by (simp add: same_outside_def)
  ultimately show thesis
    using that [OF m] by blast
qed

lemma coalesce_inv:
  assumes "kmem_inv t fl" "claimable t fl k i"
  shows "\<exists>s' fl'. coalesce i k (set_block_state i k PG_BUDDY_FREE t) = Some s' \<and>
           kmem_inv s' fl' \<and> free_pages fl' = blk k i \<union> free_pages fl \<and>
           same_outside t s' (blk k i \<union> free_pages fl)"
  using assms
proof (induction "MAX_ORDER - k" arbitrary: k i t fl)
  case 0
  then have "\<not> k < MAX_ORDER" by simp
  with push_inv [OF 0(2,3)] show ?case
    by (subst coalesce.simps) (auto intro: same_outside_mono)
next
  case (Suc n)
  let ?s = "set_block_state i k PG_BUDDY_FREE t" and ?b = "i XOR push_bit k 1"
  let ?i = "if ?b < i then ?b else i"
  have k: "k < MAX_ORDER" using Suc.hyps(2) by simp
  note c = Suc.prems(2) [unfolded claimable_def]
  have ok: "blocks_ok fl" "lists_ok ?s fl"
    using Suc.prems(1) by (simp_all add: kmem_inv_def)
  have lt: "?b < NPAGES" using buddy_lt c k by blast
  have c1: "2 ^ k dvd i" using c by blast
  note mrg = blk_merge [of k i]
  show ?case
  proof (cases "?b \<in> set (fl k)")
    case False
    then have "coalesce i k ?s = Some (freelist_push k (idx2pa i) ?s)"
      using k lt freelist_remove_spec(1) [OF ok(2,1) _ lt False]
      by (subst coalesce.simps) (simp add: Let_def)
    with push_inv [OF Suc.prems False] show ?thesis
      by (auto intro: same_outside_mono)
  next
    case True
    obtain s1 where s1: "freelist_remove k (idx2pa ?b) ?s = Some (True, s1)"
      "kmem_inv (set_block_state ?b k 0 (set_block_state i k 0 s1)) (fl(k := remove1 ?b (fl k)))"
      (is "kmem_inv ?t ?fl") "same_outside t s1 (free_pages fl)"
      using remove_inv [OF Suc.prems k True] by blast
    have bb: "blk k ?b \<subseteq> free_pages fl"
      using free_pagesI [of k ?b fl] k True by auto
    have fp: "free_pages ?fl = free_pages fl - blk k ?b"
      using blocks_ok_remove(2) [OF ok(1) _ True] k by simp
    have "blk k ?b \<subseteq> {..<NPAGES}"
      using bb free_pages_bound [OF ok(1)] by auto
    then have "?i + 2 ^ Suc k \<le> NPAGES"
      using c unfolding blk_bound [of ?i "Suc k"] mrg(1) [OF c1] blk_bound [of i k] by simp
    moreover have "refcnt ?t = refcnt t" "kend ?t = kend t"
      using s1(3) by (simp_all add: same_outside_def)
    moreover have "\<forall>p \<in> free_pages fl. refcnt t p = 0 \<and> kend t \<le> idx2pa p"
      using Suc.prems(1) by (simp add: kmem_inv_def pages_ok_def)
    ultimately have cl: "claimable ?t ?fl (Suc k) ?i"
      using c k bb mrg(2,3) [OF c1] unfolding claimable_def fp mrg(1) [OF c1] by auto
    have "page_state ?s ?b = PG_BUDDY_FREE"
      using Suc.prems(1) bb blk_self [of ?b k]
      by (auto simp: page_state_set_block kmem_inv_def pages_ok_def simp del: blk_self)
    then have eq: "coalesce i k ?s = coalesce ?i (Suc k) (set_block_state ?i (Suc k) PG_BUDDY_FREE ?t)"
      using k lt s1(1) by (subst coalesce.simps) (simp add: Let_def)
    have u: "blk (Suc k) ?i \<union> free_pages ?fl = blk k i \<union> free_pages fl"
      using bb unfolding fp mrg(1) [OF c1] by blast
    have tt: "same_outside t ?t (free_pages fl)"
      using s1(3) by (simp add: same_outside_def)
    have "n = MAX_ORDER - Suc k" using Suc.hyps(2) by simp
    from Suc.hyps(1) [OF this s1(2) cl] obtain s' fl' where
      "coalesce i k ?s = Some s'" "kmem_inv s' fl'" "free_pages fl' = blk k i \<union> free_pages fl"
      and o: "same_outside ?t s' (blk k i \<union> free_pages fl)"
      unfolding eq u by blast
    moreover have "same_outside t s' (blk k i \<union> free_pages fl)"
      by (rule same_outside_trans [OF tt o]) blast
    ultimately show ?thesis by blast
  qed
qed

end
