(* ===== verification/Kalloc_Spec.thy ===== *)
theory Kalloc_Spec
  imports Buddy_Ops
begin

text \<open>
  The contract of \<^verbatim>\<open>kernel/kalloc.c\<close>. \<open>free_set\<close> is the set of pages marked
  free and \<open>kmem_ok\<close> the allocator invariant with the ghost lists of
  \<open>Buddy\<close> quantified away. \<^verbatim>\<open>kalloc\<close>, \<^verbatim>\<open>kaddref\<close> and \<^verbatim>\<open>kfree\<close> are characterised on
  every branch, and \<^verbatim>\<open>kinit\<close> is shown to make exactly the pages above the
  kernel image free.
\<close>

section \<open>The abstract state\<close>

definition free_set :: "kmem \<Rightarrow> nat set" where
  "free_set s = {p. page_state s p = PG_BUDDY_FREE}"

definition kmem_ok :: "kmem \<Rightarrow> bool" where
  "kmem_ok s \<longleftrightarrow> (\<exists>fl. kmem_inv s fl)"

text \<open>Every page above the kernel is either free or referenced: none is lost.\<close>

definition no_lost_page :: "kmem \<Rightarrow> bool" where
  "no_lost_page s \<longleftrightarrow> (\<forall>p < NPAGES. kend s \<le> idx2pa p \<longrightarrow> (p \<in> free_set s \<longleftrightarrow> refcnt s p = 0))"

lemma kmem_inv_free_set: "kmem_inv s fl \<Longrightarrow> free_set s = free_pages fl"
  by (auto simp: kmem_inv_def pages_ok_def free_set_def)

lemma kmem_inv_refcnt: "kmem_inv s fl \<Longrightarrow> p \<in> free_pages fl \<Longrightarrow> refcnt s p = 0"
  by (auto simp: kmem_inv_def pages_ok_def)

lemma free_setD:
  assumes "kmem_ok s" "p \<in> free_set s"
  shows "p < NPAGES" "refcnt s p = 0" "kend s \<le> idx2pa p"
proof -
  obtain fl where fl: "kmem_inv s fl" using assms(1) by (auto simp: kmem_ok_def)
  then have p: "p \<in> free_pages fl" using assms(2) by (simp add: kmem_inv_free_set)
  show "p < NPAGES"
    using fl p free_pages_bound by (auto simp: kmem_inv_def)
  show "refcnt s p = 0" "kend s \<le> idx2pa p"
    using fl p by (auto simp: kmem_inv_def pages_ok_def)
qed

lemma kmem_ok_kend: "kmem_ok s \<Longrightarrow> KERNBASE \<le> kend s"
  by (auto simp: kmem_ok_def kmem_inv_def)

section \<open>Whole-page writes\<close>

lemma page_offset:
  assumes "unat a mod 4096 = 0"
  shows "unat (x - a) < 4096 \<longleftrightarrow> PGROUNDDOWN x = a"
proof
  assume lt: "unat (x - a) < 4096"
  have "unat a \<le> 4294963200"
    using assms unat_less_32 [of a] by (auto simp: mod_eq_0_iff_dvd elim!: dvdE)
  then have "unat (a + (x - a)) = unat a + unat (x - a)"
    using lt by (intro unat_plus_small) linarith
  then have "unat x = unat a + unat (x - a)" by simp
  then have "unat x div 4096 = unat a div 4096"
    using lt assms by (simp add: mod_eq_0_iff_dvd div_plus_div_distrib_dvd_left)
  then show "PGROUNDDOWN x = a"
    using PGROUNDDOWN_eq_iff [of x a] PGROUNDDOWN_id [OF assms] by simp
next
  assume "PGROUNDDOWN x = a"
  then have a: "unat a = unat x div 4096 * 4096" by (simp add: unat_PGROUNDDOWN [symmetric])
  then have "a \<le> x" by (simp add: word_le_nat_alt)
  then have "unat (x - a) = unat x mod 4096"
    using a by (simp add: unat_sub minus_div_mult_eq_mod)
  then show "unat (x - a) < 4096" by simp
qed

lemma memset_page:
  assumes "unat a mod 4096 = 0"
  shows "memset m a c PGSIZE = (\<lambda>x. if PGROUNDDOWN x = a then ucast c else m x)"
  using page_offset [OF assms] by (simp add: memset_eq layout_vals)

lemma junk_bytes [simp]: "(ucast (5 :: 32 word) :: 8 word) = 5" "(ucast (1 :: 32 word) :: 8 word) = 1"
  by (simp_all add: ucast_eq)

lemma refcnt_phys_upd: "s\<lparr>refcnt := r, phys := m\<rparr> = s\<lparr>phys := m, refcnt := r\<rparr>" for s :: kmem
  by simp

lemma kmem_inv_write:
  assumes "kmem_inv s fl" "\<And>x. x \<in> pbytes (free_pages fl) \<Longrightarrow> m x = phys s x"
    and "\<And>p. p \<in> free_pages fl \<Longrightarrow> r p = 0"
  shows "kmem_inv (s\<lparr>phys := m, refcnt := r\<rparr>) fl"
proof -
  have ok: "blocks_ok fl" "merged fl" "lists_ok s fl" "pages_ok s fl" "KERNBASE \<le> kend s"
    using assms(1) by (simp_all add: kmem_inv_def)
  have "lists_ok (s\<lparr>phys := m, refcnt := r\<rparr>) fl"
    by (rule lists_ok_frame [OF ok(3,1)]) (simp_all add: assms(2))
  moreover have "pages_ok (s\<lparr>phys := m, refcnt := r\<rparr>) fl"
    using ok(4) assms(3) by (simp add: pages_ok_def)
  ultimately show ?thesis
    using ok by (simp add: kmem_inv_def)
qed

text \<open>
  Writing outside the free pages keeps the invariant: the frame rule that every
  owner of an allocated page uses.
\<close>

lemma kmem_ok_write:
  assumes "kmem_ok s" "\<And>x. x \<in> pbytes (free_set s) \<Longrightarrow> m x = phys s x"
  shows "kmem_ok (s\<lparr>phys := m\<rparr>)"
proof -
  obtain fl where fl: "kmem_inv s fl" using assms(1) by (auto simp: kmem_ok_def)
  have "kmem_inv (s\<lparr>phys := m, refcnt := refcnt s\<rparr>) fl"
    by (rule kmem_inv_write [OF fl])
      (simp_all add: assms(2) kmem_inv_free_set [OF fl] kmem_inv_refcnt [OF fl])
  then show ?thesis by (auto simp: kmem_ok_def)
qed

lemma not_free_bytes:
  assumes "kmem_ok s" "i < NPAGES" "i \<notin> free_set s" "PGROUNDDOWN x = idx2pa i"
  shows "x \<notin> pbytes (free_set s)"
  using assms free_setD(1) [OF assms(1)] by (auto simp: pbytes_def idx2pa_inj)

section \<open>Allocation\<close>

lemma kalloc_none:
  assumes "kmem_ok s" "free_set s = {}"
  shows "kalloc s = (0, s)"
proof -
  obtain fl where fl: "kmem_inv s fl" using assms(1) by (auto simp: kmem_ok_def)
  then have "buddy_alloc_order0 s = (0, s)"
    using assms(2) buddy_alloc_none by (simp add: kmem_inv_free_set)
  then show ?thesis by (simp add: kalloc_def)
qed

lemma kalloc_some:
  assumes "kmem_ok s" "free_set s \<noteq> {}"
  obtains i s' where "kalloc s = (idx2pa i, s')" "i \<in> free_set s" "kmem_ok s'"
    "free_set s' = free_set s - {i}" "refcnt s' = (refcnt s)(i := 1)" "kend s' = kend s"
    "\<And>x. PGROUNDDOWN x = idx2pa i \<Longrightarrow> phys s' x = 5"
    "\<And>x. x \<notin> pbytes (free_set s) \<Longrightarrow> phys s' x = phys s x"
proof -
  obtain fl where fl: "kmem_inv s fl" using assms(1) by (auto simp: kmem_ok_def)
  note fs = kmem_inv_free_set [OF fl]
  obtain i t fl' where t: "buddy_alloc_order0 s = (idx2pa i, t)" "i \<in> free_pages fl"
    "kmem_inv t fl'" "free_pages fl' = free_pages fl - {i}" "same_outside s t (free_pages fl - {i})"
    using buddy_alloc_some [OF fl] assms(2) fs by metis
  have i: "i < NPAGES" "i \<in> free_set s"
    using t(2) free_setD [OF assms(1)] fs by auto
  let ?m = "\<lambda>x. if PGROUNDDOWN x = idx2pa i then 5 else phys t x"
  let ?s = "t\<lparr>phys := ?m, refcnt := (refcnt t)(i := 1)\<rparr>"
  have "kalloc s = (idx2pa i, ?s)"
    using i by (simp add: kalloc_def t(1) idx2pa_nonzero memset_page idx2pa_aligned
        cong: if_cong)
  moreover have inv: "kmem_inv ?s fl'"
  proof (rule kmem_inv_write [OF t(3)])
    show "?m x = phys t x" if "x \<in> pbytes (free_pages fl')" for x
      using that i t(4) free_setD(1) [OF assms(1)] fs by (auto simp: pbytes_def idx2pa_inj)
    show "((refcnt t)(i := 1)) p = 0" if "p \<in> free_pages fl'" for p
      using that t(3,4) by (auto simp: kmem_inv_def pages_ok_def)
  qed
  moreover have "free_set ?s = free_set s - {i}"
    using kmem_inv_free_set [OF inv] t(4) fs by simp
  moreover have "?m x = phys s x" if "x \<notin> pbytes (free_set s)" for x
  proof -
    have "x \<notin> pbytes (free_pages fl - {i})" "PGROUNDDOWN x \<noteq> idx2pa i"
      using that i(2) fs by (auto simp: pbytes_def)
    then show ?thesis using t(5) by (simp add: same_outside_def)
  qed
  ultimately show thesis
    using that [of i ?s] i(2) t(5) by (auto simp: kmem_ok_def same_outside_def)
qed

section \<open>References\<close>

definition page_addr :: "kmem \<Rightarrow> addr \<Rightarrow> bool" where
  "page_addr s pa \<longleftrightarrow> pa mod PGSIZE = 0 \<and> kend s \<le> pa \<and> pa < PHYSTOP"

lemma page_addr_idx:
  assumes "page_addr s pa" "KERNBASE \<le> kend s"
  shows "pa2idx pa < NPAGES" "idx2pa (pa2idx pa) = pa"
  using assms pa2idx_valid [of pa] by (auto simp: page_addr_def)

lemma kfree_shared:
  assumes "page_addr s pa" "1 < refcnt s (pa2idx pa)"
  shows "kfree pa s = Ok (s\<lparr>refcnt := (refcnt s)(pa2idx pa := refcnt s (pa2idx pa) - 1)\<rparr>)"
proof -
  have "\<not> refcnt s (pa2idx pa) < 1" "0 < refcnt s (pa2idx pa) - 1"
    using assms(2) by (auto simp: word_neq_0_conv [symmetric])
  then show ?thesis
    using assms(1) by (auto simp: kfree_def page_addr_def Let_def)
qed

lemma kfree_last:
  assumes ok: "kmem_ok s" and pa: "page_addr s pa" and one: "refcnt s (pa2idx pa) = 1"
  obtains s' where "kfree pa s = Ok s'" "kmem_ok s'" "free_set s' = insert (pa2idx pa) (free_set s)"
    "refcnt s' = (refcnt s)(pa2idx pa := 0)" "kend s' = kend s"
    "\<And>x. x \<notin> pbytes (insert (pa2idx pa) (free_set s)) \<Longrightarrow> phys s' x = phys s x"
proof -
  obtain fl where fl: "kmem_inv s fl" using ok by (auto simp: kmem_ok_def)
  note fs = kmem_inv_free_set [OF fl]
  let ?i = "pa2idx pa"
  have i: "?i < NPAGES" "idx2pa ?i = pa"
    using page_addr_idx pa kmem_ok_kend [OF ok] by blast+
  have nf: "?i \<notin> free_set s"
    using free_setD(2) [OF ok] one by (metis zero_neq_one)
  let ?m = "\<lambda>x. if PGROUNDDOWN x = pa then 1 else phys s x"
  let ?t = "s\<lparr>phys := ?m, refcnt := (refcnt s)(?i := 0)\<rparr>"
  have t: "kmem_inv ?t fl"
  proof (rule kmem_inv_write [OF fl])
    show "?m x = phys s x" if "x \<in> pbytes (free_pages fl)" for x
      using that i nf not_free_bytes [OF ok i(1) nf, of x] fs by auto
    show "((refcnt s)(?i := 0)) p = 0" if "p \<in> free_pages fl" for p
      using that fl by (auto simp: kmem_inv_def pages_ok_def)
  qed
  moreover have "claimable ?t fl 0 ?i"
    using i nf fs pa by (auto simp: claimable_def page_addr_def Suc_le_eq)
  ultimately obtain s' fl' where s': "coalesce ?i 0 (set_block_state ?i 0 PG_BUDDY_FREE ?t) = Some s'"
    "kmem_inv s' fl'" "free_pages fl' = insert ?i (free_pages fl)"
    "same_outside ?t s' (insert ?i (free_pages fl))"
    using coalesce_inv [of ?t fl 0 ?i] by auto
  have al: "unat pa mod 4096 = 0"
    using idx2pa_aligned [OF i(1)] i(2) by simp
  have "kfree pa s = Ok s'"
    using pa one s'(1) al by (auto simp: kfree_def page_addr_def Let_def buddy_free_order0_def memset_page
        refcnt_phys_upd cong: if_cong)
  moreover have "phys s' x = phys s x" if "x \<notin> pbytes (insert ?i (free_set s))" for x
    using that s'(4) i(2) fs by (auto simp: same_outside_def pbytes_def)
  ultimately show thesis
    using that [of s'] s' fs kmem_inv_free_set [OF s'(2)]
    by (auto simp: kmem_ok_def same_outside_def)
qed

text \<open>Every panic of \<^verbatim>\<open>kfree\<close> and \<^verbatim>\<open>kaddref\<close>, and the shared-page counter.\<close>

lemma kfree_panic:
  "\<not> page_addr s pa \<Longrightarrow> kfree pa s = Panic ''kfree''"
  "page_addr s pa \<Longrightarrow> refcnt s (pa2idx pa) = 0 \<Longrightarrow> kfree pa s = Panic ''kfree: ref''"
  by (auto simp: kfree_def page_addr_def not_le not_less)

lemma kmem_ok_refcnt:
  assumes "kmem_ok s" "i \<notin> free_set s"
  shows "kmem_ok (s\<lparr>refcnt := (refcnt s)(i := v)\<rparr>)"
    and "free_set (s\<lparr>refcnt := (refcnt s)(i := v)\<rparr>) = free_set s"
proof -
  obtain fl where fl: "kmem_inv s fl" using assms(1) by (auto simp: kmem_ok_def)
  have "kmem_inv (s\<lparr>phys := phys s, refcnt := (refcnt s)(i := v)\<rparr>) fl"
    using assms(2) by (intro kmem_inv_write [OF fl])
      (auto simp: kmem_inv_free_set [OF fl] kmem_inv_refcnt [OF fl])
  then show "kmem_ok (s\<lparr>refcnt := (refcnt s)(i := v)\<rparr>)" by (auto simp: kmem_ok_def)
qed (simp add: free_set_def)

lemma kaddref_Ok:
  assumes "kmem_ok s" "i < NPAGES" "refcnt s i \<noteq> 0"
  shows "kaddref (idx2pa i) s = Ok (s\<lparr>refcnt := (refcnt s)(i := refcnt s i + 1)\<rparr>)"
    and "kmem_ok (s\<lparr>refcnt := (refcnt s)(i := refcnt s i + 1)\<rparr>)"
proof -
  show "kaddref (idx2pa i) s = Ok (s\<lparr>refcnt := (refcnt s)(i := refcnt s i + 1)\<rparr>)"
    using assms(2,3) idx2pa_range [OF assms(2)]
    by (simp add: kaddref_def Let_def not_le not_less)
  have "i \<notin> free_set s" using free_setD(2) [OF assms(1)] assms(3) by blast
  then show "kmem_ok (s\<lparr>refcnt := (refcnt s)(i := refcnt s i + 1)\<rparr>)"
    by (rule kmem_ok_refcnt(1) [OF assms(1)])
qed

section \<open>Initialisation\<close>

lemma unat_idx2pa_le: "i \<le> NPAGES \<Longrightarrow> unat (idx2pa i) = 2147483648 + i * 4096"
proof (cases "i = NPAGES")
  case True
  then show ?thesis by (simp add: NPAGES_val idx2pa_def layout_defs)
next
  case False
  moreover assume "i \<le> NPAGES"
  ultimately show ?thesis by (intro unat_idx2pa) simp
qed

lemma idx2pa_Suc: "idx2pa i + PGSIZE = idx2pa (Suc i)"
  by (simp add: idx2pa_def algebra_simps)

lemma idx2pa_step_le:
  assumes "i \<le> NPAGES"
  shows "idx2pa i + PGSIZE \<le> PHYSTOP \<longleftrightarrow> i < NPAGES"
proof (cases "i = NPAGES")
  case True
  then show ?thesis by (simp add: NPAGES_val idx2pa_def layout_defs)
next
  case False
  then have "unat (idx2pa (Suc i)) = 2147483648 + Suc i * 4096" using assms by (intro unat_idx2pa_le) simp
  then show ?thesis
    unfolding idx2pa_Suc using False assms by (simp add: word_le_nat_alt layout_vals NPAGES_val)
qed

lemma freerange_loop_spec:
  assumes "kmem_ok s" "i \<le> NPAGES" "refcnt s = (\<lambda>_. 0)" "{i..<NPAGES} \<inter> free_set s = {}"
    and "i < NPAGES \<Longrightarrow> kend s \<le> idx2pa i"
  shows "\<exists>s'. freerange_loop (idx2pa i) PHYSTOP s = Some (Ok s') \<and> kmem_ok s' \<and>
           refcnt s' = (\<lambda>_. 0) \<and> kend s' = kend s \<and> free_set s' = free_set s \<union> {i..<NPAGES}"
  using assms
proof (induction "NPAGES - i" arbitrary: i s)
  case 0
  then show ?case using idx2pa_step_le [of i] by (subst freerange_loop.simps) auto
next
  case (Suc n)
  let ?t = "s\<lparr>refcnt := (refcnt s)(i := 1)\<rparr>"
  have i: "i < NPAGES" using Suc.hyps(2) by simp
  have "i \<in> {i..<NPAGES}" using i by simp
  then have "i \<notin> free_set s" using Suc.prems(4) by blast
  note t = kmem_ok_refcnt [OF Suc.prems(1) this, of 1]
  have "page_addr ?t (idx2pa i)" "refcnt ?t (pa2idx (idx2pa i)) = 1"
    using idx2pa_range [OF i] Suc.prems(5) [OF i] i by (simp_all add: page_addr_def)
  from kfree_last [OF t(1) this] obtain s1 where s1: "kfree (idx2pa i) ?t = Ok s1" "kmem_ok s1"
      "free_set s1 = insert i (free_set s)" and "refcnt s1 = (refcnt ?t)(i := 0)" "kend s1 = kend ?t"
    unfolding pa2idx_idx2pa [OF i] t(2) by metis
  then have s1': "refcnt s1 = (\<lambda>_. 0)" "kend s1 = kend s"
    using Suc.prems(3) by (simp_all add: fun_eq_iff)
  have le: "kend s1 \<le> idx2pa (Suc i)" if "Suc i < NPAGES"
    using Suc.prems(5) [OF i] s1'(2) unat_idx2pa [OF i] unat_idx2pa [OF that]
    by (simp add: word_le_nat_alt)
  have "n = NPAGES - Suc i" "Suc i \<le> NPAGES" "{Suc i..<NPAGES} \<inter> free_set s1 = {}"
    using Suc.hyps(2) i Suc.prems(4) s1(3) by (auto simp: disjoint_iff)
  from Suc.hyps(1) [OF this(1) s1(2) this(2) s1'(1) this(3) le]
  obtain s' where s': "freerange_loop (idx2pa (Suc i)) PHYSTOP s1 = Some (Ok s')" "kmem_ok s'"
      "refcnt s' = (\<lambda>_. 0)" "kend s' = kend s" "free_set s' = free_set s1 \<union> {Suc i..<NPAGES}"
    using s1'(2) by auto
  have "freerange_loop (idx2pa i) PHYSTOP s = Some (Ok s')"
    using i s1(1) s'(1) idx2pa_step_le [of i]
    by (subst freerange_loop.simps) (simp add: idx2pa_Suc)
  moreover have "free_set s' = free_set s \<union> {i..<NPAGES}"
    unfolding s'(5) s1(3) using i by auto
  ultimately show ?case
    using s'(2,3,4) by (intro exI [of _ s']) simp
qed

lemma PGROUNDUP_le_iff:
  assumes "KERNBASE \<le> e" "e \<le> PHYSTOP"
  obtains i where "i \<le> NPAGES" "PGROUNDUP e = idx2pa i"
    "\<And>p. p < NPAGES \<Longrightarrow> e \<le> idx2pa p \<longleftrightarrow> i \<le> p"
proof
  let ?i = "(unat e + 4095) div 4096 - 524288"
  have b: "2147483648 \<le> unat e" "unat e \<le> 2281701376"
    using assms by (simp_all add: word_le_nat_alt layout_vals)
  then have d: "524288 \<le> (unat e + 4095) div 4096" "(unat e + 4095) div 4096 \<le> 557056"
    by linarith+
  then show i: "?i \<le> NPAGES" unfolding NPAGES_val by linarith
  have "unat (PGROUNDUP e) = (unat e + 4095) div 4096 * 4096"
    using b by (intro unat_PGROUNDUP) simp
  also have "\<dots> = unat (idx2pa ?i)"
    using d(1) unat_idx2pa_le [OF i] by linarith
  finally show "PGROUNDUP e = idx2pa ?i" by (simp only: word_unat_eq_iff)
  show "e \<le> idx2pa p \<longleftrightarrow> ?i \<le> p" if "p < NPAGES" for p
  proof -
    have "e \<le> idx2pa p \<longleftrightarrow> unat e \<le> (p + 524288) * 4096"
      using unat_idx2pa [OF that] by (simp add: word_le_nat_alt algebra_simps)
    also have "\<dots> \<longleftrightarrow> (unat e + 4095) div 4096 < Suc (p + 524288)"
      by (subst div_less_iff_less_mult) auto
    also have "\<dots> \<longleftrightarrow> ?i \<le> p"
      using d(1) by linarith
    finally show ?thesis .
  qed
qed

lemma kmem_ok_empty:
  "KERNBASE \<le> kend s \<Longrightarrow> kmem_ok (s\<lparr>free_areas := (\<lambda>_. \<lparr>freelist = 0, nr_free = 0\<rparr>),
     refcnt := (\<lambda>_. 0), page_state := (\<lambda>_. 0)\<rparr>)"
  unfolding kmem_ok_def
  by (rule exI [of _ "\<lambda>_. []"])
    (simp add: kmem_inv_def blocks_ok_def merged_def lists_ok_def pages_ok_def free_pages_def
      PG_BUDDY_FREE_def)

lemma kinit_spec:
  assumes "KERNBASE \<le> kend s" "kend s \<le> PHYSTOP"
  obtains s' where "kinit s = Ok s'" "kmem_ok s'" "refcnt s' = (\<lambda>_. 0)" "kend s' = kend s"
    "free_set s' = {p. p < NPAGES \<and> kend s \<le> idx2pa p}"
proof -
  obtain i where i: "i \<le> NPAGES" "PGROUNDUP (kend s) = idx2pa i"
    "\<And>p. p < NPAGES \<Longrightarrow> kend s \<le> idx2pa p \<longleftrightarrow> i \<le> p"
    using PGROUNDUP_le_iff [OF assms] by blast
  let ?s = "s\<lparr>free_areas := (\<lambda>_. \<lparr>freelist = 0, nr_free = 0\<rparr>),
     refcnt := (\<lambda>_. 0), page_state := (\<lambda>_. 0)\<rparr>"
  have "free_set ?s = {}" by (simp add: free_set_def PG_BUDDY_FREE_def)
  then obtain s' where "freerange_loop (idx2pa i) PHYSTOP ?s = Some (Ok s')" "kmem_ok s'"
      "refcnt s' = (\<lambda>_. 0)" "kend s' = kend s" "free_set s' = {i..<NPAGES}"
    using freerange_loop_spec [OF kmem_ok_empty [OF assms(1)] i(1)] i(3) by auto
  moreover have "{i..<NPAGES} = {p. p < NPAGES \<and> kend s \<le> idx2pa p}"
    using i(3) by auto
  ultimately show thesis
    using that by (simp add: kinit_def freerange_def i(2))
qed

section \<open>The page-allocator interface\<close>

text \<open>
  What the clients of the allocator (\<^verbatim>\<open>addrspace.c\<close>, \<^verbatim>\<open>pipe.c\<close>, \<^verbatim>\<open>sem.c\<close>,
  \<^verbatim>\<open>taskmgr.c\<close>) rely on: an allocation fails exactly when nothing is free, and
  otherwise takes one page out of the free set and keeps the invariant.
\<close>

primrec alloc_n :: "('s \<Rightarrow> addr \<times> 's) \<Rightarrow> nat \<Rightarrow> 's \<Rightarrow> addr list \<times> 's" where
  "alloc_n alloc 0 s = ([], s)"
| "alloc_n alloc (Suc n) s =
     (let (a, s1) = alloc s; (as, s2) = alloc_n alloc n s1 in (a # as, s2))"

locale page_allocator =
  fixes inv :: "'s \<Rightarrow> bool"
    and avail :: "'s \<Rightarrow> addr set"
    and alloc :: "'s \<Rightarrow> addr \<times> 's"
  assumes avail_finite: "inv s \<Longrightarrow> finite (avail s)"
    and avail_nonnull: "inv s \<Longrightarrow> 0 \<notin> avail s"
    and alloc_fail: "inv s \<Longrightarrow> avail s = {} \<Longrightarrow> alloc s = (0, s)"
    and alloc_take: "inv s \<Longrightarrow> avail s \<noteq> {} \<Longrightarrow>
      \<exists>a s'. alloc s = (a, s') \<and> a \<in> avail s \<and> inv s' \<and> avail s' = avail s - {a}"
begin

lemma alloc_null_iff: "inv s \<Longrightarrow> fst (alloc s) = 0 \<longleftrightarrow> avail s = {}"
  by (metis alloc_fail alloc_take avail_nonnull fst_conv)

lemma alloc_n_distinct:
  assumes "inv s" "n \<le> card (avail s)"
  shows "distinct (fst (alloc_n alloc n s)) \<and> length (fst (alloc_n alloc n s)) = n \<and>
         set (fst (alloc_n alloc n s)) \<subseteq> avail s \<and> inv (snd (alloc_n alloc n s)) \<and>
         avail (snd (alloc_n alloc n s)) = avail s - set (fst (alloc_n alloc n s))"
  using assms
proof (induction n arbitrary: s)
  case (Suc n)
  then have "avail s \<noteq> {}" by auto
  then obtain a s1 where a: "alloc s = (a, s1)" "a \<in> avail s" "inv s1" "avail s1 = avail s - {a}"
    using alloc_take Suc.prems(1) by blast
  have "n \<le> card (avail s1)"
    using Suc.prems avail_finite [OF Suc.prems(1)] a(2) by (simp add: a(4))
  from Suc.IH [OF a(3) this] a show ?case
    by (cases "alloc_n alloc n s1") auto
qed simp

end

definition avail_pages :: "kmem \<Rightarrow> addr set" where
  "avail_pages s = idx2pa ` free_set s"

lemma inj_idx2pa: "kmem_ok s \<Longrightarrow> inj_on idx2pa (free_set s)"
  using free_setD(1) [of s] by (auto intro!: inj_onI simp: idx2pa_inj)

interpretation kmem_pages: page_allocator kmem_ok avail_pages kalloc
proof
  fix s
  assume ok: "kmem_ok s"
  have "free_set s \<subseteq> {..<NPAGES}"
    using free_setD(1) [OF ok] by auto
  then show "finite (avail_pages s)"
    unfolding avail_pages_def using finite_subset by blast
  show "0 \<notin> avail_pages s"
    using free_setD(1) [OF ok] idx2pa_nonzero by (fastforce simp: avail_pages_def)
  show "kalloc s = (0, s)" if "avail_pages s = {}"
    using kalloc_none [OF ok] that by (simp add: avail_pages_def)
  show "\<exists>a s'. kalloc s = (a, s') \<and> a \<in> avail_pages s \<and> kmem_ok s' \<and> avail_pages s' = avail_pages s - {a}"
    if "avail_pages s \<noteq> {}"
  proof -
    have ne: "free_set s \<noteq> {}" using that by (simp add: avail_pages_def)
    obtain i s' where i: "kalloc s = (idx2pa i, s')" "i \<in> free_set s" "kmem_ok s'"
        "free_set s' = free_set s - {i}"
      by (rule kalloc_some [OF ok ne])
    moreover have "idx2pa ` (free_set s - {i}) = idx2pa ` free_set s - {idx2pa i}"
      using inj_on_image_set_diff [OF inj_idx2pa [OF ok], of "free_set s" "{i}"] i(2) by simp
    ultimately show ?thesis by (auto simp: avail_pages_def)
  qed
qed

section \<open>Properties\<close>

text \<open>
  C12. \<^verbatim>\<open>kinit\<close> terminates without a panic for every kernel image that ends inside
  RAM, and leaves a well-formed allocator whose free pages are exactly the
  pages of RAM that start at or after the end of the kernel image.
\<close>

theorem kinit_frees_all_pages:
  assumes "KERNBASE \<le> kend s" "kend s \<le> PHYSTOP"
  shows "\<exists>s'. kinit s = Ok s' \<and> kmem_ok s' \<and> no_lost_page s' \<and>
           free_set s' = {p. p < NPAGES \<and> kend s \<le> idx2pa p}"
proof -
  obtain s' where s': "kinit s = Ok s'" "kmem_ok s'" "refcnt s' = (\<lambda>_. 0)" "kend s' = kend s"
      "free_set s' = {p. p < NPAGES \<and> kend s \<le> idx2pa p}"
    using kinit_spec [OF assms] .
  then have "no_lost_page s'" by (simp add: no_lost_page_def)
  with s' show ?thesis by blast
qed

definition boot_kmem :: kmem where
  "boot_kmem = \<lparr>phys = (\<lambda>_. 0), kend = 0x80030000, free_areas = (\<lambda>_. \<lparr>freelist = 0, nr_free = 0\<rparr>),
     refcnt = (\<lambda>_. 0), page_state = (\<lambda>_. 0)\<rparr>"

lemma boot_kmem_range: "KERNBASE \<le> kend boot_kmem" "kend boot_kmem \<le> PHYSTOP"
  by (simp_all add: boot_kmem_def layout_defs)

theorem kinit_frees_all_pages_witness:
  "\<exists>s'. kinit boot_kmem = Ok s' \<and> kmem_ok s' \<and> no_lost_page s' \<and> 48 \<in> free_set s' \<and> 47 \<notin> free_set s'"
proof -
  have "48 \<in> {p. p < NPAGES \<and> kend boot_kmem \<le> idx2pa p} \<and>
        47 \<notin> {p. p < NPAGES \<and> kend boot_kmem \<le> idx2pa p}"
    by (simp add: NPAGES_val boot_kmem_def idx2pa_def layout_defs)
  then show ?thesis
    using kinit_frees_all_pages [OF boot_kmem_range] by metis
qed

text \<open>An initialised allocator with free pages, for the witnesses below.\<close>

lemma booted_kmem:
  obtains s where "kinit boot_kmem = Ok s" "kmem_ok s" "free_set s \<noteq> {}" "kend s = 0x80030000"
    "refcnt s = (\<lambda>_. 0)" "100 \<in> free_set s"
proof -
  have "100 \<in> {p. p < NPAGES \<and> kend boot_kmem \<le> idx2pa p}"
    by (simp add: NPAGES_val boot_kmem_def idx2pa_def layout_defs)
  moreover have "kend boot_kmem = 0x80030000" by (simp add: boot_kmem_def)
  ultimately show thesis
    using kinit_spec [OF boot_kmem_range] that by (metis empty_iff)
qed

text \<open>
  C2. \<^verbatim>\<open>kalloc\<close> returns 0 and changes nothing exactly when no page is free.
  Otherwise it returns the address of a page that was free, removes exactly
  that page from the free set, gives it one reference, fills it with junk,
  keeps the allocator invariant and writes no byte of any page in use.
\<close>

theorem kalloc_takes_one_page:
  assumes "kmem_ok s"
  shows "if free_set s = {} then kalloc s = (0, s)
         else \<exists>i s'. kalloc s = (idx2pa i, s') \<and> idx2pa i \<noteq> 0 \<and> i \<in> free_set s \<and> kmem_ok s' \<and>
           free_set s' = free_set s - {i} \<and> refcnt s' = (refcnt s)(i := 1) \<and> kend s' = kend s \<and>
           (\<forall>x. PGROUNDDOWN x = idx2pa i \<longrightarrow> phys s' x = 5) \<and>
           (\<forall>x. x \<notin> pbytes (free_set s) \<longrightarrow> phys s' x = phys s x)"
proof (cases "free_set s = {}")
  case True
  then show ?thesis using kalloc_none [OF assms] by simp
next
  case False
  obtain i s' where i: "kalloc s = (idx2pa i, s')" "i \<in> free_set s" "kmem_ok s'"
    "free_set s' = free_set s - {i}" "refcnt s' = (refcnt s)(i := 1)" "kend s' = kend s"
    "\<And>x. PGROUNDDOWN x = idx2pa i \<Longrightarrow> phys s' x = 5"
    "\<And>x. x \<notin> pbytes (free_set s) \<Longrightarrow> phys s' x = phys s x"
    by (rule kalloc_some [OF assms False]) blast
  moreover have "idx2pa i \<noteq> 0"
    using free_setD(1) [OF assms i(2)] by (rule idx2pa_nonzero)
  ultimately show ?thesis
    unfolding if_not_P [OF False] by (intro exI [of _ i] exI [of _ s'] conjI) auto
qed

theorem kalloc_takes_one_page_witness:
  "\<exists>s i s'. kinit boot_kmem = Ok s \<and> kmem_ok s \<and> kalloc s = (idx2pa i, s') \<and>
     free_set s' = free_set s - {i} \<and> i \<in> free_set s"
proof -
  obtain s where s: "kinit boot_kmem = Ok s" "kmem_ok s" "free_set s \<noteq> {}"
    by (rule booted_kmem)
  then show ?thesis
    using kalloc_takes_one_page [OF s(2)] unfolding if_not_P [OF s(3)] by blast
qed

text \<open>
  C3. \<^verbatim>\<open>kfree\<close> always returns or panics (the walk over the free lists and the
  coalescing loop end), and is decided by the address and the reference count:
  a bad address and an unreferenced page panic, a shared page loses one
  reference, and the last reference gives exactly that page back to the free
  set, restores the invariant (with the buddies merged) and touches only bytes of
  free pages and of the page itself.
\<close>

theorem kfree_cases:
  assumes "kmem_ok s"
  shows "if \<not> page_addr s pa then kfree pa s = Panic ''kfree''
         else if refcnt s (pa2idx pa) = 0 then kfree pa s = Panic ''kfree: ref''
         else if refcnt s (pa2idx pa) \<noteq> 1
           then kfree pa s = Ok (s\<lparr>refcnt := (refcnt s)(pa2idx pa := refcnt s (pa2idx pa) - 1)\<rparr>)
         else \<exists>s'. kfree pa s = Ok s' \<and> kmem_ok s' \<and>
           free_set s' = insert (pa2idx pa) (free_set s) \<and> pa2idx pa \<notin> free_set s \<and>
           refcnt s' = (refcnt s)(pa2idx pa := 0) \<and> kend s' = kend s \<and>
           (\<forall>x. x \<notin> pbytes (insert (pa2idx pa) (free_set s)) \<longrightarrow> phys s' x = phys s x)"
proof -
  let ?r = "refcnt s (pa2idx pa)"
  consider "\<not> page_addr s pa" | "page_addr s pa" "?r = 0" | "page_addr s pa" "?r \<noteq> 0" "?r \<noteq> 1"
    | "page_addr s pa" "?r = 1" by blast
  then show ?thesis
  proof cases
    case 3
    then have "1 < ?r" by (simp add: word_less_nat_alt unat_eq_0 [symmetric] word_unat_eq_iff)
    with 3 show ?thesis by (simp add: kfree_shared)
  next
    case 4
    obtain s' where s': "kfree pa s = Ok s'" "kmem_ok s'" "free_set s' = insert (pa2idx pa) (free_set s)"
        "refcnt s' = (refcnt s)(pa2idx pa := 0)" "kend s' = kend s"
        "\<And>x. x \<notin> pbytes (insert (pa2idx pa) (free_set s)) \<Longrightarrow> phys s' x = phys s x"
      by (rule kfree_last [OF assms 4]) blast
    moreover have "pa2idx pa \<notin> free_set s"
      using free_setD(2) [OF assms] 4(2) by (metis zero_neq_one)
    ultimately have "\<exists>s'. kfree pa s = Ok s' \<and> kmem_ok s' \<and>
           free_set s' = insert (pa2idx pa) (free_set s) \<and> pa2idx pa \<notin> free_set s \<and>
           refcnt s' = (refcnt s)(pa2idx pa := 0) \<and> kend s' = kend s \<and>
           (\<forall>x. x \<notin> pbytes (insert (pa2idx pa) (free_set s)) \<longrightarrow> phys s' x = phys s x)"
      by (intro exI [of _ s'] conjI) auto
    then show ?thesis using 4 by simp
  qed (simp_all add: kfree_panic)
qed

lemma allocated_kmem:
  obtains s i where "kmem_ok s" "i < NPAGES" "refcnt s i = 1" "page_addr s (idx2pa i)"
proof -
  obtain s0 where s0: "kmem_ok s0" "free_set s0 \<noteq> {}"
    by (rule booted_kmem)
  obtain i s where s: "i \<in> free_set s0" "kmem_ok s" "refcnt s = (refcnt s0)(i := 1)" "kend s = kend s0"
    by (rule kalloc_some [OF s0])
  then show thesis
    using that [of s i] free_setD [OF s0(1) s(1)] idx2pa_range [of i] by (simp add: page_addr_def)
qed

theorem kfree_cases_witness:
  "\<exists>s i s'. kmem_ok s \<and> i \<notin> free_set s \<and> kfree (idx2pa i) s = Ok s' \<and> free_set s' = insert i (free_set s)"
proof -
  obtain s i where s: "kmem_ok s" "i < NPAGES" "refcnt s i = 1" "page_addr s (idx2pa i)"
    by (rule allocated_kmem)
  then show ?thesis
    using kfree_cases [OF s(1), of "idx2pa i"] by auto
qed

section \<open>Histories\<close>

text \<open>
  \<open>kmem_reach s0 w s\<close>: from the boot state \<open>s0\<close> the allocator reaches \<open>s\<close> by any
  sequence of its operations and of writes by owners of allocated pages. \<open>w\<close> says
  whether a \<^verbatim>\<open>kaddref\<close> has met a page with 65535 references: the 16-bit counter,
  which nothing guards, then wraps to 0.
\<close>

inductive kmem_reach :: "kmem \<Rightarrow> bool \<Rightarrow> kmem \<Rightarrow> bool" for s0 where
  boot: "kinit s0 = Ok s \<Longrightarrow> kmem_reach s0 False s"
| alloc: "kmem_reach s0 w s \<Longrightarrow> kalloc s = (r, s') \<Longrightarrow> kmem_reach s0 w s'"
| free: "kmem_reach s0 w s \<Longrightarrow> kfree pa s = Ok s' \<Longrightarrow> kmem_reach s0 w s'"
| addref: "kmem_reach s0 w s \<Longrightarrow> kaddref pa s = Ok s' \<Longrightarrow> kmem_reach s0 (w \<or> refcnt s (pa2idx pa) = 0xFFFF) s'"
| owner_write: "kmem_reach s0 w s \<Longrightarrow> (\<forall>x \<in> pbytes (free_set s). m x = phys s x) \<Longrightarrow>
    kmem_reach s0 w (s\<lparr>phys := m\<rparr>)"

definition acct_ok :: "bool \<Rightarrow> kmem \<Rightarrow> bool" where
  "acct_ok w s \<longleftrightarrow> kmem_ok s \<and> (\<not> w \<longrightarrow> no_lost_page s)"

lemma acct_ok_upd:
  assumes "acct_ok w s" "kmem_ok s'" "kend s' = kend s" "i < NPAGES"
    and "\<And>p. p \<noteq> i \<Longrightarrow> (p \<in> free_set s' \<longleftrightarrow> p \<in> free_set s) \<and> refcnt s' p = refcnt s p"
    and "\<not> w' \<Longrightarrow> \<not> w \<and> (i \<in> free_set s' \<longleftrightarrow> refcnt s' i = 0)"
  shows "acct_ok w' s'"
  unfolding acct_ok_def no_lost_page_def
proof (intro conjI allI impI)
  fix p
  assume w: "\<not> w'" and "p < NPAGES" "kend s' \<le> idx2pa p"
  with assms(1,3,6) have "p \<in> free_set s \<longleftrightarrow> refcnt s p = 0"
    by (simp add: acct_ok_def no_lost_page_def)
  then show "p \<in> free_set s' \<longleftrightarrow> refcnt s' p = 0"
    using assms(5) [of p] assms(6) [OF w] by (cases "p = i") auto
qed (rule assms(2))

lemma acct_ok_kalloc: "acct_ok w s \<Longrightarrow> kalloc s = (r, s') \<Longrightarrow> acct_ok w s' \<and> kend s' = kend s"
proof (cases "free_set s = {}")
  case False
  assume a: "acct_ok w s" "kalloc s = (r, s')"
  then have ok: "kmem_ok s" by (simp add: acct_ok_def)
  obtain i where i: "i \<in> free_set s" "kmem_ok s'" "free_set s' = free_set s - {i}"
      "refcnt s' = (refcnt s)(i := 1)" "kend s' = kend s"
    by (rule kalloc_some [OF ok False]) (use a(2) in auto)
  then show ?thesis
    using acct_ok_upd [OF a(1) i(2,5) free_setD(1) [OF ok i(1)], of w] by simp
qed (use kalloc_none in \<open>auto simp: acct_ok_def\<close>)

lemma acct_ok_kfree:
  assumes a: "acct_ok w s" and f: "kfree pa s = Ok s'"
  shows "acct_ok w s' \<and> kend s' = kend s"
proof -
  have ok: "kmem_ok s" using a by (simp add: acct_ok_def)
  let ?i = "pa2idx pa"
  have pa: "page_addr s pa" and r: "refcnt s ?i \<noteq> 0"
    using f kfree_panic [of s pa] by (metis res.distinct(1))+
  have i: "?i < NPAGES" using page_addr_idx(1) [OF pa kmem_ok_kend [OF ok]] .
  have nf: "?i \<notin> free_set s" using free_setD(2) [OF ok] r by blast
  show ?thesis
  proof (cases "refcnt s ?i = 1")
    case True
    obtain t where t: "kfree pa s = Ok t" "kmem_ok t" "free_set t = insert ?i (free_set s)"
        "refcnt t = (refcnt s)(?i := 0)" "kend t = kend s"
      by (rule kfree_last [OF ok pa True])
    then show ?thesis using f acct_ok_upd [OF a t(2,5) i, of w] by simp
  next
    case False
    then have "1 < refcnt s ?i"
      using r by (simp add: word_less_nat_alt unat_eq_0 [symmetric] word_unat_eq_iff)
    then have s': "s' = s\<lparr>refcnt := (refcnt s)(?i := refcnt s ?i - 1)\<rparr>"
      using kfree_shared [OF pa] f by simp
    show ?thesis
      using acct_ok_upd [OF a _ _ i, of s' w] kmem_ok_refcnt [OF ok nf] nf False by (simp add: s')
  qed
qed

lemma kaddref_counts:
  assumes "kmem_ok s" "kaddref pa s = Ok s'"
  shows "pa2idx pa < NPAGES" "idx2pa (pa2idx pa) = pa" "pa2idx pa \<notin> free_set s" "kmem_ok s'"
    "s' = s\<lparr>refcnt := (refcnt s)(pa2idx pa := refcnt s (pa2idx pa) + 1)\<rparr>"
    "refcnt s (pa2idx pa) + 1 = 0 \<longleftrightarrow> refcnt s (pa2idx pa) = 0xFFFF"
proof -
  let ?i = "pa2idx pa"
  have pa: "pa mod PGSIZE = 0" "KERNBASE \<le> pa" "pa < PHYSTOP" and r: "refcnt s ?i \<noteq> 0"
    and s': "s' = s\<lparr>refcnt := (refcnt s)(?i := refcnt s ?i + 1)\<rparr>"
    using assms(2) by (auto simp: kaddref_def Let_def not_le not_less split: if_splits)
  show "?i < NPAGES" "idx2pa ?i = pa" by (rule pa2idx_valid [OF pa])+
  show nf: "?i \<notin> free_set s" using free_setD(2) [OF assms(1)] r by blast
  show "s' = s\<lparr>refcnt := (refcnt s)(?i := refcnt s ?i + 1)\<rparr>" by (rule s')
  show "kmem_ok s'" using kmem_ok_refcnt [OF assms(1) nf] by (simp add: s')
  have "(0xFFFF :: uint16) = -1" by simp
  then show "refcnt s ?i + 1 = 0 \<longleftrightarrow> refcnt s ?i = 0xFFFF" by (metis add_eq_0_iff2)
qed

lemma acct_ok_kaddref:
  assumes a: "acct_ok w s" and f: "kaddref pa s = Ok s'"
  shows "acct_ok (w \<or> refcnt s (pa2idx pa) = 0xFFFF) s' \<and> kend s' = kend s"
proof -
  have ok: "kmem_ok s" using a by (simp add: acct_ok_def)
  note k = kaddref_counts [OF ok f]
  have "kend s' = kend s" by (simp add: k(5))
  moreover have "p \<in> free_set s' \<longleftrightarrow> p \<in> free_set s" for p by (simp add: k(5) free_set_def)
  ultimately show ?thesis
    using acct_ok_upd [OF a k(4) _ k(1), of "w \<or> refcnt s (pa2idx pa) = 0xFFFF"] k(3,6) by (simp add: k(5))
qed

text \<open>The reference that wraps the counter loses its page.\<close>

lemma kaddref_loses:
  assumes "kmem_ok s" "no_lost_page s" "kend s \<le> pa" "kaddref pa s = Ok s'"
  shows "no_lost_page s' \<longleftrightarrow> refcnt s (pa2idx pa) \<noteq> 0xFFFF"
proof
  note k = kaddref_counts [OF assms(1,4)]
  have f: "free_set s' = free_set s" "kend s' = kend s" "refcnt s' (pa2idx pa) = refcnt s (pa2idx pa) + 1"
    by (simp_all add: k(5) free_set_def)
  show "refcnt s (pa2idx pa) \<noteq> 0xFFFF" if "no_lost_page s'"
    using that k(1-3) assms(3) k(6) unfolding no_lost_page_def f(1,2) by (metis f(3))
  show "no_lost_page s'" if "refcnt s (pa2idx pa) \<noteq> 0xFFFF"
    using acct_ok_kaddref [of False, OF _ assms(4)] assms(1,2) that by (simp add: acct_ok_def)
qed

text \<open>
  C13. In every history of the allocator, whatever the owners of allocated pages
  write, the free lists stay well formed. Unless a reference count has wrapped, no
  page is lost: every page above the kernel is either free or has a reference.
  And the count wraps exactly at a \<^verbatim>\<open>kaddref\<close> of a page with 65535 references, which
  \<^verbatim>\<open>kaddref\<close> does not refuse: from then on the page is neither free nor has a
  reference.
\<close>

theorem kmem_reach_safe:
  assumes "KERNBASE \<le> kend s0" "kend s0 \<le> PHYSTOP" and "kmem_reach s0 w s"
  shows "kmem_ok s \<and> kend s = kend s0 \<and>
    (\<not> w \<longrightarrow> no_lost_page s \<and>
       (\<forall>pa s'. kend s0 \<le> pa \<and> kaddref pa s = Ok s' \<longrightarrow> (no_lost_page s' \<longleftrightarrow> refcnt s (pa2idx pa) \<noteq> 0xFFFF)))"
proof -
  have "acct_ok w s \<and> kend s = kend s0"
    using assms(3)
  proof induction
    case (boot s)
    obtain s' where "kinit s0 = Ok s'" "kmem_ok s'" "refcnt s' = (\<lambda>_. 0)" "kend s' = kend s0"
        "free_set s' = {p. p < NPAGES \<and> kend s0 \<le> idx2pa p}"
      by (rule kinit_spec [OF assms(1,2)])
    then show ?case using boot by (simp add: acct_ok_def no_lost_page_def)
  next
    case (owner_write w s m)
    then have "kmem_ok (s\<lparr>phys := m\<rparr>)"
      by (intro kmem_ok_write) (auto simp: acct_ok_def)
    with owner_write show ?case
      by (simp add: acct_ok_def no_lost_page_def free_set_def)
  qed (use acct_ok_kalloc acct_ok_kfree acct_ok_kaddref in metis)+
  then show ?thesis using kaddref_loses by (auto simp: acct_ok_def)
qed

theorem kmem_reach_safe_witness:
  "\<exists>s r s'. kmem_reach boot_kmem False s \<and> kalloc s = (r, s') \<and> kmem_ok s' \<and> no_lost_page s' \<and> 100 \<in> free_set s"
proof -
  obtain s where s: "kinit boot_kmem = Ok s" "100 \<in> free_set s"
    by (rule booted_kmem)
  obtain r s' where a: "kalloc s = (r, s')" by fastforce
  have "kmem_reach boot_kmem False s" using s(1) by (rule kmem_reach.boot)
  moreover from this have "kmem_reach boot_kmem False s'" using a by (rule kmem_reach.alloc)
  ultimately show ?thesis
    using kmem_reach_safe [OF boot_kmem_range, of False s'] a s(2) by blast
qed

text \<open>
  C32. As long as enough pages are free, \<open>n\<close> successive calls of \<^verbatim>\<open>kalloc\<close> return
  \<open>n\<close> different pages, none of them 0, all of them free before.
\<close>

theorem kalloc_n_distinct:
  assumes "kmem_ok s" "n \<le> card (free_set s)"
  shows "distinct (fst (alloc_n kalloc n s)) \<and> length (fst (alloc_n kalloc n s)) = n \<and>
         0 \<notin> set (fst (alloc_n kalloc n s)) \<and> set (fst (alloc_n kalloc n s)) \<subseteq> avail_pages s \<and>
         avail_pages (snd (alloc_n kalloc n s)) = avail_pages s - set (fst (alloc_n kalloc n s))"
proof -
  have "n \<le> card (avail_pages s)"
    using assms card_image [OF inj_idx2pa [OF assms(1)]] by (simp add: avail_pages_def)
  from kmem_pages.alloc_n_distinct [OF assms(1) this] kmem_pages.avail_nonnull [OF assms(1)]
  show ?thesis by blast
qed

theorem kalloc_n_distinct_witness:
  "\<exists>s r1 r2 r3. kmem_ok s \<and> fst (alloc_n kalloc 3 s) = [r1, r2, r3] \<and> distinct [r1, r2, r3] \<and> 0 \<notin> {r1, r2, r3}"
proof -
  obtain s where s: "kinit boot_kmem = Ok s" "kmem_ok s" "100 \<in> free_set s"
    by (rule booted_kmem)
  have fs: "free_set s = {p. p < NPAGES \<and> kend boot_kmem \<le> idx2pa p}"
    by (rule kinit_spec [OF boot_kmem_range]) (use s(1) in simp)
  have "{100, 101, 102} \<subseteq> free_set s"
    unfolding fs by (simp add: NPAGES_val boot_kmem_def idx2pa_def layout_defs)
  moreover have "finite (free_set s)"
    unfolding fs by simp
  ultimately have "3 \<le> card (free_set s)"
    using card_mono [of "free_set s" "{100, 101, 102}"] by simp
  note d = kalloc_n_distinct [OF s(2) this]
  have "\<exists>a b c. xs = [a, b, c]" if "length xs = 3" for xs :: "addr list"
    using that by (auto simp: length_Suc_conv numeral_3_eq_3)
  from this [OF conjunct1 [OF conjunct2 [OF d]]]
  obtain r1 r2 r3 where r: "fst (alloc_n kalloc 3 s) = [r1, r2, r3]" by blast
  show ?thesis
    using d s(2) unfolding r by (intro exI [of _ s] exI [of _ r1] exI [of _ r2] exI [of _ r3]) (simp add: r)
qed

end
