(* ===== verification/Regions.thy ===== *)
theory Regions
  imports Riscv "HOL-Library.Multiset"
begin

text \<open>
  The region table of an address space (\<^verbatim>\<open>kernel/proc.h\<close> and the \<^verbatim>\<open>as_*\<close> routines of
  \<^verbatim>\<open>kernel/addrspace.c\<close>). \<open>regions\<close> is the used part
  \<^verbatim>\<open>regions[0..region_count)\<close> of the array, so \<^verbatim>\<open>region_count\<close> is its length; an
  \<^verbatim>\<open>addr_space\<close> pointer is never null here, as at every call site.
\<close>

section \<open>State\<close>

datatype mr_type = MR_FREE | MR_TEXT | MR_HEAP | MR_STACK | MR_MMIO | MR_TRAPFRAME | MR_TRAMPOLINE

definition MAX_MREGIONS :: nat where "MAX_MREGIONS = 16"

record mem_region =
  va_start :: uint32
  va_end :: uint32
  mtype :: mr_type
  perm :: uint32

record addr_space =
  pagetable :: addr
  regions :: "mem_region list"

section \<open>Operations\<close>

primrec region_index :: "mem_region list \<Rightarrow> mr_type \<Rightarrow> nat option" where
  "region_index [] ty = None"
| "region_index (r # rs) ty = (if mtype r = ty then Some 0 else map_option Suc (region_index rs ty))"

definition as_region_index :: "addr_space \<Rightarrow> mr_type \<Rightarrow> nat option" where
  "as_region_index as ty = region_index (regions as) ty"

definition as_region_do_free :: "mr_type \<Rightarrow> bool" where
  "as_region_do_free ty \<longleftrightarrow> ty \<noteq> MR_MMIO \<and> ty \<noteq> MR_TRAPFRAME \<and> ty \<noteq> MR_TRAMPOLINE"

definition as_region_map_start :: "mem_region \<Rightarrow> uint32" where
  "as_region_map_start r = PGROUNDDOWN (va_start r)"

definition as_region_map_npages :: "mem_region \<Rightarrow> uint32" where
  "as_region_map_npages r =
     (if va_end r \<le> va_start r then 0
      else (PGROUNDUP (va_end r) - PGROUNDDOWN (va_start r)) div PGSIZE)"

definition overlaps :: "uint32 \<Rightarrow> uint32 \<Rightarrow> mem_region \<Rightarrow> bool" where
  "overlaps s e r \<longleftrightarrow> \<not> (e \<le> va_start r \<or> s \<ge> va_end r)"

primrec insert_pos :: "uint32 \<Rightarrow> mem_region list \<Rightarrow> nat" where
  "insert_pos s [] = 0"
| "insert_pos s (r # rs) = (if s < va_start r then 0 else Suc (insert_pos s rs))"

definition as_add_region :: "addr_space \<Rightarrow> uint32 \<Rightarrow> uint32 \<Rightarrow> mr_type \<Rightarrow> uint32 \<Rightarrow> addr_space option" where
  "as_add_region as s e ty pm =
     (if pagetable as = 0 then None
      else if s mod PGSIZE \<noteq> 0 then None
      else if ty \<noteq> MR_HEAP \<and> e mod PGSIZE \<noteq> 0 then None
      else if e < s \<or> (ucast e :: uint64) > TRAPFRAME then None
      else if length (regions as) \<ge> MAX_MREGIONS then None
      else if as_region_index as ty \<noteq> None then None
      else if list_ex (overlaps s e) (regions as) then None
      else let ins = insert_pos s (regions as)
           in Some (as\<lparr>regions := take ins (regions as) @
                \<lparr>va_start = s, va_end = e, mtype = ty, perm = pm\<rparr> # drop ins (regions as)\<rparr>))"

definition as_find_region :: "addr_space \<Rightarrow> uint32 \<Rightarrow> mem_region option" where
  "as_find_region as va = find (\<lambda>r. va \<ge> va_start r \<and> va < va_end r) (regions as)"

definition drop_region :: "nat \<Rightarrow> addr_space \<Rightarrow> addr_space" where
  "drop_region idx as = as\<lparr>regions := take idx (regions as) @ drop (Suc idx) (regions as)\<rparr>"

definition as_region_start :: "addr_space \<Rightarrow> mr_type \<Rightarrow> uint32" where
  "as_region_start as ty =
     (case as_region_index as ty of None \<Rightarrow> 0 | Some idx \<Rightarrow> va_start (regions as ! idx))"

definition as_region_size :: "addr_space \<Rightarrow> mr_type \<Rightarrow> uint32" where
  "as_region_size as ty =
     (case as_region_index as ty of None \<Rightarrow> 0
      | Some idx \<Rightarrow> va_end (regions as ! idx) - va_start (regions as ! idx))"

definition as_resize_region :: "addr_space \<Rightarrow> mr_type \<Rightarrow> uint32 \<Rightarrow> addr_space option" where
  "as_resize_region as ty new_end =
     (if (ucast new_end :: uint64) > TRAPFRAME then None
      else case as_region_index as ty of
        None \<Rightarrow> None
      | Some idx \<Rightarrow>
          let s = va_start (regions as ! idx)
          in if new_end < s then None
             else if list_ex (\<lambda>i. i \<noteq> idx \<and> overlaps s new_end (regions as ! i)) [0..<length (regions as)]
             then None
             else Some (as\<lparr>regions := (regions as)[idx := (regions as ! idx)\<lparr>va_end := new_end\<rparr>]\<rparr>))"

section \<open>The invariant\<close>

definition region_ok :: "mem_region \<Rightarrow> bool" where
  "region_ok r \<longleftrightarrow> unat (va_start r) mod 4096 = 0 \<and> va_start r \<le> va_end r \<and>
     (ucast (va_end r) :: uint64) \<le> TRAPFRAME \<and> (mtype r = MR_HEAP \<or> unat (va_end r) mod 4096 = 0)"

definition apart :: "mem_region \<Rightarrow> mem_region \<Rightarrow> bool" where
  "apart r r' \<longleftrightarrow> va_end r \<le> va_start r' \<or> va_end r' \<le> va_start r"

definition regions_ok :: "mem_region list \<Rightarrow> bool" where
  "regions_ok rs \<longleftrightarrow> length rs \<le> MAX_MREGIONS \<and> list_all region_ok rs \<and> distinct (map mtype rs) \<and>
     sorted (map va_start rs) \<and> pairwise apart (set rs)"

lemma region_index_None: "region_index rs ty = None \<longleftrightarrow> ty \<notin> mtype ` set rs"
  by (induction rs) auto

lemma region_index_Some:
  "region_index rs ty = Some i \<Longrightarrow> i < length rs \<and> mtype (rs ! i) = ty"
  by (induction rs arbitrary: i) (auto split: if_splits)

lemma region_index_distinct:
  "distinct (map mtype rs) \<Longrightarrow> i < length rs \<Longrightarrow> region_index rs (mtype (rs ! i)) = Some i"
proof (induction rs arbitrary: i)
  case (Cons r rs)
  then show ?case by (cases i) auto
qed simp

lemma insert_pos_le: "insert_pos s rs \<le> length rs"
  by (induction rs) auto

abbreviation insert_at :: "nat \<Rightarrow> 'a \<Rightarrow> 'a list \<Rightarrow> 'a list" where
  "insert_at i x xs \<equiv> take i xs @ x # drop i xs"

lemma set_insert_at: "set (insert_at i x xs) = insert x (set xs)"
proof -
  have "set (insert_at i x xs) = insert x (set (take i xs @ drop i xs))"
    by (simp only: set_append list.set) blast
  then show ?thesis by simp
qed

lemma distinct_map_insert_at: "distinct (map f (insert_at i x xs)) \<longleftrightarrow> distinct (map f (x # xs))"
proof -
  have "mset (insert_at i x xs) = mset (x # take i xs @ drop i xs)"
    by (simp del: append_take_drop_id)
  then have "mset (map f (insert_at i x xs)) = mset (map f (x # xs))"
    by (metis append_take_drop_id mset_map)
  then show ?thesis by (rule mset_eq_imp_distinct_iff)
qed

lemma insert_pos_sorted:
  "sorted (map va_start rs) \<Longrightarrow> sorted (map va_start (insert_at (insert_pos (va_start r) rs) r rs))"
proof (induction rs)
  case (Cons r' rs)
  show ?case
  proof (cases "va_start r < va_start r'")
    case False
    have "\<forall>x \<in> set (insert_at (insert_pos (va_start r) rs) r rs). va_start r' \<le> va_start x"
      unfolding set_insert_at using False Cons.prems by auto
    then show ?thesis using False Cons by (auto simp: image_iff)
  qed (use Cons.prems in \<open>auto intro: order_trans less_imp_le\<close>)
qed simp

lemma overlaps_apart: "\<not> overlaps (va_start r) (va_end r) r' \<longleftrightarrow> apart r r'"
  by (simp add: overlaps_def apart_def)

lemma apart_commute: "apart r r' \<longleftrightarrow> apart r' r"
  by (auto simp: apart_def)

lemma mod_PGSIZE: "x mod PGSIZE = 0 \<longleftrightarrow> unat x mod 4096 = 0"
  by (simp add: word_unat_eq_iff unat_mod_distrib layout_vals)

lemma as_add_region_cases:
  assumes "as_add_region as s e ty pm = Some as'"
  defines "r \<equiv> \<lparr>va_start = s, va_end = e, mtype = ty, perm = pm\<rparr>"
  shows "as' = as\<lparr>regions := insert_at (insert_pos s (regions as)) r (regions as)\<rparr>"
    and "region_ok r" "length (regions as) < MAX_MREGIONS" "ty \<notin> mtype ` set (regions as)"
    and "\<forall>r' \<in> set (regions as). apart r r'"
proof -
  note a = assms(1) [unfolded as_add_region_def Let_def]
  show "as' = as\<lparr>regions := insert_at (insert_pos s (regions as)) r (regions as)\<rparr>"
    using a by (simp add: r_def split: if_splits)
  show "region_ok r"
    using a by (auto simp: region_ok_def r_def mod_PGSIZE not_less split: if_splits)
  show "length (regions as) < MAX_MREGIONS" using a by (simp split: if_splits)
  show "ty \<notin> mtype ` set (regions as)"
    using a by (simp add: as_region_index_def region_index_None split: if_splits)
  show "\<forall>r' \<in> set (regions as). apart r r'"
    using a by (auto simp: r_def overlaps_apart [symmetric] list_ex_iff split: if_splits)
qed

lemma regions_ok_add:
  assumes "regions_ok (regions as)" "as_add_region as s e ty pm = Some as'"
  shows "regions_ok (regions as')"
proof -
  let ?r = "\<lparr>va_start = s, va_end = e, mtype = ty, perm = pm\<rparr>"
  note c = as_add_region_cases [OF assms(2)]
  have "regions as' = insert_at (insert_pos (va_start ?r) (regions as)) ?r (regions as)"
    using c(1) by simp
  moreover have "pairwise apart (insert ?r (set (regions as)))"
    using assms(1) c(5) by (auto simp: regions_ok_def pairwise_insert apart_commute)
  moreover have "list_all region_ok (insert_at i ?r (regions as))" for i
    using assms(1) c(2) by (simp only: list_all_iff set_insert_at regions_ok_def) auto
  moreover have "length (insert_at i ?r (regions as)) \<le> MAX_MREGIONS" for i
    using c(3) by (simp add: min_def)
  moreover have "sorted (map va_start (regions as))" "distinct (map mtype (regions as))"
    using assms(1) by (simp_all add: regions_ok_def)
  ultimately show ?thesis
    using insert_pos_sorted [of "regions as" ?r] c(4)
    by (simp only: regions_ok_def set_insert_at distinct_map_insert_at) simp
qed

lemma as_resize_region_cases:
  assumes "as_resize_region as ty e = Some as'"
  obtains i where "region_index (regions as) ty = Some i" "i < length (regions as)"
    "mtype (regions as ! i) = ty"
    "as' = as\<lparr>regions := (regions as)[i := (regions as ! i)\<lparr>va_end := e\<rparr>]\<rparr>"
    "va_start (regions as ! i) \<le> e" "(ucast e :: uint64) \<le> TRAPFRAME"
    "\<And>j. j < length (regions as) \<Longrightarrow> j \<noteq> i \<Longrightarrow> apart ((regions as ! i)\<lparr>va_end := e\<rparr>) (regions as ! j)"
proof -
  from assms obtain i where i: "region_index (regions as) ty = Some i"
    by (auto simp: as_resize_region_def as_region_index_def split: if_splits option.splits)
  have il: "i < length (regions as)" "mtype (regions as ! i) = ty"
    using region_index_Some [OF i] by simp_all
  from assms i have g: "\<not> TRAPFRAME < (ucast e :: uint64)" "\<not> e < va_start (regions as ! i)"
      "\<not> list_ex (\<lambda>j. j \<noteq> i \<and> overlaps (va_start (regions as ! i)) e (regions as ! j)) [0..<length (regions as)]"
    and "as' = as\<lparr>regions := (regions as)[i := (regions as ! i)\<lparr>va_end := e\<rparr>]\<rparr>"
    by (auto simp: as_resize_region_def as_region_index_def Let_def split: if_splits)
  moreover have "apart ((regions as ! i)\<lparr>va_end := e\<rparr>) (regions as ! j)"
    if "j < length (regions as)" "j \<noteq> i" for j
    using g(3) that overlaps_apart [of "(regions as ! i)\<lparr>va_end := e\<rparr>" "regions as ! j"]
    by (auto simp: list_ex_iff)
  ultimately show thesis using that [OF i il] by (simp add: not_less)
qed

lemma regions_ok_resize:
  assumes ok: "regions_ok (regions as)" and r: "as_resize_region as ty e = Some as'"
    and al: "ty = MR_HEAP \<or> unat e mod 4096 = 0"
  shows "regions_ok (regions as')"
proof -
  obtain i where i: "i < length (regions as)" "mtype (regions as ! i) = ty"
    "as' = as\<lparr>regions := (regions as)[i := (regions as ! i)\<lparr>va_end := e\<rparr>]\<rparr>"
    "va_start (regions as ! i) \<le> e" "(ucast e :: uint64) \<le> TRAPFRAME"
    "\<And>j. j < length (regions as) \<Longrightarrow> j \<noteq> i \<Longrightarrow> apart ((regions as ! i)\<lparr>va_end := e\<rparr>) (regions as ! j)"
    by (rule as_resize_region_cases [OF r]) blast
  let ?rs = "regions as" and ?r = "(regions as ! i)\<lparr>va_end := e\<rparr>"
  have m: "map va_start (?rs[i := ?r]) = map va_start ?rs" "map mtype (?rs[i := ?r]) = map mtype ?rs"
    using i(1) by (simp_all add: map_update list_update_same_conv)
  have ri: "region_ok (?rs ! i)" using ok i(1) by (simp add: regions_ok_def list_all_length)
  then have "region_ok ?r" using i(2,4,5) al by (simp add: region_ok_def)
  then have "list_all region_ok (?rs[i := ?r])"
    using ok by (auto simp: regions_ok_def list_all_iff dest!: subsetD [OF set_update_subset_insert])
  moreover have "pairwise apart (set (?rs[i := ?r]))"
  proof (rule pairwiseI)
    fix x y
    assume "x \<in> set (?rs[i := ?r])" "y \<in> set (?rs[i := ?r])" "x \<noteq> y"
    then obtain j k where jk: "j < length ?rs" "k < length ?rs" "j \<noteq> k" "x = ?rs[i := ?r] ! j" "y = ?rs[i := ?r] ! k"
      by (metis in_set_conv_nth length_list_update)
    have "?rs ! j \<noteq> ?rs ! k"
      using ok jk(1-3) by (metis distinct_conv_nth distinct_map regions_ok_def)
    then have "apart (?rs ! j) (?rs ! k)"
      using ok jk(1,2) by (simp add: regions_ok_def pairwise_def)
    then show "apart x y"
      using jk i(6) [of j] i(6) [of k] by (cases "j = i"; cases "k = i") (simp_all add: apart_commute)
  qed
  ultimately show ?thesis
    using ok m i(3) by (simp add: regions_ok_def)
qed

lemma regions_ok_delete: "regions_ok (as @ r # bs) \<Longrightarrow> regions_ok (as @ bs)"
  by (auto simp: regions_ok_def sorted_append pairwise_insert list_all_iff)

lemma regions_ok_drop:
  assumes "regions_ok (regions as)"
  shows "regions_ok (regions (drop_region i as))"
proof (cases "i < length (regions as)")
  case True
  have "regions as = take i (regions as) @ regions as ! i # drop (Suc i) (regions as)"
    using True by (simp add: Cons_nth_drop_Suc)
  then show ?thesis
    using regions_ok_delete assms by (metis drop_region_def addr_space.select_convs(2) addr_space.surjective
        addr_space.update_convs(2))
qed (use assms in \<open>simp add: drop_region_def\<close>)

lemma as_find_region_iff:
  assumes "regions_ok (regions as)"
  shows "as_find_region as va = Some r \<longleftrightarrow> r \<in> set (regions as) \<and> va_start r \<le> va \<and> va < va_end r"
proof
  assume "as_find_region as va = Some r"
  then show "r \<in> set (regions as) \<and> va_start r \<le> va \<and> va < va_end r"
    unfolding as_find_region_def find_Some_iff by (metis nth_mem)
next
  assume r: "r \<in> set (regions as) \<and> va_start r \<le> va \<and> va < va_end r"
  then obtain r' where r': "as_find_region as va = Some r'"
    unfolding as_find_region_def by (metis (no_types, lifting) find_None_iff option.exhaust)
  then have "r' \<in> set (regions as) \<and> va_start r' \<le> va \<and> va < va_end r'"
    unfolding as_find_region_def find_Some_iff by (metis nth_mem)
  moreover have "r = r'" if "r' \<in> set (regions as)" "\<not> apart r r'"
    using assms r that by (auto simp: regions_ok_def pairwise_def)
  ultimately show "as_find_region as va = Some r"
    using r r' unfolding apart_def by (metis leD le_less_trans)
qed

section \<open>Histories of a region table\<close>

inductive as_reach :: "addr \<Rightarrow> addr_space \<Rightarrow> bool" for pt where
  create: "as_reach pt \<lparr>pagetable = pt, regions = []\<rparr>"
| add: "as_reach pt as \<Longrightarrow> as_add_region as s e ty pm = Some as' \<Longrightarrow> as_reach pt as'"
| resize: "as_reach pt as \<Longrightarrow> as_resize_region as MR_HEAP e = Some as' \<Longrightarrow> as_reach pt as'"
| remove: "as_reach pt as \<Longrightarrow> as_region_index as ty = Some idx \<Longrightarrow> as_reach pt (drop_region idx as)"

lemma as_reach_ok: "as_reach pt as \<Longrightarrow> regions_ok (regions as)"
proof (induction rule: as_reach.induct)
  case create
  then show ?case by (simp add: regions_ok_def)
qed (auto intro: regions_ok_add regions_ok_resize regions_ok_drop)

lemma find_added:
  assumes "regions_ok (regions as)" "as_add_region as s e ty pm = Some as'" "s \<le> va" "va < e"
  shows "as_find_region as' va = Some \<lparr>va_start = s, va_end = e, mtype = ty, perm = pm\<rparr>"
proof -
  have "\<lparr>va_start = s, va_end = e, mtype = ty, perm = pm\<rparr> \<in> set (regions as')"
    using as_add_region_cases(1) [OF assms(2)] set_insert_at by (metis addr_space.select_convs(2)
        addr_space.surjective addr_space.update_convs(2) insertI1)
  then show ?thesis
    using as_find_region_iff [OF regions_ok_add [OF assms(1,2)]] assms(3,4) by simp
qed

text \<open>
  C20. Whatever regions a process adds, grows, shrinks or removes, its region
  table stays sorted, page aligned, below the trap frame and free of overlaps,
  with at most one region per type; so the region that \<^verbatim>\<open>as_find_region\<close> returns is
  the only one that contains the address, and it returns none only when no
  region contains it.
\<close>

theorem region_table_safe:
  assumes "as_reach pt as"
  shows "regions_ok (regions as) \<and>
         (\<forall>va r. as_find_region as va = Some r \<longleftrightarrow> r \<in> set (regions as) \<and> va_start r \<le> va \<and> va < va_end r)"
  using as_reach_ok [OF assms] as_find_region_iff by blast

theorem region_table_safe_witness:
  "\<exists>as. as_reach 0x80050000 as \<and> regions_ok (regions as) \<and>
     map mtype (regions as) = [MR_TEXT, MR_STACK, MR_HEAP] \<and>
     (\<exists>r. as_find_region as 0x4010 = Some r \<and> mtype r = MR_HEAP)"
proof -
  define as1 where "as1 = the (as_add_region \<lparr>pagetable = 0x80050000, regions = []\<rparr> 0x4000 0x4000 MR_HEAP 6)"
  define as2 where "as2 = the (as_add_region as1 0 0x2000 MR_TEXT 10)"
  define as3 where "as3 = the (as_add_region as2 0x2000 0x4000 MR_STACK 6)"
  define as4 where "as4 = the (as_resize_region as3 MR_HEAP 0x4100)"
  note ev = as_add_region_def as_resize_region_def as_region_index_def overlaps_def layout_defs
    MAX_MREGIONS_def Let_def
  have 1: "as_add_region \<lparr>pagetable = 0x80050000, regions = []\<rparr> 0x4000 0x4000 MR_HEAP 6 = Some as1"
    and as1: "as1 = \<lparr>pagetable = 0x80050000, regions = [\<lparr>va_start = 0x4000, va_end = 0x4000, mtype = MR_HEAP, perm = 6\<rparr>]\<rparr>"
    by (simp_all add: as1_def ev)
  have 2: "as_add_region as1 0 0x2000 MR_TEXT 10 = Some as2"
    by (simp add: as2_def as1 ev)
  have 3: "as_add_region as2 0x2000 0x4000 MR_STACK 6 = Some as3"
    by (simp add: as3_def as2_def as1 ev)
  have 4: "as_resize_region as3 MR_HEAP 0x4100 = Some as4"
    by (simp add: as4_def as3_def as2_def as1 ev)
  have r: "as_reach 0x80050000 as4"
    by (intro as_reach.resize [OF _ 4] as_reach.add [OF _ 3] as_reach.add [OF _ 2] as_reach.add [OF _ 1]
        as_reach.create)
  have "map mtype (regions as4) = [MR_TEXT, MR_STACK, MR_HEAP] \<and>
      (\<exists>r. as_find_region as4 0x4010 = Some r \<and> mtype r = MR_HEAP)"
    by (simp add: as4_def as3_def as2_def as1 ev as_find_region_def)
  then show ?thesis
    using r conjunct1 [OF region_table_safe [OF r]] by (intro exI [of _ as4] conjI) simp_all
qed

end
