(* ===== verification/Vm.thy ===== *)
theory Vm
  imports Kalloc_Spec Regions
begin

text \<open>
  \<^verbatim>\<open>kernel/addrspace.c\<close>: Sv32 page tables in the byte memory, user address spaces,
  copy-on-write and the copies between kernel and user memory. An operation
  takes and returns the whole allocator state \<open>kmem\<close>, whose \<open>phys\<close> holds page
  tables and user pages alike; every panic of the C code is a \<open>Panic\<close> result, a
  C result of \<^verbatim>\<open>0\<close>/\<^verbatim>\<open>-1\<close> is \<open>True\<close>/\<open>False\<close>, and a pointer to a page-table entry is
  the address of its four bytes. The \<^verbatim>\<open>sfence_vma\<close> instructions only affect the
  TLB and have no counterpart.
\<close>

section \<open>Walking a page table\<close>

abbreviation pte_at :: "kmem \<Rightarrow> addr \<Rightarrow> uint32" where
  "pte_at s a \<equiv> ld32 (phys s) a"

definition set_pte :: "addr \<Rightarrow> uint32 \<Rightarrow> kmem \<Rightarrow> kmem" where
  "set_pte a v s = s\<lparr>phys := st32 (phys s) a v\<rparr>"

definition has :: "uint32 \<Rightarrow> uint32 \<Rightarrow> bool" where
  "has pte fl \<longleftrightarrow> pte AND fl \<noteq> 0"

text \<open>\<^verbatim>\<open>&pagetable[PX(level, va)]\<close>.\<close>

definition pte_slot :: "addr \<Rightarrow> nat \<Rightarrow> uint32 \<Rightarrow> addr" where
  "pte_slot pt level va = pt + 4 * PX level va"

text \<open>The loop of \<^verbatim>\<open>walk\<close> runs once, for level 1.\<close>

definition walk :: "addr \<Rightarrow> uint32 \<Rightarrow> bool \<Rightarrow> kmem \<Rightarrow> (addr \<times> kmem) res" where
  "walk pt va alloc s =
     (if (ucast va :: uint64) \<ge> MAXVA then Panic ''walk''
      else let pte = pte_slot pt 1 va
           in if has (pte_at s pte) PTE_V then Ok (pte_slot (PTE2PA (pte_at s pte)) 0 va, s)
              else if \<not> alloc then Ok (0, s)
              else let (pt0, s1) = kalloc s
                   in if pt0 = 0 then Ok (0, s1)
                      else let s2 = s1\<lparr>phys := memset (phys s1) pt0 0 PGSIZE\<rparr>;
                               s3 = set_pte pte (PA2PTE pt0 OR PTE_V) s2
                           in Ok (pte_slot pt0 0 va, s3))"

definition walkaddr :: "addr \<Rightarrow> uint32 \<Rightarrow> kmem \<Rightarrow> uint32 res" where
  "walkaddr pt va s =
     (if (ucast va :: uint64) \<ge> MAXVA then Ok 0
      else bind_res (walk pt va False s) (\<lambda>(pte, s1).
        if pte = 0 then Ok 0
        else if \<not> has (pte_at s1 pte) PTE_V then Ok 0
        else if \<not> has (pte_at s1 pte) PTE_U then Ok 0
        else Ok (PTE2PA (pte_at s1 pte))))"

definition ismapped :: "addr \<Rightarrow> uint32 \<Rightarrow> kmem \<Rightarrow> bool res" where
  "ismapped pt va s =
     bind_res (walk pt va False s) (\<lambda>(pte, s1).
       if pte = 0 then Ok False else Ok (has (pte_at s1 pte) PTE_V))"

section \<open>Mapping\<close>

partial_function (option) mappages_loop ::
    "addr \<Rightarrow> uint32 \<Rightarrow> uint32 \<Rightarrow> uint32 \<Rightarrow> uint32 \<Rightarrow> kmem \<Rightarrow> (bool \<times> kmem) res option" where
  "mappages_loop pt a lst pa pm s =
     (case walk pt a True s of
        Panic e \<Rightarrow> Some (Panic e)
      | Loop \<Rightarrow> None
      | Ok (pte, s1) \<Rightarrow>
          if pte = 0 then Some (Ok (False, s1))
          else if has (pte_at s1 pte) PTE_V then Some (Panic ''mappages: remap'')
          else let s2 = set_pte pte (PA2PTE pa OR pm OR PTE_V) s1
               in if a = lst then Some (Ok (True, s2))
                  else mappages_loop pt (a + PGSIZE) lst (pa + PGSIZE) pm s2)"

declare mappages_loop.simps [code]

definition run_loop :: "'a res option \<Rightarrow> 'a res" where
  "run_loop r = (case r of None \<Rightarrow> Loop | Some x \<Rightarrow> x)"

definition mappages :: "addr \<Rightarrow> uint32 \<Rightarrow> uint32 \<Rightarrow> uint32 \<Rightarrow> uint32 \<Rightarrow> kmem \<Rightarrow> (bool \<times> kmem) res" where
  "mappages pt va sz pa pm s =
     (if va mod PGSIZE \<noteq> 0 then Panic ''mappages: va not aligned''
      else if sz mod PGSIZE \<noteq> 0 then Panic ''mappages: size not aligned''
      else if sz = 0 then Panic ''mappages: size''
      else run_loop (mappages_loop pt va (va + sz - PGSIZE) pa pm s))"

definition uvmcreate :: "kmem \<Rightarrow> addr \<times> kmem" where
  "uvmcreate s =
     (let (pt, s1) = kalloc s
      in if pt = 0 then (0, s1) else (pt, s1\<lparr>phys := memset (phys s1) pt 0 PGSIZE\<rparr>))"

definition as_create :: "kmem \<Rightarrow> addr_space \<times> kmem" where
  "as_create s = (let (pt, s1) = uvmcreate s in (\<lparr>pagetable = pt, regions = []\<rparr>, s1))"

primrec uvmunmap_loop :: "addr \<Rightarrow> uint32 \<Rightarrow> nat \<Rightarrow> bool \<Rightarrow> kmem \<Rightarrow> kmem res" where
  "uvmunmap_loop pt a 0 do_free s = Ok s"
| "uvmunmap_loop pt a (Suc n) do_free s =
     bind_res (walk pt a False s) (\<lambda>(pte, s1).
       if pte = 0 then uvmunmap_loop pt (a + PGSIZE) n do_free s1
       else if \<not> has (pte_at s1 pte) PTE_V then uvmunmap_loop pt (a + PGSIZE) n do_free s1
       else bind_res (if do_free then kfree (PTE2PA (pte_at s1 pte)) s1 else Ok s1) (\<lambda>s2.
              uvmunmap_loop pt (a + PGSIZE) n do_free (set_pte pte 0 s2)))"

definition uvmunmap :: "addr_space \<Rightarrow> uint32 \<Rightarrow> uint32 \<Rightarrow> bool \<Rightarrow> kmem \<Rightarrow> kmem res" where
  "uvmunmap as va npages do_free s =
     (if pagetable as = 0 then Panic ''uvmunmap: as''
      else if va mod PGSIZE \<noteq> 0 then Panic ''uvmunmap: not aligned''
      else uvmunmap_loop (pagetable as) va (unat npages) do_free s)"

definition uvmdealloc :: "addr_space \<Rightarrow> uint32 \<Rightarrow> uint32 \<Rightarrow> kmem \<Rightarrow> (uint32 \<times> kmem) res" where
  "uvmdealloc as oldsz newsz s =
     (if newsz \<ge> oldsz then Ok (oldsz, s)
      else bind_res
        (if PGROUNDUP newsz < PGROUNDUP oldsz
         then uvmunmap as (PGROUNDUP newsz) ((PGROUNDUP oldsz - PGROUNDUP newsz) div PGSIZE) True s
         else Ok s) (\<lambda>s1. Ok (newsz, s1)))"

partial_function (option) uvmalloc_loop ::
    "addr_space \<Rightarrow> uint32 \<Rightarrow> uint32 \<Rightarrow> uint32 \<Rightarrow> uint32 \<Rightarrow> kmem \<Rightarrow> (uint32 \<times> kmem) res option" where
  "uvmalloc_loop as oldsz a newsz xperm s =
     (if a < newsz then
        let (pg, s1) = kalloc s
        in if pg = 0 then Some (bind_res (uvmdealloc as a oldsz s1) (\<lambda>(_, s2). Ok (0, s2)))
           else let s2 = s1\<lparr>phys := memset (phys s1) pg 0 PGSIZE\<rparr>
                in case mappages (pagetable as) a PGSIZE pg (PTE_R OR PTE_U OR xperm) s2 of
                     Ok (ok, s3) \<Rightarrow>
                       if ok then uvmalloc_loop as oldsz (a + PGSIZE) newsz xperm s3
                       else Some (bind_res (kfree pg s3) (\<lambda>s4.
                              bind_res (uvmdealloc as a oldsz s4) (\<lambda>(_, s5). Ok (0, s5))))
                   | Panic e \<Rightarrow> Some (Panic e)
                   | Loop \<Rightarrow> None
      else Some (Ok (newsz, s)))"

declare uvmalloc_loop.simps [code]

definition uvmalloc :: "addr_space \<Rightarrow> uint32 \<Rightarrow> uint32 \<Rightarrow> uint32 \<Rightarrow> kmem \<Rightarrow> (uint32 \<times> kmem) res" where
  "uvmalloc as oldsz newsz xperm s =
     (if pagetable as = 0 then Ok (0, s)
      else if newsz < oldsz then Ok (oldsz, s)
      else run_loop (uvmalloc_loop as (PGROUNDUP oldsz) (PGROUNDUP oldsz) newsz xperm s))"

section \<open>Tearing down\<close>

text \<open>
  \<open>freewalk_loop pt i\<close> is \<^verbatim>\<open>freewalk(pt)\<close> from entry \<open>i\<close> of its loop on;
  \<^verbatim>\<open>freewalkall\<close> frees leaf pages where \<^verbatim>\<open>freewalk\<close> panics.
\<close>

partial_function (option) freewalk_loop :: "addr \<Rightarrow> nat \<Rightarrow> kmem \<Rightarrow> kmem res option" where
  "freewalk_loop pt i s =
     (if i < 1024 then
        let slot = pt + 4 * of_nat i; pte = pte_at s slot
        in if has pte PTE_V \<and> \<not> has pte (PTE_R OR PTE_W OR PTE_X) then
             Option.bind (freewalk_loop (PTE2PA pte) 0 s) (\<lambda>r.
               case r of Ok s1 \<Rightarrow> freewalk_loop pt (Suc i) (set_pte slot 0 s1) | e \<Rightarrow> Some e)
           else if has pte PTE_V then Some (Panic ''freewalk: leaf'')
           else freewalk_loop pt (Suc i) s
      else Some (kfree pt s))"

declare freewalk_loop.simps [code]

definition freewalk :: "addr \<Rightarrow> kmem \<Rightarrow> kmem res" where
  "freewalk pt s = run_loop (freewalk_loop pt 0 s)"

partial_function (option) freewalkall_loop :: "addr \<Rightarrow> nat \<Rightarrow> kmem \<Rightarrow> kmem res option" where
  "freewalkall_loop pt i s =
     (if i < 1024 then
        let slot = pt + 4 * of_nat i; pte = pte_at s slot
        in if \<not> has pte PTE_V then freewalkall_loop pt (Suc i) s
           else if \<not> has pte (PTE_R OR PTE_W OR PTE_X) then
             Option.bind (freewalkall_loop (PTE2PA pte) 0 s) (\<lambda>r.
               case r of Ok s1 \<Rightarrow> freewalkall_loop pt (Suc i) (set_pte slot 0 s1) | e \<Rightarrow> Some e)
           else (case kfree (PTE2PA pte) s of
                   Ok s1 \<Rightarrow> freewalkall_loop pt (Suc i) (set_pte slot 0 s1)
                 | Panic e \<Rightarrow> Some (Panic e)
                 | Loop \<Rightarrow> None)
      else Some (kfree pt s))"

declare freewalkall_loop.simps [code]

definition freewalkall :: "addr \<Rightarrow> kmem \<Rightarrow> kmem res" where
  "freewalkall pt s = run_loop (freewalkall_loop pt 0 s)"

text \<open>The loop \<^verbatim>\<open>for(i...region_count) uvmunmap(...)\<close> that three routines share.\<close>

primrec unmap_regions :: "addr_space \<Rightarrow> mem_region list \<Rightarrow> kmem \<Rightarrow> kmem res" where
  "unmap_regions as [] s = Ok s"
| "unmap_regions as (r # rs) s =
     bind_res
       (if as_region_map_npages r > 0
        then uvmunmap as (as_region_map_start r) (as_region_map_npages r) (as_region_do_free (mtype r)) s
        else Ok s)
       (unmap_regions as rs)"

definition uvmfree :: "addr_space \<Rightarrow> kmem \<Rightarrow> (addr_space \<times> kmem) res" where
  "uvmfree as s =
     (if pagetable as = 0 then Ok (as, s)
      else bind_res (unmap_regions as (regions as) s) (\<lambda>s1.
             bind_res (freewalkall (pagetable as) s1) (\<lambda>s2.
               Ok (as\<lparr>regions := [], pagetable := 0\<rparr>, s2))))"

definition as_destroy :: "addr_space \<Rightarrow> kmem \<Rightarrow> (addr_space \<times> kmem) res" where
  "as_destroy as s =
     (if pagetable as = 0 then Ok (as\<lparr>regions := []\<rparr>, s)
      else bind_res (uvmunmap as (ucast TRAMPOLINE) 1 False s) (\<lambda>s1.
             bind_res (uvmunmap as (ucast TRAPFRAME) 1 False s1) (uvmfree as)))"

definition as_remove_region :: "addr_space \<Rightarrow> mr_type \<Rightarrow> kmem \<Rightarrow> (addr_space \<times> kmem) res" where
  "as_remove_region as ty s =
     (if pagetable as = 0 then Ok (as, s)
      else case as_region_index as ty of
        None \<Rightarrow> Ok (as, s)
      | Some idx \<Rightarrow>
          let r = regions as ! idx
          in bind_res
               (if as_region_map_npages r > 0
                then uvmunmap as (as_region_map_start r) (as_region_map_npages r) (as_region_do_free (mtype r)) s
                else Ok s)
               (\<lambda>s1. Ok (drop_region idx as, s1)))"

section \<open>Copying an address space\<close>

text \<open>\<^verbatim>\<open>copy_pages\<close>: the loop of \<^verbatim>\<open>as_copy\<close> over the pages of one region.\<close>

partial_function (option) copy_pages ::
    "addr \<Rightarrow> addr \<Rightarrow> uint32 \<Rightarrow> uint32 \<Rightarrow> kmem \<Rightarrow> (bool \<times> kmem) res option" where
  "copy_pages dpt spt va va_lim s =
     (if va < va_lim then
        (case walk spt va False s of
           Panic e \<Rightarrow> Some (Panic e)
         | Loop \<Rightarrow> None
         | Ok (pte, s1) \<Rightarrow>
             if pte = 0 then copy_pages dpt spt (va + PGSIZE) va_lim s1
             else if \<not> has (pte_at s1 pte) PTE_V then copy_pages dpt spt (va + PGSIZE) va_lim s1
             else let pa = PTE2PA (pte_at s1 pte);
                      flags0 = PTE_FLAGS (pte_at s1 pte);
                      flags = (if has flags0 PTE_W then (flags0 AND NOT PTE_W) OR PTE_COW else flags0);
                      s2 = (if has flags0 PTE_W then set_pte pte (PA2PTE pa OR flags) s1 else s1)
                  in (case kaddref pa s2 of
                        Panic e \<Rightarrow> Some (Panic e)
                      | Loop \<Rightarrow> None
                      | Ok s3 \<Rightarrow>
                          (case mappages dpt va PGSIZE pa flags s3 of
                             Panic e \<Rightarrow> Some (Panic e)
                           | Loop \<Rightarrow> None
                           | Ok (ok, s4) \<Rightarrow>
                               if ok then copy_pages dpt spt (va + PGSIZE) va_lim s4
                               else Some (bind_res (kfree pa s4) (\<lambda>s5. Ok (False, s5))))))
      else Some (Ok (True, s)))"

declare copy_pages.simps [code]

primrec copy_regions :: "addr_space \<Rightarrow> addr \<Rightarrow> mem_region list \<Rightarrow> kmem \<Rightarrow> (bool \<times> addr_space \<times> kmem) res" where
  "copy_regions dst spt [] s = Ok (True, dst, s)"
| "copy_regions dst spt (r # rs) s =
     (case as_add_region dst (va_start r) (va_end r) (mtype r) (perm r) of
        None \<Rightarrow> Ok (False, dst, s)
      | Some dst' \<Rightarrow>
          bind_res (run_loop (copy_pages (pagetable dst') spt (PGROUNDDOWN (va_start r)) (PGROUNDUP (va_end r)) s))
            (\<lambda>(ok, s1). if ok then copy_regions dst' spt rs s1 else Ok (False, dst', s1)))"

definition as_copy :: "addr_space \<Rightarrow> addr_space \<Rightarrow> kmem \<Rightarrow> (bool \<times> addr_space \<times> kmem) res" where
  "as_copy dst src s =
     (if pagetable dst = 0 \<or> pagetable src = 0 then Ok (False, dst, s)
      else bind_res (unmap_regions dst (regions dst) s) (\<lambda>s1.
             bind_res (copy_regions (dst\<lparr>regions := []\<rparr>) (pagetable src) (regions src) s1)
               (\<lambda>(ok, dst1, s2).
                 if ok then Ok (True, dst1, s2)
                 else bind_res (unmap_regions dst1 (regions dst1) s2) (\<lambda>s3.
                        Ok (False, dst1\<lparr>regions := []\<rparr>, s3)))))"

definition uvmcopy :: "addr_space \<Rightarrow> addr_space \<Rightarrow> kmem \<Rightarrow> (bool \<times> addr_space \<times> kmem) res" where
  "uvmcopy dst_as src_as s = as_copy dst_as src_as s"

text \<open>\<open>tramp\<close> is the linker symbol \<^verbatim>\<open>trampoline\<close>, \<open>tf\<close> is \<^verbatim>\<open>p->trapframe\<close>.\<close>

definition proc_addrspace_create :: "addr \<Rightarrow> addr \<Rightarrow> kmem \<Rightarrow> (addr_space \<times> kmem) res" where
  "proc_addrspace_create tramp tf s =
     (let (as, s1) = as_create s
      in if pagetable as = 0 then Ok (as, s1)
         else bind_res (mappages (pagetable as) (ucast TRAMPOLINE) PGSIZE tramp (PTE_R OR PTE_X) s1)
           (\<lambda>(ok, s2).
             if \<not> ok then as_destroy as s2
             else bind_res (mappages (pagetable as) (ucast TRAPFRAME) PGSIZE tf (PTE_R OR PTE_W) s2)
               (\<lambda>(ok, s3). if \<not> ok then as_destroy as s3 else Ok (as, s3))))"

definition proc_addrspace_free :: "addr_space \<Rightarrow> kmem \<Rightarrow> (addr_space \<times> kmem) res" where
  "proc_addrspace_free as s = as_destroy as s"

definition uvmclear :: "addr \<Rightarrow> uint32 \<Rightarrow> kmem \<Rightarrow> kmem res" where
  "uvmclear pt va s =
     bind_res (walk pt va False s) (\<lambda>(pte, s1).
       if pte = 0 then Panic ''uvmclear''
       else Ok (set_pte pte (pte_at s1 pte AND NOT PTE_U) s1))"

section \<open>Page faults and copies between kernel and user memory\<close>

text \<open>\<open>as\<close> is the address space of the current process, \<^verbatim>\<open>myproc()->as\<close>.\<close>

definition vmfault :: "addr_space \<Rightarrow> addr \<Rightarrow> uint32 \<Rightarrow> bool \<Rightarrow> kmem \<Rightarrow> (uint32 \<times> kmem) res" where
  "vmfault as pt va0 rd s =
     (if va0 \<ge> as_region_start as MR_HEAP + as_region_size as MR_HEAP then Ok (0, s)
      else let va = PGROUNDDOWN va0
      in bind_res (walk pt va False s) (\<lambda>(pte, s).
        if pte \<noteq> 0 \<and> has (pte_at s pte) PTE_V then
          if \<not> has (pte_at s pte) PTE_COW \<or> rd then Ok (0, s)
          else let pa = PTE2PA (pte_at s pte);
                   flags = PTE_FLAGS (pte_at s pte);
                   (pg, s1) = kalloc s
               in if pg = 0 then Ok (0, s1)
                  else let s2 = s1\<lparr>phys := memmove (phys s1) pg pa PGSIZE\<rparr>;
                           s3 = set_pte pte (PA2PTE pg OR ((flags OR PTE_W) AND NOT PTE_COW)) s2
                       in bind_res (kfree pa s3) (\<lambda>s4. Ok (pg, s4))
        else bind_res (ismapped pt va s) (\<lambda>mapped.
          if mapped then Ok (0, s)
          else case as_find_region as va of
            None \<Rightarrow> Ok (0, s)
          | Some r \<Rightarrow>
              if mtype r \<noteq> MR_HEAP then Ok (0, s)
              else let (pg, s1) = kalloc s
                   in if pg = 0 then Ok (0, s1)
                      else let s2 = s1\<lparr>phys := memset (phys s1) pg 0 PGSIZE\<rparr>
                           in bind_res (mappages pt va PGSIZE pg (PTE_U OR perm r) s2) (\<lambda>(ok, s3).
                                if ok then Ok (pg, s3)
                                else bind_res (kfree pg s3) (\<lambda>s4. Ok (0, s4))))))"

partial_function (option) copyout_loop ::
    "addr_space \<Rightarrow> addr \<Rightarrow> uint32 \<Rightarrow> addr \<Rightarrow> uint32 \<Rightarrow> kmem \<Rightarrow> (bool \<times> kmem) res option" where
  "copyout_loop as pt dstva src len s =
     (if len > 0 then
        let va0 = PGROUNDDOWN dstva
        in if (ucast va0 :: uint64) \<ge> MAXVA then Some (Ok (False, s))
        else case bind_res (walk pt va0 False s) (\<lambda>(pte, s1).
               if pte = 0 \<or> \<not> has (pte_at s1 pte) PTE_V \<or> \<not> has (pte_at s1 pte) PTE_U
               then vmfault as pt va0 False s1
               else if has (pte_at s1 pte) PTE_COW then vmfault as pt va0 False s1
               else Ok (PTE2PA (pte_at s1 pte), s1)) of
          Panic e \<Rightarrow> Some (Panic e)
        | Loop \<Rightarrow> None
        | Ok (pa0, s2) \<Rightarrow>
            if pa0 = 0 then Some (Ok (False, s2))
            else (case walk pt va0 False s2 of
                Panic e \<Rightarrow> Some (Panic e)
              | Loop \<Rightarrow> None
              | Ok (pte, s3) \<Rightarrow>
                  if \<not> has (pte_at s3 pte) PTE_W then Some (Ok (False, s3))
                  else let n0 = PGSIZE - (dstva - va0);
                           n = (if n0 > len then len else n0);
                           s4 = s3\<lparr>phys := memmove (phys s3) (pa0 + (dstva - va0)) src n\<rparr>
                       in copyout_loop as pt (va0 + PGSIZE) (src + n) (len - n) s4)
      else Some (Ok (True, s)))"

declare copyout_loop.simps [code]

definition copyout :: "addr_space \<Rightarrow> addr \<Rightarrow> uint32 \<Rightarrow> addr \<Rightarrow> uint32 \<Rightarrow> kmem \<Rightarrow> (bool \<times> kmem) res" where
  "copyout as pt dstva src len s = run_loop (copyout_loop as pt dstva src len s)"

partial_function (option) copyin_loop ::
    "addr_space \<Rightarrow> addr \<Rightarrow> addr \<Rightarrow> uint32 \<Rightarrow> uint32 \<Rightarrow> kmem \<Rightarrow> (bool \<times> kmem) res option" where
  "copyin_loop as pt dst srcva len s =
     (if len > 0 then
        let va0 = PGROUNDDOWN srcva
        in case bind_res (walkaddr pt va0 s) (\<lambda>pa0.
               if pa0 = 0 then vmfault as pt va0 False s else Ok (pa0, s)) of
          Panic e \<Rightarrow> Some (Panic e)
        | Loop \<Rightarrow> None
        | Ok (pa0, s1) \<Rightarrow>
            if pa0 = 0 then Some (Ok (False, s1))
            else let n0 = PGSIZE - (srcva - va0);
                     n = (if n0 > len then len else n0);
                     s2 = s1\<lparr>phys := memmove (phys s1) dst (pa0 + (srcva - va0)) n\<rparr>
                 in copyin_loop as pt (dst + n) (va0 + PGSIZE) (len - n) s2
      else Some (Ok (True, s)))"

declare copyin_loop.simps [code]

definition copyin :: "addr_space \<Rightarrow> addr \<Rightarrow> addr \<Rightarrow> uint32 \<Rightarrow> uint32 \<Rightarrow> kmem \<Rightarrow> (bool \<times> kmem) res" where
  "copyin as pt dst srcva len s = run_loop (copyin_loop as pt dst srcva len s)"

text \<open>The inner loop of \<^verbatim>\<open>copyinstr\<close>: copies up to \<open>n\<close> bytes of one page, until a 0.\<close>

primrec copystr_page :: "nat \<Rightarrow> addr \<Rightarrow> addr \<Rightarrow> mem \<Rightarrow> bool \<times> mem" where
  "copystr_page 0 dst p m = (False, m)"
| "copystr_page (Suc n) dst p m =
     (if m p = 0 then (True, m(dst := 0))
      else copystr_page n (dst + 1) (p + 1) (m(dst := m p)))"

partial_function (option) copyinstr_loop ::
    "addr \<Rightarrow> addr \<Rightarrow> uint32 \<Rightarrow> uint32 \<Rightarrow> kmem \<Rightarrow> (bool \<times> kmem) res option" where
  "copyinstr_loop pt dst srcva mx s =
     (if mx > 0 then
        let va0 = PGROUNDDOWN srcva
        in case walkaddr pt va0 s of
          Panic e \<Rightarrow> Some (Panic e)
        | Loop \<Rightarrow> None
        | Ok pa0 \<Rightarrow>
            if pa0 = 0 then Some (Ok (False, s))
            else let n0 = PGSIZE - (srcva - va0);
                     n = (if n0 > mx then mx else n0);
                     (got_null, m) = copystr_page (unat n) dst (pa0 + (srcva - va0)) (phys s)
                 in if got_null then Some (Ok (True, s\<lparr>phys := m\<rparr>))
                    else copyinstr_loop pt (dst + n) (va0 + PGSIZE) (mx - n) (s\<lparr>phys := m\<rparr>)
      else Some (Ok (False, s)))"

declare copyinstr_loop.simps [code]

definition copyinstr :: "addr \<Rightarrow> addr \<Rightarrow> uint32 \<Rightarrow> uint32 \<Rightarrow> kmem \<Rightarrow> (bool \<times> kmem) res" where
  "copyinstr pt dst srcva mx s = run_loop (copyinstr_loop pt dst srcva mx s)"

section \<open>The kernel page table\<close>

definition UART0 :: uint32 where "UART0 = 0x10000000"
definition VIRTIO0 :: uint32 where "VIRTIO0 = 0x10001000"
definition PLIC :: uint32 where "PLIC = 0x0c000000"
definition NPROC :: nat where "NPROC = 64"

definition kvmmap :: "addr \<Rightarrow> uint32 \<Rightarrow> uint32 \<Rightarrow> uint32 \<Rightarrow> uint32 \<Rightarrow> kmem \<Rightarrow> kmem res" where
  "kvmmap kpgtbl va pa sz pm s =
     bind_res (mappages kpgtbl va sz pa pm s) (\<lambda>(ok, s1). if ok then Ok s1 else Panic ''kvmmap'')"

primrec mapstacks_loop :: "nat \<Rightarrow> nat \<Rightarrow> addr \<Rightarrow> kmem \<Rightarrow> kmem res" where
  "mapstacks_loop 0 p kpgtbl s = Ok s"
| "mapstacks_loop (Suc n) p kpgtbl s =
     (let (pa, s1) = kalloc s
      in if pa = 0 then Panic ''kalloc''
         else bind_res (kvmmap kpgtbl (ucast (KSTACK p)) pa PGSIZE (PTE_R OR PTE_W) s1)
                (mapstacks_loop n (Suc p) kpgtbl))"

definition proc_mapstacks :: "addr \<Rightarrow> kmem \<Rightarrow> kmem res" where
  "proc_mapstacks kpgtbl s = mapstacks_loop NPROC 0 kpgtbl s"

definition kvmmake :: "addr \<Rightarrow> addr \<Rightarrow> kmem \<Rightarrow> (addr \<times> kmem) res" where
  "kvmmake etext tramp s =
     (let (kpgtbl, s0) = kalloc s;
          s1 = s0\<lparr>phys := memset (phys s0) kpgtbl 0 PGSIZE\<rparr>
      in bind_res (kvmmap kpgtbl UART0 UART0 PGSIZE (PTE_R OR PTE_W) s1) (\<lambda>s2.
         bind_res (kvmmap kpgtbl VIRTIO0 VIRTIO0 PGSIZE (PTE_R OR PTE_W) s2) (\<lambda>s3.
         bind_res (kvmmap kpgtbl PLIC PLIC 0x4000000 (PTE_R OR PTE_W) s3) (\<lambda>s4.
         bind_res (kvmmap kpgtbl KERNBASE KERNBASE (etext - KERNBASE) (PTE_R OR PTE_X) s4) (\<lambda>s5.
         bind_res (kvmmap kpgtbl etext etext (PHYSTOP - etext) (PTE_R OR PTE_W) s5) (\<lambda>s6.
         bind_res (kvmmap kpgtbl (ucast TRAMPOLINE) tramp PGSIZE (PTE_R OR PTE_X) s6) (\<lambda>s7.
         bind_res (proc_mapstacks kpgtbl s7) (\<lambda>s8. Ok (kpgtbl, s8)))))))))"

end
