(* ===== verification/Proc.thy ===== *)
theory Proc
  imports Spinlock Vm
begin

text \<open>
  \<^verbatim>\<open>kernel/proc.h\<close> and the parts of \<^verbatim>\<open>kernel/taskmgr.c\<close> that only touch the process
  table: states, sleep and wakeup, kill, and the multi-level feedback queue
  scheduler. A \<^verbatim>\<open>struct proc *\<close> is an index into the table; \<open>cur\<close> is the index of
  \<^verbatim>\<open>myproc()\<close>. The context switch \<^verbatim>\<open>swtch\<close> is machine code: a process gives up the
  CPU in a state of this table and the scheduler chooses the next one from it. The
  saved registers of \<^verbatim>\<open>struct context\<close> are numbered in their order: 0 is \<^verbatim>\<open>ra\<close>, 1 is \<^verbatim>\<open>sp\<close>.
\<close>

section \<open>State\<close>

text \<open>
  A channel of \<^verbatim>\<open>sleep\<close> and \<^verbatim>\<open>wakeup\<close> is the address of a kernel object. The objects
  that the kernel uses as channels are these; distinct objects have distinct
  addresses.
\<close>

datatype kobj =
    KNull | KProc nat | KTicks | KLog | KBuf nat | KInode nat | KPipeRead addr | KPipeWrite addr
  | KSem addr | KCons | KUartTx | KDiskFree | KDiskBuf nat

datatype procstate = UNUSED | USED | SLEEPING | RUNNABLE | RUNNING | ZOMBIE

definition NOFILE :: nat where "NOFILE = 16"
definition MLFQ_LEVELS :: int where "MLFQ_LEVELS = 3"
definition MLFQ_Q0_SLICE :: int where "MLFQ_Q0_SLICE = 1"
definition MLFQ_Q1_SLICE :: int where "MLFQ_Q1_SLICE = 2"
definition MLFQ_Q2_SLICE :: int where "MLFQ_Q2_SLICE = 4"

record proc =
  pstate :: procstate
  chan :: kobj
  killed_flag :: bool
  xstate :: uint32
  pid :: uint32
  parent :: "nat option"
  kstack :: uint32
  p_as :: addr_space
  trapframe :: addr
  pcontext :: "nat \<Rightarrow> uint32"
  ofile :: "nat \<Rightarrow> nat option"
  cwd :: "nat option"
  mlfq_level :: int
  mlfq_ticks_used :: int
  mlfq_stamp :: uint32
  pname :: string

record ptable =
  procs :: "nat \<Rightarrow> proc"
  initproc :: "nat option"
  nextpid :: uint32
  mlfq_seq :: uint32
  mlfq_need_boost :: bool

definition upd_proc :: "nat \<Rightarrow> (proc \<Rightarrow> proc) \<Rightarrow> ptable \<Rightarrow> ptable" where
  "upd_proc i f t = t\<lparr>procs := (procs t)(i := f (procs t i))\<rparr>"

section \<open>The feedback queue\<close>

definition mlfq_quantum :: "int \<Rightarrow> int" where
  "mlfq_quantum level =
     (if level \<le> 0 then MLFQ_Q0_SLICE else if level = 1 then MLFQ_Q1_SLICE else MLFQ_Q2_SLICE)"

definition mlfq_reset_proc :: "proc \<Rightarrow> proc" where
  "mlfq_reset_proc p = p\<lparr>mlfq_level := 0, mlfq_ticks_used := 0, mlfq_stamp := 0\<rparr>"

definition mlfq_mark_boost :: "ptable \<Rightarrow> ptable" where
  "mlfq_mark_boost t = t\<lparr>mlfq_need_boost := True\<rparr>"

definition tick_proc :: "proc \<Rightarrow> proc" where
  "tick_proc p =
     (let p1 = p\<lparr>mlfq_ticks_used := mlfq_ticks_used p + 1\<rparr>
      in if mlfq_ticks_used p1 \<ge> mlfq_quantum (mlfq_level p1)
         then let p2 = p1\<lparr>mlfq_ticks_used := 0\<rparr>
              in if mlfq_level p2 < MLFQ_LEVELS - 1 then p2\<lparr>mlfq_level := mlfq_level p2 + 1\<rparr> else p2
         else p1)"

definition mlfq_tick :: "nat option \<Rightarrow> ptable \<Rightarrow> ptable" where
  "mlfq_tick cur t =
     (case cur of
        None \<Rightarrow> t
      | Some p \<Rightarrow> if pstate (procs t p) \<noteq> RUNNING then t else upd_proc p tick_proc t)"

definition mlfq_boost_all :: "ptable \<Rightarrow> ptable" where
  "mlfq_boost_all t =
     t\<lparr>procs := (\<lambda>i. if i < NPROC \<and> pstate (procs t i) \<noteq> UNUSED
                     then (procs t i)\<lparr>mlfq_level := 0, mlfq_ticks_used := 0\<rparr> else procs t i)\<rparr>"

section \<open>The process table\<close>

definition procinit :: "ptable \<Rightarrow> ptable" where
  "procinit t =
     t\<lparr>procs := (\<lambda>i. if i < NPROC then (procs t i)\<lparr>pstate := UNUSED, kstack := ucast (KSTACK i)\<rparr> else procs t i)\<rparr>"

definition allocpid :: "ptable \<Rightarrow> uint32 \<times> ptable" where
  "allocpid t = (nextpid t, t\<lparr>nextpid := nextpid t + 1\<rparr>)"

text \<open>The first loop of \<^verbatim>\<open>allocproc\<close>.\<close>

definition find_unused :: "ptable \<Rightarrow> nat option" where
  "find_unused t = find (\<lambda>i. pstate (procs t i) = UNUSED) [0..<NPROC]"

definition wakeup :: "nat option \<Rightarrow> kobj \<Rightarrow> ptable \<Rightarrow> ptable" where
  "wakeup cur ch t =
     t\<lparr>procs := (\<lambda>i. if i < NPROC \<and> Some i \<noteq> cur \<and> pstate (procs t i) = SLEEPING \<and> chan (procs t i) = ch
                     then (procs t i)\<lparr>pstate := RUNNABLE\<rparr> else procs t i)\<rparr>"

definition kkill :: "uint32 \<Rightarrow> ptable \<Rightarrow> bool \<times> ptable" where
  "kkill kpid t =
     (case find (\<lambda>i. pid (procs t i) = kpid) [0..<NPROC] of
        None \<Rightarrow> (False, t)
      | Some i \<Rightarrow> (True, upd_proc i (\<lambda>p. let p1 = p\<lparr>killed_flag := True\<rparr>
                     in if pstate p1 = SLEEPING then p1\<lparr>pstate := RUNNABLE\<rparr> else p1) t))"

definition setkilled :: "nat \<Rightarrow> ptable \<Rightarrow> ptable" where
  "setkilled i t = upd_proc i (\<lambda>p. p\<lparr>killed_flag := True\<rparr>) t"

definition killed :: "nat \<Rightarrow> ptable \<Rightarrow> bool" where
  "killed i t = killed_flag (procs t i)"

text \<open>\<open>reparent\<close>: the children of \<open>p\<close> go to \<^verbatim>\<open>initproc\<close>, which is woken for each.\<close>

definition proc_chan :: "nat option \<Rightarrow> kobj" where
  "proc_chan p = (case p of None \<Rightarrow> KNull | Some i \<Rightarrow> KProc i)"

primrec reparent_loop :: "nat list \<Rightarrow> nat option \<Rightarrow> nat \<Rightarrow> ptable \<Rightarrow> ptable" where
  "reparent_loop [] cur p t = t"
| "reparent_loop (pp # is) cur p t =
     reparent_loop is cur p
       (if parent (procs t pp) = Some p
        then wakeup cur (proc_chan (initproc t)) (upd_proc pp (\<lambda>q. q\<lparr>parent := initproc t\<rparr>) t) else t)"

definition reparent :: "nat option \<Rightarrow> nat \<Rightarrow> ptable \<Rightarrow> ptable" where
  "reparent cur p t = reparent_loop [0..<NPROC] cur p t"

section \<open>Giving up the CPU\<close>

text \<open>The checks of \<^verbatim>\<open>sched\<close> before it switches to the scheduler.\<close>

definition sched :: "spinlock \<Rightarrow> cpu \<Rightarrow> proc \<Rightarrow> unit res" where
  "sched lk c p =
     (if \<not> holding lk then Panic ''sched p->lock''
      else if noff c \<noteq> 1 then Panic ''sched locks''
      else if pstate p = RUNNING then Panic ''sched RUNNING''
      else if intr c then Panic ''sched interruptible''
      else Ok ())"

definition yield :: "bool \<Rightarrow> nat \<Rightarrow> ptable \<Rightarrow> ptable" where
  "yield from_timer cur t =
     upd_proc cur (\<lambda>p.
       let p1 = (if \<not> from_timer
                 then (if mlfq_level p > 0 then p\<lparr>mlfq_level := mlfq_level p - 1\<rparr> else p)\<lparr>mlfq_ticks_used := 0\<rparr>
                 else p)
       in p1\<lparr>pstate := RUNNABLE\<rparr>) t"

text \<open>\<^verbatim>\<open>sleep\<close> up to the switch, and after it.\<close>

definition sleep_enter :: "kobj \<Rightarrow> nat \<Rightarrow> ptable \<Rightarrow> ptable" where
  "sleep_enter ch cur t =
     upd_proc cur (\<lambda>p.
       let p1 = p\<lparr>chan := ch\<rparr>;
           p2 = (if mlfq_level p1 > 0 then p1\<lparr>mlfq_level := mlfq_level p1 - 1\<rparr> else p1)
       in p2\<lparr>mlfq_ticks_used := 0, pstate := SLEEPING\<rparr>) t"

definition sleep_return :: "nat \<Rightarrow> ptable \<Rightarrow> ptable" where
  "sleep_return cur t = upd_proc cur (\<lambda>p. p\<lparr>chan := KNull\<rparr>) t"

section \<open>The scheduler\<close>

text \<open>One pass over the table: the best process so far with its level and stamp.\<close>

definition sched_visit :: "ptable \<Rightarrow> nat \<Rightarrow> nat option \<times> int \<times> uint32 \<Rightarrow> nat option \<times> int \<times> uint32" where
  "sched_visit t i b =
     (case b of (best, best_level, best_stamp) \<Rightarrow>
        let p = procs t i
        in if pstate p = RUNNABLE \<and>
              (mlfq_level p < best_level \<or> (mlfq_level p = best_level \<and> mlfq_stamp p < best_stamp))
           then (Some i, mlfq_level p, mlfq_stamp p) else b)"

definition sched_scan :: "ptable \<Rightarrow> nat list \<Rightarrow> nat option \<times> int \<times> uint32" where
  "sched_scan t is = fold (sched_visit t) is (None, MLFQ_LEVELS, 0xffffffff)"

definition sched_pick :: "ptable \<Rightarrow> nat option" where
  "sched_pick t = fst (sched_scan t [0..<NPROC])"

text \<open>
  One round of \<^verbatim>\<open>scheduler\<close> up to the switch into the chosen process: the boost, the
  choice, and the bookkeeping. The result names the process that runs, if any.
\<close>

definition scheduler_round :: "ptable \<Rightarrow> nat option \<times> ptable" where
  "scheduler_round t =
     (let t1 = (if mlfq_need_boost t then mlfq_boost_all (t\<lparr>mlfq_need_boost := False\<rparr>) else t)
      in case sched_pick t1 of
           None \<Rightarrow> (None, t1)
         | Some b \<Rightarrow>
             let seq = mlfq_seq t1 + 1
             in (Some b, upd_proc b (\<lambda>p. p\<lparr>pstate := RUNNING, mlfq_stamp := seq\<rparr>) (t1\<lparr>mlfq_seq := seq\<rparr>)))"

section \<open>Basic facts\<close>

lemma procs_upd_proc [simp]: "procs (upd_proc i f t) j = (if j = i then f (procs t i) else procs t j)"
  by (simp add: upd_proc_def)

lemma upd_proc_sels [simp]:
  "mlfq_seq (upd_proc i f t) = mlfq_seq t" "initproc (upd_proc i f t) = initproc t"
  "nextpid (upd_proc i f t) = nextpid t" "mlfq_need_boost (upd_proc i f t) = mlfq_need_boost t"
  by (simp_all add: upd_proc_def)

section \<open>Concrete tables\<close>

definition idle_proc :: proc where
  "idle_proc = \<lparr>pstate = UNUSED, chan = KNull, killed_flag = False, xstate = 0, pid = 0, parent = None, kstack = 0,
     p_as = \<lparr>pagetable = 0, regions = []\<rparr>, trapframe = 0, pcontext = (\<lambda>_. 0), ofile = (\<lambda>_. None), cwd = None,
     mlfq_level = 0, mlfq_ticks_used = 0, mlfq_stamp = 0, pname = []\<rparr>"

definition ready_table :: ptable where
  "ready_table = \<lparr>procs = (\<lambda>i. idle_proc\<lparr>pstate := RUNNABLE, pid := of_nat (i + 1)\<rparr>),
     initproc = Some 0, nextpid = 65, mlfq_seq = 1, mlfq_need_boost = False\<rparr>"

end
