(* ===== verification/Monitor.thy ===== *)
theory Monitor
  imports Proc
begin

text \<open>
  The pattern that every blocking operation of the kernel follows: a process finds
  a condition \<open>blocked\<close> true and sleeps on a channel; whoever makes the condition
  false wakes the channel. The locale \<open>sleep_channel\<close> states what the critical
  sections on the shared object must do to the object and to the process table, and
  shows that no wakeup is lost, for every interleaving of processes, interrupts and
  kills. The sleep locks, the pipes and the semaphores interpret it with the
  functions of their source files.
\<close>

section \<open>Machine state shared by the kernel components\<close>

text \<open>
  \<open>cur\<close> is \<^verbatim>\<open>mycpu()->proc\<close>. The address \<open>klocal\<close> is that of a local variable of the
  running kernel function that is handed to \<^verbatim>\<open>copyin\<close> and \<^verbatim>\<open>copyout\<close>.
\<close>

record mach =
  km :: kmem
  pt :: ptable
  cur :: "nat option"
  klocal :: addr

definition me :: "'a mach_scheme \<Rightarrow> nat" where
  "me s = (case cur s of None \<Rightarrow> 0 | Some p \<Rightarrow> p)"

definition myproc :: "'a mach_scheme \<Rightarrow> proc" where
  "myproc s = procs (pt s) (me s)"

definition kwakeup :: "kobj \<Rightarrow> 'a mach_scheme \<Rightarrow> 'a mach_scheme" where
  "kwakeup ch s = s\<lparr>pt := wakeup (cur s) ch (pt s)\<rparr>"

definition ksleep :: "kobj \<Rightarrow> 'a mach_scheme \<Rightarrow> 'a mach_scheme" where
  "ksleep ch s = s\<lparr>pt := sleep_enter ch (me s) (pt s)\<rparr>"

text \<open>
  A blocking operation runs until it returns or until it calls \<^verbatim>\<open>sleep\<close>; a process
  that wakes up continues in the loop around the \<^verbatim>\<open>sleep\<close>.
\<close>

datatype 'a blk = Ret 'a | Sleep

text \<open>Run alone, a process that sleeps is never woken.\<close>

definition alone :: "'a blk \<times> 's \<Rightarrow> ('a \<times> 's) res" where
  "alone r = (case fst r of Ret x \<Rightarrow> Ok (x, snd r) | Sleep \<Rightarrow> Loop)"

section \<open>Processes around one object\<close>

definition asleep_on :: "kobj \<Rightarrow> ptable \<Rightarrow> nat \<Rightarrow> bool" where
  "asleep_on ch t i \<longleftrightarrow> i < NPROC \<and> pstate (procs t i) = SLEEPING \<and> chan (procs t i) = ch"

text \<open>
  \<open>sect oper (m, s)\<close> is a critical section of the current process: the code of the
  operation \<open>oper\<close> from the acquisition of the object's lock to its return or to its
  \<^verbatim>\<open>sleep\<close>, on the object \<open>m\<close> and the machine \<open>s\<close>. It yields the new object, the new
  machine and whether the process sleeps; \<open>None\<close> if the code panics. \<open>chs\<close> are the
  channels of the object. One step: a process is dispatched or yields, it runs a
  critical section, it sleeps or resumes elsewhere, some channel is woken, a process
  is killed, or memory, files and devices change.
\<close>

type_synonym ('op, 'm, 'a) csect =
  "'op \<Rightarrow> 'm \<times> 'a mach_scheme \<Rightarrow> ('m \<times> 'a mach_scheme \<times> bool) option"

inductive mon_step ::
    "('op, 'm, 'a) csect \<Rightarrow> kobj set \<Rightarrow> 'm \<times> 'a mach_scheme \<Rightarrow> 'm \<times> 'a mach_scheme \<Rightarrow> bool"
  for sect :: "('op, 'm, 'a) csect" and chs :: "kobj set" where
  Dispatch: "cur s = None \<Longrightarrow> i < NPROC \<Longrightarrow> pstate (procs (pt s) i) = RUNNABLE \<Longrightarrow>
     mon_step sect chs (m, s) (m, s\<lparr>cur := Some i, pt := upd_proc i (\<lambda>p. p\<lparr>pstate := RUNNING\<rparr>) (pt s)\<rparr>)"
| Yield: "cur s = Some i \<Longrightarrow> mon_step sect chs (m, s) (m, s\<lparr>cur := None, pt := yield b i (pt s)\<rparr>)"
| Section: "cur s = Some i \<Longrightarrow> sect oper (m, s) = Some (m', s', slept) \<Longrightarrow>
     mon_step sect chs (m, s) (m', if slept then s'\<lparr>cur := None\<rparr> else s')"
| SleepElsewhere: "cur s = Some i \<Longrightarrow> ch' \<notin> chs \<Longrightarrow>
     mon_step sect chs (m, s) (m, s\<lparr>cur := None, pt := sleep_enter ch' i (pt s)\<rparr>)"
| Resume: "cur s = Some i \<Longrightarrow> mon_step sect chs (m, s) (m, s\<lparr>pt := sleep_return i (pt s)\<rparr>)"
| Wake: "mon_step sect chs (m, s) (m, s\<lparr>pt := wakeup (cur s) ch' (pt s)\<rparr>)"
| Kill: "mon_step sect chs (m, s) (m, s\<lparr>pt := snd (kkill victim (pt s))\<rparr>)"
| Other: "cur s' = cur s \<Longrightarrow> pt s' = pt s \<Longrightarrow> mon_step sect chs (m, s) (m, s')"

inductive mon_reach ::
    "('op, 'm, 'a) csect \<Rightarrow> kobj set \<Rightarrow> 'm \<Rightarrow> 'm \<times> 'a mach_scheme \<Rightarrow> bool"
  for sect :: "('op, 'm, 'a) csect" and chs :: "kobj set" and m0 :: 'm where
  start: "cur s = None \<Longrightarrow> \<forall>ch \<in> chs. \<forall>i. \<not> asleep_on ch (pt s) i \<Longrightarrow> mon_reach sect chs m0 (m0, s)"
| step: "mon_reach sect chs m0 x \<Longrightarrow> mon_step sect chs x y \<Longrightarrow> mon_reach sect chs m0 y"

lemma asleep_on_wakeup: "asleep_on ch (wakeup cu ch t) j \<longleftrightarrow> asleep_on ch t j \<and> cu = Some j"
  by (auto simp: asleep_on_def wakeup_def)

lemma asleep_on_wakeup_sub: "asleep_on ch (wakeup cu ch' t) j \<Longrightarrow> asleep_on ch t j"
  by (auto simp: asleep_on_def wakeup_def split: if_splits)

lemma asleep_on_sleep:
  "j \<noteq> i \<Longrightarrow> asleep_on ch (sleep_enter ch' i t) j \<longleftrightarrow> asleep_on ch t j"
  "ch' \<noteq> ch \<Longrightarrow> \<not> asleep_on ch (sleep_enter ch' i t) i"
  by (auto simp: asleep_on_def sleep_enter_def Let_def)

lemma running_not_asleep: "pstate (procs t i) = RUNNING \<Longrightarrow> \<not> asleep_on ch t i"
  by (simp add: asleep_on_def)

lemma running_wakeup: "pstate (procs t i) = RUNNING \<Longrightarrow> pstate (procs (wakeup cu ch t) i) = RUNNING"
  by (simp add: wakeup_def)

lemma asleep_on_kkill: "asleep_on ch (snd (kkill v t)) j \<Longrightarrow> asleep_on ch t j"
  by (auto simp: asleep_on_def kkill_def Let_def split: option.splits if_splits)

lemma running_kkill: "pstate (procs t i) = RUNNING \<Longrightarrow> pstate (procs (snd (kkill v t)) i) = RUNNING"
  by (auto simp: kkill_def Let_def split: option.splits)

lemma me_cur: "cur s = Some i \<Longrightarrow> me s = i"
  by (simp add: me_def)

lemma kwakeup_sels [simp]: "pt (kwakeup ch s) = wakeup (cur s) ch (pt s)" "cur (kwakeup ch s) = cur s" "km (kwakeup ch s) = km s"
  by (simp_all add: kwakeup_def)

lemma ksleep_sels [simp]: "pt (ksleep ch s) = sleep_enter ch (me s) (pt s)" "cur (ksleep ch s) = cur s" "km (ksleep ch s) = km s"
  by (simp_all add: ksleep_def)

section \<open>The contract\<close>

text \<open>
  \<open>ok\<close> is the invariant of the object. A section of the running process \<open>i\<close> keeps it
  (\<open>keeps\<close>) and leaves the process running unless it sleeps (\<open>runs\<close>); it puts nobody else
  to sleep (\<open>others\<close>); if it ends the condition \<open>blocked\<close> it leaves nobody asleep on the
  channel (\<open>wakes\<close>); and its own process sleeps there only while \<open>blocked\<close> holds (\<open>sleeps\<close>).
\<close>

locale sleep_channel =
  fixes ok :: "'m \<Rightarrow> bool"
    and blocked :: "'m \<Rightarrow> bool"
    and sect :: "('op, 'm, 'a) csect"
    and chs :: "kobj set"
    and ch :: kobj
  assumes channel: "ch \<in> chs"
    and keeps: "cur s = Some i \<Longrightarrow> ok m \<Longrightarrow> sect oper (m, s) = Some (m', s', slept) \<Longrightarrow> ok m'"
    and runs: "cur s = Some i \<Longrightarrow> ok m \<Longrightarrow> sect oper (m, s) = Some (m', s', slept) \<Longrightarrow> pstate (procs (pt s) i) = RUNNING \<Longrightarrow>
      cur s' = Some i \<and> (slept \<or> pstate (procs (pt s') i) = RUNNING)"
    and others: "cur s = Some i \<Longrightarrow> ok m \<Longrightarrow> sect oper (m, s) = Some (m', s', slept) \<Longrightarrow> j \<noteq> i \<Longrightarrow>
      asleep_on ch (pt s') j \<Longrightarrow> asleep_on ch (pt s) j"
    and wakes: "cur s = Some i \<Longrightarrow> ok m \<Longrightarrow> sect oper (m, s) = Some (m', s', slept) \<Longrightarrow> j \<noteq> i \<Longrightarrow>
      asleep_on ch (pt s') j \<Longrightarrow> blocked m \<Longrightarrow> blocked m'"
    and sleeps: "cur s = Some i \<Longrightarrow> ok m \<Longrightarrow> sect oper (m, s) = Some (m', s', slept) \<Longrightarrow> pstate (procs (pt s) i) = RUNNING \<Longrightarrow>
      asleep_on ch (pt s') i \<Longrightarrow> blocked m'"
begin

definition mon_inv :: "'m \<times> 'a mach_scheme \<Rightarrow> bool" where
  "mon_inv x \<longleftrightarrow> (case x of (m, s) \<Rightarrow> ok m \<and>
     (\<forall>i. cur s = Some i \<longrightarrow> pstate (procs (pt s) i) = RUNNING) \<and> (\<forall>j. asleep_on ch (pt s) j \<longrightarrow> blocked m))"

lemma mon_inv_step:
  assumes "mon_step sect chs x y" "mon_inv x"
  shows "mon_inv y"
  using assms
proof (induction rule: mon_step.induct)
  case (Dispatch s i m)
  then show ?case by (auto simp: mon_inv_def asleep_on_def split: if_splits)
next
  case (Yield s i m b)
  then show ?case by (auto simp: mon_inv_def asleep_on_def yield_def Let_def split: if_splits)
next
  case (Section s i oper m m' s' slept)
  then have h: "ok m" "pstate (procs (pt s) i) = RUNNING" "\<And>j. asleep_on ch (pt s) j \<Longrightarrow> blocked m" by (auto simp: mon_inv_def)
  note S = Section.hyps(1) h(1) Section.hyps(2)
  have "blocked m'" if "asleep_on ch (pt s') j" for j
    using that sleeps [OF S h(2)] others [OF S, of j] wakes [OF S, of j] h(3) by (cases "j = i") auto
  then show ?case using keeps [OF S] runs [OF S h(2)] by (auto simp: mon_inv_def)
next
  case (SleepElsewhere s i ch' m)
  then have "ch' \<noteq> ch" using channel by auto
  then have "asleep_on ch (sleep_enter ch' i (pt s)) j \<Longrightarrow> asleep_on ch (pt s) j" for j
    using asleep_on_sleep(1) [of j i ch ch' "pt s"] asleep_on_sleep(2) [of ch' ch i "pt s"] by (cases "j = i") auto
  then show ?case using SleepElsewhere by (auto simp: mon_inv_def)
next
  case (Resume s i m)
  then show ?case by (auto simp: mon_inv_def asleep_on_def sleep_return_def split: if_splits)
next
  case (Wake m s ch')
  then show ?case using asleep_on_wakeup_sub by (fastforce simp: mon_inv_def running_wakeup)
next
  case (Kill m s victim)
  then show ?case using asleep_on_kkill by (fastforce simp: mon_inv_def running_kkill)
next
  case (Other s' s m)
  then show ?case by (simp add: mon_inv_def)
qed

lemma mon_reach_inv:
  assumes "mon_reach sect chs m0 x" "ok m0"
  shows "mon_inv x"
  using assms(1)
proof (induction rule: mon_reach.induct)
  case (start s)
  then show ?case using channel assms(2) by (auto simp: mon_inv_def)
next
  case (step x y)
  then show ?case by (blast intro: mon_inv_step)
qed

lemma object_ok: "mon_reach sect chs m0 (m, s) \<Longrightarrow> ok m0 \<Longrightarrow> ok m"
  using mon_reach_inv by (fastforce simp: mon_inv_def)

lemma no_lost_wakeup: "mon_reach sect chs m0 (m, s) \<Longrightarrow> ok m0 \<Longrightarrow> asleep_on ch (pt s) j \<Longrightarrow> blocked m"
  using mon_reach_inv by (fastforce simp: mon_inv_def)

end

end
