(* ===== verification/Sleeplock.thy ===== *)
theory Sleeplock
  imports Monitor
begin

text \<open>
  \<^verbatim>\<open>kernel/sleeplock.c\<close>: locks that are held across \<^verbatim>\<open>sleep\<close>. The channel of a lock is
  its own address, given as the argument \<open>ch\<close>.
\<close>

section \<open>Operations\<close>

record sleeplock =
  slocked :: bool
  slpid :: uint32

definition initsleeplock :: sleeplock where
  "initsleeplock = \<lparr>slocked = False, slpid = 0\<rparr>"

definition take_lock :: "uint32 \<Rightarrow> sleeplock \<Rightarrow> sleeplock" where
  "take_lock p lk = lk\<lparr>slocked := True, slpid := p\<rparr>"

definition drop_lock :: "sleeplock \<Rightarrow> sleeplock" where
  "drop_lock lk = lk\<lparr>slocked := False, slpid := 0\<rparr>"

definition acquiresleep :: "kobj \<Rightarrow> sleeplock \<Rightarrow> 'a mach_scheme \<Rightarrow> unit blk \<times> sleeplock \<times> 'a mach_scheme" where
  "acquiresleep ch lk s =
     (if slocked lk then (Sleep, lk, ksleep ch s)
      else (Ret (), take_lock (pid (myproc s)) lk, s))"

definition releasesleep :: "kobj \<Rightarrow> sleeplock \<Rightarrow> 'a mach_scheme \<Rightarrow> sleeplock \<times> 'a mach_scheme" where
  "releasesleep ch lk s = (drop_lock lk, kwakeup ch s)"

definition holdingsleep :: "sleeplock \<Rightarrow> 'a mach_scheme \<Rightarrow> bool" where
  "holdingsleep lk s \<longleftrightarrow> slocked lk \<and> slpid lk = pid (myproc s)"

section \<open>Many processes\<close>

text \<open>
  The lock with the set of its owners: the processes (with their pids) that have
  returned from \<^verbatim>\<open>acquiresleep\<close> and not yet called \<^verbatim>\<open>releasesleep\<close>. The critical sections
  are the two functions; a process calls \<^verbatim>\<open>releasesleep\<close> only for a lock that it owns.
\<close>

type_synonym owned_lock = "sleeplock \<times> (nat \<times> uint32) set"

datatype sl_op = SlAcquire | SlRelease

fun sl_section :: "kobj \<Rightarrow> (sl_op, owned_lock, 'a) csect" where
  "sl_section ch SlAcquire ((lk, own), s) =
     (case acquiresleep ch lk s of
        (Ret _, lk', s') \<Rightarrow> Some ((lk', insert (me s, pid (myproc s)) own), s', False)
      | (Sleep, lk', s') \<Rightarrow> Some ((lk', own), s', True))"
| "sl_section ch SlRelease ((lk, own), s) =
     (if (me s, pid (myproc s)) \<in> own
      then case releasesleep ch lk s of (lk', s') \<Rightarrow> Some ((lk', own - {(me s, pid (myproc s))}), s', False)
      else None)"

definition sl_blocked :: "owned_lock \<Rightarrow> bool" where
  "sl_blocked m = slocked (fst m)"

definition sl_inv :: "owned_lock \<Rightarrow> bool" where
  "sl_inv m \<longleftrightarrow> (case m of (lk, own) \<Rightarrow>
     (if slocked lk then \<exists>i. own = {(i, slpid lk)} else own = {}))"

text \<open>The two ways a section can go, and a release.\<close>

lemma sl_section_cases:
  assumes "sl_section ch oper (m, s) = Some (m', s', slept)"
  obtains (taken) "\<not> sl_blocked m" "fst m' = take_lock (pid (myproc s)) (fst m)" "snd m' = insert (me s, pid (myproc s)) (snd m)"
      "s' = s" "\<not> slept"
  | (waits) "sl_blocked m" "m' = m" "s' = ksleep ch s" "slept"
  | (released) "(me s, pid (myproc s)) \<in> snd m" "m' = (drop_lock (fst m), snd m - {(me s, pid (myproc s))})"
      "s' = kwakeup ch s" "\<not> slept"
proof -
  obtain lk own where m: "m = (lk, own)" by fastforce
  note e = assms [unfolded m]
  show thesis
  proof (cases oper)
    case SlAcquire
    show thesis
    proof (cases "slocked lk")
      case True
      then have "m' = m" "s' = ksleep ch s" "slept" using e SlAcquire by (simp_all add: acquiresleep_def m)
      then show thesis using True by (intro waits) (simp_all add: sl_blocked_def m)
    next
      case False
      then have "m' = (take_lock (pid (myproc s)) lk, insert (me s, pid (myproc s)) own)" "s' = s" "\<not> slept"
        using e SlAcquire by (auto simp: acquiresleep_def)
      then show thesis using False by (intro taken) (simp_all add: sl_blocked_def m)
    qed
  next
    case SlRelease
    then have "(me s, pid (myproc s)) \<in> own" "m' = (drop_lock lk, own - {(me s, pid (myproc s))})"
      "s' = kwakeup ch s" "\<not> slept"
      using e by (auto simp: releasesleep_def split: if_splits)
    then show thesis by (intro released) (simp_all add: m)
  qed
qed

interpretation slk: sleep_channel sl_inv sl_blocked "sl_section ch" "{ch}" ch for ch
proof
  fix s s' :: "'a mach_scheme" and i j m m' oper slept
  assume c: "cur s = Some i" and ok: "sl_inv m" and e: "sl_section ch oper (m, s) = Some (m', s', slept)"
  obtain lk own where m: "m = (lk, own)" by fastforce
  from e show "sl_inv m'"
  proof (cases rule: sl_section_cases)
    case taken
    then show ?thesis using ok by (cases m') (auto simp: sl_inv_def sl_blocked_def take_lock_def m)
  next
    case released
    then show ?thesis using ok by (auto simp: sl_inv_def drop_lock_def m split: if_splits)
  qed (use ok in simp)
  show "cur s' = Some i \<and> (slept \<or> pstate (procs (pt s') i) = RUNNING)" if "pstate (procs (pt s) i) = RUNNING"
    using e by (cases rule: sl_section_cases) (use c that in \<open>simp_all add: running_wakeup\<close>)
  show "asleep_on ch (pt s) j" if "j \<noteq> i" "asleep_on ch (pt s') j"
    using e by (cases rule: sl_section_cases) (use c that in \<open>auto simp: me_cur asleep_on_sleep dest: asleep_on_wakeup_sub\<close>)
  show "sl_blocked m'" if "j \<noteq> i" "asleep_on ch (pt s') j" "sl_blocked m"
    using e by (cases rule: sl_section_cases) (use c that in \<open>auto simp: asleep_on_wakeup\<close>)
  show "sl_blocked m'" if "pstate (procs (pt s) i) = RUNNING" "asleep_on ch (pt s') i"
    using e by (cases rule: sl_section_cases) (use that in \<open>auto simp: running_not_asleep dest: asleep_on_wakeup_sub\<close>)
qed simp

text \<open>
  C23. Sleep locks exclude and lose no wakeup. In every interleaving of \<^verbatim>\<open>acquiresleep\<close>,
  \<^verbatim>\<open>releasesleep\<close> by owners, clock interrupts, kills and other sleeps and wakeups: at
  most one process owns the lock, \<^verbatim>\<open>locked\<close> says whether there is one and \<^verbatim>\<open>pid\<close> which
  one it is, so \<^verbatim>\<open>holdingsleep\<close> answers correctly; no process sleeps on a free lock; and
  a process that finds the lock free gets it.
\<close>

theorem sleeplock_exclusive:
  fixes s :: "'a mach_scheme"
  assumes "mon_reach (sl_section ch) {ch} (initsleeplock, {}) ((lk, own), s)"
  shows "(if slocked lk then \<exists>i. own = {(i, slpid lk)} else own = {} \<and> (\<forall>j. \<not> asleep_on ch (pt s) j)) \<and>
     holdingsleep lk s = (\<exists>j. (j, pid (myproc s)) \<in> own) \<and>
     (\<not> slocked lk \<longrightarrow> (\<exists>lk'. acquiresleep ch lk s = (Ret (), lk', s) \<and> holdingsleep lk' s))"
proof -
  have "sl_inv (initsleeplock, {})" by (simp add: sl_inv_def initsleeplock_def)
  from slk.object_ok [OF assms this] slk.no_lost_wakeup [OF assms this]
  have "sl_inv (lk, own)" "asleep_on ch (pt s) j \<Longrightarrow> slocked lk" for j by (simp_all add: sl_blocked_def)
  then show ?thesis
    by (auto simp: sl_inv_def holdingsleep_def acquiresleep_def take_lock_def split: if_splits)
qed

text \<open>Process 2 takes the lock and is interrupted; process 3 waits for it.\<close>

definition ex_boot :: mach where
  "ex_boot = \<lparr>km = \<lparr>phys = (\<lambda>_. 0), kend = 0x80400000, free_areas = (\<lambda>_. \<lparr>freelist = 0, nr_free = 0\<rparr>),
     refcnt = (\<lambda>_. 0), page_state = (\<lambda>_. 0)\<rparr>, pt = ready_table, cur = None, klocal = 0x80010000\<rparr>"


lemma ex_boot_sels [simp]: "pt ex_boot = ready_table" "cur ex_boot = None"
  by (simp_all add: ex_boot_def)

lemma ready_state [simp]: "pstate (procs ready_table i) = RUNNABLE" "pid (procs ready_table i) = of_nat (i + 1)"
  "killed i ready_table = False"
  by (simp_all add: ready_table_def killed_def idle_proc_def)

lemma mon_reach_boot: "mon_reach sect chs m0 (m0, ex_boot)"
  by (rule mon_reach.start) (simp_all add: asleep_on_def)

lemmas mon_go = mon_reach.step [OF _ mon_step.Dispatch] mon_reach.step [OF _ mon_step.Yield]
  mon_reach.step [OF _ mon_step.Section]

theorem sleeplock_exclusive_witness:
  "\<exists>lk s :: mach. mon_reach (sl_section (KBuf 0)) {KBuf 0} (initsleeplock, {}) ((lk, {(2, 3)}), s) \<and>
     asleep_on (KBuf 0) (pt s) 3 \<and> slocked lk"
proof -
  let ?R = "mon_reach (sl_section (KBuf 0)) {KBuf 0} (initsleeplock, {}) :: owned_lock \<times> mach \<Rightarrow> bool"
  let ?run = "\<lambda>i s :: mach. s\<lparr>cur := Some i, pt := upd_proc i (\<lambda>p. p\<lparr>pstate := RUNNING\<rparr>) (pt s)\<rparr>"
  let ?lk = "take_lock 3 initsleeplock" and ?s1 = "?run 2 ex_boot"
  let ?s2 = "?s1\<lparr>cur := None, pt := yield True 2 (pt ?s1)\<rparr>"
  let ?s3 = "?run 3 ?s2"
  have 1: "?R ((initsleeplock, {}), ?s1)" by (rule mon_go(1) [OF mon_reach_boot]) (simp_all add: NPROC_def)
  have "sl_section (KBuf 0) SlAcquire ((initsleeplock, {}), ?s1) = Some ((?lk, {(2, 3)}), ?s1, False)"
    by (simp add: acquiresleep_def initsleeplock_def me_def myproc_def)
  from mon_go(3) [OF 1 _ this] have 2: "?R ((?lk, {(2, 3)}), ?s1)" by simp
  have 3: "?R ((?lk, {(2, 3)}), ?s2)" by (rule mon_go(2) [OF 2]) simp
  have 4: "?R ((?lk, {(2, 3)}), ?s3)" by (rule mon_go(1) [OF 3]) (simp_all add: NPROC_def yield_def)
  have "sl_section (KBuf 0) SlAcquire ((?lk, {(2, 3)}), ?s3) = Some ((?lk, {(2, 3)}), ksleep (KBuf 0) ?s3, True)"
    by (simp add: acquiresleep_def take_lock_def)
  from mon_go(3) [OF 4 _ this] have 5: "?R ((?lk, {(2, 3)}), (ksleep (KBuf 0) ?s3)\<lparr>cur := None\<rparr>)" by simp
  moreover have "asleep_on (KBuf 0) (pt ((ksleep (KBuf 0) ?s3)\<lparr>cur := None\<rparr>)) 3"
    by (simp add: asleep_on_def sleep_enter_def me_def NPROC_def Let_def)
  moreover have "slocked ?lk" using sleeplock_exclusive [OF 5] by (simp split: if_splits)
  ultimately show ?thesis by blast
qed

end
