(* ===== verification/Bio.thy ===== *)
theory Bio
  imports Sleeplock
begin

text \<open>
  \<^verbatim>\<open>kernel/bio.c\<close>: the cache of disk blocks. Buffers are numbered \<open>0 .. NBUF - 1\<close>; the
  list head \<^verbatim>\<open>bcache.head\<close> is number \<open>NBUF\<close>, and the doubly linked list is kept in the
  fields \<open>bprev\<close> and \<open>bnext\<close> as in the code. A block is a map from byte offsets
  (below \<^verbatim>\<open>BSIZE\<close>) to bytes. There is one disk, which \<^verbatim>\<open>virtio_disk_rw\<close> addresses by block
  number only; \<open>wtrace\<close> lists the writes it has received, oldest first, which is
  what a crash can cut short. The definitions are on extensible records, so that the
  log and the file system add their own fields.
\<close>

section \<open>State\<close>

definition MAXOPBLOCKS :: nat where "MAXOPBLOCKS = 10"
definition NBUF :: nat where "NBUF = MAXOPBLOCKS * 3"
definition BSIZE :: nat where "BSIZE = 1024"

type_synonym block = "nat \<Rightarrow> uint8"

record buf =
  valid :: bool
  bdev :: uint32
  blockno :: uint32
  buflock :: sleeplock
  brefcnt :: uint32
  bprev :: nat
  bnext :: nat
  bdata :: block

record bstate = mach +
  bufs :: "nat \<Rightarrow> buf"
  disk :: "uint32 \<Rightarrow> block"
  wtrace :: "(uint32 \<times> block) list"

abbreviation HEAD :: nat where "HEAD \<equiv> NBUF"

definition upd_buf :: "nat \<Rightarrow> (buf \<Rightarrow> buf) \<Rightarrow> 'a bstate_scheme \<Rightarrow> 'a bstate_scheme" where
  "upd_buf i f s = s\<lparr>bufs := (bufs s)(i := f (bufs s i))\<rparr>"

section \<open>Operations\<close>

text \<open>One turn of the loop of \<^verbatim>\<open>binit\<close>.\<close>

definition link_front :: "nat \<Rightarrow> (nat \<Rightarrow> buf) \<Rightarrow> (nat \<Rightarrow> buf)" where
  "link_front b B =
     (let B1 = B(b := (B b)\<lparr>bnext := bnext (B HEAD)\<rparr>);
          B2 = B1(b := (B1 b)\<lparr>bprev := HEAD\<rparr>);
          f = bnext (B2 HEAD);
          B3 = B2(f := (B2 f)\<lparr>bprev := b\<rparr>)
      in B3(HEAD := (B3 HEAD)\<lparr>bnext := b\<rparr>))"

definition unlink :: "nat \<Rightarrow> (nat \<Rightarrow> buf) \<Rightarrow> (nat \<Rightarrow> buf)" where
  "unlink b B =
     (let n = bnext (B b);
          B1 = B(n := (B n)\<lparr>bprev := bprev (B b)\<rparr>);
          p = bprev (B1 b)
      in B1(p := (B1 p)\<lparr>bnext := bnext (B1 b)\<rparr>))"

definition binit :: "'a bstate_scheme \<Rightarrow> 'a bstate_scheme" where
  "binit s =
     s\<lparr>bufs := fold (\<lambda>b B. link_front b (B(b := (B b)\<lparr>buflock := initsleeplock\<rparr>))) [0..<NBUF]
               ((bufs s)(HEAD := (bufs s HEAD)\<lparr>bprev := HEAD, bnext := HEAD\<rparr>))\<rparr>"

text \<open>The two searches of \<^verbatim>\<open>bget\<close>: forwards for the block, backwards for a free buffer.\<close>

partial_function (option) find_cached :: "(nat \<Rightarrow> buf) \<Rightarrow> uint32 \<Rightarrow> uint32 \<Rightarrow> nat \<Rightarrow> nat option option" where
  "find_cached B dev bno b =
     (if b = HEAD then Some None
      else if bdev (B b) = dev \<and> blockno (B b) = bno then Some (Some b)
      else find_cached B dev bno (bnext (B b)))"

declare find_cached.simps [code]

partial_function (option) find_unref :: "(nat \<Rightarrow> buf) \<Rightarrow> nat \<Rightarrow> nat option option" where
  "find_unref B b =
     (if b = HEAD then Some None
      else if brefcnt (B b) = 0 then Some (Some b)
      else find_unref B (bprev (B b)))"

declare find_unref.simps [code]

definition lock_buf :: "nat \<Rightarrow> 'a bstate_scheme \<Rightarrow> (nat \<times> 'a bstate_scheme) res" where
  "lock_buf b s =
     (case acquiresleep (KBuf b) (buflock (bufs s b)) s of
        (Ret _, lk, s1) \<Rightarrow> Ok (b, upd_buf b (\<lambda>x. x\<lparr>buflock := lk\<rparr>) s1)
      | (Sleep, lk, s1) \<Rightarrow> Loop)"

definition bget :: "uint32 \<Rightarrow> uint32 \<Rightarrow> 'a bstate_scheme \<Rightarrow> (nat \<times> 'a bstate_scheme) res" where
  "bget dev bno s =
     (case find_cached (bufs s) dev bno (bnext (bufs s HEAD)) of
        None \<Rightarrow> Loop
      | Some (Some b) \<Rightarrow> lock_buf b (upd_buf b (\<lambda>x. x\<lparr>brefcnt := brefcnt x + 1\<rparr>) s)
      | Some None \<Rightarrow>
          (case find_unref (bufs s) (bprev (bufs s HEAD)) of
             None \<Rightarrow> Loop
           | Some (Some b) \<Rightarrow>
               lock_buf b (upd_buf b (\<lambda>x. x\<lparr>bdev := dev, blockno := bno, valid := False, brefcnt := 1\<rparr>) s)
           | Some None \<Rightarrow> Panic ''bget: no buffers''))"

text \<open>The effect of the disk driver: a transfer between a buffer and the disk.\<close>

definition virtio_disk_rw :: "nat \<Rightarrow> bool \<Rightarrow> 'a bstate_scheme \<Rightarrow> 'a bstate_scheme" where
  "virtio_disk_rw b write s =
     (let bno = blockno (bufs s b)
      in if write then s\<lparr>disk := (disk s)(bno := bdata (bufs s b)), wtrace := wtrace s @ [(bno, bdata (bufs s b))]\<rparr>
         else upd_buf b (\<lambda>x. x\<lparr>bdata := disk s bno\<rparr>) s)"

definition bread :: "uint32 \<Rightarrow> uint32 \<Rightarrow> 'a bstate_scheme \<Rightarrow> (nat \<times> 'a bstate_scheme) res" where
  "bread dev bno s =
     bind_res (bget dev bno s) (\<lambda>(b, s1).
       Ok (b, if \<not> valid (bufs s1 b)
              then upd_buf b (\<lambda>x. x\<lparr>valid := True\<rparr>) (virtio_disk_rw b False s1) else s1))"

definition bwrite :: "nat \<Rightarrow> 'a bstate_scheme \<Rightarrow> 'a bstate_scheme res" where
  "bwrite b s =
     (if \<not> holdingsleep (buflock (bufs s b)) s then Panic ''bwrite'' else Ok (virtio_disk_rw b True s))"

definition unlock_buf :: "nat \<Rightarrow> 'a bstate_scheme \<Rightarrow> 'a bstate_scheme" where
  "unlock_buf b s =
     (case releasesleep (KBuf b) (buflock (bufs s b)) s of
        (lk, s1) \<Rightarrow> upd_buf b (\<lambda>x. x\<lparr>buflock := lk\<rparr>) s1)"

definition brelse :: "nat \<Rightarrow> 'a bstate_scheme \<Rightarrow> 'a bstate_scheme res" where
  "brelse b s =
     (if \<not> holdingsleep (buflock (bufs s b)) s then Panic ''brelse''
      else let s1 = unlock_buf b s;
               s2 = upd_buf b (\<lambda>x. x\<lparr>brefcnt := brefcnt x - 1\<rparr>) s1
           in Ok (if brefcnt (bufs s2 b) = 0 then s2\<lparr>bufs := link_front b (unlink b (bufs s2))\<rparr> else s2))"

definition bpin :: "nat \<Rightarrow> 'a bstate_scheme \<Rightarrow> 'a bstate_scheme" where
  "bpin b s = upd_buf b (\<lambda>x. x\<lparr>brefcnt := brefcnt x + 1\<rparr>) s"

definition bunpin :: "nat \<Rightarrow> 'a bstate_scheme \<Rightarrow> 'a bstate_scheme" where
  "bunpin b s = upd_buf b (\<lambda>x. x\<lparr>brefcnt := brefcnt x - 1\<rparr>) s"

section \<open>Doubly linked segments\<close>

text \<open>\<open>seg B a xs b\<close>: from \<open>a\<close>, the links lead through \<open>xs\<close> to \<open>b\<close>, and back.\<close>

primrec seg :: "(nat \<Rightarrow> buf) \<Rightarrow> nat \<Rightarrow> nat list \<Rightarrow> nat \<Rightarrow> bool" where
  "seg B a [] b \<longleftrightarrow> bnext (B a) = b \<and> bprev (B b) = a"
| "seg B a (x # xs) b \<longleftrightarrow> bnext (B a) = x \<and> bprev (B x) = a \<and> seg B x xs b"

lemma seg_append: "seg B a (xs @ y # ys) b \<longleftrightarrow> seg B a xs y \<and> seg B y ys b"
  by (induction xs arbitrary: a) auto

lemma seg_cong:
  assumes "\<forall>x \<in> insert a (set xs). bnext (B' x) = bnext (B x)" "\<forall>x \<in> insert b (set xs). bprev (B' x) = bprev (B x)"
  shows "seg B' a xs b = seg B a xs b"
  using assms by (induction xs arbitrary: a) auto

definition lru :: "(nat \<Rightarrow> buf) \<Rightarrow> nat list \<Rightarrow> bool" where
  "lru B xs \<longleftrightarrow> seg B HEAD xs HEAD \<and> distinct xs \<and> HEAD \<notin> set xs"

lemma find_cached_eq:
  assumes "seg B a xs HEAD" "HEAD \<notin> set xs"
  shows "find_cached B dev bno (bnext (B a)) = Some (find (\<lambda>b. bdev (B b) = dev \<and> blockno (B b) = bno) xs)"
  using assms
proof (induction xs arbitrary: a)
  case Nil
  then show ?case by (simp add: find_cached.simps)
next
  case (Cons x xs)
  then show ?case by (subst find_cached.simps) auto
qed

lemma find_unref_eq:
  assumes "seg B HEAD xs b" "HEAD \<notin> set xs"
  shows "find_unref B (bprev (B b)) = Some (find (\<lambda>b. brefcnt (B b) = 0) (rev xs))"
  using assms
proof (induction xs arbitrary: b rule: rev_induct)
  case Nil
  then show ?case by (simp add: find_unref.simps)
next
  case (snoc x xs)
  then have "seg B HEAD xs x" "bprev (B b) = x" by (simp_all add: seg_append)
  with snoc show ?case by (subst find_unref.simps) auto
qed

lemma seg_last: "seg B a xs b \<Longrightarrow> bprev (B b) = last (a # xs)"
  by (induction xs arbitrary: a) auto

lemma seg_hd: "seg B a xs b \<Longrightarrow> bnext (B a) = hd (xs @ [b])"
  by (cases xs) auto

text \<open>The fields other than the links, which the list operations do not touch.\<close>

definition body :: "buf \<Rightarrow> bool \<times> uint32 \<times> uint32 \<times> sleeplock \<times> uint32 \<times> block" where
  "body b = (valid b, bdev b, blockno b, buflock b, brefcnt b, bdata b)"

lemma unlink_fields:
  assumes "bnext (B x) \<noteq> x"
  shows "bnext (unlink x B i) = (if i = bprev (B x) then bnext (B x) else bnext (B i))"
    "bprev (unlink x B i) = (if i = bnext (B x) then bprev (B x) else bprev (B i))"
    "body (unlink x B i) = body (B i)"
  using assms by (auto simp: unlink_def Let_def body_def)

lemma link_front_fields:
  assumes "x \<noteq> HEAD" "bnext (B HEAD) \<noteq> x"
  shows "bnext (link_front x B i) = (if i = HEAD then x else if i = x then bnext (B HEAD) else bnext (B i))"
    "bprev (link_front x B i) = (if i = bnext (B HEAD) then x else if i = x then HEAD else bprev (B i))"
    "body (link_front x B i) = body (B i)"
  using assms by (auto simp: link_front_def Let_def body_def)

lemma seg_unlink:
  assumes "seg B a (us @ x # vs) b" "distinct (us @ x # vs)" "a \<notin> set (us @ x # vs)" "b \<notin> set (us @ x # vs)"
  shows "seg (unlink x B) a (us @ vs) b"
proof -
  have p: "bprev (B x) = last (a # us)" and n: "bnext (B x) = hd (vs @ [b])"
    using assms(1) by (auto simp: seg_append dest: seg_last seg_hd)
  have nx: "bnext (B x) \<noteq> x" using assms n by (cases vs) auto
  note f = unlink_fields [where B = B and x = x, OF nx]
  show ?thesis
    using assms p
  proof (induction us arbitrary: a)
    case Nil
    then show ?case
    proof (cases vs)
      case (Cons v vs')
      have "seg (unlink x B) v vs' b = seg B v vs' b"
        by (rule seg_cong) (use Nil n Cons in \<open>auto simp: f\<close>)
      with Nil n Cons show ?thesis by (auto simp: f)
    qed (use Nil n in \<open>auto simp: f\<close>)
  next
    case (Cons u us)
    have ih: "seg (unlink x B) u (us @ vs) b" by (rule Cons.IH) (use Cons.prems in auto)
    have "bnext (unlink x B a) = u"
      using Cons.prems by (auto simp: f split: if_splits)
    moreover have "bprev (unlink x B u) = a"
      using Cons.prems n by (cases vs) (auto simp: f)
    ultimately show ?case using ih by simp
  qed
qed

lemma seg_link_front:
  assumes "seg B HEAD ws HEAD" "x \<noteq> HEAD" "x \<notin> set ws" "HEAD \<notin> set ws" "distinct ws"
  shows "seg (link_front x B) HEAD (x # ws) HEAD"
proof -
  have n: "bnext (B HEAD) = hd (ws @ [HEAD])" using seg_hd [OF assms(1)] .
  then have nx: "bnext (B HEAD) \<noteq> x" using assms by (cases ws) auto
  note f = link_front_fields [where B = B, OF assms(2) nx]
  show ?thesis
  proof (cases ws)
    case Nil
    with assms n show ?thesis by (auto simp: f)
  next
    case (Cons w ws')
    have "seg (link_front x B) w ws' HEAD = seg B w ws' HEAD"
      by (rule seg_cong) (use assms n Cons in \<open>auto simp: f\<close>)
    with assms n Cons show ?thesis by (auto simp: f)
  qed
qed

text \<open>\<^verbatim>\<open>brelse\<close> moves the buffer to the front of the list.\<close>

lemma lru_move_front:
  assumes "lru B xs" "x \<in> set xs"
  shows "lru (link_front x (unlink x B)) (x # remove1 x xs)" "body (link_front x (unlink x B) i) = body (B i)"
proof -
  obtain us vs where xs: "xs = us @ x # vs" "x \<notin> set us"
    using assms(2) by (meson split_list_first)
  have l: "seg B HEAD xs HEAD" "distinct xs" "HEAD \<notin> set xs" using assms by (auto simp: lru_def)
  have u: "seg (unlink x B) HEAD (us @ vs) HEAD" by (rule seg_unlink) (use l xs in auto)
  have r: "remove1 x xs = us @ vs" using xs by (simp add: remove1_append)
  have xv: "x \<notin> set (us @ vs)" "x \<noteq> HEAD" "HEAD \<notin> set (us @ vs)" "distinct (us @ vs)"
    using l xs by auto
  show "lru (link_front x (unlink x B)) (x # remove1 x xs)"
    using seg_link_front [OF u xv(2,1,3,4)] xv unfolding lru_def r by simp
  have "bnext (B x) = hd (vs @ [HEAD])" using l(1) xs by (auto simp: seg_append dest: seg_hd)
  then have 1: "bnext (B x) \<noteq> x" using l xs by (cases vs) auto
  have "hd ((us @ vs) @ [HEAD]) \<in> set ((us @ vs) @ [HEAD])" by (rule hd_in_set) simp
  then have 2: "bnext (unlink x B HEAD) \<noteq> x" using seg_hd [OF u] xv by auto
  show "body (link_front x (unlink x B) i) = body (B i)"
    using link_front_fields(3) [where B = "unlink x B", OF xv(2) 2] unlink_fields(3) [where B = B, OF 1] by simp
qed

lemma lru_fields:
  assumes "\<And>i. bnext (B' i) = bnext (B i)" "\<And>i. bprev (B' i) = bprev (B i)"
  shows "lru B' xs = lru B xs"
  using assms by (simp add: lru_def seg_cong [of _ _ B' B])

end
