(* ===== verification/Bio_Spec.thy ===== *)
theory Bio_Spec
  imports Bio
begin

text \<open>
  What the buffer cache promises to the log and the file system. \<open>view s b\<close> is the
  content of block \<open>b\<close> as seen through the cache. The invariant \<open>bc_ok s P H\<close> says that
  the list is well formed, that a block is cached at most once, which buffers are
  pinned (\<open>P\<close>) and which are locked by the running process (\<open>H\<close>), and that a buffer
  that may be recycled agrees with the disk.
\<close>

section \<open>View and invariant\<close>

definition ROOTDEV :: uint32 where "ROOTDEV = 1"

definition cached :: "'a bstate_scheme \<Rightarrow> nat \<Rightarrow> uint32 \<Rightarrow> bool" where
  "cached s i b \<longleftrightarrow> bdev (bufs s i) = ROOTDEV \<and> blockno (bufs s i) = b"

definition view :: "'a bstate_scheme \<Rightarrow> uint32 \<Rightarrow> block" where
  "view s b =
     (case find (\<lambda>i. cached s i b \<and> valid (bufs s i)) [0..<NBUF] of
        Some i \<Rightarrow> bdata (bufs s i) | None \<Rightarrow> disk s b)"

definition fs_chan :: "kobj \<Rightarrow> bool" where
  "fs_chan ch \<longleftrightarrow> (case ch of KBuf _ \<Rightarrow> True | KInode _ \<Rightarrow> True | KLog \<Rightarrow> True | _ \<Rightarrow> False)"

text \<open>No other process is waiting inside the file system.\<close>

definition still :: "'a mach_scheme \<Rightarrow> bool" where
  "still s \<longleftrightarrow> (\<forall>i < NPROC. pstate (procs (pt s) i) = SLEEPING \<longrightarrow> \<not> fs_chan (chan (procs (pt s) i)))"

lemma kwakeup_still: "still s \<Longrightarrow> fs_chan ch \<Longrightarrow> kwakeup ch s = s"
proof -
  assume "still s" "fs_chan ch"
  then have "wakeup (cur s) ch (pt s) = pt s"
    by (auto simp: wakeup_def still_def fun_eq_iff intro!: ptable.equality)
  then show ?thesis by (simp add: kwakeup_def)
qed

definition bufs_ok :: "(nat \<Rightarrow> buf) \<Rightarrow> (uint32 \<Rightarrow> block) \<Rightarrow> uint32 \<Rightarrow> nat set \<Rightarrow> nat set \<Rightarrow> bool" where
  "bufs_ok B d p P H \<longleftrightarrow>
     P \<subseteq> {..<NBUF} \<and> H \<subseteq> {..<NBUF} \<and>
     (\<exists>xs. lru B xs \<and> set xs = {..<NBUF}) \<and>
     (\<forall>i < NBUF. bdev (B i) \<in> {0, ROOTDEV}) \<and>
     (\<forall>i < NBUF. \<forall>j < NBUF. bdev (B i) = ROOTDEV \<longrightarrow> bdev (B j) = ROOTDEV \<longrightarrow> blockno (B i) = blockno (B j) \<longrightarrow> i = j) \<and>
     (\<forall>i < NBUF. brefcnt (B i) = (if i \<in> P then 1 else 0) + (if i \<in> H then 1 else 0)) \<and>
     (\<forall>i < NBUF. slocked (buflock (B i)) = (i \<in> H)) \<and>
     (\<forall>i \<in> H. slpid (buflock (B i)) = p) \<and>
     (\<forall>i \<in> P \<union> H. valid (B i) \<and> bdev (B i) = ROOTDEV) \<and>
     (\<forall>i < NBUF. i \<notin> P \<union> H \<longrightarrow> bdev (B i) = ROOTDEV \<longrightarrow> valid (B i) \<longrightarrow> bdata (B i) = d (blockno (B i)))"

definition bc_ok :: "'a bstate_scheme \<Rightarrow> nat set \<Rightarrow> nat set \<Rightarrow> bool" where
  "bc_ok s P H \<longleftrightarrow> still s \<and> bufs_ok (bufs s) (disk s) (pid (myproc s)) P H"

lemma bufs_okD:
  assumes "bufs_ok B d p P H"
  shows "P \<subseteq> {..<NBUF}" "H \<subseteq> {..<NBUF}" "\<exists>xs. lru B xs \<and> set xs = {..<NBUF}"
    "\<And>i. i < NBUF \<Longrightarrow> bdev (B i) = 0 \<or> bdev (B i) = ROOTDEV"
    "\<And>i j. i < NBUF \<Longrightarrow> j < NBUF \<Longrightarrow> bdev (B i) = ROOTDEV \<Longrightarrow> bdev (B j) = ROOTDEV \<Longrightarrow> blockno (B i) = blockno (B j) \<Longrightarrow> i = j"
    "\<And>i. i < NBUF \<Longrightarrow> brefcnt (B i) = (if i \<in> P then 1 else 0) + (if i \<in> H then 1 else 0)"
    "\<And>i. i < NBUF \<Longrightarrow> slocked (buflock (B i)) = (i \<in> H)"
    "\<And>i. i \<in> H \<Longrightarrow> slpid (buflock (B i)) = p"
    "\<And>i. i \<in> P \<union> H \<Longrightarrow> valid (B i)" "\<And>i. i \<in> P \<union> H \<Longrightarrow> bdev (B i) = ROOTDEV"
    "\<And>i. i < NBUF \<Longrightarrow> i \<notin> P \<Longrightarrow> i \<notin> H \<Longrightarrow> bdev (B i) = ROOTDEV \<Longrightarrow> valid (B i) \<Longrightarrow> bdata (B i) = d (blockno (B i))"
  using assms unfolding bufs_ok_def by blast+

lemma bufs_okI:
  assumes "P \<subseteq> {..<NBUF}" "H \<subseteq> {..<NBUF}" "\<exists>xs. lru B xs \<and> set xs = {..<NBUF}"
    "\<And>i. i < NBUF \<Longrightarrow> bdev (B i) = 0 \<or> bdev (B i) = ROOTDEV"
    "\<And>i j. i < NBUF \<Longrightarrow> j < NBUF \<Longrightarrow> bdev (B i) = ROOTDEV \<Longrightarrow> bdev (B j) = ROOTDEV \<Longrightarrow> blockno (B i) = blockno (B j) \<Longrightarrow> i = j"
    "\<And>i. i < NBUF \<Longrightarrow> brefcnt (B i) = (if i \<in> P then 1 else 0) + (if i \<in> H then 1 else 0)"
    "\<And>i. i < NBUF \<Longrightarrow> slocked (buflock (B i)) = (i \<in> H)"
    "\<And>i. i \<in> H \<Longrightarrow> slpid (buflock (B i)) = p"
    "\<And>i. i \<in> P \<union> H \<Longrightarrow> valid (B i)" "\<And>i. i \<in> P \<union> H \<Longrightarrow> bdev (B i) = ROOTDEV"
    "\<And>i. i < NBUF \<Longrightarrow> i \<notin> P \<Longrightarrow> i \<notin> H \<Longrightarrow> bdev (B i) = ROOTDEV \<Longrightarrow> valid (B i) \<Longrightarrow> bdata (B i) = d (blockno (B i))"
  shows "bufs_ok B d p P H"
  using assms unfolding bufs_ok_def by blast

lemmas bc_okD = bufs_okD [where B = "bufs s" for s]

lemma bc_ok_bufs: "bc_ok s P H \<Longrightarrow> bufs_ok (bufs s) (disk s) (pid (myproc s)) P H"
  by (simp add: bc_ok_def)

lemma view_cached:
  assumes "bc_ok s P H" "i < NBUF" "cached s i b" "valid (bufs s i)"
  shows "view s b = bdata (bufs s i)"
proof -
  have "find (\<lambda>i. cached s i b \<and> valid (bufs s i)) [0..<NBUF] \<noteq> None"
    using assms by (auto simp: find_None_iff)
  then obtain j where j: "find (\<lambda>i. cached s i b \<and> valid (bufs s i)) [0..<NBUF] = Some j" by blast
  then have "j < NBUF" "cached s j b" by (auto simp: find_Some_iff)
  with bc_okD(5) [OF bc_ok_bufs [OF assms(1)], of j i] assms have "j = i" by (simp add: cached_def)
  with j show ?thesis by (simp add: view_def)
qed

lemma view_uncached:
  assumes "\<And>i. i < NBUF \<Longrightarrow> cached s i b \<Longrightarrow> \<not> valid (bufs s i)"
  shows "view s b = disk s b"
proof -
  have "find (\<lambda>i. cached s i b \<and> valid (bufs s i)) [0..<NBUF] = None"
    using assms by (auto simp: find_None_iff)
  then show ?thesis by (simp add: view_def)
qed

lemma find_SomeD: "find Q xs = Some x \<Longrightarrow> x \<in> set xs \<and> Q x"
  by (induction xs) (auto split: if_splits)

lemma find_upt_Some: "find Q [0..<n] = Some i \<Longrightarrow> i < n \<and> Q i"
  by (auto simp: find_Some_iff)

lemma view_eqI:
  assumes "disk s' = disk s"
    "\<And>i. i < NBUF \<Longrightarrow> cached s' i b \<and> valid (bufs s' i) \<longleftrightarrow> cached s i b \<and> valid (bufs s i)"
    "\<And>i. i < NBUF \<Longrightarrow> cached s i b \<Longrightarrow> valid (bufs s i) \<Longrightarrow> bdata (bufs s' i) = bdata (bufs s i)"
  shows "view s' b = view s b"
proof -
  have eq: "find (\<lambda>i. cached s' i b \<and> valid (bufs s' i)) [0..<NBUF] = find (\<lambda>i. cached s i b \<and> valid (bufs s i)) [0..<NBUF]"
    using assms(2) by (intro find_cong) auto
  show ?thesis
  proof (cases "find (\<lambda>i. cached s i b \<and> valid (bufs s i)) [0..<NBUF]")
    case (Some i)
    with find_upt_Some [OF Some] assms(3) [of i] eq show ?thesis by (simp add: view_def)
  qed (simp add: view_def eq assms(1))
qed

lemma lru_set_body:
  assumes "\<And>x. bnext (f x) = bnext x" "\<And>x. bprev (f x) = bprev x"
  shows "lru (B(i := f (B i))) xs = lru B xs"
  by (rule lru_fields) (simp_all add: assms)

section \<open>Reading a block\<close>

text \<open>The buffer that \<^verbatim>\<open>bread\<close> chooses, and what it makes of it.\<close>

definition chosen :: "'a bstate_scheme \<Rightarrow> nat set \<Rightarrow> nat set \<Rightarrow> uint32 \<Rightarrow> nat \<Rightarrow> bool" where
  "chosen s P H b i \<longleftrightarrow> i < NBUF \<and> i \<notin> H \<and>
     (cached s i b \<or> (i \<notin> P \<and> (\<forall>j < NBUF. \<not> cached s j b)))"

definition got :: "'a bstate_scheme \<Rightarrow> nat \<Rightarrow> uint32 \<Rightarrow> buf" where
  "got s i b = (bufs s i)\<lparr>bdev := ROOTDEV, blockno := b, valid := True, brefcnt := brefcnt (bufs s i) + 1,
     buflock := take_lock (pid (myproc s)) (buflock (bufs s i)), bdata := view s b\<rparr>"

lemma got_fields [simp]:
  "bdev (got s i b) = ROOTDEV" "blockno (got s i b) = b" "valid (got s i b)" "bdata (got s i b) = view s b"
  "brefcnt (got s i b) = brefcnt (bufs s i) + 1" "slocked (buflock (got s i b))"
  "slpid (buflock (got s i b)) = pid (myproc s)" "bnext (got s i b) = bnext (bufs s i)" "bprev (got s i b) = bprev (bufs s i)"
  by (simp_all add: got_def take_lock_def)

lemma lock_buf_free:
  assumes "\<not> slocked (buflock (bufs s i))"
  shows "lock_buf i s = Ok (i, upd_buf i (\<lambda>x. x\<lparr>buflock := take_lock (pid (myproc s)) (buflock x)\<rparr>) s)"
  using assms by (simp add: lock_buf_def acquiresleep_def upd_buf_def)

lemma upd_buf_sels [simp]:
  "bufs (upd_buf i f s) = (bufs s)(i := f (bufs s i))" "disk (upd_buf i f s) = disk s" "wtrace (upd_buf i f s) = wtrace s"
  "myproc (upd_buf i f s) = myproc s" "still (upd_buf i f s) = still s"
  by (simp_all add: upd_buf_def myproc_def me_def still_def)

lemma bread_exec:
  assumes ok: "bc_ok s P H" and free: "\<forall>i \<in> H. \<not> cached s i b"
    and room: "(\<exists>i < NBUF. cached s i b) \<or> card (P \<union> H) < NBUF"
  obtains i where "chosen s P H b i" "bread ROOTDEV b s = Ok (i, s\<lparr>bufs := (bufs s)(i := got s i b)\<rparr>)"
proof -
  note D = bc_okD [OF bc_ok_bufs [OF ok]]
  obtain xs where xs: "lru (bufs s) xs" "set xs = {..<NBUF}" using D(3) by blast
  then have sg: "seg (bufs s) HEAD xs HEAD" "HEAD \<notin> set xs" by (auto simp: lru_def)
  have fc: "find_cached (bufs s) ROOTDEV b (bnext (bufs s HEAD)) = Some (find (\<lambda>i. cached s i b) xs)"
    using find_cached_eq [OF sg] by (simp add: cached_def)
  have fu: "find_unref (bufs s) (bprev (bufs s HEAD)) = Some (find (\<lambda>i. brefcnt (bufs s i) = 0) (rev xs))"
    using find_unref_eq [OF sg] .
  show ?thesis
  proof (cases "\<exists>i < NBUF. cached s i b")
    case True
    then have "find (\<lambda>i. cached s i b) xs \<noteq> None" using xs by (auto simp: find_None_iff)
    then obtain i where f: "find (\<lambda>i. cached s i b) xs = Some i" by blast
    then have i: "i < NBUF" "cached s i b" using find_SomeD [OF f] xs by auto
    then have iH: "i \<notin> H" using free by blast
    have ch: "chosen s P H b i" using i iH by (simp add: chosen_def)
    have lk: "\<not> slocked (buflock (bufs s i))" using D(7) [OF i(1)] iH by simp
    have vw: "view s b = (if valid (bufs s i) then bdata (bufs s i) else disk s b)"
      using view_cached [OF ok i] view_uncached [of s b] D(5) [OF _ i(1)] i(2) by (auto simp: cached_def)
    have "bget ROOTDEV b s = Ok (i, upd_buf i (\<lambda>x. x\<lparr>brefcnt := brefcnt x + 1,
        buflock := take_lock (pid (myproc s)) (buflock x)\<rparr>) s)"
      using lk by (simp add: bget_def fc f lock_buf_free) (simp add: upd_buf_def)
    moreover have "valid (bufs s i) \<Longrightarrow> (bufs s i)\<lparr>brefcnt := brefcnt (bufs s i) + 1,
        buflock := take_lock (pid (myproc s)) (buflock (bufs s i))\<rparr> = got s i b"
      using i vw by (intro buf.equality) (simp_all add: got_def cached_def)
    moreover have "(bufs s i)\<lparr>brefcnt := brefcnt (bufs s i) + 1,
        buflock := take_lock (pid (myproc s)) (buflock (bufs s i)), bdata := view s b, valid := True\<rparr> = got s i b"
      using i by (intro buf.equality) (simp_all add: got_def cached_def)
    ultimately have "bread ROOTDEV b s = Ok (i, s\<lparr>bufs := (bufs s)(i := got s i b)\<rparr>)"
      using i vw by (cases "valid (bufs s i)") (simp_all add: bread_def virtio_disk_rw_def Let_def upd_buf_def cached_def)
    with ch show ?thesis by (rule that)
  next
    case False
    then have nc: "find (\<lambda>i. cached s i b) xs = None" using xs by (auto simp: find_None_iff)
    have "P \<union> H \<noteq> {..<NBUF}" using room False by (metis card_lessThan less_irrefl)
    then obtain j where "j < NBUF" "j \<notin> P \<union> H" using D(1,2) by blast
    then have "find (\<lambda>i. brefcnt (bufs s i) = 0) (rev xs) \<noteq> None"
      using xs D(6) [of j] by (auto simp: find_None_iff)
    then obtain i where f: "find (\<lambda>i. brefcnt (bufs s i) = 0) (rev xs) = Some i" by blast
    then have i: "i < NBUF" "brefcnt (bufs s i) = 0"
      using find_SomeD [OF f] xs by auto
    then have iPH: "i \<notin> P" "i \<notin> H" using D(6) [OF i(1)] by (auto split: if_splits)
    have ch: "chosen s P H b i" using i iPH False by (simp add: chosen_def)
    have lk: "\<not> slocked (buflock (bufs s i))" using D(7) [OF i(1)] iPH by simp
    have vw: "view s b = disk s b" using view_uncached [of s b] False by blast
    have "bget ROOTDEV b s = Ok (i, upd_buf i (\<lambda>x. x\<lparr>bdev := ROOTDEV, blockno := b, valid := False, brefcnt := 1,
        buflock := take_lock (pid (myproc s)) (buflock x)\<rparr>) s)"
      using lk by (simp add: bget_def fc nc fu f lock_buf_free) (simp add: upd_buf_def)
    moreover have "(bufs s i)\<lparr>bdev := ROOTDEV, blockno := b, brefcnt := 1,
        buflock := take_lock (pid (myproc s)) (buflock (bufs s i)), bdata := view s b, valid := True\<rparr> = got s i b"
      using i by (intro buf.equality) (simp_all add: got_def)
    ultimately have "bread ROOTDEV b s = Ok (i, s\<lparr>bufs := (bufs s)(i := got s i b)\<rparr>)"
      using i vw by (simp add: bread_def virtio_disk_rw_def Let_def upd_buf_def)
    with ch show ?thesis by (rule that)
  qed
qed

lemma chosen_unique:
  assumes "bc_ok s P H" "chosen s P H b i" "j < NBUF" "cached s j b"
  shows "j = i"
  using assms bc_okD(5) [OF bc_ok_bufs [OF assms(1)], of i j] by (auto simp: chosen_def cached_def)

lemma bc_ok_got:
  assumes ok: "bc_ok s P H" and ch: "chosen s P H b i"
  shows "bc_ok (s\<lparr>bufs := (bufs s)(i := got s i b)\<rparr>) P (insert i H)"
proof -
  note D = bc_okD [OF bc_ok_bufs [OF ok]]
  have i: "i < NBUF" "i \<notin> H" using ch by (auto simp: chosen_def)
  have uni: "\<And>j. j < NBUF \<Longrightarrow> bdev (bufs s j) = ROOTDEV \<Longrightarrow> blockno (bufs s j) = b \<Longrightarrow> j = i"
    using chosen_unique [OF ok ch] by (simp add: cached_def)
  have "lru ((bufs s)(i := got s i b)) xs = lru (bufs s) xs" for xs
    by (rule lru_fields) simp_all
  then have 1: "\<exists>xs. lru ((bufs s)(i := got s i b)) xs \<and> set xs = {..<NBUF}" using D(3) by simp
  have "bufs_ok ((bufs s)(i := got s i b)) (disk s) (pid (myproc s)) P (insert i H)"
  proof (rule bufs_okI)
    show "j = k" if "j < NBUF" "k < NBUF" "bdev (((bufs s)(i := got s i b)) j) = ROOTDEV"
      "bdev (((bufs s)(i := got s i b)) k) = ROOTDEV"
      "blockno (((bufs s)(i := got s i b)) j) = blockno (((bufs s)(i := got s i b)) k)" for j k
      using that uni [of j] uni [of k] D(5) [of j k] by (auto split: if_splits)
  qed (use D(1,2) i 1 D(4,6,7,8,9,10,11) in \<open>auto split: if_splits\<close>)
  moreover have "myproc (s\<lparr>bufs := (bufs s)(i := got s i b)\<rparr>) = myproc s" "still (s\<lparr>bufs := (bufs s)(i := got s i b)\<rparr>) = still s"
    by (simp_all add: myproc_def me_def still_def)
  ultimately show ?thesis using ok by (simp add: bc_ok_def)
qed

lemma view_got:
  assumes ok: "bc_ok s P H" and ch: "chosen s P H b i"
  shows "view (s\<lparr>bufs := (bufs s)(i := got s i b)\<rparr>) = view s"
proof
  fix c
  let ?s = "s\<lparr>bufs := (bufs s)(i := got s i b)\<rparr>"
  note D = bc_okD [OF bc_ok_bufs [OF ok]]
  have i: "i < NBUF" "i \<notin> H" using ch by (auto simp: chosen_def)
  show "view ?s c = view s c"
  proof (cases "c = b")
    case True
    then show ?thesis
      using view_cached [OF bc_ok_got [OF ok ch] i(1), of b] by (simp add: cached_def)
  next
    case False
    show ?thesis
    proof (cases "cached s i c \<and> valid (bufs s i)")
      case True
      then have "\<not> cached s i b" using False by (auto simp: cached_def)
      then have "i \<notin> P" using ch by (auto simp: chosen_def)
      then have "view s c = disk s c"
        using view_cached [OF ok i(1)] True D(11) [OF i(1)] i(2) by (auto simp: cached_def)
      moreover have "view ?s c = disk ?s c"
      proof (rule view_uncached)
        show "\<not> valid (bufs ?s j)" if "j < NBUF" "cached ?s j c" for j
          using D(5) [OF that(1) i(1)] that True False by (cases "j = i") (simp_all add: cached_def)
      qed
      ultimately show ?thesis by simp
    next
      case n: False
      show ?thesis
        by (rule view_eqI) (use False n in \<open>auto simp: cached_def\<close>)
    qed
  qed
qed

text \<open>The contract of \<^verbatim>\<open>bread\<close>.\<close>

lemma bread_spec:
  assumes ok: "bc_ok s P H" and free: "\<forall>i \<in> H. \<not> cached s i b"
    and room: "(\<exists>i < NBUF. cached s i b) \<or> card (P \<union> H) < NBUF"
  obtains i B where "bread ROOTDEV b s = Ok (i, s\<lparr>bufs := B\<rparr>)" "i < NBUF" "i \<notin> H"
    "blockno (B i) = b" "bdata (B i) = view s b" "bc_ok (s\<lparr>bufs := B\<rparr>) P (insert i H)"
    "view (s\<lparr>bufs := B\<rparr>) = view s" "\<forall>j. j \<noteq> i \<longrightarrow> B j = bufs s j"
    "\<forall>j \<in> P. cached s j b \<longleftrightarrow> j = i" "\<forall>j \<in> P. blockno (B j) = blockno (bufs s j)"
proof -
  obtain i where ch: "chosen s P H b i" and ex: "bread ROOTDEV b s = Ok (i, s\<lparr>bufs := (bufs s)(i := got s i b)\<rparr>)"
    using bread_exec [OF assms] .
  have i: "i < NBUF" "i \<notin> H" using ch by (auto simp: chosen_def)
  have P: "\<forall>j \<in> P. cached s j b \<longleftrightarrow> j = i"
    using chosen_unique [OF ok ch] ch bc_okD(1) [OF bc_ok_bufs [OF ok]] by (auto simp: chosen_def)
  show thesis
    by (rule that [OF ex i _ _ bc_ok_got [OF ok ch] view_got [OF ok ch] _ P]) (use P in \<open>auto simp: cached_def\<close>)
qed

lemma bread_ex:
  assumes "bc_ok s P H" "\<forall>i \<in> H. \<not> cached s i b" "(\<exists>i < NBUF. cached s i b) \<or> card (P \<union> H) < NBUF"
  shows "\<exists>i B. bread ROOTDEV b s = Ok (i, s\<lparr>bufs := B\<rparr>) \<and> i < NBUF \<and> i \<notin> H \<and>
     blockno (B i) = b \<and> bdata (B i) = view s b \<and> bc_ok (s\<lparr>bufs := B\<rparr>) P (insert i H) \<and>
     view (s\<lparr>bufs := B\<rparr>) = view s \<and> (\<forall>j. j \<noteq> i \<longrightarrow> B j = bufs s j) \<and>
     (\<forall>j \<in> P. cached s j b \<longleftrightarrow> j = i) \<and> (\<forall>j \<in> P. blockno (B j) = blockno (bufs s j))"
  by (rule bread_spec [OF assms]) blast

section \<open>Changing, writing and releasing a buffer\<close>

lemma mach_sels [simp]:
  "myproc (s\<lparr>bufs := B\<rparr>) = myproc s" "still (s\<lparr>bufs := B\<rparr>) = still s"
  "myproc (s\<lparr>disk := d, wtrace := w\<rparr>) = myproc s" "still (s\<lparr>disk := d, wtrace := w\<rparr>) = still s"
  by (simp_all add: myproc_def me_def still_def)

lemma bc_ok_data:
  assumes ok: "bc_ok s P H" and i: "i \<in> H"
  shows "bc_ok (upd_buf i (\<lambda>x. x\<lparr>bdata := d\<rparr>) s) P H"
    and "view (upd_buf i (\<lambda>x. x\<lparr>bdata := d\<rparr>) s) = (view s)(blockno (bufs s i) := d)"
proof -
  let ?B = "(bufs s)(i := (bufs s i)\<lparr>bdata := d\<rparr>)"
  let ?s = "upd_buf i (\<lambda>x. x\<lparr>bdata := d\<rparr>) s"
  note D = bc_okD [OF bc_ok_bufs [OF ok]]
  have il: "i < NBUF" using D(2) i by blast
  have lr: "lru ?B xs = lru (bufs s) xs" for xs by (rule lru_fields) simp_all
  have "bufs_ok ?B (disk s) (pid (myproc s)) P H"
  proof (rule bufs_okI)
    show "j = k" if "j < NBUF" "k < NBUF" "bdev (?B j) = ROOTDEV" "bdev (?B k) = ROOTDEV" "blockno (?B j) = blockno (?B k)" for j k
      using that D(5) [of j k] by (auto split: if_splits)
  qed (use D(1,2,3,4,6,7,8,9,10,11) i lr in \<open>auto split: if_splits\<close>)
  with ok show okd: "bc_ok ?s P H" by (simp add: bc_ok_def)
  show "view ?s = (view s)(blockno (bufs s i) := d)"
  proof
    fix c
    show "view ?s c = ((view s)(blockno (bufs s i) := d)) c"
    proof (cases "c = blockno (bufs s i)")
      case True
      then show ?thesis
        using view_cached [OF okd il, of c] D(9,10) [of i] i by (simp add: cached_def)
    next
      case False
      have "view ?s c = view s c"
        by (rule view_eqI) (use False in \<open>auto simp: cached_def\<close>)
      with False show ?thesis by simp
    qed
  qed
qed

lemma bwrite_spec:
  assumes ok: "bc_ok s P H" and i: "i \<in> H"
  shows "bwrite i s = Ok (s\<lparr>disk := (disk s)(blockno (bufs s i) := bdata (bufs s i)),
      wtrace := wtrace s @ [(blockno (bufs s i), bdata (bufs s i))]\<rparr>)"
    and "bc_ok (s\<lparr>disk := (disk s)(blockno (bufs s i) := bdata (bufs s i)), wtrace := w\<rparr>) P H"
    and "view (s\<lparr>disk := (disk s)(blockno (bufs s i) := bdata (bufs s i)), wtrace := w\<rparr>) = view s"
proof -
  let ?b = "blockno (bufs s i)"
  let ?s = "s\<lparr>disk := (disk s)(?b := bdata (bufs s i)), wtrace := w\<rparr>"
  note D = bc_okD [OF bc_ok_bufs [OF ok]]
  have il: "i < NBUF" using D(2) i by blast
  show "bwrite i s = Ok (s\<lparr>disk := (disk s)(?b := bdata (bufs s i)), wtrace := wtrace s @ [(?b, bdata (bufs s i))]\<rparr>)"
    using D(7) [OF il] D(8) [OF i] i by (simp add: bwrite_def holdingsleep_def virtio_disk_rw_def Let_def)
  have "bufs_ok (bufs s) ((disk s)(?b := bdata (bufs s i))) (pid (myproc s)) P H"
  proof (rule bufs_okI)
    show "bdata (bufs s j) = ((disk s)(?b := bdata (bufs s i))) (blockno (bufs s j))"
      if "j < NBUF" "j \<notin> P" "j \<notin> H" "bdev (bufs s j) = ROOTDEV" "valid (bufs s j)" for j
      using that D(11) [OF that] D(5) [of j i] D(10) [of i] i il by auto
  qed (use D(1,2,3,4,6,7,8,9,10) in auto, rule D(5))
  with ok show oks: "bc_ok ?s P H" by (simp add: bc_ok_def)
  show "view ?s = view s"
  proof
    fix c
    have *: "cached ?s j e = cached s j e" for j e by (simp add: cached_def)
    show "view ?s c = view s c"
    proof (cases "c = ?b")
      case True
      have "cached s i ?b" using D(10) [of i] i by (simp add: cached_def)
      then show ?thesis
        using True view_cached [OF oks il, of ?b] view_cached [OF ok il, of ?b] D(9) [of i] i by (simp add: *)
    qed (simp add: view_def * split: option.splits)
  qed
qed

lemma brelse_spec:
  assumes ok: "bc_ok s P H" and i: "i \<in> H" and clean: "i \<in> P \<or> bdata (bufs s i) = disk s (blockno (bufs s i))"
  obtains B where "brelse i s = Ok (s\<lparr>bufs := B\<rparr>)" "bc_ok (s\<lparr>bufs := B\<rparr>) P (H - {i})"
    "view (s\<lparr>bufs := B\<rparr>) = view s" "\<forall>j. bdata (B j) = bdata (bufs s j) \<and> blockno (B j) = blockno (bufs s j)"
proof -
  note D = bc_okD [OF bc_ok_bufs [OF ok]]
  have il: "i < NBUF" using D(2) i by blast
  have hold: "holdingsleep (buflock (bufs s i)) s"
    using D(7) [OF il] D(8) [OF i] i by (simp add: holdingsleep_def)
  let ?x = "(bufs s i)\<lparr>buflock := drop_lock (buflock (bufs s i)), brefcnt := brefcnt (bufs s i) - 1\<rparr>"
  let ?B1 = "(bufs s)(i := ?x)"
  have st: "kwakeup (KBuf i) s = s" using ok by (intro kwakeup_still) (simp_all add: bc_ok_def fs_chan_def)
  obtain xs where xs: "lru (bufs s) xs" "set xs = {..<NBUF}" using D(3) by blast
  have lru1: "lru ?B1 xs" using xs(1) by (subst lru_fields [where B = "bufs s"]) simp_all
  define B where "B = (if brefcnt ?x = 0 then link_front i (unlink i ?B1) else ?B1)"
  have ex: "brelse i s = Ok (s\<lparr>bufs := B\<rparr>)"
    using hold by (simp add: brelse_def unlock_buf_def releasesleep_def st upd_buf_def B_def)
  have ixs: "i \<in> set xs" using xs il by simp
  have B: "B = link_front i (unlink i ?B1) \<and> brefcnt ?x = 0 \<or> B = ?B1 \<and> brefcnt ?x \<noteq> 0"
    unfolding B_def by (simp only: split: if_split) blast
  then have body: "body (B j) = body (?B1 j)" for j
    using lru_move_front(2) [OF lru1 ixs, of j] by (elim disjE conjE) (simp_all only:)
  have "\<exists>xs. lru B xs \<and> set xs = {..<NBUF}"
  proof (cases "brefcnt ?x = 0")
    case True
    have "set (i # remove1 i xs) = {..<NBUF}" using xs lru1 ixs by (auto simp: lru_def)
    moreover have "B = link_front i (unlink i ?B1)" using B True by blast
    ultimately show ?thesis using lru_move_front(1) [OF lru1 ixs] by blast
  next
    case False
    then have "B = ?B1" using B by blast
    with lru1 xs show ?thesis by blast
  qed
  note lruB = this
  have f: "valid (B j) = valid (bufs s j)" "bdev (B j) = bdev (bufs s j)" "blockno (B j) = blockno (bufs s j)"
    "bdata (B j) = bdata (bufs s j)" "buflock (B j) = (if j = i then drop_lock (buflock (bufs s j)) else buflock (bufs s j))"
    "brefcnt (B j) = (if j = i then brefcnt (bufs s j) - 1 else brefcnt (bufs s j))" for j
    using body [of j] by (auto simp: body_def)
  have "bufs_ok B (disk s) (pid (myproc s)) P (H - {i})"
  proof (rule bufs_okI)
    show "j = k" if "j < NBUF" "k < NBUF" "bdev (B j) = ROOTDEV" "bdev (B k) = ROOTDEV" "blockno (B j) = blockno (B k)" for j k
      using that D(5) [of j k] by (simp add: f)
  qed (use D(1,2,4,6,7,8,9,10,11) lruB clean i in \<open>auto simp: f drop_lock_def split: if_splits\<close>)
  with ok have okB: "bc_ok (s\<lparr>bufs := B\<rparr>) P (H - {i})" by (simp add: bc_ok_def)
  have "view (s\<lparr>bufs := B\<rparr>) c = view s c" for c
    by (rule view_eqI) (simp_all add: cached_def f)
  then have "view (s\<lparr>bufs := B\<rparr>) = view s" by blast
  with that [OF ex okB] show ?thesis by (simp add: f)
qed

lemma brelse_ex:
  assumes "bc_ok s P H" "i \<in> H" "i \<in> P \<or> bdata (bufs s i) = disk s (blockno (bufs s i))"
  shows "\<exists>B. brelse i s = Ok (s\<lparr>bufs := B\<rparr>) \<and> bc_ok (s\<lparr>bufs := B\<rparr>) P (H - {i}) \<and>
     view (s\<lparr>bufs := B\<rparr>) = view s \<and> (\<forall>j. bdata (B j) = bdata (bufs s j) \<and> blockno (B j) = blockno (bufs s j))"
  by (rule brelse_spec [OF assms]) blast

lemma bpin_spec:
  assumes ok: "bc_ok s P H" and i: "i \<in> H" "i \<notin> P"
  shows "bc_ok (bpin i s) (insert i P) H" "view (bpin i s) = view s"
proof -
  let ?B = "(bufs s)(i := (bufs s i)\<lparr>brefcnt := brefcnt (bufs s i) + 1\<rparr>)"
  note D = bc_okD [OF bc_ok_bufs [OF ok]]
  have lr: "lru ?B xs = lru (bufs s) xs" for xs by (rule lru_fields) simp_all
  have "bufs_ok ?B (disk s) (pid (myproc s)) (insert i P) H"
  proof (rule bufs_okI)
    show "j = k" if "j < NBUF" "k < NBUF" "bdev (?B j) = ROOTDEV" "bdev (?B k) = ROOTDEV" "blockno (?B j) = blockno (?B k)" for j k
      using that D(5) [of j k] by (auto split: if_splits)
  qed (use D(1,2,3,4,6,7,8,9,10,11) i lr in \<open>auto split: if_splits\<close>)
  with ok show "bc_ok (bpin i s) (insert i P) H" by (simp add: bc_ok_def bpin_def)
  have "view (bpin i s) c = view s c" for c
    by (rule view_eqI) (auto simp: cached_def bpin_def)
  then show "view (bpin i s) = view s" by blast
qed

lemma bunpin_spec:
  assumes ok: "bc_ok s P H" and i: "i \<in> H" "i \<in> P"
  shows "bc_ok (bunpin i s) (P - {i}) H" "view (bunpin i s) = view s"
proof -
  let ?B = "(bufs s)(i := (bufs s i)\<lparr>brefcnt := brefcnt (bufs s i) - 1\<rparr>)"
  note D = bc_okD [OF bc_ok_bufs [OF ok]]
  have lr: "lru ?B xs = lru (bufs s) xs" for xs by (rule lru_fields) simp_all
  have "bufs_ok ?B (disk s) (pid (myproc s)) (P - {i}) H"
  proof (rule bufs_okI)
    show "j = k" if "j < NBUF" "k < NBUF" "bdev (?B j) = ROOTDEV" "bdev (?B k) = ROOTDEV" "blockno (?B j) = blockno (?B k)" for j k
      using that D(5) [of j k] by (auto split: if_splits)
    show "brefcnt (?B j) = (if j \<in> P - {i} then 1 else 0) + (if j \<in> H then 1 else 0)" if "j < NBUF" for j
      using D(6) [OF that] i by (cases "j = i") simp_all
    show "slocked (buflock (?B j)) = (j \<in> H)" if "j < NBUF" for j
      using D(7) [OF that] by (cases "j = i") simp_all
    show "P - {i} \<subseteq> {..<NBUF}" "H \<subseteq> {..<NBUF}" using D(1,2) by auto
    show "\<exists>xs. lru ?B xs \<and> set xs = {..<NBUF}" using D(3) by (simp only: lr)
    show "bdev (?B j) = 0 \<or> bdev (?B j) = ROOTDEV" if "j < NBUF" for j using D(4) [OF that] by auto
    show "slpid (buflock (?B j)) = pid (myproc s)" if "j \<in> H" for j using D(8) [OF that] by auto
    show "valid (?B j)" "bdev (?B j) = ROOTDEV" if "j \<in> P - {i} \<union> H" for j
      using D(9,10) [of j] that by auto
    show "bdata (?B j) = disk s (blockno (?B j))"
      if "j < NBUF" "j \<notin> P - {i}" "j \<notin> H" "bdev (?B j) = ROOTDEV" "valid (?B j)" for j
    proof -
      have "j \<noteq> i" "j \<notin> P" using that(2,3) i by blast+
      then show ?thesis using D(11) [of j] that by simp
    qed
  qed
  with ok show "bc_ok (bunpin i s) (P - {i}) H" by (simp add: bc_ok_def bunpin_def)
  have "view (bunpin i s) c = view s c" for c
    by (rule view_eqI) (auto simp: cached_def bunpin_def)
  then show "view (bunpin i s) = view s" by blast
qed

section \<open>Initialisation and order of use\<close>

lemma seg_link_front_lock:
  assumes "seg B HEAD ws HEAD" "x \<noteq> HEAD" "x \<notin> set ws" "HEAD \<notin> set ws" "distinct ws"
  shows "seg (link_front x (B(x := (B x)\<lparr>buflock := l\<rparr>))) HEAD (x # ws) HEAD"
proof -
  have "seg (B(x := (B x)\<lparr>buflock := l\<rparr>)) HEAD ws HEAD"
    using assms(1) by (subst seg_cong [where B = B]) simp_all
  then show ?thesis using assms(2-) by (rule seg_link_front)
qed

definition fresh_buf :: "buf \<Rightarrow> bool" where
  "fresh_buf b \<longleftrightarrow> bdev b = 0 \<and> \<not> valid b \<and> brefcnt b = 0"

lemma binit_loop:
  fixes B0 :: "nat \<Rightarrow> buf"
  assumes "\<forall>i < NBUF. fresh_buf (B0 i)"
  defines "B k \<equiv> fold (\<lambda>b B. link_front b (B(b := (B b)\<lparr>buflock := initsleeplock\<rparr>))) [0..<k]
     (B0(HEAD := (B0 HEAD)\<lparr>bprev := HEAD, bnext := HEAD\<rparr>))"
  shows "k \<le> NBUF \<Longrightarrow> seg (B k) HEAD (rev [0..<k]) HEAD \<and> (\<forall>i < NBUF. fresh_buf (B k i)) \<and>
    (\<forall>i < k. buflock (B k i) = initsleeplock)"
proof (induction k)
  case 0
  then show ?case using assms(1) by (simp add: B_def)
next
  case (Suc k)
  let ?C = "(B k)(k := (B k k)\<lparr>buflock := initsleeplock\<rparr>)"
  have B: "B (Suc k) = link_front k ?C" by (simp add: B_def)
  have k: "k \<noteq> HEAD" "k < NBUF" using Suc.prems by auto
  have ih: "seg (B k) HEAD (rev [0..<k]) HEAD" "\<forall>i < NBUF. fresh_buf (B k i)" "\<forall>i < k. buflock (B k i) = initsleeplock"
    using Suc by auto
  have "hd (rev [0..<k] @ [HEAD]) \<in> set (rev [0..<k] @ [HEAD])" by (rule hd_in_set) simp
  then have "bnext (B k HEAD) \<in> {..<k} \<union> {HEAD}" unfolding seg_hd [OF ih(1)] by auto
  then have "bnext (?C HEAD) \<noteq> k" using k by auto
  then have f: "body (link_front k ?C i) = body (?C i)" for i
    using link_front_fields(3) [where B = ?C and x = k] k(1) by blast
  have "fresh_buf (link_front k ?C i) = fresh_buf (?C i)" "buflock (link_front k ?C i) = buflock (?C i)" for i
    using f [of i] by (auto simp: body_def fresh_buf_def)
  moreover have "seg (link_front k ?C) HEAD (k # rev [0..<k]) HEAD"
    by (rule seg_link_front_lock [OF ih(1)]) (use k in auto)
  ultimately show ?case
    using ih k unfolding B by (auto simp: fresh_buf_def less_Suc_eq)
qed

lemma binit_lru:
  assumes "\<forall>i < NBUF. fresh_buf (bufs s i)" "still s"
  shows "bc_ok (binit s) {} {} \<and> lru (bufs (binit s)) (rev [0..<NBUF]) \<and> view (binit s) = disk s"
proof -
  let ?B = "bufs (binit s)"
  have l: "seg ?B HEAD (rev [0..<NBUF]) HEAD" "\<forall>i < NBUF. fresh_buf (?B i)" "\<forall>i < NBUF. buflock (?B i) = initsleeplock"
    using binit_loop [OF assms(1), of NBUF] by (simp_all add: binit_def)
  then have lr: "lru ?B (rev [0..<NBUF])" by (simp add: lru_def)
  have "bufs_ok ?B (disk s) p {} {}" for p
  proof (rule bufs_okI)
    show "\<exists>xs. lru ?B xs \<and> set xs = {..<NBUF}" using lr by (intro exI [of _ "rev [0..<NBUF]"]) auto
  qed (use l in \<open>auto simp: fresh_buf_def initsleeplock_def ROOTDEV_def\<close>)
  then have "bc_ok (binit s) {} {}" using assms(2) by (simp add: bc_ok_def binit_def)
  moreover have "view (binit s) b = disk s b" for b
    using l(2) view_uncached [of "binit s" b] by (simp add: fresh_buf_def) (simp add: binit_def)
  ultimately show ?thesis using lr by blast
qed

definition cold :: bstate where
  "cold = \<lparr>km = \<lparr>phys = (\<lambda>_. 0), kend = 0x80400000, free_areas = (\<lambda>_. \<lparr>freelist = 0, nr_free = 0\<rparr>),
       refcnt = (\<lambda>_. 0), page_state = (\<lambda>_. 0)\<rparr>, pt = ready_table, cur = Some 2, klocal = 0x80010000,
     bufs = (\<lambda>_. \<lparr>valid = False, bdev = 0, blockno = 0, buflock = initsleeplock, brefcnt = 0, bprev = 0, bnext = 0,
       bdata = (\<lambda>_. 0)\<rparr>), disk = (\<lambda>_ _. 0), wtrace = []\<rparr>"

lemma cold_fresh: "\<forall>i < NBUF. fresh_buf (bufs cold i)" "still cold"
  by (simp_all add: cold_def fresh_buf_def still_def ready_table_def)

text \<open>
  C34. The pointer searches of \<^verbatim>\<open>bget\<close> are searches of a list in order of last use: a
  cached block is found wherever it is; otherwise the least recently used buffer
  with no references is recycled, and only if there is none does \<^verbatim>\<open>bget\<close> panic.
  Releasing the last reference moves the buffer to the front.
\<close>

theorem bget_is_lru:
  assumes "lru (bufs s) xs"
  shows "bget dev bno s =
     (case find (\<lambda>b. bdev (bufs s b) = dev \<and> blockno (bufs s b) = bno) xs of
        Some b \<Rightarrow> lock_buf b (upd_buf b (\<lambda>x. x\<lparr>brefcnt := brefcnt x + 1\<rparr>) s)
      | None \<Rightarrow>
          (case find (\<lambda>b. brefcnt (bufs s b) = 0) (rev xs) of
             Some b \<Rightarrow> lock_buf b (upd_buf b (\<lambda>x. x\<lparr>bdev := dev, blockno := bno, valid := False, brefcnt := 1\<rparr>) s)
           | None \<Rightarrow> Panic ''bget: no buffers'')) \<and>
   (\<forall>b s'. b \<in> set xs \<longrightarrow> brelse b s = Ok s' \<longrightarrow> lru (bufs s') (if brefcnt (bufs s' b) = 0 then b # remove1 b xs else xs))"
proof -
  have sg: "seg (bufs s) HEAD xs HEAD" "HEAD \<notin> set xs" using assms by (auto simp: lru_def)
  have "lru (bufs s') (if brefcnt (bufs s' b) = 0 then b # remove1 b xs else xs)"
    if b: "b \<in> set xs" and r: "brelse b s = Ok s'" for b s'
  proof -
    let ?x = "(bufs s b)\<lparr>buflock := drop_lock (buflock (bufs s b)), brefcnt := brefcnt (bufs s b) - 1\<rparr>"
    let ?B = "(bufs s)(b := ?x)"
    have l1: "lru ?B xs" using assms by (subst lru_fields [where B = "bufs s"]) simp_all
    have B: "bufs s' = (if brefcnt ?x = 0 then link_front b (unlink b ?B) else ?B)"
      using r by (auto simp: brelse_def unlock_buf_def releasesleep_def kwakeup_def upd_buf_def Let_def split: if_splits)
    show ?thesis
    proof (cases "brefcnt ?x = 0")
      case True
      have "bufs s' = link_front b (unlink b ?B)" using B unfolding if_P [OF True] .
      moreover from this have "brefcnt (bufs s' b) = brefcnt ?x"
        using lru_move_front(2) [OF l1 b, of b] by (simp add: body_def)
      ultimately show ?thesis using lru_move_front(1) [OF l1 b] True by (simp only: refl if_True)
    next
      case False
      have "bufs s' = ?B" using B unfolding if_not_P [OF False] .
      then show ?thesis using l1 False by simp
    qed
  qed
  then show ?thesis
    by (auto simp: bget_def find_cached_eq [OF sg] find_unref_eq [OF sg] split: option.splits)
qed

theorem bget_is_lru_witness:
  "\<exists>s'. bget ROOTDEV 7 (binit cold) = lock_buf 0 s'"
proof -
  have l: "lru (bufs (binit cold)) (rev [0..<NBUF])" and ok: "bc_ok (binit cold) {} {}"
    using binit_lru [OF cold_fresh] by blast+
  note D = bc_okD [OF bc_ok_bufs [OF ok]]
  have fr: "\<forall>i < NBUF. fresh_buf (bufs (binit cold) i)"
    using binit_loop [OF cold_fresh(1), of NBUF] by (simp add: binit_def)
  then have "find (\<lambda>b. bdev (bufs (binit cold) b) = ROOTDEV \<and> blockno (bufs (binit cold) b) = 7) (rev [0..<NBUF]) = None"
    by (auto simp: find_None_iff fresh_buf_def ROOTDEV_def)
  moreover have "[0..<NBUF] = 0 # [1..<NBUF]" by (simp add: upt_conv_Cons NBUF_def MAXOPBLOCKS_def)
  then have "find (\<lambda>b. brefcnt (bufs (binit cold) b) = 0) (rev (rev [0..<NBUF])) = Some 0"
    using fr by (simp add: fresh_buf_def NBUF_def MAXOPBLOCKS_def)
  ultimately show ?thesis
    using bget_is_lru [OF l, of ROOTDEV 7] by auto
qed

section \<open>The contract of a read\<close>

text \<open>
  C5. \<^verbatim>\<open>bread\<close> returns a locked buffer that holds the current contents of the block,
  whether it was cached or not, and changes no block: recycling a buffer loses
  nothing. It succeeds if the block is cached or some buffer is neither pinned nor
  locked, and the process does not hold that block already.
\<close>

theorem bread_current:
  assumes "bc_ok s P H" "\<forall>i \<in> H. \<not> cached s i b" "(\<exists>i < NBUF. cached s i b) \<or> card (P \<union> H) < NBUF"
  shows "\<exists>i s'. bread ROOTDEV b s = Ok (i, s') \<and> i \<notin> H \<and> blockno (bufs s' i) = b \<and> bdata (bufs s' i) = view s b \<and>
     holdingsleep (buflock (bufs s' i)) s' \<and> view s' = view s \<and> disk s' = disk s \<and> bc_ok s' P (insert i H)"
proof -
  obtain i B where r: "bread ROOTDEV b s = Ok (i, s\<lparr>bufs := B\<rparr>)" "i < NBUF" "i \<notin> H" "blockno (B i) = b"
      "bdata (B i) = view s b" "bc_ok (s\<lparr>bufs := B\<rparr>) P (insert i H)" "view (s\<lparr>bufs := B\<rparr>) = view s"
    using bread_ex [OF assms] by blast
  moreover have "holdingsleep (buflock (B i)) (s\<lparr>bufs := B\<rparr>)"
    using bc_okD(7,8) [OF bc_ok_bufs [OF r(6)], of i] r(2) by (simp add: holdingsleep_def)
  ultimately show ?thesis by (intro exI [of _ i] exI [of _ "s\<lparr>bufs := B\<rparr>"]) simp
qed

theorem bread_current_witness:
  "\<exists>i s'. bread ROOTDEV 7 (binit cold) = Ok (i, s') \<and> bdata (bufs s' i) = view (binit cold) 7"
  using bread_current [of "binit cold" "{}" "{}" 7] binit_lru [OF cold_fresh]
  by (auto simp: NBUF_def MAXOPBLOCKS_def)

end
