(* ===== verification/Log.thy ===== *)
theory Log
  imports Bio_Spec
begin

text \<open>
  \<^verbatim>\<open>kernel/log.c\<close>: the redo log. The record extends the state of the buffer cache with
  the fields of \<^verbatim>\<open>struct log\<close>; \<open>lhn\<close> and \<open>lhblock\<close> are its \<^verbatim>\<open>lh.n\<close> and \<^verbatim>\<open>lh.block\<close>.
\<close>

section \<open>State\<close>

definition LOGBLOCKS :: nat where "LOGBLOCKS = MAXOPBLOCKS * 3"

record lstate = bstate +
  lstart :: uint32
  outstanding :: int
  committing :: bool
  ldev :: uint32
  lhn :: int
  lhblock :: "nat \<Rightarrow> uint32"

definition sizeof_logheader :: nat where "sizeof_logheader = 4 + 4 * LOGBLOCKS"

section \<open>32-bit values in a block\<close>

definition get32 :: "block \<Rightarrow> nat \<Rightarrow> uint32" where
  "get32 d off = ucast (d off) OR push_bit 8 (ucast (d (off + 1)))
     OR push_bit 16 (ucast (d (off + 2))) OR push_bit 24 (ucast (d (off + 3)))"

definition put32 :: "nat \<Rightarrow> uint32 \<Rightarrow> block \<Rightarrow> block" where
  "put32 off v d = d(off := ucast v, off + 1 := ucast (drop_bit 8 v),
     off + 2 := ucast (drop_bit 16 v), off + 3 := ucast (drop_bit 24 v))"

lemma get32_put32 [simp]: "get32 (put32 off v d) off = v"
  by (simp add: get32_def put32_def bytes_of_word32)

lemma get32_put32_other: "off + 4 \<le> off' \<or> off' + 4 \<le> off \<Longrightarrow> get32 (put32 off v d) off' = get32 d off'"
  by (auto simp: get32_def put32_def)

text \<open>The header block, as \<^verbatim>\<open>struct logheader\<close> lays it out.\<close>

definition hdr_n :: "block \<Rightarrow> int" where "hdr_n d = sint (get32 d 0)"
definition hdr_block :: "block \<Rightarrow> nat \<Rightarrow> uint32" where "hdr_block d i = get32 d (4 + 4 * i)"

definition write_hdr :: "int \<Rightarrow> (nat \<Rightarrow> uint32) \<Rightarrow> block \<Rightarrow> block" where
  "write_hdr n bl d = fold (\<lambda>i d. put32 (4 + 4 * i) (bl i) d) [0..<nat n] (put32 0 (of_int n) d)"

section \<open>Operations\<close>

text \<open>A loop \<^verbatim>\<open>for(i = ...)\<close> whose body may panic.\<close>

primrec for_res :: "('i \<Rightarrow> 's \<Rightarrow> 's res) \<Rightarrow> 'i list \<Rightarrow> 's \<Rightarrow> 's res" where
  "for_res f [] s = Ok s"
| "for_res f (i # is) s = bind_res (f i s) (for_res f is)"

definition set_data :: "nat \<Rightarrow> block \<Rightarrow> 'a bstate_scheme \<Rightarrow> 'a bstate_scheme" where
  "set_data i d s = upd_buf i (\<lambda>x. x\<lparr>bdata := d\<rparr>) s"

definition install_one :: "bool \<Rightarrow> nat \<Rightarrow> 'a lstate_scheme \<Rightarrow> 'a lstate_scheme res" where
  "install_one recovering tail s =
     bind_res (bread (ldev s) (lstart s + of_nat tail + 1) s) (\<lambda>(lbuf, s1).
     bind_res (bread (ldev s1) (lhblock s1 tail) s1) (\<lambda>(dbuf, s2).
     bind_res (bwrite dbuf (set_data dbuf (bdata (bufs s2 lbuf)) s2)) (\<lambda>s3.
     bind_res (brelse lbuf (if \<not> recovering then bunpin dbuf s3 else s3)) (brelse dbuf))))"

definition install_trans :: "bool \<Rightarrow> 'a lstate_scheme \<Rightarrow> 'a lstate_scheme res" where
  "install_trans recovering s = for_res (install_one recovering) [0..<nat (lhn s)] s"

definition read_head :: "'a lstate_scheme \<Rightarrow> 'a lstate_scheme res" where
  "read_head s =
     bind_res (bread (ldev s) (lstart s) s) (\<lambda>(b, s1).
       let lh = bdata (bufs s1 b);
           n = hdr_n lh;
           s2 = s1\<lparr>lhn := n, lhblock := (\<lambda>i. if i < nat n then hdr_block lh i else lhblock s1 i)\<rparr>
       in brelse b s2)"

definition write_head :: "'a lstate_scheme \<Rightarrow> 'a lstate_scheme res" where
  "write_head s =
     bind_res (bread (ldev s) (lstart s) s) (\<lambda>(b, s1).
     bind_res (bwrite b (set_data b (write_hdr (lhn s1) (lhblock s1) (bdata (bufs s1 b))) s1)) (brelse b))"

definition recover_from_log :: "'a lstate_scheme \<Rightarrow> 'a lstate_scheme res" where
  "recover_from_log s =
     bind_res (read_head s) (\<lambda>s1.
     bind_res (install_trans True s1) (\<lambda>s2. write_head (s2\<lparr>lhn := 0\<rparr>)))"

definition initlog :: "uint32 \<Rightarrow> uint32 \<Rightarrow> 'a lstate_scheme \<Rightarrow> 'a lstate_scheme res" where
  "initlog dev sb_logstart s =
     (if sizeof_logheader \<ge> BSIZE then Panic ''initlog: too big logheader''
      else recover_from_log (s\<lparr>lstart := sb_logstart, ldev := dev\<rparr>))"

definition begin_op :: "'a lstate_scheme \<Rightarrow> unit blk \<times> 'a lstate_scheme" where
  "begin_op s =
     (if committing s then (Sleep, ksleep KLog s)
      else if lhn s + (outstanding s + 1) * int MAXOPBLOCKS > int LOGBLOCKS then (Sleep, ksleep KLog s)
      else (Ret (), s\<lparr>outstanding := outstanding s + 1\<rparr>))"

definition write_log_one :: "nat \<Rightarrow> 'a lstate_scheme \<Rightarrow> 'a lstate_scheme res" where
  "write_log_one tail s =
     bind_res (bread (ldev s) (lstart s + of_nat tail + 1) s) (\<lambda>(to, s1).
     bind_res (bread (ldev s1) (lhblock s1 tail) s1) (\<lambda>(from, s2).
     bind_res (bwrite to (set_data to (bdata (bufs s2 from)) s2)) (\<lambda>s3.
     bind_res (brelse from s3) (brelse to))))"

definition write_log :: "'a lstate_scheme \<Rightarrow> 'a lstate_scheme res" where
  "write_log s = for_res write_log_one [0..<nat (lhn s)] s"

definition commit :: "'a lstate_scheme \<Rightarrow> 'a lstate_scheme res" where
  "commit s =
     (if lhn s > 0 then
        bind_res (write_log s) (\<lambda>s1.
        bind_res (write_head s1) (\<lambda>s2.
        bind_res (install_trans False s2) (\<lambda>s3. write_head (s3\<lparr>lhn := 0\<rparr>))))
      else Ok s)"

definition end_op :: "'a lstate_scheme \<Rightarrow> 'a lstate_scheme res" where
  "end_op s =
     (let s1 = s\<lparr>outstanding := outstanding s - 1\<rparr>
      in if committing s1 then Panic ''log.committing''
         else if outstanding s1 = 0
              then bind_res (commit (s1\<lparr>committing := True\<rparr>)) (\<lambda>s2. Ok (kwakeup KLog (s2\<lparr>committing := False\<rparr>)))
              else Ok (kwakeup KLog s1))"

text \<open>The slot of the log that \<^verbatim>\<open>log_write\<close> uses: that of the block if it is logged already.\<close>

definition log_slot :: "uint32 \<Rightarrow> 'a lstate_scheme \<Rightarrow> nat" where
  "log_slot b s =
     (case find (\<lambda>i. lhblock s i = b) [0..<nat (lhn s)] of Some i \<Rightarrow> i | None \<Rightarrow> nat (lhn s))"

definition log_write :: "nat \<Rightarrow> 'a lstate_scheme \<Rightarrow> 'a lstate_scheme res" where
  "log_write b s =
     (if lhn s \<ge> int LOGBLOCKS then Panic ''too big a transaction''
      else if outstanding s < 1 then Panic ''log_write outside of trans''
      else let i = log_slot (blockno (bufs s b)) s;
               s1 = s\<lparr>lhblock := (lhblock s)(i := blockno (bufs s b))\<rparr>
           in Ok (if int i = lhn s then (bpin b s1)\<lparr>lhn := lhn s + 1\<rparr> else s1))"

end
