(* ===== verification/Log_Spec.thy ===== *)
theory Log_Spec
  imports Log
begin

text \<open>
  Crash safety of \<^verbatim>\<open>kernel/log.c\<close>: what each step of a commit writes to the disk, what
  recovery makes of a disk, and that a crash after any number of writes of a commit
  leaves a disk that recovers to the state before or after the whole transaction.
\<close>

section \<open>The block copies\<close>

definition put_block :: "uint32 \<Rightarrow> block \<Rightarrow> (nat \<Rightarrow> buf) \<Rightarrow> 'a bstate_scheme \<Rightarrow> 'a bstate_scheme" where
  "put_block b d B s = s\<lparr>bufs := B, disk := (disk s)(b := d), wtrace := wtrace s @ [(b, d)]\<rparr>"

lemma put_block_sels [simp]:
  "disk (put_block b d B s) = (disk s)(b := d)" "wtrace (put_block b d B s) = wtrace s @ [(b, d)]"
  "bufs (put_block b d B s) = B" "myproc (put_block b d B s) = myproc s" "still (put_block b d B s) = still s"
  by (simp_all add: put_block_def myproc_def me_def still_def)

lemma cached_bufs: "cached (s\<lparr>bufs := B\<rparr>) i b \<longleftrightarrow> bdev (B i) = ROOTDEV \<and> blockno (B i) = b"
  by (simp add: cached_def)

lemma view_cong: "bufs s' = bufs s \<Longrightarrow> disk s' = disk s \<Longrightarrow> view s' = view s"
  by (rule ext) (simp add: view_def cached_def split: option.splits)

lemma bc_ok_cong: "bufs s' = bufs s \<Longrightarrow> disk s' = disk s \<Longrightarrow> pt s' = pt s \<Longrightarrow> cur s' = cur s \<Longrightarrow> bc_ok s' = bc_ok s"
  by (intro ext) (simp add: bc_ok_def still_def myproc_def me_def)

text \<open>
  A locked buffer \<open>i\<close> is overwritten with \<open>d\<close>, written, and all locked buffers (\<open>i\<close> and
  perhaps a second one) are released in some order.
\<close>

lemma overwrite_write:
  assumes ok: "bc_ok s P H" and i: "i \<in> H" and B: "B = (bufs s)(i := (bufs s i)\<lparr>bdata := d\<rparr>)"
    and b': "blockno (bufs s i) = b"
  shows "bwrite i (set_data i d s) = Ok (put_block b d B s)" "bc_ok (put_block b d B s) P H"
    "view (put_block b d B s) = (view s)(b := d)"
proof -
  let ?s = "set_data i d s"
  have ok1: "bc_ok ?s P H" and v1: "view ?s = (view s)(blockno (bufs s i) := d)"
    using bc_ok_data [OF ok i] by (simp_all add: set_data_def)
  have b: "blockno (bufs ?s i) = blockno (bufs s i)" "bdata (bufs ?s i) = d" by (simp_all add: set_data_def)
  note w = bwrite_spec [OF ok1 i, unfolded b]
  have eq: "?s\<lparr>disk := (disk ?s)(blockno (bufs s i) := d), wtrace := wtrace ?s @ [(blockno (bufs s i), d)]\<rparr>
      = put_block (blockno (bufs s i)) d ((bufs s)(i := (bufs s i)\<lparr>bdata := d\<rparr>)) s"
    by (simp add: set_data_def put_block_def upd_buf_def)
  show "bwrite i (set_data i d s) = Ok (put_block b d B s)" "bc_ok (put_block b d B s) P H"
    "view (put_block b d B s) = (view s)(b := d)"
    using w(1) w(2) [of "wtrace ?s @ [(blockno (bufs s i), d)]"] w(3) [of "wtrace ?s @ [(blockno (bufs s i), d)]"] v1
    unfolding eq by (simp_all add: B b')
qed

lemma write_log_one_spec:
  fixes s :: "'a lstate_scheme" and k :: nat
  defines "t \<equiv> lstart s + of_nat k + 1"
  assumes ok: "bc_ok s P {}" and dev: "ldev s = ROOTDEV"
    and j: "j \<in> P" "cached s j (lhblock s k)" and t: "\<forall>i \<in> P. \<not> cached s i t" and room: "card P < NBUF"
  obtains B where "write_log_one k s = Ok (put_block t (view s (lhblock s k)) B s)"
    "bc_ok (put_block t (view s (lhblock s k)) B s) P {}"
    "view (put_block t (view s (lhblock s k)) B s) = (view s)(t := view s (lhblock s k))"
    "\<forall>i \<in> P. blockno (B i) = blockno (bufs s i)"
proof -
  let ?h = "lhblock s k"
  obtain i1 B1 where r1: "bread ROOTDEV t s = Ok (i1, s\<lparr>bufs := B1\<rparr>)"
    and b1: "i1 < NBUF" "blockno (B1 i1) = t" "bc_ok (s\<lparr>bufs := B1\<rparr>) P {i1}" "view (s\<lparr>bufs := B1\<rparr>) = view s"
      "\<forall>j. j \<noteq> i1 \<longrightarrow> B1 j = bufs s j" "\<forall>j \<in> P. cached s j t \<longleftrightarrow> j = i1" "\<forall>j \<in> P. blockno (B1 j) = blockno (bufs s j)"
    using bread_ex [OF ok, of t] room by auto
  have i1P: "i1 \<notin> P" using b1(6) t by blast
  then have ji: "j \<noteq> i1" using j by blast
  have ht: "?h \<noteq> t" using j t by metis
  have cj: "cached (s\<lparr>bufs := B1\<rparr>) j ?h" using j ji b1(5) by (simp add: cached_def)
  have jl: "j < NBUF" using j bc_okD(1) [OF bc_ok_bufs [OF ok]] by blast
  have free1: "\<forall>i \<in> {i1}. \<not> cached (s\<lparr>bufs := B1\<rparr>) i ?h" using b1(2) ht by (simp add: cached_bufs)
  have room1: "(\<exists>i < NBUF. cached (s\<lparr>bufs := B1\<rparr>) i ?h) \<or> card (P \<union> {i1}) < NBUF" using cj jl by blast
  obtain i2 B2 where r2: "bread ROOTDEV ?h (s\<lparr>bufs := B1\<rparr>) = Ok (i2, s\<lparr>bufs := B2\<rparr>)"
    and b2: "i2 \<notin> {i1}" "blockno (B2 i2) = ?h" "bdata (B2 i2) = view s ?h" "bc_ok (s\<lparr>bufs := B2\<rparr>) P {i2, i1}"
      "view (s\<lparr>bufs := B2\<rparr>) = view s" "\<forall>j. j \<noteq> i2 \<longrightarrow> B2 j = B1 j"
      "\<forall>j \<in> P. cached (s\<lparr>bufs := B1\<rparr>) j ?h \<longleftrightarrow> j = i2" "\<forall>j \<in> P. blockno (B2 j) = blockno (B1 j)"
    using bread_ex [OF b1(3) free1 room1] b1(4) by auto
  have i2: "i2 = j" using b2(7) cj j by auto
  have t2: "blockno (B2 i1) = t" using b2(1,6) b1(2) by simp
  define B3 where "B3 = B2(i1 := (B2 i1)\<lparr>bdata := view s ?h\<rparr>)"
  define s3 where "s3 = put_block t (view s ?h) B3 s"
  have s3': "s3 = put_block t (view s ?h) B3 (s\<lparr>bufs := B2\<rparr>)" by (simp add: s3_def put_block_def)
  note w = overwrite_write [OF b2(4), of i1 B3 "view s ?h" t, folded s3', simplified, OF B3_def t2]
  have s3: "bufs s3 = B3" "disk s3 = (disk s)(t := view s ?h)" by (simp_all add: s3_def)
  obtain B4 where r4: "brelse i2 s3 = Ok (s3\<lparr>bufs := B4\<rparr>)" and b4: "bc_ok (s3\<lparr>bufs := B4\<rparr>) P ({i2, i1} - {i2})"
      "view (s3\<lparr>bufs := B4\<rparr>) = view s3" "\<forall>j. bdata (B4 j) = bdata (bufs s3 j) \<and> blockno (B4 j) = blockno (bufs s3 j)"
    using brelse_ex [OF w(2), of i2] i2 j by auto
  have H4: "{i2, i1} - {i2} = {i1}" using b2(1) by blast
  have cl: "bdata (bufs (s3\<lparr>bufs := B4\<rparr>) i1) = disk (s3\<lparr>bufs := B4\<rparr>) (blockno (bufs (s3\<lparr>bufs := B4\<rparr>) i1))"
    using b4(3) t2 by (simp add: s3 B3_def)
  obtain B5 where r5: "brelse i1 (s3\<lparr>bufs := B4\<rparr>) = Ok (s3\<lparr>bufs := B5\<rparr>)" and b5: "bc_ok (s3\<lparr>bufs := B5\<rparr>) P {}"
      "view (s3\<lparr>bufs := B5\<rparr>) = view s3" "\<forall>j. blockno (B5 j) = blockno (B4 j)"
    using brelse_ex [OF b4(1)[unfolded H4], of i1] cl b4(2) by auto
  have fin: "s3\<lparr>bufs := B5\<rparr> = put_block t (view s ?h) B5 s" by (simp add: s3_def put_block_def)
  have "write_log_one k s = Ok (s3\<lparr>bufs := B5\<rparr>)"
    using r1 r2 w(1) r4 r5 b2(3) by (simp add: write_log_one_def dev t_def [symmetric])
  moreover have "\<forall>i \<in> P. blockno (B5 i) = blockno (bufs s i)"
    using b5(3) b4(3) b2(8) b1(7) i1P by (auto simp: s3 B3_def)
  ultimately show ?thesis
    using that b5(1,2) w(3) b2(5) unfolding fin by metis
qed

lemma view_clean:
  assumes ok: "bc_ok s P {}" and "\<forall>i \<in> P. \<not> cached s i b"
  shows "view s b = disk s b"
proof (cases "\<exists>i < NBUF. cached s i b \<and> valid (bufs s i)")
  case True
  then obtain i where i: "i < NBUF" "cached s i b" "valid (bufs s i)" by blast
  then have "i \<notin> P" using assms(2) by blast
  then have "bdata (bufs s i) = disk s b"
    using bc_okD(11) [OF bc_ok_bufs [OF ok], of i] i by (auto simp: cached_def)
  with view_cached [OF ok i] show ?thesis by simp
next
  case False
  then show ?thesis using view_uncached [of s b] by blast
qed

lemma install_one_spec:
  fixes s :: "'a lstate_scheme" and k :: nat
  defines "t \<equiv> lstart s + of_nat k + 1" and "h \<equiv> lhblock s k"
  assumes ok: "bc_ok s P {}" and dev: "ldev s = ROOTDEV" and ht: "h \<noteq> t"
    and t: "\<forall>i \<in> P. \<not> cached s i t" and room: "card P < NBUF"
    and P: "if recovering then P = {} else \<exists>j \<in> P. cached s j h"
  shows "\<exists>B. install_one recovering k s = Ok (put_block h (view s t) B s) \<and>
    bc_ok (put_block h (view s t) B s) {i \<in> P. \<not> cached s i h} {} \<and>
    view (put_block h (view s t) B s) = (view s)(h := view s t) \<and>
    (\<forall>i \<in> P. blockno (B i) = blockno (bufs s i))"
proof -
  obtain i1 B1 where r1: "bread ROOTDEV t s = Ok (i1, s\<lparr>bufs := B1\<rparr>)"
    and b1: "i1 < NBUF" "blockno (B1 i1) = t" "bdata (B1 i1) = view s t" "bc_ok (s\<lparr>bufs := B1\<rparr>) P {i1}"
      "view (s\<lparr>bufs := B1\<rparr>) = view s" "\<forall>j. j \<noteq> i1 \<longrightarrow> B1 j = bufs s j" "\<forall>j \<in> P. cached s j t \<longleftrightarrow> j = i1"
      "\<forall>j \<in> P. blockno (B1 j) = blockno (bufs s j)"
    using bread_ex [OF ok, of t] room by auto
  have i1P: "i1 \<notin> P" using b1(7) t by auto
  have PN: "P \<subseteq> {..<NBUF}" using bc_okD(1) [OF bc_ok_bufs [OF ok]] .
  have cP: "\<forall>i \<in> P. cached (s\<lparr>bufs := B1\<rparr>) i h = cached s i h"
    using b1(6) i1P by (auto simp: cached_def)
  have free1: "\<forall>i \<in> {i1}. \<not> cached (s\<lparr>bufs := B1\<rparr>) i h" using b1(2) ht by (simp add: cached_bufs)
  have room1: "(\<exists>i < NBUF. cached (s\<lparr>bufs := B1\<rparr>) i h) \<or> card (P \<union> {i1}) < NBUF"
  proof (cases recovering)
    case True
    with P show ?thesis by (simp add: NBUF_def MAXOPBLOCKS_def)
  next
    case False
    with P cP PN show ?thesis by auto
  qed
  obtain i2 B2 where r2: "bread ROOTDEV h (s\<lparr>bufs := B1\<rparr>) = Ok (i2, s\<lparr>bufs := B2\<rparr>)"
    and b2: "i2 \<notin> {i1}" "blockno (B2 i2) = h" "bc_ok (s\<lparr>bufs := B2\<rparr>) P {i2, i1}"
      "view (s\<lparr>bufs := B2\<rparr>) = view s" "\<forall>j. j \<noteq> i2 \<longrightarrow> B2 j = B1 j"
      "\<forall>j \<in> P. cached (s\<lparr>bufs := B1\<rparr>) j h \<longleftrightarrow> j = i2" "\<forall>j \<in> P. blockno (B2 j) = blockno (B1 j)"
    using bread_ex [OF b1(4) free1 room1] b1(5) by auto
  have Ph: "\<forall>j \<in> P. cached s j h \<longleftrightarrow> j = i2" using b2(6) cP by auto
  have t2: "blockno (B2 i1) = t" "bdata (B2 i1) = view s t" using b2(1,5) b1(2,3) by simp_all
  define B3 where "B3 = B2(i2 := (B2 i2)\<lparr>bdata := view s t\<rparr>)"
  define s3 where "s3 = put_block h (view s t) B3 s"
  have s3': "s3 = put_block h (view s t) B3 (s\<lparr>bufs := B2\<rparr>)" by (simp add: s3_def put_block_def)
  note w = overwrite_write [OF b2(3), of i2 B3 "view s t" h, folded s3', simplified, OF B3_def b2(2)]
  have s3: "bufs s3 = B3" "disk s3 = (disk s)(h := view s t)" by (simp_all add: s3_def)
  let ?P = "{i \<in> P. \<not> cached s i h}"
  define s4 where "s4 = (if \<not> recovering then bunpin i2 s3 else s3)"
  have s4: "bdata (bufs s4 j) = bdata (B3 j)" "blockno (bufs s4 j) = blockno (B3 j)" "disk s4 = disk s3" for j
    by (simp_all add: s4_def s3 bunpin_def)
  have ok4: "bc_ok s4 ?P {i2, i1}" "view s4 = view s3"
  proof -
    have "recovering \<Longrightarrow> ?P = P" using P by auto
    moreover have "\<not> recovering \<Longrightarrow> i2 \<in> P \<and> ?P = P - {i2}" using P Ph by auto
    ultimately show "bc_ok s4 ?P {i2, i1}" "view s4 = view s3"
      using w(2) bunpin_spec [OF w(2), of i2] by (auto simp: s4_def)
  qed
  have i1c: "bdata (bufs s4 i1) = disk s4 (blockno (bufs s4 i1))"
    using t2 view_clean [OF ok t] ht b2(1) by (simp add: s4 s3 B3_def)
  obtain B5 where r5: "brelse i1 s4 = Ok (s4\<lparr>bufs := B5\<rparr>)" and b5: "bc_ok (s4\<lparr>bufs := B5\<rparr>) ?P ({i2, i1} - {i1})"
      "view (s4\<lparr>bufs := B5\<rparr>) = view s4" "\<forall>j. bdata (B5 j) = bdata (bufs s4 j) \<and> blockno (B5 j) = blockno (bufs s4 j)"
    using brelse_ex [OF ok4(1), of i1] i1c by auto
  have H5: "{i2, i1} - {i1} = {i2}" using b2(1) by auto
  have i2c: "bdata (bufs (s4\<lparr>bufs := B5\<rparr>) i2) = disk (s4\<lparr>bufs := B5\<rparr>) (blockno (bufs (s4\<lparr>bufs := B5\<rparr>) i2))"
    using b5(3) b2(2) by (simp add: s4 s3 B3_def)
  obtain B6 where r6: "brelse i2 (s4\<lparr>bufs := B5\<rparr>) = Ok (s4\<lparr>bufs := B6\<rparr>)" and b6: "bc_ok (s4\<lparr>bufs := B6\<rparr>) ?P {}"
      "view (s4\<lparr>bufs := B6\<rparr>) = view s4" "\<forall>j. blockno (B6 j) = blockno (B5 j)"
    using brelse_ex [OF b5(1)[unfolded H5], of i2] i2c b5(2) by auto
  have fin: "s4\<lparr>bufs := B6\<rparr> = put_block h (view s t) B6 s"
    by (simp add: s4_def s3_def put_block_def bunpin_def upd_buf_def)
  have "install_one recovering k s = Ok (put_block h (view s t) B6 s)"
    using r1 r2 w(1) r5 r6 t2(2)
    by (simp add: install_one_def dev t_def [symmetric] h_def [symmetric] s4_def [symmetric] fin)
  moreover have "view (put_block h (view s t) B6 s) = (view s)(h := view s t)"
    using b6(2) ok4(2) w(3) b2(4) unfolding fin by simp
  moreover have "\<forall>i \<in> P. blockno (B6 i) = blockno (bufs s i)"
    using b6(3) b5(3) b2(2,7) b1(8) by (auto simp: s4 B3_def)
  ultimately show ?thesis using b6(1) unfolding fin by blast
qed

lemma write_head_spec:
  assumes ok: "bc_ok s P {}" and dev: "ldev s = ROOTDEV"
    and t: "\<forall>i \<in> P. \<not> cached s i (lstart s)" and room: "card P < NBUF"
  defines "d \<equiv> write_hdr (lhn s) (lhblock s) (view s (lstart s))"
  shows "\<exists>B. write_head s = Ok (put_block (lstart s) d B s) \<and> bc_ok (put_block (lstart s) d B s) P {} \<and>
    view (put_block (lstart s) d B s) = (view s)(lstart s := d) \<and> (\<forall>i \<in> P. blockno (B i) = blockno (bufs s i))"
proof -
  let ?t = "lstart s"
  obtain i1 B1 where r1: "bread ROOTDEV ?t s = Ok (i1, s\<lparr>bufs := B1\<rparr>)"
    and b1: "i1 < NBUF" "blockno (B1 i1) = ?t" "bdata (B1 i1) = view s ?t" "bc_ok (s\<lparr>bufs := B1\<rparr>) P {i1}"
      "view (s\<lparr>bufs := B1\<rparr>) = view s" "\<forall>j \<in> P. cached s j ?t \<longleftrightarrow> j = i1"
      "\<forall>j \<in> P. blockno (B1 j) = blockno (bufs s j)"
    using bread_ex [OF ok, of ?t] room by auto
  define B3 where "B3 = B1(i1 := (B1 i1)\<lparr>bdata := d\<rparr>)"
  define s3 where "s3 = put_block ?t d B3 s"
  have s3': "s3 = put_block ?t d B3 (s\<lparr>bufs := B1\<rparr>)" by (simp add: s3_def put_block_def)
  note w = overwrite_write [OF b1(4), of i1 B3 d ?t, folded s3', simplified, OF B3_def b1(2)]
  have c: "bdata (bufs s3 i1) = disk s3 (blockno (bufs s3 i1))" using b1(2) by (simp add: s3_def B3_def)
  obtain B4 where r4: "brelse i1 s3 = Ok (s3\<lparr>bufs := B4\<rparr>)" and b4: "bc_ok (s3\<lparr>bufs := B4\<rparr>) P {}"
      "view (s3\<lparr>bufs := B4\<rparr>) = view s3" "\<forall>j. blockno (B4 j) = blockno (bufs s3 j)"
    using brelse_ex [OF w(2), of i1] c by auto
  have fin: "s3\<lparr>bufs := B4\<rparr> = put_block ?t d B4 s" by (simp add: s3_def put_block_def)
  have "write_head s = Ok (put_block ?t d B4 s)"
    using r1 w(1) r4 b1(3) by (simp add: write_head_def dev d_def [symmetric] fin)
  moreover have "\<forall>i \<in> P. blockno (B4 i) = blockno (bufs s i)"
    using b4(3) b1(7) by (simp add: s3_def B3_def)
  ultimately show ?thesis using b4(1,2) w(3) b1(5) unfolding fin by auto
qed

lemma read_head_spec:
  assumes ok: "bc_ok s {} {}" and dev: "ldev s = ROOTDEV"
  defines "d \<equiv> disk s (lstart s)"
  shows "\<exists>B. read_head s = Ok (s\<lparr>bufs := B, lhn := hdr_n d,
      lhblock := (\<lambda>i. if i < nat (hdr_n d) then hdr_block d i else lhblock s i)\<rparr>) \<and>
    bc_ok (s\<lparr>bufs := B\<rparr>) {} {} \<and> view (s\<lparr>bufs := B\<rparr>) = view s"
proof -
  let ?t = "lstart s"
  have d: "view s ?t = d" unfolding d_def by (rule view_clean [OF ok]) simp
  obtain i1 B1 where r1: "bread ROOTDEV ?t s = Ok (i1, s\<lparr>bufs := B1\<rparr>)"
    and b1: "blockno (B1 i1) = ?t" "bdata (B1 i1) = d" "bc_ok (s\<lparr>bufs := B1\<rparr>) {} {i1}" "view (s\<lparr>bufs := B1\<rparr>) = view s"
    using bread_ex [OF ok, of ?t] d by (auto simp: NBUF_def MAXOPBLOCKS_def)
  let ?s = "s\<lparr>bufs := B1, lhn := hdr_n d, lhblock := (\<lambda>i. if i < nat (hdr_n d) then hdr_block d i else lhblock s i)\<rparr>"
  have ok1: "bc_ok ?s {} {i1}" using b1(3) bc_ok_cong [of ?s "s\<lparr>bufs := B1\<rparr>"] by simp
  obtain B4 where b4: "brelse i1 ?s = Ok (?s\<lparr>bufs := B4\<rparr>)" "bc_ok (?s\<lparr>bufs := B4\<rparr>) {} {}"
      "view (?s\<lparr>bufs := B4\<rparr>) = view ?s"
    using brelse_ex [OF ok1, of i1] b1(1,2) by (auto simp: d_def)
  have v: "view (?s\<lparr>bufs := B4\<rparr>) = view (s\<lparr>bufs := B4\<rparr>)" "view ?s = view (s\<lparr>bufs := B1\<rparr>)"
    by (rule view_cong; simp)+
  have ok4: "bc_ok (s\<lparr>bufs := B4\<rparr>) {} {}"
    using b4(2) bc_ok_cong [of "?s\<lparr>bufs := B4\<rparr>" "s\<lparr>bufs := B4\<rparr>"] by simp
  have rh: "read_head s = Ok (?s\<lparr>bufs := B4\<rparr>)"
    using r1 b1(2) b4(1) by (simp add: read_head_def dev Let_def cong: if_cong)
  have eq: "?s\<lparr>bufs := B4\<rparr> = s\<lparr>bufs := B4, lhn := hdr_n d,
      lhblock := (\<lambda>i. if i < nat (hdr_n d) then hdr_block d i else lhblock s i)\<rparr>" by simp
  have vw: "view (s\<lparr>bufs := B4\<rparr>) = view s" using b4(3) b1(4) v by simp
  show ?thesis using rh [unfolded eq] ok4 vw by (intro exI conjI)
qed

section \<open>The loops\<close>

definition apply_writes :: "(uint32 \<times> block) list \<Rightarrow> (uint32 \<Rightarrow> block) \<Rightarrow> (uint32 \<Rightarrow> block)" where
  "apply_writes ws d = fold (\<lambda>(b, x) d. d(b := x)) ws d"

lemma apply_writes_simps [simp]:
  "apply_writes [] d = d" "apply_writes (ws @ [(b, x)]) d = (apply_writes ws d)(b := x)"
  "apply_writes ((b, x) # ws) d = apply_writes ws (d(b := x))"
  by (simp_all add: apply_writes_def)

lemma apply_writes_append: "apply_writes (ws @ vs) d = apply_writes vs (apply_writes ws d)"
  by (simp add: apply_writes_def)

lemma apply_writes_other: "b \<notin> fst ` set ws \<Longrightarrow> apply_writes ws d b = d b"
  by (induction ws arbitrary: d) auto

lemma apply_writes_map:
  assumes "distinct (map f ks)" "k \<in> set ks"
  shows "apply_writes (map (\<lambda>k. (f k, g k)) ks) d (f k) = g k"
  using assms
proof (induction ks arbitrary: d)
  case (Cons a ks)
  show ?case
  proof (cases "k = a")
    case True
    with Cons.prems have "f a \<notin> fst ` set (map (\<lambda>k. (f k, g k)) ks)" by auto
    with True show ?thesis by (simp add: apply_writes_other)
  qed (use Cons in auto)
qed simp

definition wrote :: "(uint32 \<times> block) list \<Rightarrow> (nat \<Rightarrow> buf) \<Rightarrow> 'a bstate_scheme \<Rightarrow> 'a bstate_scheme" where
  "wrote W B s = s\<lparr>bufs := B, disk := apply_writes W (disk s), wtrace := wtrace s @ W\<rparr>"

lemma wrote_sels [simp]:
  "bufs (wrote W B s) = B" "disk (wrote W B s) = apply_writes W (disk s)" "wtrace (wrote W B s) = wtrace s @ W"
  by (simp_all add: wrote_def)

lemma wrote_lstate [simp]:
  "lstart (wrote W B s) = lstart s" "ldev (wrote W B s) = ldev s" "lhn (wrote W B s) = lhn s"
  "lhblock (wrote W B s) = lhblock s" "outstanding (wrote W B s) = outstanding s" "committing (wrote W B s) = committing s"
  by (simp_all add: wrote_def)

lemma put_block_wrote: "put_block b d B' (wrote W B s) = wrote (W @ [(b, d)]) B' s"
  by (simp add: put_block_def wrote_def)

lemma wrote_wrote: "wrote W' B' (wrote W B s) = wrote (W @ W') B' s"
  by (simp add: wrote_def apply_writes_append)

definition log_block :: "'a lstate_scheme \<Rightarrow> nat \<Rightarrow> uint32" where
  "log_block s k = lstart s + of_nat k + 1"

definition log_area :: "uint32 \<Rightarrow> uint32 set" where
  "log_area st = {b. unat st \<le> unat b \<and> unat b \<le> unat st + LOGBLOCKS}"

text \<open>The log fits on the disk and the logged blocks lie outside of it.\<close>

definition log_geom :: "'a lstate_scheme \<Rightarrow> nat \<Rightarrow> bool" where
  "log_geom s n \<longleftrightarrow> ldev s = ROOTDEV \<and> lhn s = int n \<and> n \<le> LOGBLOCKS \<and>
     unat (lstart s) + LOGBLOCKS < 2 ^ 32 \<and> (\<forall>k < n. lhblock s k \<notin> log_area (lstart s))"

lemma log_block_unat: "log_geom s n \<Longrightarrow> k < LOGBLOCKS \<Longrightarrow> unat (log_block s k) = unat (lstart s) + k + 1"
proof -
  assume "log_geom s n" "k < LOGBLOCKS"
  then have "unat (lstart s) + (k + 1) < 4294967296" by (simp add: log_geom_def)
  moreover have "log_block s k = lstart s + of_nat (k + 1)" by (simp add: log_block_def)
  ultimately show ?thesis using unat_add_of_nat [of "lstart s" "k + 1"] by simp
qed

lemma log_block_facts:
  assumes "log_geom s n" "k < LOGBLOCKS"
  shows "log_block s k \<in> log_area (lstart s)" "log_block s k \<noteq> lstart s"
    "j < LOGBLOCKS \<Longrightarrow> log_block s j = log_block s k \<Longrightarrow> j = k"
  using log_block_unat [OF assms] log_block_unat [OF assms(1), of j] assms(2)
  by (auto simp: log_area_def)

lemma lstart_in_area [simp]: "st \<in> log_area st"
  by (simp add: log_area_def)

lemma for_res_snoc: "for_res f (xs @ [x]) s = bind_res (for_res f xs s) (f x)"
proof (induction xs arbitrary: s)
  case Nil
  then show ?case by (cases "f x s") simp_all
next
  case (Cons a xs)
  then show ?case by (cases "f a s") simp_all
qed

lemma view_wrote_put:
  "view (put_block b d B' (wrote W B s)) = (view (wrote W B s))(b := d) \<Longrightarrow> view (wrote W B s) = apply_writes W v \<Longrightarrow>
     view (wrote (W @ [(b, d)]) B' s) = apply_writes (W @ [(b, d)]) v"
  by (simp add: put_block_wrote)

definition pinned :: "'a bstate_scheme \<Rightarrow> nat set \<Rightarrow> uint32 set" where
  "pinned s P = (\<lambda>i. blockno (bufs s i)) ` P"

lemma pinned_iff:
  assumes "bc_ok s P H"
  shows "b \<in> pinned s P \<longleftrightarrow> (\<exists>i \<in> P. cached s i b)"
  using bc_okD(10) [OF bc_ok_bufs [OF assms]] by (auto simp: pinned_def cached_def)

lemma pinned_card:
  assumes "bc_ok s P H"
  shows "card (pinned s P) = card P"
proof -
  note D = bc_okD [OF bc_ok_bufs [OF assms]]
  have "inj_on (\<lambda>i. blockno (bufs s i)) P"
    using D(1,5,10) by (intro inj_onI) (meson UnI1 lessThan_iff subsetD)
  then show ?thesis unfolding pinned_def by (rule card_image)
qed

text \<open>\<^verbatim>\<open>write_log\<close> copies the logged blocks to the log.\<close>

lemma write_log_spec:
  assumes ok: "bc_ok s P {}" and g: "log_geom s n" and P: "pinned s P = lhblock s ` {..<n}" and room: "card P < NBUF"
  defines "W m \<equiv> map (\<lambda>k. (log_block s k, view s (lhblock s k))) [0..<m]"
  shows "\<exists>B. write_log s = Ok (wrote (W n) B s) \<and> bc_ok (wrote (W n) B s) P {} \<and>
    view (wrote (W n) B s) = apply_writes (W n) (view s) \<and> (\<forall>i \<in> P. blockno (B i) = blockno (bufs s i))"
proof -
  have "\<exists>B. for_res write_log_one [0..<m] s = Ok (wrote (W m) B s) \<and> bc_ok (wrote (W m) B s) P {} \<and>
      view (wrote (W m) B s) = apply_writes (W m) (view s) \<and> (\<forall>i \<in> P. blockno (B i) = blockno (bufs s i))"
    if "m \<le> n" for m
    using that
  proof (induction m)
    case 0
    have "wrote [] (bufs s) s = s" by (simp add: wrote_def)
    with ok show ?case by (intro exI [of _ "bufs s"]) (simp add: W_def)
  next
    case (Suc m)
    then obtain B where B: "for_res write_log_one [0..<m] s = Ok (wrote (W m) B s)" "bc_ok (wrote (W m) B s) P {}"
        "view (wrote (W m) B s) = apply_writes (W m) (view s)" "\<forall>i \<in> P. blockno (B i) = blockno (bufs s i)" by auto
    let ?s = "wrote (W m) B s" and ?h = "lhblock s m" and ?t = "log_block s m"
    have m: "m < LOGBLOCKS" "m < n" using Suc.prems g by (auto simp: log_geom_def)
    have hA: "?h \<notin> log_area (lstart s)" using g m by (simp add: log_geom_def)
    have pin: "pinned ?s P = lhblock s ` {..<n}" using B(4) P by (simp add: pinned_def)
    obtain j where j: "j \<in> P" "cached ?s j ?h" using pin pinned_iff [OF B(2), of ?h] m by auto
    have t: "\<forall>i \<in> P. \<not> cached ?s i ?t"
      using pinned_iff [OF B(2), of ?t] pin g log_block_facts(1) [OF g m(1)] by (auto simp: log_geom_def)
    have "fst ` set (W m) \<subseteq> log_area (lstart s)"
      using log_block_facts(1) [OF g] m(1) by (auto simp: W_def)
    then have v: "view ?s ?h = view s ?h"
      unfolding B(3) using hA by (intro apply_writes_other) auto
    obtain B' where B': "write_log_one m ?s = Ok (put_block ?t (view ?s ?h) B' ?s)"
        "bc_ok (put_block ?t (view ?s ?h) B' ?s) P {}"
        "view (put_block ?t (view ?s ?h) B' ?s) = (view ?s)(?t := view ?s ?h)" "\<forall>i \<in> P. blockno (B' i) = blockno (B i)"
      by (rule write_log_one_spec [OF B(2), of j m])
        (use g j t room in \<open>auto simp: log_geom_def log_block_def\<close>)
    have W: "W (Suc m) = W m @ [(?t, view s ?h)]" by (simp add: W_def)
    show ?case
      using B(1,3,4) B' unfolding v put_block_wrote
      by (intro exI [of _ B']) (simp add: W for_res_snoc)
  qed
  from this [of n] g show ?thesis by (simp add: write_log_def log_geom_def)
qed

text \<open>\<^verbatim>\<open>install_trans\<close> copies the log to the home locations and unpins the blocks.\<close>

lemma install_trans_spec:
  assumes ok: "bc_ok s P {}" and g: "log_geom s n" and room: "card P < NBUF"
    and P: "if recovering then P = {} else pinned s P = lhblock s ` {..<n} \<and> inj_on (lhblock s) {..<n}"
  defines "W m \<equiv> map (\<lambda>k. (lhblock s k, view s (log_block s k))) [0..<m]"
  shows "\<exists>B. install_trans recovering s = Ok (wrote (W n) B s) \<and> bc_ok (wrote (W n) B s) {} {} \<and>
    view (wrote (W n) B s) = apply_writes (W n) (view s)"
proof -
  define Q where "Q m = {i \<in> P. blockno (bufs s i) \<notin> lhblock s ` {..<m}}" for m
  have finP: "finite P" using bc_okD(1) [OF bc_ok_bufs [OF ok]] finite_subset by blast
  have loop: "\<exists>B. for_res (install_one recovering) [0..<m] s = Ok (wrote (W m) B s) \<and> bc_ok (wrote (W m) B s) (Q m) {} \<and>
      view (wrote (W m) B s) = apply_writes (W m) (view s) \<and> (\<forall>i \<in> Q m. blockno (B i) = blockno (bufs s i))"
    if "m \<le> n" for m
    using that
  proof (induction m)
    case 0
    have "wrote [] (bufs s) s = s" by (simp add: wrote_def)
    with ok show ?case by (intro exI [of _ "bufs s"]) (simp add: W_def Q_def)
  next
    case (Suc m)
    then obtain B where B: "for_res (install_one recovering) [0..<m] s = Ok (wrote (W m) B s)"
        "bc_ok (wrote (W m) B s) (Q m) {}" "view (wrote (W m) B s) = apply_writes (W m) (view s)"
        "\<forall>i \<in> Q m. blockno (B i) = blockno (bufs s i)" by auto
    let ?s = "wrote (W m) B s" and ?h = "lhblock s m" and ?t = "log_block s m"
    have m: "m < LOGBLOCKS" "m < n" using Suc.prems g by (auto simp: log_geom_def)
    have hA: "\<forall>k < n. lhblock s k \<notin> log_area (lstart s)" using g by (simp add: log_geom_def)
    have tA: "?t \<in> log_area (lstart s)" using log_block_facts(1) [OF g m(1)] .
    have ht: "?h \<noteq> ?t" using hA tA m by metis
    have QP: "Q m \<subseteq> P" by (auto simp: Q_def)
    have dev: "\<forall>i \<in> Q m. bdev (B i) = ROOTDEV" using bc_okD(10) [OF bc_ok_bufs [OF B(2)]] by simp
    have cQ: "\<forall>i \<in> Q m. cached ?s i b \<longleftrightarrow> blockno (bufs s i) = b" for b
      using dev B(4) by (auto simp: cached_def)
    have "blockno (bufs s i) \<in> lhblock s ` {..<n}" if "i \<in> P" for i
      using P that by (auto simp: pinned_def split: if_splits)
    then have t: "\<forall>i \<in> Q m. \<not> cached ?s i ?t" using cQ QP hA tA by fastforce
    have room': "card (Q m) < NBUF" using card_mono [OF finP QP] room by simp
    have h: "if recovering then Q m = {} else \<exists>j \<in> Q m. cached ?s j ?h"
    proof (cases recovering)
      case False
      then have "?h \<in> pinned s P" and "inj_on (lhblock s) {..<n}" using P m by auto
      moreover from this(2) have "?h \<notin> lhblock s ` {..<m}" using m by (auto dest: inj_onD)
      ultimately show ?thesis using False cQ by (auto simp: pinned_def Q_def)
    qed (use P in \<open>simp add: Q_def\<close>)
    have "fst ` set (W m) \<subseteq> lhblock s ` {..<n}" using m by (auto simp: W_def)
    then have v: "view ?s ?t = view s ?t"
      unfolding B(3) using hA tA by (intro apply_writes_other) auto
    have "\<exists>B'. install_one recovering m ?s = Ok (put_block ?h (view ?s ?t) B' ?s) \<and>
        bc_ok (put_block ?h (view ?s ?t) B' ?s) {i \<in> Q m. \<not> cached ?s i ?h} {} \<and>
        view (put_block ?h (view ?s ?t) B' ?s) = (view ?s)(?h := view ?s ?t) \<and> (\<forall>i \<in> Q m. blockno (B' i) = blockno (B i))"
      using install_one_spec [OF B(2), of m recovering] g t ht room' h
      by (simp add: log_geom_def log_block_def)
    then obtain B' where B': "install_one recovering m ?s = Ok (put_block ?h (view ?s ?t) B' ?s)"
        "bc_ok (put_block ?h (view ?s ?t) B' ?s) {i \<in> Q m. \<not> cached ?s i ?h} {}"
        "view (put_block ?h (view ?s ?t) B' ?s) = (view ?s)(?h := view ?s ?t)"
        "\<forall>i \<in> Q m. blockno (B' i) = blockno (B i)" by blast
    have Q: "{i \<in> Q m. \<not> cached ?s i ?h} = Q (Suc m)" using cQ by (auto simp: Q_def lessThan_Suc)
    then have "Q (Suc m) \<subseteq> Q m" by blast
    moreover have W: "W (Suc m) = W m @ [(?h, view s ?t)]" by (simp add: W_def)
    ultimately show ?case
      using B(1,3,4) B' unfolding v Q put_block_wrote
      by (intro exI [of _ B']) (auto simp: W for_res_snoc)
  qed
  have "Q n = {}" using P by (auto simp: Q_def pinned_def split: if_splits)
  with loop [of n] g show ?thesis by (auto simp: install_trans_def log_geom_def)
qed

section \<open>The header on disk\<close>

lemma write_hdr_get:
  "get32 (fold (\<lambda>i d. put32 (4 + 4 * i) (bl i) d) [0..<m] d) 0 = get32 d 0"
  "k < m \<Longrightarrow> get32 (fold (\<lambda>i d. put32 (4 + 4 * i) (bl i) d) [0..<m] d) (4 + 4 * k) = bl k"
  by (induction m) (auto simp: get32_put32_other less_Suc_eq)

lemma hdr_n_write: "0 \<le> n \<Longrightarrow> n \<le> int LOGBLOCKS \<Longrightarrow> hdr_n (write_hdr n bl d) = n"
proof -
  assume n: "0 \<le> n" "n \<le> int LOGBLOCKS"
  then have "n \<le> 30" by (simp add: LOGBLOCKS_def MAXOPBLOCKS_def)
  with n have "sint (of_int n :: uint32) = n"
    by (subst signed_of_int) (simp add: signed_take_bit_int_eq_self_iff)
  then show ?thesis by (simp add: hdr_n_def write_hdr_def write_hdr_get)
qed

lemma hdr_block_write: "k < nat n \<Longrightarrow> hdr_block (write_hdr n bl d) k = bl k"
  by (simp add: hdr_block_def write_hdr_def write_hdr_get)

section \<open>Commit\<close>

text \<open>The writes of a commit, in order.\<close>

definition commit_writes :: "'a lstate_scheme \<Rightarrow> nat \<Rightarrow> (uint32 \<times> block) list" where
  "commit_writes s n =
     (let hdr = write_hdr (int n) (lhblock s) (disk s (lstart s))
      in map (\<lambda>k. (log_block s k, view s (lhblock s k))) [0..<n] @ [(lstart s, hdr)] @
         map (\<lambda>k. (lhblock s k, view s (lhblock s k))) [0..<n] @ [(lstart s, write_hdr 0 (lhblock s) hdr)])"

text \<open>A transaction that is ready to commit: its blocks are pinned in the cache.\<close>

definition tx_ok :: "'a lstate_scheme \<Rightarrow> nat set \<Rightarrow> nat \<Rightarrow> bool" where
  "tx_ok s P n \<longleftrightarrow> bc_ok s P {} \<and> log_geom s n \<and> pinned s P = lhblock s ` {..<n} \<and>
     inj_on (lhblock s) {..<n} \<and> hdr_n (disk s (lstart s)) = 0"

lemma tx_card: "tx_ok s P n \<Longrightarrow> card P = n"
  using pinned_card [of s P "{}"] by (auto simp: tx_ok_def card_image)

lemma commit_spec:
  assumes tx: "tx_ok s P n" and n: "0 < n" "n < NBUF"
  shows "\<exists>B. commit s = Ok ((wrote (commit_writes s n) B s)\<lparr>lhn := 0\<rparr>) \<and>
    bc_ok (wrote (commit_writes s n) B s) {} {}"
proof -
  have ok: "bc_ok s P {}" and g: "log_geom s n" and pin: "pinned s P = lhblock s ` {..<n}"
    and inj: "inj_on (lhblock s) {..<n}" using tx by (simp_all add: tx_ok_def)
  have room: "card P < NBUF" using tx_card [OF tx] n by simp
  have hA: "\<forall>k < n. lhblock s k \<notin> log_area (lstart s)" using g by (simp add: log_geom_def)
  have nL: "n \<le> LOGBLOCKS" using g by (simp add: log_geom_def)
  let ?WL = "map (\<lambda>k. (log_block s k, view s (lhblock s k))) [0..<n]"
  obtain B1 where B1: "write_log s = Ok (wrote ?WL B1 s)" "bc_ok (wrote ?WL B1 s) P {}"
      "view (wrote ?WL B1 s) = apply_writes ?WL (view s)" "\<forall>i \<in> P. blockno (B1 i) = blockno (bufs s i)"
    using write_log_spec [OF ok g pin room] by blast
  let ?s1 = "wrote ?WL B1 s"
  have pin1: "pinned ?s1 P = lhblock s ` {..<n}" using B1(4) pin by (simp add: pinned_def)
  have st: "\<forall>i \<in> P. \<not> cached ?s1 i (lstart s)"
    using pinned_iff [OF B1(2), of "lstart s"] pin1 hA by auto
  have "\<forall>i \<in> P. \<not> cached s i (lstart s)" using pinned_iff [OF ok, of "lstart s"] pin hA by auto
  then have d0: "view s (lstart s) = disk s (lstart s)" by (rule view_clean [OF ok])
  have lbne: "\<forall>k < n. log_block s k \<noteq> lstart s" using log_block_facts(2) [OF g] nL by simp
  then have "lstart s \<notin> fst ` set ?WL" by (auto simp: image_iff eq_commute [of "lstart s"])
  then have v1: "view ?s1 (lstart s) = disk s (lstart s)" unfolding B1(3) by (simp add: apply_writes_other d0)
  let ?hdr = "write_hdr (int n) (lhblock s) (disk s (lstart s))"
  have ln: "lhn s = int n" "ldev s = ROOTDEV" using g by (simp_all add: log_geom_def)
  obtain B2 where B2: "write_head ?s1 = Ok (put_block (lstart s) ?hdr B2 ?s1)" "bc_ok (put_block (lstart s) ?hdr B2 ?s1) P {}"
      "view (put_block (lstart s) ?hdr B2 ?s1) = (view ?s1)(lstart s := ?hdr)" "\<forall>i \<in> P. blockno (B2 i) = blockno (B1 i)"
    using write_head_spec [OF B1(2)] st room v1 ln by auto
  let ?W2 = "?WL @ [(lstart s, ?hdr)]"
  let ?s2 = "wrote ?W2 B2 s"
  note B2 = B2 [unfolded put_block_wrote]
  have g2: "log_geom ?s2 n" using g by (simp add: log_geom_def)
  have pin2: "pinned ?s2 P = lhblock ?s2 ` {..<n}" using B2(4) B1(4) pin by (simp add: pinned_def)
  have lb: "view ?s2 (log_block s k) = view s (lhblock s k)" if "k < n" for k
  proof -
    have "distinct (map (log_block s) [0..<n])"
      using log_block_facts(3) [OF g] nL by (auto simp: distinct_map inj_on_def)
    then have "apply_writes ?WL (view s) (log_block s k) = view s (lhblock s k)"
      by (rule apply_writes_map) (use that in simp)
    moreover have "log_block s k \<noteq> lstart s" using lbne that by simp
    ultimately show ?thesis by (simp add: B2(3) B1(3))
  qed
  have lb2: "log_block ?s2 k = log_block s k" for k by (simp add: log_block_def)
  let ?WI = "map (\<lambda>k. (lhblock s k, view s (lhblock s k))) [0..<n]"
  have WI: "map (\<lambda>k. (lhblock ?s2 k, view ?s2 (log_block ?s2 k))) [0..<n] = ?WI"
    using lb by (simp add: lb2)
  have Pc: "if False then P = {} else pinned ?s2 P = lhblock ?s2 ` {..<n} \<and> inj_on (lhblock ?s2) {..<n}"
    using pin2 inj by simp
  obtain B3 where B3: "install_trans False ?s2 = Ok (wrote ?WI B3 ?s2)" "bc_ok (wrote ?WI B3 ?s2) {} {}"
      "view (wrote ?WI B3 ?s2) = apply_writes ?WI (view ?s2)"
    using install_trans_spec [OF B2(2) g2 room Pc, unfolded WI] by blast
  let ?s3 = "(wrote ?WI B3 ?s2)\<lparr>lhn := 0\<rparr>"
  have ok3: "bc_ok ?s3 {} {}" using B3(2) bc_ok_cong [of ?s3 "wrote ?WI B3 ?s2"] by simp
  have "view ?s3 = view (wrote ?WI B3 ?s2)" by (rule view_cong) simp_all
  moreover have "\<forall>k < n. lhblock s k \<noteq> lstart s" using hA lstart_in_area by metis
  then have "lstart s \<notin> fst ` set ?WI" by (auto simp: image_iff eq_commute [of "lstart s"])
  ultimately have v3: "view ?s3 (lstart s) = ?hdr" by (simp add: B3(3) apply_writes_other B2(3))
  let ?hdr0 = "write_hdr 0 (lhblock s) ?hdr"
  obtain B4 where B4: "write_head ?s3 = Ok (put_block (lstart s) ?hdr0 B4 ?s3)" "bc_ok (put_block (lstart s) ?hdr0 B4 ?s3) {} {}"
    using write_head_spec [OF ok3] v3 ln by (auto simp: NBUF_def MAXOPBLOCKS_def)
  have fin: "put_block (lstart s) ?hdr0 B4 ?s3 = (wrote (commit_writes s n) B4 s)\<lparr>lhn := 0\<rparr>"
    by (simp add: put_block_def wrote_def commit_writes_def apply_writes_append Let_def)
  have "commit s = Ok ((wrote (commit_writes s n) B4 s)\<lparr>lhn := 0\<rparr>)"
    using B1(1) B2(1) B3(1) B4(1) n ln by (simp add: commit_def fin)
  moreover have "bc_ok (wrote (commit_writes s n) B4 s) {} {}"
    using B4(2) bc_ok_cong [of "wrote (commit_writes s n) B4 s" "(wrote (commit_writes s n) B4 s)\<lparr>lhn := 0\<rparr>"]
    unfolding fin by simp
  ultimately show ?thesis by blast
qed

section \<open>Recovery\<close>

text \<open>What recovery writes on a disk \<open>d\<close> whose log starts at \<open>st\<close>.\<close>

definition recovery_writes :: "uint32 \<Rightarrow> (uint32 \<Rightarrow> block) \<Rightarrow> (uint32 \<times> block) list" where
  "recovery_writes st d =
     (let n = nat (hdr_n (d st))
      in map (\<lambda>k. (hdr_block (d st) k, d (st + of_nat k + 1))) [0..<n])"

definition hdr_ok :: "uint32 \<Rightarrow> (uint32 \<Rightarrow> block) \<Rightarrow> bool" where
  "hdr_ok st d \<longleftrightarrow> unat st + LOGBLOCKS < 2 ^ 32 \<and> 0 \<le> hdr_n (d st) \<and> hdr_n (d st) \<le> int LOGBLOCKS \<and>
     (\<forall>k < nat (hdr_n (d st)). hdr_block (d st) k \<notin> log_area st)"

lemma initlog_spec:
  assumes ok: "bc_ok r {} {}" and h: "hdr_ok st (disk r)"
  shows "\<exists>r'. initlog ROOTDEV st r = Ok r' \<and> bc_ok r' {} {} \<and> lhn r' = 0 \<and> hdr_n (disk r' st) = 0 \<and>
    (\<forall>b. b \<noteq> st \<longrightarrow> disk r' b = apply_writes (recovery_writes st (disk r)) (disk r) b)"
proof -
  let ?d = "disk r st" and ?n = "nat (hdr_n (disk r st))"
  let ?r = "r\<lparr>lstart := st, ldev := ROOTDEV\<rparr>"
  have ok0: "bc_ok ?r {} {}" using ok bc_ok_cong [of ?r r] by simp
  have dev: "ldev ?r = ROOTDEV" and sel: "disk ?r = disk r" "lstart ?r = st" "lhblock ?r = lhblock r" by simp_all
  obtain B1 where B1: "read_head ?r = Ok (?r\<lparr>bufs := B1, lhn := hdr_n ?d,
        lhblock := (\<lambda>i. if i < ?n then hdr_block ?d i else lhblock r i)\<rparr>)" "bc_ok (?r\<lparr>bufs := B1\<rparr>) {} {}"
    using read_head_spec [OF ok0 dev, unfolded sel] by blast
  define r1 where "r1 = ?r\<lparr>bufs := B1, lhn := hdr_n ?d, lhblock := (\<lambda>i. if i < ?n then hdr_block ?d i else lhblock r i)\<rparr>"
  have r1: "lstart r1 = st" "ldev r1 = ROOTDEV" "lhn r1 = hdr_n ?d" "disk r1 = disk r"
    "\<And>k. k < ?n \<Longrightarrow> lhblock r1 k = hdr_block ?d k" by (simp_all add: r1_def)
  have ok1: "bc_ok r1 {} {}" using B1(2) bc_ok_cong [of r1 "?r\<lparr>bufs := B1\<rparr>"] by (simp add: r1_def)
  have g: "log_geom r1 ?n" using h by (auto simp: log_geom_def hdr_ok_def r1)
  have v1: "view r1 = disk r" using view_clean [OF ok1] r1(4) by (simp add: fun_eq_iff)
  have W: "map (\<lambda>k. (lhblock r1 k, view r1 (log_block r1 k))) [0..<?n] = recovery_writes st (disk r)"
    by (simp add: recovery_writes_def v1 log_block_def r1 Let_def)
  have room: "card ({} :: nat set) < NBUF" by (simp add: NBUF_def MAXOPBLOCKS_def)
  obtain B2 where B2: "install_trans True r1 = Ok (wrote (recovery_writes st (disk r)) B2 r1)"
      "bc_ok (wrote (recovery_writes st (disk r)) B2 r1) {} {}"
    using install_trans_spec [OF ok1 g room, of True, unfolded W] by auto
  let ?r2 = "(wrote (recovery_writes st (disk r)) B2 r1)\<lparr>lhn := 0\<rparr>"
  have ok2: "bc_ok ?r2 {} {}" using B2(2) bc_ok_cong [of ?r2 "wrote (recovery_writes st (disk r)) B2 r1"] by simp
  let ?h = "write_hdr 0 (lhblock r1) (view ?r2 st)"
  obtain B3 where B3: "write_head ?r2 = Ok (put_block st ?h B3 ?r2)" "bc_ok (put_block st ?h B3 ?r2) {} {}"
    using write_head_spec [OF ok2] r1 room by auto
  have "initlog ROOTDEV st r = Ok (put_block st ?h B3 ?r2)"
    using B1(1) [folded r1_def] B2(1) B3(1)
    by (simp add: initlog_def recover_from_log_def sizeof_logheader_def BSIZE_def LOGBLOCKS_def MAXOPBLOCKS_def)
  moreover have "hdr_n ?h = 0" by (rule hdr_n_write) simp_all
  ultimately show ?thesis
    using B3(2) r1(4) by (intro exI [of _ "put_block st ?h B3 ?r2"]) (simp add: put_block_def [THEN arg_cong [of _ _ lhn]])
qed

section \<open>Crashes\<close>

text \<open>Recovery gives \<open>d0\<close> outside the log.\<close>

definition recovers_to :: "uint32 \<Rightarrow> (uint32 \<Rightarrow> block) \<Rightarrow> (uint32 \<Rightarrow> block) \<Rightarrow> bool" where
  "recovers_to st d d0 \<longleftrightarrow> hdr_ok st d \<and>
     (\<forall>b. b \<notin> log_area st \<longrightarrow> apply_writes (recovery_writes st d) d b = d0 b)"

lemma recovers_empty:
  assumes "unat st + LOGBLOCKS < 2 ^ 32" "hdr_n (d st) = 0" "\<forall>b. b \<notin> log_area st \<longrightarrow> d b = d0 b"
  shows "recovers_to st d d0"
  using assms by (simp add: recovers_to_def hdr_ok_def recovery_writes_def)

text \<open>A disk with a complete log, on which any part of the home blocks has been installed.\<close>

lemma recovers_full:
  assumes st: "unat st + LOGBLOCKS < 2 ^ 32" and n: "n \<le> LOGBLOCKS" "hdr_n (d st) = int n"
    and bl: "\<forall>k < n. hdr_block (d st) k = bl k \<and> bl k \<notin> log_area st \<and> d (st + of_nat k + 1) = v (bl k)"
    and rest: "\<forall>b. b \<notin> log_area st \<longrightarrow> b \<notin> bl ` {..<n} \<longrightarrow> d b = v b"
  shows "recovers_to st d v"
proof -
  have W: "recovery_writes st d = map (\<lambda>b. (b, v b)) (map bl [0..<n])"
    using bl n by (simp add: recovery_writes_def Let_def)
  have aw: "apply_writes (map (\<lambda>b. (b, v b)) bs) d b = (if b \<in> set bs then v b else d b)" for bs b
    by (induction bs arbitrary: d) auto
  have "apply_writes (recovery_writes st d) d b = (if b \<in> bl ` {..<n} then v b else d b)" for b
    unfolding W aw by (simp add: atLeast0LessThan)
  then show ?thesis
    using st n bl rest by (auto simp: recovers_to_def hdr_ok_def)
qed

lemma commit_crash:
  fixes s :: "'a lstate_scheme"
  assumes tx: "tx_ok s P n"
  defines "d k \<equiv> apply_writes (take k (commit_writes s n)) (disk s)"
  shows "recovers_to (lstart s) (d k) (disk s) \<or> recovers_to (lstart s) (d k) (view s)"
proof -
  have ok: "bc_ok s P {}" and g: "log_geom s n" and pin: "pinned s P = lhblock s ` {..<n}"
    and inj: "inj_on (lhblock s) {..<n}" and h0: "hdr_n (disk s (lstart s)) = 0" using tx by (simp_all add: tx_ok_def)
  have st: "unat (lstart s) + LOGBLOCKS < 2 ^ 32" and nL: "n \<le> LOGBLOCKS"
    and hA: "\<forall>k < n. lhblock s k \<notin> log_area (lstart s)" using g by (simp_all add: log_geom_def)
  let ?st = "lstart s"
  have lbA: "\<forall>k < n. log_block s k \<in> log_area ?st \<and> log_block s k \<noteq> ?st"
    using log_block_facts(1,2) [OF g] nL by simp
  have ne: "\<forall>k < n. lhblock s k \<noteq> ?st" using hA lstart_in_area by metis
  have cl: "view s b = disk s b" if "b \<notin> lhblock s ` {..<n}" for b
    using that pinned_iff [OF ok, of b] pin by (intro view_clean [OF ok]) auto
  let ?hdr = "write_hdr (int n) (lhblock s) (disk s ?st)"
  let ?WL = "map (\<lambda>k. (log_block s k, view s (lhblock s k))) [0..<n]"
  let ?WI = "map (\<lambda>k. (lhblock s k, view s (lhblock s k))) [0..<n]"
  have ws: "commit_writes s n = ?WL @ [(?st, ?hdr)] @ ?WI @ [(?st, write_hdr 0 (lhblock s) ?hdr)]"
    by (simp add: commit_writes_def Let_def)
  consider (pre) "k \<le> n" | (mid) "n < k" "k \<le> 2 * n + 1" | (post) "2 * n + 1 < k" by linarith
  then show ?thesis
  proof cases
    case pre
    then have dk: "d k = apply_writes (take k ?WL) (disk s)" by (simp add: d_def ws)
    have sub: "fst ` set (take k ?WL) \<subseteq> log_area ?st - {?st}"
      using lbA by (auto dest!: in_set_takeD) blast
    have "d k ?st = disk s ?st" unfolding dk using sub by (intro apply_writes_other) auto
    moreover have "\<forall>b. b \<notin> log_area ?st \<longrightarrow> d k b = disk s b"
      unfolding dk using sub by (auto intro!: apply_writes_other)
    ultimately show ?thesis using recovers_empty [OF st] h0 by simp
  next
    case mid
    then obtain j where j: "k = Suc (n + j)" "j \<le> n" by (metis add_Suc less_iff_Suc_add mult_2 add_Suc_right Suc_eq_plus1 nat_add_left_cancel_le Suc_le_mono)
    have dk: "d k = apply_writes (take j ?WI) ((apply_writes ?WL (disk s))(?st := ?hdr))"
      using j by (simp add: d_def ws apply_writes_append)
    have sub: "fst ` set (take j ?WI) \<subseteq> lhblock s ` {..<n}" by (auto dest!: in_set_takeD)
    have in_area: "d k b = ((apply_writes ?WL (disk s))(?st := ?hdr)) b" if "b \<in> log_area ?st" for b
      unfolding dk using sub hA that by (intro apply_writes_other) auto
    have "distinct (map (log_block s) [0..<n])"
      using log_block_facts(3) [OF g] nL by (auto simp: distinct_map inj_on_def)
    then have lb: "d k (log_block s i) = view s (lhblock s i)" if "i < n" for i
      using in_area lbA that apply_writes_map [of "log_block s" "[0..<n]" i] by simp
    have hs: "d k ?st = ?hdr" using in_area by simp
    have "recovers_to ?st (d k) (view s)"
    proof (rule recovers_full [OF st nL, where bl = "lhblock s"])
      show "hdr_n (d k ?st) = int n" unfolding hs using nL by (intro hdr_n_write) simp_all
      show "\<forall>i < n. hdr_block (d k ?st) i = lhblock s i \<and> lhblock s i \<notin> log_area ?st \<and>
          d k (?st + of_nat i + 1) = view s (lhblock s i)"
        using hs hA lb by (simp add: hdr_block_write log_block_def)
      show "\<forall>b. b \<notin> log_area ?st \<longrightarrow> b \<notin> lhblock s ` {..<n} \<longrightarrow> d k b = view s b"
      proof (intro allI impI)
        fix b assume b: "b \<notin> log_area ?st" "b \<notin> lhblock s ` {..<n}"
        have "d k b = ((apply_writes ?WL (disk s))(?st := ?hdr)) b"
          unfolding dk using sub b(2) by (intro apply_writes_other) auto
        moreover have "b \<notin> fst ` set ?WL" using b(1) lbA by auto
        moreover have "b \<noteq> ?st" using b(1) lstart_in_area by metis
        ultimately show "d k b = view s b" using cl [OF b(2)] by (simp add: apply_writes_other)
      qed
    qed
    then show ?thesis ..
  next
    case post
    then have dk: "d k = (apply_writes ?WI ((apply_writes ?WL (disk s))(?st := ?hdr)))(?st := write_hdr 0 (lhblock s) ?hdr)"
      by (simp add: d_def ws apply_writes_append)
    have "hdr_n (d k ?st) = 0" unfolding dk by (simp add: hdr_n_write)
    moreover have "\<forall>b. b \<notin> log_area ?st \<longrightarrow> d k b = view s b"
    proof (intro allI impI)
      fix b assume b: "b \<notin> log_area ?st"
      have bst: "b \<noteq> ?st" using b lstart_in_area by metis
      show "d k b = view s b"
      proof (cases "b \<in> lhblock s ` {..<n}")
        case True
        then obtain i where i: "i < n" "b = lhblock s i" by blast
        have "distinct (map (lhblock s) [0..<n])" using inj by (simp add: distinct_map atLeast0LessThan)
        then show ?thesis using apply_writes_map [of "lhblock s" "[0..<n]" i] i bst by (simp add: dk)
      next
        case False
        then have "b \<notin> fst ` set ?WI" "b \<notin> fst ` set ?WL" using b lbA by auto
        then show ?thesis using bst cl [OF False] by (simp add: dk apply_writes_other)
      qed
    qed
    ultimately show ?thesis using recovers_empty [OF st] by simp
  qed
qed

lemma commit_installs:
  assumes tx: "tx_ok s P n" and b: "b \<notin> log_area (lstart s)"
  shows "apply_writes (commit_writes s n) (disk s) b = view s b"
proof -
  have ok: "bc_ok s P {}" and g: "log_geom s n" and pin: "pinned s P = lhblock s ` {..<n}"
    and inj: "inj_on (lhblock s) {..<n}" using tx by (simp_all add: tx_ok_def)
  have lbA: "\<forall>k < n. log_block s k \<in> log_area (lstart s)"
    using log_block_facts(1) [OF g] g by (simp add: log_geom_def)
  have bst: "b \<noteq> lstart s" using b lstart_in_area by metis
  show ?thesis
  proof (cases "b \<in> lhblock s ` {..<n}")
    case True
    then obtain i where i: "i < n" "b = lhblock s i" by blast
    have "distinct (map (lhblock s) [0..<n])" using inj by (simp add: distinct_map atLeast0LessThan)
    then show ?thesis
      using apply_writes_map [of "lhblock s" "[0..<n]" i] i bst by (simp add: commit_writes_def Let_def apply_writes_append)
  next
    case False
    then have "b \<notin> fst ` set (commit_writes s n)" using b lbA bst by (auto simp: commit_writes_def Let_def)
    moreover have "view s b = disk s b"
      using False pinned_iff [OF ok, of b] pin by (intro view_clean [OF ok]) auto
    ultimately show ?thesis by (simp add: apply_writes_other)
  qed
qed

end
