(* ===== verification/Log_Safe.thy ===== *)
theory Log_Safe
  imports Log_Spec
begin

text \<open>
  The properties of the log: crash atomicity of a commit, the commit that finds no
  free buffer, and the reservation of log space by concurrent operations.
\<close>

section \<open>A transaction\<close>

text \<open>A machine with the blocks \<open>100 .. 100 + n - 1\<close> changed in the cache and logged.\<close>

definition ex_bufs :: "nat \<Rightarrow> nat \<Rightarrow> buf" where
  "ex_bufs n i = \<lparr>valid = (i < n), bdev = (if i < n then ROOTDEV else 0), blockno = (if i < n then 100 + of_nat i else 0),
     buflock = initsleeplock, brefcnt = (if i < n then 1 else 0), bprev = (if i = 0 then NBUF else i - 1),
     bnext = (if i = NBUF then 0 else i + 1), bdata = (\<lambda>_. 7)\<rparr>"

definition ex_tx :: "nat \<Rightarrow> lstate" where
  "ex_tx n = \<lparr>km = \<lparr>phys = (\<lambda>_. 0), kend = 0x80400000, free_areas = (\<lambda>_. \<lparr>freelist = 0, nr_free = 0\<rparr>),
       refcnt = (\<lambda>_. 0), page_state = (\<lambda>_. 0)\<rparr>, pt = ready_table, cur = Some 2, klocal = 0x80010000,
     bufs = ex_bufs n, disk = (\<lambda>_ _. 0), wtrace = [],
     lstart = 2, outstanding = 0, committing = True, ldev = ROOTDEV, lhn = int n, lhblock = (\<lambda>k. 100 + of_nat k)\<rparr>"

lemma seg_up:
  assumes "a < m" "m \<le> NBUF"
  shows "seg (ex_bufs n) a [Suc a..<m] m"
  using assms
proof (induction "m - Suc a" arbitrary: a)
  case 0
  then show ?case by (simp add: ex_bufs_def)
next
  case (Suc k)
  then have "[Suc a..<m] = Suc a # [Suc (Suc a)..<m]" by (simp add: upt_conv_Cons)
  with Suc show ?case by (simp add: ex_bufs_def)
qed

lemma lru_ex_bufs: "lru (ex_bufs n) [0..<NBUF]"
proof -
  have "[0..<NBUF] = 0 # [Suc 0..<NBUF]" by (simp add: upt_conv_Cons NBUF_def MAXOPBLOCKS_def)
  moreover have "seg (ex_bufs n) 0 [Suc 0..<NBUF] NBUF" by (rule seg_up) (simp_all add: NBUF_def MAXOPBLOCKS_def)
  moreover have "bprev (ex_bufs n 0) = NBUF" "bnext (ex_bufs n NBUF) = 0" by (simp_all add: ex_bufs_def)
  ultimately show ?thesis by (simp add: lru_def) (simp add: NBUF_def MAXOPBLOCKS_def)
qed

lemma unat_ex_block: "i \<le> NBUF \<Longrightarrow> unat (100 + of_nat i :: uint32) = 100 + i"
  using unat_add_of_nat [of 100 i] by (simp add: NBUF_def MAXOPBLOCKS_def)

lemma ex_block_inj: "i \<le> NBUF \<Longrightarrow> j \<le> NBUF \<Longrightarrow> (100 + of_nat i :: uint32) = 100 + of_nat j \<Longrightarrow> i = j"
  using unat_ex_block by (metis add_left_cancel)

lemma tx_ok_ex: "n \<le> NBUF \<Longrightarrow> tx_ok (ex_tx n) {..<n} n"
proof -
  assume n: "n \<le> NBUF"
  have "bufs_ok (ex_bufs n) (\<lambda>_ _. 0) p {..<n} {}" for p
  proof (rule bufs_okI)
    show "\<exists>xs. lru (ex_bufs n) xs \<and> set xs = {..<NBUF}" using lru_ex_bufs [of n] by (intro exI [of _ "[0..<NBUF]"]) auto
    show "i = j" if "i < NBUF" "j < NBUF" "bdev (ex_bufs n i) = ROOTDEV" "bdev (ex_bufs n j) = ROOTDEV"
      "blockno (ex_bufs n i) = blockno (ex_bufs n j)" for i j
      using that ex_block_inj [of i j] by (auto simp: ex_bufs_def ROOTDEV_def split: if_splits)
  qed (use n in \<open>auto simp: ex_bufs_def initsleeplock_def\<close>)
  moreover have "still (ex_tx n)" by (simp add: still_def ex_tx_def ready_table_def)
  ultimately have "bc_ok (ex_tx n) {..<n} {}" by (simp add: bc_ok_def ex_tx_def)
  moreover have "log_geom (ex_tx n) n"
    using n unat_ex_block by (auto simp: log_geom_def ex_tx_def log_area_def LOGBLOCKS_def NBUF_def MAXOPBLOCKS_def)
  moreover have "inj_on (lhblock (ex_tx n)) {..<n}"
    using n ex_block_inj by (auto simp: ex_tx_def inj_on_def)
  moreover have "pinned (ex_tx n) {..<n} = lhblock (ex_tx n) ` {..<n}"
    by (auto simp: pinned_def ex_tx_def ex_bufs_def)
  moreover have "hdr_n (disk (ex_tx n) (lstart (ex_tx n))) = 0" by (simp add: hdr_n_def get32_def ex_tx_def)
  ultimately show ?thesis by (simp add: tx_ok_def)
qed

section \<open>Crash atomicity\<close>

text \<open>The writes that the disk received between two states.\<close>

definition new_writes :: "'a bstate_scheme \<Rightarrow> 'a bstate_scheme \<Rightarrow> (uint32 \<times> block) list" where
  "new_writes s s' = drop (length (wtrace s)) (wtrace s')"

text \<open>
  C1. Crash atomicity of \<^verbatim>\<open>commit\<close>. A transaction of fewer than \<^verbatim>\<open>NBUF\<close> blocks commits,
  and afterwards every block outside the log is on disk as the cache had it. If the
  machine crashes after any number of the disk writes of the commit, then \<^verbatim>\<open>initlog\<close> on
  the disk it left, with any buffer cache that agrees with that disk, succeeds and
  gives outside the log either all the old contents or all the new contents of the
  transaction, never a mixture.
\<close>

theorem log_crash_atomic:
  fixes s :: "'a lstate_scheme"
  assumes "tx_ok s P n" "0 < n" "n < NBUF"
  shows "\<exists>s'. commit s = Ok s' \<and> (\<forall>b. b \<notin> log_area (lstart s) \<longrightarrow> disk s' b = view s b) \<and>
     (\<forall>k (r :: 'b lstate_scheme). bc_ok r {} {} \<and> disk r = apply_writes (take k (new_writes s s')) (disk s) \<longrightarrow>
        (\<exists>r'. initlog ROOTDEV (lstart s) r = Ok r' \<and> bc_ok r' {} {} \<and>
           ((\<forall>b. b \<notin> log_area (lstart s) \<longrightarrow> disk r' b = disk s b) \<or>
            (\<forall>b. b \<notin> log_area (lstart s) \<longrightarrow> disk r' b = view s b))))"
proof -
  obtain B where B: "commit s = Ok ((wrote (commit_writes s n) B s)\<lparr>lhn := 0\<rparr>)"
    using commit_spec [OF assms] by blast
  let ?s = "(wrote (commit_writes s n) B s)\<lparr>lhn := 0\<rparr>"
  have nw: "new_writes s ?s = commit_writes s n" by (simp add: new_writes_def)
  have st: "lstart s \<in> log_area (lstart s)" by simp
  have new: "disk ?s b = view s b" if b: "b \<notin> log_area (lstart s)" for b
    using commit_installs [OF assms(1) b] by simp
  have "\<exists>r'. initlog ROOTDEV (lstart s) r = Ok r' \<and> bc_ok r' {} {} \<and>
           ((\<forall>b. b \<notin> log_area (lstart s) \<longrightarrow> disk r' b = disk s b) \<or>
            (\<forall>b. b \<notin> log_area (lstart s) \<longrightarrow> disk r' b = view s b))"
    if r: "bc_ok r {} {}" "disk r = apply_writes (take k (commit_writes s n)) (disk s)" for k and r :: "'b lstate_scheme"
  proof -
    from commit_crash [OF assms(1), of k] obtain d where d: "recovers_to (lstart s) (disk r) d" "d = disk s \<or> d = view s"
      unfolding r(2) by blast
    then have "hdr_ok (lstart s) (disk r)" by (simp add: recovers_to_def)
    then obtain r' where r': "initlog ROOTDEV (lstart s) r = Ok r'" "bc_ok r' {} {}"
        "\<forall>b. b \<noteq> lstart s \<longrightarrow> disk r' b = apply_writes (recovery_writes (lstart s) (disk r)) (disk r) b"
      using initlog_spec [OF r(1)] by blast
    have "\<forall>b. b \<notin> log_area (lstart s) \<longrightarrow> disk r' b = d b"
      using r'(3) d(1) st unfolding recovers_to_def by metis
    with r' d(2) show ?thesis by blast
  qed
  with B new show ?thesis by (intro exI [of _ ?s]) (simp add: nw)
qed

theorem log_crash_atomic_witness:
  "\<exists>s'. commit (ex_tx 3) = Ok s' \<and> (\<forall>b. b \<notin> log_area 2 \<longrightarrow> disk s' b = view (ex_tx 3) b)"
  using log_crash_atomic [OF tx_ok_ex [of 3], where 'b = unit] by (auto simp: NBUF_def MAXOPBLOCKS_def ex_tx_def)

section \<open>A transaction as large as the cache\<close>

text \<open>
  C35. \<^verbatim>\<open>LOGBLOCKS\<close> and \<^verbatim>\<open>NBUF\<close> are the same number, so a transaction may pin the whole
  buffer cache: three operations of \<^verbatim>\<open>MAXOPBLOCKS\<close> blocks each are admitted by \<^verbatim>\<open>begin_op\<close>.
  Committing such a transaction panics, because \<^verbatim>\<open>write_log\<close> finds no buffer for the
  first log block.
\<close>

theorem commit_full_cache_panics:
  assumes "tx_ok s P LOGBLOCKS"
  shows "commit s = Panic ''bget: no buffers''"
proof -
  have ok: "bc_ok s P {}" and g: "log_geom s LOGBLOCKS" and pin: "pinned s P = lhblock s ` {..<LOGBLOCKS}"
    using assms by (simp_all add: tx_ok_def)
  note D = bc_okD [OF bc_ok_bufs [OF ok]]
  have "card P = card {..<NBUF}" using tx_card [OF assms] by (simp add: LOGBLOCKS_def NBUF_def)
  then have P: "P = {..<NBUF}" using D(1) card_subset_eq by blast
  obtain xs where xs: "lru (bufs s) xs" "set xs = {..<NBUF}" using D(3) by blast
  then have sg: "seg (bufs s) HEAD xs HEAD" "HEAD \<notin> set xs" by (auto simp: lru_def)
  let ?t = "lstart s + of_nat 0 + 1"
  have L: "0 < LOGBLOCKS" by (simp add: LOGBLOCKS_def MAXOPBLOCKS_def)
  have "?t \<in> log_area (lstart s)" using log_block_facts(1) [OF g L] by (simp add: log_block_def)
  moreover have "\<forall>k < LOGBLOCKS. lhblock s k \<notin> log_area (lstart s)" using g by (simp add: log_geom_def)
  ultimately have "?t \<notin> pinned s P" unfolding pin by auto
  then have "find (\<lambda>i. bdev (bufs s i) = ROOTDEV \<and> blockno (bufs s i) = ?t) xs = None"
    using xs P pinned_iff [OF ok, of ?t] by (auto simp: find_None_iff cached_def)
  then have fc: "find_cached (bufs s) ROOTDEV ?t (bnext (bufs s HEAD)) = Some None"
    using find_cached_eq [OF sg] by simp
  have "find (\<lambda>i. brefcnt (bufs s i) = 0) (rev xs) = None" using xs P D(6) by (auto simp: find_None_iff)
  then have "find_unref (bufs s) (bprev (bufs s HEAD)) = Some None" using find_unref_eq [OF sg] by simp
  with fc have "bread ROOTDEV ?t s = Panic ''bget: no buffers''" by (simp add: bread_def bget_def)
  moreover have "[0..<LOGBLOCKS] = 0 # [1..<LOGBLOCKS]" using L by (simp add: upt_conv_Cons)
  ultimately show ?thesis
    using g L by (simp add: commit_def write_log_def write_log_one_def log_geom_def)
qed

theorem commit_full_cache_panics_witness: "commit (ex_tx 30) = Panic ''bget: no buffers''"
  by (rule commit_full_cache_panics) (use tx_ok_ex [of 30] in \<open>simp add: LOGBLOCKS_def NBUF_def MAXOPBLOCKS_def\<close>)

section \<open>Reservation of log space\<close>

text \<open>The fields of \<^verbatim>\<open>struct log\<close>, which the buffer cache does not touch.\<close>

definition log_fields :: "'a lstate_scheme \<Rightarrow> uint32 \<times> int \<times> bool \<times> uint32 \<times> int \<times> (nat \<Rightarrow> uint32)" where
  "log_fields s = (lstart s, outstanding s, committing s, ldev s, lhn s, lhblock s)"

lemma bread_frame: "bread dev b s = Ok (i, s') \<Longrightarrow> \<exists>B. s' = s\<lparr>bufs := B\<rparr>"
  by (auto simp: bread_def bget_def lock_buf_def acquiresleep_def upd_buf_def virtio_disk_rw_def Let_def
      bind_res_Ok_iff split: option.splits blk.splits if_splits)

lemma bwrite_frame: "bwrite i s = Ok s' \<Longrightarrow> \<exists>d w. s' = s\<lparr>disk := d, wtrace := w\<rparr>"
  by (auto simp: bwrite_def virtio_disk_rw_def Let_def split: if_splits)

lemma brelse_frame: "brelse i s = Ok s' \<Longrightarrow> \<exists>B t. s' = s\<lparr>pt := t, bufs := B\<rparr>"
  by (auto simp: brelse_def unlock_buf_def releasesleep_def kwakeup_def upd_buf_def Let_def split: if_splits)

lemma log_fields_frame [simp]:
  "log_fields (s\<lparr>bufs := B\<rparr>) = log_fields s" "log_fields (s\<lparr>disk := d, wtrace := w\<rparr>) = log_fields s"
  "log_fields (s\<lparr>pt := t\<rparr>) = log_fields s" "log_fields (set_data i x s) = log_fields s"
  "log_fields (bunpin i s) = log_fields s" "log_fields (kwakeup ch s) = log_fields s"
  by (simp_all add: log_fields_def set_data_def bunpin_def upd_buf_def kwakeup_def)

lemma log_fields_ops:
  "bread dev b s = Ok (i, s') \<Longrightarrow> log_fields s' = log_fields s"
  "bwrite i s = Ok s' \<Longrightarrow> log_fields s' = log_fields s"
  "brelse i s = Ok s' \<Longrightarrow> log_fields s' = log_fields s"
  by (auto dest!: bread_frame bwrite_frame brelse_frame)

lemma log_fields_loops:
  "write_head s = Ok s' \<Longrightarrow> log_fields s' = log_fields s"
  "install_one rec k s = Ok s' \<Longrightarrow> log_fields s' = log_fields s"
  "write_log_one k s = Ok s' \<Longrightarrow> log_fields s' = log_fields s"
  by (auto simp: write_head_def install_one_def write_log_one_def bind_res_Ok_iff dest!: log_fields_ops split: if_splits)

lemma for_res_keeps:
  assumes "\<forall>i s s'. f i s = Ok s' \<longrightarrow> g s' = g s"
  shows "for_res f is s = Ok s' \<Longrightarrow> g s' = g s"
proof (induction "is" arbitrary: s)
  case (Cons i "is")
  then obtain s1 where "f i s = Ok s1" "for_res f is s1 = Ok s'" by (auto simp: bind_res_Ok_iff)
  with Cons.IH assms show ?case by metis
qed simp

lemma log_fields_upd: "log_fields s' = log_fields (s\<lparr>lhn := n\<rparr>) \<Longrightarrow> log_fields s = log_fields s0 \<Longrightarrow>
     log_fields s' = log_fields (s0\<lparr>lhn := n\<rparr>)"
  by (simp add: log_fields_def)

lemma commit_fields:
  assumes "commit s = Ok s'" "0 \<le> lhn s"
  shows "log_fields s' = log_fields (s\<lparr>lhn := 0\<rparr>)"
proof (cases "lhn s > 0")
  case True
  with assms(1) obtain s1 s2 s3 where r: "write_log s = Ok s1" "write_head s1 = Ok s2" "install_trans False s2 = Ok s3"
      "write_head (s3\<lparr>lhn := 0\<rparr>) = Ok s'"
    by (auto simp: commit_def bind_res_Ok_iff)
  have "log_fields s1 = log_fields s"
    using r(1) log_fields_loops(3) unfolding write_log_def
    by (intro for_res_keeps [where g = log_fields and f = write_log_one]) blast+
  moreover have "log_fields s3 = log_fields s2"
    using r(3) log_fields_loops(2) unfolding install_trans_def
    by (intro for_res_keeps [where g = log_fields and f = "install_one False"]) blast+
  ultimately have "log_fields s3 = log_fields s" using log_fields_loops(1) [OF r(2)] by simp
  with log_fields_loops(1) [OF r(4)] show ?thesis by (rule log_fields_upd)
next
  case False
  with assms show ?thesis by (simp add: commit_def log_fields_def)
qed

text \<open>
  File-system operations of many processes: \<open>budget p\<close> is how many more new blocks the
  operation of process \<open>p\<close> may log. An operation starts with \<^verbatim>\<open>MAXOPBLOCKS\<close>.
\<close>

inductive log_run :: "'a lstate_scheme \<Rightarrow> (nat \<rightharpoonup> nat) \<Rightarrow> bool" where
  boot: "lhn s = 0 \<Longrightarrow> outstanding s = 0 \<Longrightarrow> \<not> committing s \<Longrightarrow> log_run s Map.empty"
| start: "log_run s b \<Longrightarrow> b p = None \<Longrightarrow> begin_op s = (Ret (), s') \<Longrightarrow> log_run s' (b(p \<mapsto> MAXOPBLOCKS))"
| log_new: "log_run s b \<Longrightarrow> b p = Some (Suc m) \<Longrightarrow> log_write i s = Ok s' \<Longrightarrow> lhn s' \<noteq> lhn s \<Longrightarrow> log_run s' (b(p \<mapsto> m))"
| log_again: "log_run s b \<Longrightarrow> log_write i s = Ok s' \<Longrightarrow> lhn s' = lhn s \<Longrightarrow> log_run s' b"
| finish: "log_run s b \<Longrightarrow> p \<in> dom b \<Longrightarrow> end_op s = Ok s' \<Longrightarrow> log_run s' (b(p := None))"
| other: "log_run s b \<Longrightarrow> log_fields s' = log_fields s \<Longrightarrow> log_run s' b"

definition reserved :: "(nat \<rightharpoonup> nat) \<Rightarrow> nat" where
  "reserved b = (\<Sum>p \<in> dom b. the (b p))"

definition log_run_inv :: "'a lstate_scheme \<Rightarrow> (nat \<rightharpoonup> nat) \<Rightarrow> bool" where
  "log_run_inv s b \<longleftrightarrow> finite (dom b) \<and> outstanding s = int (card (dom b)) \<and> outstanding s \<le> 3 \<and> \<not> committing s \<and> 0 \<le> lhn s \<and>
     lhn s + int (reserved b) \<le> int LOGBLOCKS \<and> (\<forall>p m. b p = Some m \<longrightarrow> m \<le> MAXOPBLOCKS) \<and>
     (dom b = {} \<longrightarrow> lhn s = 0)"

lemma reserved_upd:
  assumes "finite (dom b)"
  shows "b p = None \<Longrightarrow> reserved (b(p \<mapsto> m)) = reserved b + m"
    "b p = Some k \<Longrightarrow> reserved (b(p \<mapsto> m)) + k = reserved b + m"
    "b p = Some k \<Longrightarrow> reserved (b(p := None)) + k = reserved b"
proof -
  have other: "(\<Sum>q \<in> dom b - {p}. the ((b(p := v)) q)) = (\<Sum>q \<in> dom b - {p}. the (b q))" for v
    by (rule sum.cong) auto
  show "b p = None \<Longrightarrow> reserved (b(p \<mapsto> m)) = reserved b + m"
    using other [of "Some m"] assms by (simp add: reserved_def domIff)
  show "b p = Some k \<Longrightarrow> reserved (b(p \<mapsto> m)) + k = reserved b + m"
    using other [of "Some m"] sum.remove [OF assms, of p "\<lambda>q. the (b q)"]
      sum.remove [OF assms, of p "\<lambda>q. the ((b(p \<mapsto> m)) q)"]
    by (simp add: reserved_def domI insert_absorb)
  show "b p = Some k \<Longrightarrow> reserved (b(p := None)) + k = reserved b"
    using other [of None] sum.remove [OF assms, of p "\<lambda>q. the (b q)"] by (simp add: reserved_def domI)
qed

lemma reserved_le: "finite (dom b) \<Longrightarrow> \<forall>p m. b p = Some m \<longrightarrow> m \<le> k \<Longrightarrow> reserved b \<le> k * card (dom b)"
proof -
  assume b: "\<forall>p m. b p = Some m \<longrightarrow> m \<le> k"
  have "(\<Sum>p \<in> dom b. the (b p)) \<le> of_nat (card (dom b)) * k"
    by (rule sum_bounded_above) (use b in auto)
  then show ?thesis by (simp add: reserved_def mult.commute)
qed

lemma log_write_cases:
  "log_write i s = Ok s' \<Longrightarrow> outstanding s' = outstanding s \<and> committing s' = committing s \<and> (lhn s' = lhn s \<or> lhn s' = lhn s + 1)"
  by (auto simp: log_write_def bpin_def upd_buf_def Let_def split: if_splits)

lemma end_op_cases:
  assumes "end_op s = Ok s'" "0 \<le> lhn s"
  shows "\<not> committing s'" "outstanding s' = outstanding s - 1"
    "lhn s' = (if outstanding s = 1 then 0 else lhn s)"
proof -
  have c: "\<not> committing s" using assms by (auto simp: end_op_def Let_def split: if_splits)
  have "\<not> committing s' \<and> outstanding s' = outstanding s - 1 \<and> lhn s' = (if outstanding s = 1 then 0 else lhn s)"
  proof (cases "outstanding s = 1")
    case True
    then obtain s2 where s2: "commit (s\<lparr>outstanding := 0, committing := True\<rparr>) = Ok s2"
        "s' = kwakeup KLog (s2\<lparr>committing := False\<rparr>)"
      using assms c by (auto simp: end_op_def Let_def bind_res_Ok_iff)
    from commit_fields [OF s2(1)] assms(2) True show ?thesis
      by (simp add: s2(2) log_fields_def kwakeup_def)
  next
    case False
    then show ?thesis using assms c by (auto simp: end_op_def Let_def kwakeup_def)
  qed
  then show "\<not> committing s'" "outstanding s' = outstanding s - 1" "lhn s' = (if outstanding s = 1 then 0 else lhn s)"
    by simp_all
qed

lemma log_run_invariant: "log_run s b \<Longrightarrow> log_run_inv s b"
proof (induction rule: log_run.induct)
  case (boot s)
  then show ?case by (simp add: log_run_inv_def reserved_def)
next
  case (start s b p s')
  have "s' = s\<lparr>outstanding := outstanding s + 1\<rparr>" "lhn s + (outstanding s + 1) * int MAXOPBLOCKS \<le> int LOGBLOCKS"
    using start.hyps(3) by (auto simp: begin_op_def split: if_splits)
  moreover from this(2) start.IH have "outstanding s + 1 \<le> 3"
    by (simp add: log_run_inv_def MAXOPBLOCKS_def LOGBLOCKS_def)
  moreover have "reserved b \<le> MAXOPBLOCKS * card (dom b)"
    using start.IH by (intro reserved_le) (auto simp: log_run_inv_def)
  then have "int (reserved b) \<le> outstanding s * int MAXOPBLOCKS"
    using start.IH unfolding log_run_inv_def by (metis mult.commute of_nat_le_iff of_nat_mult)
  moreover define b' where "b' = b(p \<mapsto> MAXOPBLOCKS)"
  have "dom b' = insert p (dom b)" "p \<notin> dom b" "finite (dom b) \<longrightarrow> reserved b' = reserved b + MAXOPBLOCKS"
    "(\<forall>q m. b q = Some m \<longrightarrow> m \<le> MAXOPBLOCKS) \<longrightarrow> (\<forall>q m. b' q = Some m \<longrightarrow> m \<le> MAXOPBLOCKS)"
    using start.hyps(2) reserved_upd(1) [of b p MAXOPBLOCKS] by (auto simp: b'_def domIff)
  ultimately have "log_run_inv s' b'"
    using start.IH by (simp add: log_run_inv_def algebra_simps)
  then show ?case by (simp add: b'_def fun_upd_def)
next
  case (log_new s b p m i s')
  then have fin: "finite (dom b)" and m: "Suc m \<le> MAXOPBLOCKS" by (auto simp: log_run_inv_def)
  define b' where "b' = b(p \<mapsto> m)"
  have "dom b' = dom b" "reserved b' + Suc m = reserved b + m" "\<forall>q k. b' q = Some k \<longrightarrow> k \<le> MAXOPBLOCKS" "dom b \<noteq> {}"
    using log_new.hyps(2) log_new.IH Suc_leD [OF m] reserved_upd(2) [OF fin log_new.hyps(2), of m]
    by (auto simp: b'_def domI log_run_inv_def)
  then have "log_run_inv s' b'"
    using log_new.IH log_write_cases [OF log_new.hyps(3)] log_new.hyps(4) by (auto simp: log_run_inv_def)
  then show ?case by (simp add: b'_def fun_upd_def)
next
  case (log_again s b i s')
  then show ?case using log_write_cases [OF log_again.hyps(2)] by (auto simp: log_run_inv_def)
next
  case (finish s b p s')
  then obtain k where k: "b p = Some k" and fin: "finite (dom b)" and l: "0 \<le> lhn s" by (auto simp: log_run_inv_def)
  have c: "card (dom b) = Suc (card (dom b - {p}))" using fin k by (metis card.remove domI)
  define b' where "b' = b(p := None)"
  have "dom b' = dom b - {p}" "reserved b' + k = reserved b" "\<forall>q m. b' q = Some m \<longrightarrow> m \<le> MAXOPBLOCKS"
    using reserved_upd(3) [OF fin k] finish.IH by (simp_all add: b'_def log_run_inv_def)
  moreover have "dom b - {p} = {} \<longleftrightarrow> card (dom b) = 1" using c fin by auto
  ultimately have "log_run_inv s' b'"
    using finish.IH end_op_cases [OF finish.hyps(3) l] c fin by (auto simp: log_run_inv_def)
  then show ?case by (simp add: b'_def fun_upd_def)
next
  case (other s b s')
  then show ?case by (simp add: log_run_inv_def log_fields_def)
qed

text \<open>
  C14. What the reservation of \<^verbatim>\<open>begin_op\<close> gives. However the operations of several
  processes interleave, where each adds at most \<^verbatim>\<open>MAXOPBLOCKS\<close> new blocks to the log: at
  most three are in progress, the header never has more than \<^verbatim>\<open>LOGBLOCKS\<close> entries, and an
  operation that has added fewer than \<^verbatim>\<open>MAXOPBLOCKS\<close> blocks can call \<^verbatim>\<open>log_write\<close> on any
  block without a panic. An operation that has used up its reservation has no such
  guarantee: its \<^verbatim>\<open>log_write\<close> succeeds exactly if the header has a free entry, and with
  \<^verbatim>\<open>LOGBLOCKS\<close> entries it panics even on a block that is in the log already.
\<close>

theorem log_reservation:
  assumes "log_run s b"
  shows "0 \<le> lhn s \<and> lhn s \<le> int LOGBLOCKS \<and> outstanding s \<le> 3 \<and>
     (\<forall>p m i. b p = Some (Suc m) \<longrightarrow> (\<exists>s'. log_write i s = Ok s')) \<and>
     (\<forall>p i. p \<in> dom b \<longrightarrow> ((\<exists>s'. log_write i s = Ok s') \<longleftrightarrow> lhn s < int LOGBLOCKS)) \<and>
     (\<forall>i. lhn s = int LOGBLOCKS \<longrightarrow> log_write i s = Panic ''too big a transaction'')"
proof -
  have inv: "log_run_inv s b" using log_run_invariant [OF assms] .
  have out: "1 \<le> outstanding s" if "p \<in> dom b" for p
  proof -
    have "dom b \<noteq> {}" using that by auto
    then have "card (dom b) > 0" using inv by (auto simp: log_run_inv_def card_gt_0_iff)
    then show ?thesis using inv by (simp add: log_run_inv_def)
  qed
  have iff: "(\<exists>s'. log_write i s = Ok s') \<longleftrightarrow> lhn s < int LOGBLOCKS" if "p \<in> dom b" for p i
    using out [OF that] by (auto simp: log_write_def Let_def)
  have "\<exists>s'. log_write i s = Ok s'" if "b p = Some (Suc m)" for p m i
  proof -
    have "reserved b \<ge> Suc m"
      using reserved_upd(3) [of b p "Suc m"] inv that by (simp add: log_run_inv_def)
    then have "lhn s < int LOGBLOCKS" using inv by (simp add: log_run_inv_def)
    then show ?thesis using iff [of p i] that by blast
  qed
  then show ?thesis using inv iff by (auto simp: log_run_inv_def log_write_def)
qed

theorem log_reservation_witness:
  "\<exists>s'. log_write 0 ((ex_tx 0)\<lparr>committing := False, outstanding := 1\<rparr>) = Ok s'"
proof -
  let ?s = "(ex_tx 0)\<lparr>committing := False\<rparr>"
  have 1: "log_run ?s Map.empty" by (rule log_run.boot) (simp_all add: ex_tx_def)
  have 2: "begin_op ?s = (Ret (), (ex_tx 0)\<lparr>committing := False, outstanding := 1\<rparr>)"
    by (simp add: begin_op_def ex_tx_def LOGBLOCKS_def)
  have "log_run ((ex_tx 0)\<lparr>committing := False, outstanding := 1\<rparr>) [5 \<mapsto> MAXOPBLOCKS]"
    using log_run.start [OF 1 _ 2, of 5] by simp
  then show ?thesis
    using log_reservation by (fastforce simp: MAXOPBLOCKS_def)
qed

end
