(* ===== verification/Fs.thy ===== *)
theory Fs
  imports Log_Safe
begin

text \<open>
  \<^verbatim>\<open>kernel/fs.c\<close> and \<^verbatim>\<open>kernel/fs.h\<close>: the block allocator, inodes, directories and path
  names, on top of the log. An inode pointer is an index into \<^verbatim>\<open>itable\<close>. The sleeping
  lock of an inode has the channel \<open>KInode i\<close>; a call that has to wait for a lock has
  the outcome \<open>Loop\<close>, since nothing else runs. Strings and directory entries are in the kernel
  memory \<open>phys\<close>, at the addresses \<open>klocal\<close> (the local \<^verbatim>\<open>de\<close>) and \<open>namebuf\<close> (the local
  \<^verbatim>\<open>name\<close>); the data of buffer \<open>i\<close> is the array at \<open>bufaddr i\<close>, which is written to memory
  for a copy out and read back after a copy in.
\<close>

section \<open>Layout\<close>

type_synonym uint16 = "16 word"

definition ROOTINO :: uint32 where "ROOTINO = 1"
definition FSMAGIC :: uint32 where "FSMAGIC = 0x10203040"
definition NDIRECT :: nat where "NDIRECT = 12"
definition NINDIRECT :: nat where "NINDIRECT = BSIZE div 4"
definition MAXFILE :: nat where "MAXFILE = NDIRECT + NINDIRECT"
definition NINODE :: nat where "NINODE = 50"
definition DIRSIZ :: nat where "DIRSIZ = 14"
definition T_DIR :: uint16 where "T_DIR = 1"
definition T_FILE :: uint16 where "T_FILE = 2"
definition T_DEVICE :: uint16 where "T_DEVICE = 3"

record superblock =
  sb_magic :: uint32
  sb_size :: uint32
  sb_nblocks :: uint32
  sb_ninodes :: uint32
  sb_nlog :: uint32
  sb_logstart :: uint32
  sb_inodestart :: uint32
  sb_bmapstart :: uint32

record dinode =
  di_type :: uint16
  di_major :: uint16
  di_minor :: uint16
  di_nlink :: uint16
  di_size :: uint32
  di_addrs :: "nat \<Rightarrow> uint32"

definition sizeof_dinode :: nat where "sizeof_dinode = 2 * 4 + 4 + 4 * (NDIRECT + 1)"
definition IPB :: nat where "IPB = BSIZE div sizeof_dinode"
definition BPB :: nat where "BPB = BSIZE * 8"

definition IBLOCK :: "uint32 \<Rightarrow> superblock \<Rightarrow> uint32" where
  "IBLOCK i b = i div of_nat IPB + sb_inodestart b"

definition BBLOCK :: "uint32 \<Rightarrow> superblock \<Rightarrow> uint32" where
  "BBLOCK b s = b div of_nat BPB + sb_bmapstart s"

definition sizeof_dirent :: uint32 where "sizeof_dirent = 2 + of_nat DIRSIZ"

text \<open>Fields of a block: 16-bit values, the superblock and the inodes it holds.\<close>

definition get16 :: "block \<Rightarrow> nat \<Rightarrow> uint16" where
  "get16 d off = ucast (d off) OR push_bit 8 (ucast (d (off + 1)))"

definition put16 :: "nat \<Rightarrow> uint16 \<Rightarrow> block \<Rightarrow> block" where
  "put16 off v d = d(off := ucast v, off + 1 := ucast (drop_bit 8 v))"

definition get_sb :: "block \<Rightarrow> superblock" where
  "get_sb d = \<lparr>sb_magic = get32 d 0, sb_size = get32 d 4, sb_nblocks = get32 d 8, sb_ninodes = get32 d 12,
     sb_nlog = get32 d 16, sb_logstart = get32 d 20, sb_inodestart = get32 d 24, sb_bmapstart = get32 d 28\<rparr>"

definition dinode_off :: "uint32 \<Rightarrow> nat" where
  "dinode_off inum = unat inum mod IPB * sizeof_dinode"

definition get_addrs :: "block \<Rightarrow> nat \<Rightarrow> nat \<Rightarrow> uint32" where
  "get_addrs d off i = get32 d (off + 12 + 4 * i)"

definition get_dinode :: "block \<Rightarrow> nat \<Rightarrow> dinode" where
  "get_dinode d off = \<lparr>di_type = get16 d off, di_major = get16 d (off + 2), di_minor = get16 d (off + 4),
     di_nlink = get16 d (off + 6), di_size = get32 d (off + 8), di_addrs = get_addrs d off\<rparr>"

definition put_addrs :: "nat \<Rightarrow> (nat \<Rightarrow> uint32) \<Rightarrow> block \<Rightarrow> block" where
  "put_addrs off a d = fold (\<lambda>i. put32 (off + 12 + 4 * i) (a i)) [0..<NDIRECT + 1] d"

definition put_dinode :: "nat \<Rightarrow> dinode \<Rightarrow> block \<Rightarrow> block" where
  "put_dinode off x d =
     put_addrs off (di_addrs x) (put32 (off + 8) (di_size x) (put16 (off + 6) (di_nlink x)
       (put16 (off + 4) (di_minor x) (put16 (off + 2) (di_major x) (put16 off (di_type x) d)))))"

section \<open>State\<close>

record inode =
  i_dev :: uint32
  i_inum :: uint32
  i_ref :: int
  i_lock :: sleeplock
  i_valid :: bool
  i_type :: uint16
  i_major :: uint16
  i_minor :: uint16
  i_nlink :: uint16
  i_size :: uint32
  i_addrs :: "nat \<Rightarrow> uint32"

record fstate = lstate +
  sb :: superblock
  itable :: "nat \<Rightarrow> inode"
  bufaddr :: "nat \<Rightarrow> addr"
  namebuf :: addr

definition upd_inode :: "nat \<Rightarrow> (inode \<Rightarrow> inode) \<Rightarrow> 'a fstate_scheme \<Rightarrow> 'a fstate_scheme" where
  "upd_inode i f s = s\<lparr>itable := (itable s)(i := f (itable s i))\<rparr>"

text \<open>A buffer that is changed in the current transaction: \<^verbatim>\<open>log_write(bp); brelse(bp)\<close>.\<close>

definition log_release :: "nat \<Rightarrow> 'a lstate_scheme \<Rightarrow> 'a lstate_scheme res" where
  "log_release bp s = bind_res (log_write bp s) (brelse bp)"

section \<open>Blocks\<close>

definition readsb :: "uint32 \<Rightarrow> 'a fstate_scheme \<Rightarrow> 'a fstate_scheme res" where
  "readsb dev s =
     bind_res (bread dev 1 s) (\<lambda>(bp, s1). brelse bp (s1\<lparr>sb := get_sb (bdata (bufs s1 bp))\<rparr>))"

definition bzero :: "uint32 \<Rightarrow> uint32 \<Rightarrow> 'a fstate_scheme \<Rightarrow> 'a fstate_scheme res" where
  "bzero dev bno s =
     bind_res (bread dev bno s) (\<lambda>(bp, s1).
       log_release bp (set_data bp (\<lambda>k. if k < BSIZE then 0 else bdata (bufs s1 bp) k) s1))"

text \<open>The bit of block \<open>bi\<close> in a bitmap block.\<close>

definition bit_mask :: "nat \<Rightarrow> uint8" where
  "bit_mask bi = push_bit (bi mod 8) 1"

definition bit_free :: "block \<Rightarrow> nat \<Rightarrow> bool" where
  "bit_free d bi \<longleftrightarrow> d (bi div 8) AND bit_mask bi = 0"

definition set_used :: "nat \<Rightarrow> block \<Rightarrow> block" where
  "set_used bi d = d(bi div 8 := d (bi div 8) OR bit_mask bi)"

definition clear_used :: "nat \<Rightarrow> block \<Rightarrow> block" where
  "clear_used bi d = d(bi div 8 := d (bi div 8) AND NOT (bit_mask bi))"

text \<open>The inner loop of \<^verbatim>\<open>balloc\<close>: the first free bit of a bitmap block that starts at block \<open>b\<close>.\<close>

definition scan_bits :: "block \<Rightarrow> nat \<Rightarrow> nat \<Rightarrow> nat option" where
  "scan_bits d b sz = find (bit_free d) [0..<min BPB (sz - b)]"

function balloc_loop :: "uint32 \<Rightarrow> nat \<Rightarrow> nat \<Rightarrow> 'a fstate_scheme \<Rightarrow> (uint32 \<times> 'a fstate_scheme) res" where
  "balloc_loop dev sz b s =
     (if b < sz then
        bind_res (bread dev (BBLOCK (of_nat b) (sb s)) s) (\<lambda>(bp, s1).
          case scan_bits (bdata (bufs s1 bp)) b sz of
            Some bi \<Rightarrow>
              bind_res (log_release bp (set_data bp (set_used bi (bdata (bufs s1 bp))) s1)) (\<lambda>s2.
              bind_res (bzero dev (of_nat (b + bi)) s2) (\<lambda>s3. Ok (of_nat (b + bi), s3)))
          | None \<Rightarrow> bind_res (brelse bp s1) (balloc_loop dev sz (b + BPB)))
      else Ok (0, s))"
  by pat_completeness auto
termination
  by (relation "measure (\<lambda>(dev, sz, b, s). sz - b)") (auto simp: BPB_def BSIZE_def)

declare balloc_loop.simps [simp del]

definition balloc :: "uint32 \<Rightarrow> 'a fstate_scheme \<Rightarrow> (uint32 \<times> 'a fstate_scheme) res" where
  "balloc dev s = balloc_loop dev (unat (sb_size (sb s))) 0 s"

definition bfree :: "uint32 \<Rightarrow> uint32 \<Rightarrow> 'a fstate_scheme \<Rightarrow> 'a fstate_scheme res" where
  "bfree dev b s =
     bind_res (bread dev (BBLOCK b (sb s)) s) (\<lambda>(bp, s1).
       let bi = unat b mod BPB
       in if bit_free (bdata (bufs s1 bp)) bi then Panic ''freeing free block''
          else log_release bp (set_data bp (clear_used bi (bdata (bufs s1 bp))) s1))"

section \<open>Inodes\<close>

definition iinit :: "'a fstate_scheme \<Rightarrow> 'a fstate_scheme" where
  "iinit s = s\<lparr>itable := (\<lambda>i. if i < NINODE then (itable s i)\<lparr>i_lock := initsleeplock\<rparr> else itable s i)\<rparr>"

text \<open>The loop of \<^verbatim>\<open>iget\<close>: the entry of the inode, or else the first empty one.\<close>

primrec iget_loop :: "(nat \<Rightarrow> inode) \<Rightarrow> uint32 \<Rightarrow> uint32 \<Rightarrow> nat list \<Rightarrow> nat option \<Rightarrow> nat option \<times> nat option" where
  "iget_loop T dev inum [] emp = (None, emp)"
| "iget_loop T dev inum (i # is) emp =
     (if i_ref (T i) > 0 \<and> i_dev (T i) = dev \<and> i_inum (T i) = inum then (Some i, emp)
      else iget_loop T dev inum is (if emp = None \<and> i_ref (T i) = 0 then Some i else emp))"

definition iget :: "uint32 \<Rightarrow> uint32 \<Rightarrow> 'a fstate_scheme \<Rightarrow> (nat \<times> 'a fstate_scheme) res" where
  "iget dev inum s =
     (case iget_loop (itable s) dev inum [0..<NINODE] None of
        (Some i, _) \<Rightarrow> Ok (i, upd_inode i (\<lambda>p. p\<lparr>i_ref := i_ref p + 1\<rparr>) s)
      | (None, None) \<Rightarrow> Panic ''iget: no inodes''
      | (None, Some i) \<Rightarrow>
          Ok (i, upd_inode i (\<lambda>p. p\<lparr>i_dev := dev, i_inum := inum, i_ref := 1, i_valid := False\<rparr>) s))"

definition idup :: "nat \<Rightarrow> 'a fstate_scheme \<Rightarrow> 'a fstate_scheme" where
  "idup ip s = upd_inode ip (\<lambda>p. p\<lparr>i_ref := i_ref p + 1\<rparr>) s"

definition empty_dinode :: "uint16 \<Rightarrow> dinode" where
  "empty_dinode ty = \<lparr>di_type = ty, di_major = 0, di_minor = 0, di_nlink = 0, di_size = 0, di_addrs = (\<lambda>_. 0)\<rparr>"

function ialloc_loop ::
    "uint32 \<Rightarrow> uint16 \<Rightarrow> nat \<Rightarrow> nat \<Rightarrow> 'a fstate_scheme \<Rightarrow> (nat option \<times> 'a fstate_scheme) res" where
  "ialloc_loop dev ty n inum s =
     (if inum < n then
        bind_res (bread dev (IBLOCK (of_nat inum) (sb s)) s) (\<lambda>(bp, s1).
          let off = dinode_off (of_nat inum)
          in if di_type (get_dinode (bdata (bufs s1 bp)) off) = 0 then
               bind_res (log_release bp (set_data bp (put_dinode off (empty_dinode ty) (bdata (bufs s1 bp))) s1)) (\<lambda>s2.
               bind_res (iget dev (of_nat inum) s2) (\<lambda>(ip, s3). Ok (Some ip, s3)))
             else bind_res (brelse bp s1) (ialloc_loop dev ty n (inum + 1)))
      else Ok (None, s))"
  by pat_completeness auto
termination
  by (relation "measure (\<lambda>(dev, ty, n, inum, s). n - inum)") auto

declare ialloc_loop.simps [simp del]

definition ialloc :: "uint32 \<Rightarrow> uint16 \<Rightarrow> 'a fstate_scheme \<Rightarrow> (nat option \<times> 'a fstate_scheme) res" where
  "ialloc dev ty s = ialloc_loop dev ty (unat (sb_ninodes (sb s))) 1 s"

definition inode_disk :: "inode \<Rightarrow> dinode" where
  "inode_disk p = \<lparr>di_type = i_type p, di_major = i_major p, di_minor = i_minor p, di_nlink = i_nlink p,
     di_size = i_size p, di_addrs = i_addrs p\<rparr>"

definition iupdate :: "nat \<Rightarrow> 'a fstate_scheme \<Rightarrow> 'a fstate_scheme res" where
  "iupdate ip s =
     bind_res (bread (i_dev (itable s ip)) (IBLOCK (i_inum (itable s ip)) (sb s)) s) (\<lambda>(bp, s1).
       log_release bp (set_data bp (put_dinode (dinode_off (i_inum (itable s1 ip))) (inode_disk (itable s1 ip))
         (bdata (bufs s1 bp))) s1))"

definition lock_inode :: "nat \<Rightarrow> 'a fstate_scheme \<Rightarrow> 'a fstate_scheme res" where
  "lock_inode ip s =
     (case acquiresleep (KInode ip) (i_lock (itable s ip)) s of
        (Ret _, lk, s1) \<Rightarrow> Ok (upd_inode ip (\<lambda>p. p\<lparr>i_lock := lk\<rparr>) s1)
      | (Sleep, lk, s1) \<Rightarrow> Loop)"

definition unlock_inode :: "nat \<Rightarrow> 'a fstate_scheme \<Rightarrow> 'a fstate_scheme" where
  "unlock_inode ip s =
     (case releasesleep (KInode ip) (i_lock (itable s ip)) s of
        (lk, s1) \<Rightarrow> upd_inode ip (\<lambda>p. p\<lparr>i_lock := lk\<rparr>) s1)"

text \<open>The fields that \<^verbatim>\<open>ilock\<close> copies from the disk.\<close>

definition load_dinode :: "dinode \<Rightarrow> inode \<Rightarrow> inode" where
  "load_dinode x p = p\<lparr>i_type := di_type x, i_major := di_major x, i_minor := di_minor x, i_nlink := di_nlink x,
     i_size := di_size x, i_addrs := (\<lambda>k. if k < NDIRECT + 1 then di_addrs x k else i_addrs p k)\<rparr>"

definition ilock :: "nat option \<Rightarrow> 'a fstate_scheme \<Rightarrow> 'a fstate_scheme res" where
  "ilock ipp s =
     (case ipp of
        None \<Rightarrow> Panic ''ilock''
      | Some ip \<Rightarrow>
          if i_ref (itable s ip) < 1 then Panic ''ilock''
          else bind_res (lock_inode ip s) (\<lambda>s1.
            if \<not> i_valid (itable s1 ip) then
              bind_res (bread (i_dev (itable s1 ip)) (IBLOCK (i_inum (itable s1 ip)) (sb s1)) s1) (\<lambda>(bp, s2).
              bind_res (brelse bp (upd_inode ip
                (load_dinode (get_dinode (bdata (bufs s2 bp)) (dinode_off (i_inum (itable s2 ip))))) s2)) (\<lambda>s3.
                let s4 = upd_inode ip (\<lambda>p. p\<lparr>i_valid := True\<rparr>) s3
                in if i_type (itable s4 ip) = 0 then Panic ''ilock: no type'' else Ok s4))
            else Ok s1))"

definition iunlock :: "nat option \<Rightarrow> 'a fstate_scheme \<Rightarrow> 'a fstate_scheme res" where
  "iunlock ipp s =
     (case ipp of
        None \<Rightarrow> Panic ''iunlock''
      | Some ip \<Rightarrow>
          if \<not> holdingsleep (i_lock (itable s ip)) s \<or> i_ref (itable s ip) < 1 then Panic ''iunlock''
          else Ok (unlock_inode ip s))"

section \<open>Contents of an inode\<close>

text \<open>\<open>bmap_alloc\<close>: the test and allocation \<^verbatim>\<open>if((addr = ip->addrs[k]) == 0)\<close> that \<^verbatim>\<open>bmap\<close> makes twice.\<close>

definition bmap_alloc :: "nat \<Rightarrow> nat \<Rightarrow> 'a fstate_scheme \<Rightarrow> (uint32 \<times> 'a fstate_scheme) res" where
  "bmap_alloc ip k s =
     (if i_addrs (itable s ip) k = 0 then
        bind_res (balloc (i_dev (itable s ip)) s) (\<lambda>(ad, s1).
          if ad = 0 then Ok (0, s1)
          else Ok (ad, upd_inode ip (\<lambda>p. p\<lparr>i_addrs := (i_addrs p)(k := ad)\<rparr>) s1))
      else Ok (i_addrs (itable s ip) k, s))"

definition bmap :: "nat \<Rightarrow> nat \<Rightarrow> 'a fstate_scheme \<Rightarrow> (uint32 \<times> 'a fstate_scheme) res" where
  "bmap ip bn s =
     (if bn < NDIRECT then bmap_alloc ip bn s
      else let bn = bn - NDIRECT
      in if bn < NINDIRECT then
           bind_res (bmap_alloc ip NDIRECT s) (\<lambda>(ad, s1).
             if ad = 0 then Ok (0, s1)
             else bind_res (bread (i_dev (itable s1 ip)) ad s1) (\<lambda>(bp, s2).
               if get32 (bdata (bufs s2 bp)) (4 * bn) = 0 then
                 bind_res (balloc (i_dev (itable s2 ip)) s2) (\<lambda>(ad', s3).
                 bind_res
                   (if ad' \<noteq> 0 then log_write bp (set_data bp (put32 (4 * bn) ad' (bdata (bufs s3 bp))) s3) else Ok s3)
                   (\<lambda>s4. bind_res (brelse bp s4) (\<lambda>s5. Ok (ad', s5))))
               else bind_res (brelse bp s2) (\<lambda>s3. Ok (get32 (bdata (bufs s2 bp)) (4 * bn), s3))))
         else Panic ''bmap: out of range'')"

definition trunc_direct :: "nat \<Rightarrow> nat \<Rightarrow> 'a fstate_scheme \<Rightarrow> 'a fstate_scheme res" where
  "trunc_direct ip i s =
     (if i_addrs (itable s ip) i \<noteq> 0 then
        bind_res (bfree (i_dev (itable s ip)) (i_addrs (itable s ip) i) s) (\<lambda>s1.
          Ok (upd_inode ip (\<lambda>p. p\<lparr>i_addrs := (i_addrs p)(i := 0)\<rparr>) s1))
      else Ok s)"

definition trunc_indirect :: "nat \<Rightarrow> nat \<Rightarrow> nat \<Rightarrow> 'a fstate_scheme \<Rightarrow> 'a fstate_scheme res" where
  "trunc_indirect ip bp j s =
     (let a = get32 (bdata (bufs s bp)) (4 * j)
      in if a \<noteq> 0 then bfree (i_dev (itable s ip)) a s else Ok s)"

definition itrunc :: "nat \<Rightarrow> 'a fstate_scheme \<Rightarrow> 'a fstate_scheme res" where
  "itrunc ip s =
     bind_res (for_res (trunc_direct ip) [0..<NDIRECT] s) (\<lambda>s1.
     bind_res
       (if i_addrs (itable s1 ip) NDIRECT \<noteq> 0 then
          bind_res (bread (i_dev (itable s1 ip)) (i_addrs (itable s1 ip) NDIRECT) s1) (\<lambda>(bp, s2).
          bind_res (for_res (trunc_indirect ip bp) [0..<NINDIRECT] s2) (\<lambda>s3.
          bind_res (brelse bp s3) (\<lambda>s4.
          bind_res (bfree (i_dev (itable s4 ip)) (i_addrs (itable s4 ip) NDIRECT) s4) (\<lambda>s5.
            Ok (upd_inode ip (\<lambda>p. p\<lparr>i_addrs := (i_addrs p)(NDIRECT := 0)\<rparr>) s5)))))
        else Ok s1) (\<lambda>s6. iupdate ip (upd_inode ip (\<lambda>p. p\<lparr>i_size := 0\<rparr>) s6)))"

definition iput :: "nat \<Rightarrow> 'a fstate_scheme \<Rightarrow> 'a fstate_scheme res" where
  "iput ip s =
     bind_res
       (if i_ref (itable s ip) = 1 \<and> i_valid (itable s ip) \<and> i_nlink (itable s ip) = 0 then
          bind_res (lock_inode ip s) (\<lambda>s1.
          bind_res (itrunc ip s1) (\<lambda>s2.
          bind_res (iupdate ip (upd_inode ip (\<lambda>p. p\<lparr>i_type := 0\<rparr>) s2)) (\<lambda>s3.
            Ok (unlock_inode ip (upd_inode ip (\<lambda>p. p\<lparr>i_valid := False\<rparr>) s3)))))
        else Ok s) (\<lambda>s4. Ok (upd_inode ip (\<lambda>p. p\<lparr>i_ref := i_ref p - 1\<rparr>) s4))"

definition iunlockput :: "nat \<Rightarrow> 'a fstate_scheme \<Rightarrow> 'a fstate_scheme res" where
  "iunlockput ip s = bind_res (iunlock (Some ip) s) (iput ip)"

definition ireclaim_one :: "uint32 \<Rightarrow> nat \<Rightarrow> 'a fstate_scheme \<Rightarrow> 'a fstate_scheme res" where
  "ireclaim_one dev inum s =
     bind_res (bread dev (IBLOCK (of_nat inum) (sb s)) s) (\<lambda>(bp, s1).
       let x = get_dinode (bdata (bufs s1 bp)) (dinode_off (of_nat inum))
       in if di_type x \<noteq> 0 \<and> di_nlink x = 0 then
            bind_res (iget dev (of_nat inum) s1) (\<lambda>(ip, s2).
            bind_res (brelse bp s2) (\<lambda>s3.
            bind_res (alone (begin_op s3)) (\<lambda>(_, s4).
            bind_res (ilock (Some ip) s4) (\<lambda>s5.
            bind_res (iunlock (Some ip) s5) (\<lambda>s6.
            bind_res (iput ip s6) end_op)))))
          else brelse bp s1)"

definition ireclaim :: "uint32 \<Rightarrow> 'a fstate_scheme \<Rightarrow> 'a fstate_scheme res" where
  "ireclaim dev s = for_res (ireclaim_one dev) [1..<unat (sb_ninodes (sb s))] s"

definition fsinit :: "uint32 \<Rightarrow> 'a fstate_scheme \<Rightarrow> 'a fstate_scheme res" where
  "fsinit dev s =
     bind_res (readsb dev s) (\<lambda>s1.
       if sb_magic (sb s1) \<noteq> FSMAGIC then Panic ''invalid file system''
       else bind_res (initlog dev (sb_logstart (sb s1)) s1) (ireclaim dev))"

record stat =
  st_dev :: uint32
  st_ino :: uint32
  st_type :: uint16
  st_nlink :: uint16
  st_size :: uint64

definition stati :: "nat \<Rightarrow> 'a fstate_scheme \<Rightarrow> stat" where
  "stati ip s = (let p = itable s ip in
     \<lparr>st_dev = i_dev p, st_ino = i_inum p, st_type = i_type p, st_nlink = i_nlink p, st_size = ucast (i_size p)\<rparr>)"

text \<open>\<^verbatim>\<open>either_copyout\<close> and \<^verbatim>\<open>either_copyin\<close> of \<^verbatim>\<open>taskmgr.c\<close>.\<close>

definition either_copyout :: "bool \<Rightarrow> uint32 \<Rightarrow> addr \<Rightarrow> uint32 \<Rightarrow> 'a mach_scheme \<Rightarrow> (bool \<times> 'a mach_scheme) res" where
  "either_copyout user_dst dst src len s =
     (if user_dst then
        bind_res (copyout (p_as (myproc s)) (pagetable (p_as (myproc s))) dst src len (km s)) (\<lambda>(ok, k). Ok (ok, s\<lparr>km := k\<rparr>))
      else Ok (True, s\<lparr>km := (km s)\<lparr>phys := memmove (phys (km s)) dst src len\<rparr>\<rparr>))"

definition either_copyin :: "addr \<Rightarrow> bool \<Rightarrow> uint32 \<Rightarrow> uint32 \<Rightarrow> 'a mach_scheme \<Rightarrow> (bool \<times> 'a mach_scheme) res" where
  "either_copyin dst user_src src len s =
     (if user_src then
        bind_res (copyin (p_as (myproc s)) (pagetable (p_as (myproc s))) dst src len (km s)) (\<lambda>(ok, k). Ok (ok, s\<lparr>km := k\<rparr>))
      else Ok (True, s\<lparr>km := (km s)\<lparr>phys := memmove (phys (km s)) dst src len\<rparr>\<rparr>))"

text \<open>The array \<^verbatim>\<open>bp->data\<close> in memory.\<close>

definition expose_buf :: "nat \<Rightarrow> 'a fstate_scheme \<Rightarrow> 'a fstate_scheme" where
  "expose_buf bp s = s\<lparr>km := (km s)\<lparr>phys := (\<lambda>a. let k = unat (a - bufaddr s bp)
     in if k < BSIZE then bdata (bufs s bp) k else phys (km s) a)\<rparr>\<rparr>"

definition reload_buf :: "nat \<Rightarrow> 'a fstate_scheme \<Rightarrow> 'a fstate_scheme" where
  "reload_buf bp s = set_data bp (\<lambda>k. if k < BSIZE then phys (km s) (bufaddr s bp + of_nat k) else bdata (bufs s bp) k) s"

text \<open>The number of bytes of one turn: \<^verbatim>\<open>min(n - tot, BSIZE - off%BSIZE)\<close>.\<close>

definition chunk :: "uint32 \<Rightarrow> uint32 \<Rightarrow> uint32 \<Rightarrow> uint32" where
  "chunk n tot off = min (n - tot) (of_nat BSIZE - off mod of_nat BSIZE)"

lemma chunk_progress:
  assumes "tot < n"
  shows "unat (n - (tot + chunk n tot off)) < unat (n - tot)"
proof -
  have b: "unat (of_nat BSIZE :: uint32) = 1024" by (simp add: BSIZE_def)
  have "off mod of_nat BSIZE < (of_nat BSIZE :: uint32)" by (simp add: BSIZE_def word_mod_less_divisor)
  then have "0 < unat (of_nat BSIZE - off mod of_nat BSIZE)"
    using unat_sub [of "off mod of_nat BSIZE" "of_nat BSIZE :: uint32"] by (simp add: word_less_nat_alt word_le_nat_alt)
  moreover have "0 < unat (n - tot)"
    using assms unat_sub [of tot n] by (simp add: word_less_nat_alt word_le_nat_alt)
  ultimately have c: "0 < unat (chunk n tot off)" by (simp add: chunk_def min_def)
  have le: "chunk n tot off \<le> n - tot" by (simp add: chunk_def)
  have "n - (tot + chunk n tot off) = (n - tot) - chunk n tot off" by simp
  then have "unat (n - (tot + chunk n tot off)) = unat (n - tot) - unat (chunk n tot off)"
    using le by (simp only: unat_sub)
  with c le show ?thesis by (simp add: word_le_nat_alt)
qed

function readi_loop ::
    "nat \<Rightarrow> bool \<Rightarrow> uint32 \<Rightarrow> uint32 \<Rightarrow> uint32 \<Rightarrow> uint32 \<Rightarrow> 'a fstate_scheme \<Rightarrow> (uint32 \<times> 'a fstate_scheme) res" where
  "readi_loop ip user_dst dst off n tot s =
     (if tot < n then
        bind_res (bmap ip (unat off div BSIZE) s) (\<lambda>(ad, s1).
          if ad = 0 then Ok (tot, s1)
          else bind_res (bread (i_dev (itable s1 ip)) ad s1) (\<lambda>(bp, s2).
            let m = chunk n tot off
            in bind_res (either_copyout user_dst dst (bufaddr s2 bp + off mod of_nat BSIZE) m (expose_buf bp s2)) (\<lambda>(ok, s3).
                 if \<not> ok then bind_res (brelse bp s3) (\<lambda>s4. Ok (- 1, s4))
                 else bind_res (brelse bp s3)
                   (readi_loop ip user_dst (dst + chunk n tot off) (off + chunk n tot off) n (tot + chunk n tot off)))))
      else Ok (tot, s))"
  by pat_completeness auto
termination
  by (relation "measure (\<lambda>(ip, u, dst, off, n, tot, s). unat (n - tot))") (simp_all add: chunk_progress)

declare readi_loop.simps [simp del]

definition readi :: "nat \<Rightarrow> bool \<Rightarrow> uint32 \<Rightarrow> uint32 \<Rightarrow> uint32 \<Rightarrow> 'a fstate_scheme \<Rightarrow> (int \<times> 'a fstate_scheme) res" where
  "readi ip user_dst dst off n s =
     (if off > i_size (itable s ip) \<or> off + n < off then Ok (0, s)
      else let n = (if off + n > i_size (itable s ip) then i_size (itable s ip) - off else n)
      in bind_res (readi_loop ip user_dst dst off n 0 s) (\<lambda>(tot, s1). Ok (sint tot, s1)))"

text \<open>The loop of \<^verbatim>\<open>writei\<close> ends with the values of \<^verbatim>\<open>tot\<close> and \<^verbatim>\<open>off\<close>.\<close>

function writei_loop ::
    "nat \<Rightarrow> bool \<Rightarrow> uint32 \<Rightarrow> uint32 \<Rightarrow> uint32 \<Rightarrow> uint32 \<Rightarrow> 'a fstate_scheme \<Rightarrow> (uint32 \<times> uint32 \<times> 'a fstate_scheme) res" where
  "writei_loop ip user_src src off n tot s =
     (if tot < n then
        bind_res (bmap ip (unat off div BSIZE) s) (\<lambda>(ad, s1).
          if ad = 0 then Ok (tot, off, s1)
          else bind_res (bread (i_dev (itable s1 ip)) ad s1) (\<lambda>(bp, s2).
            let m = chunk n tot off
            in bind_res (either_copyin (bufaddr s2 bp + off mod of_nat BSIZE) user_src src m (expose_buf bp s2)) (\<lambda>(ok, s3).
                 if \<not> ok then bind_res (brelse bp (reload_buf bp s3)) (\<lambda>s4. Ok (tot, off, s4))
                 else bind_res (log_release bp (reload_buf bp s3))
                   (writei_loop ip user_src (src + chunk n tot off) (off + chunk n tot off) n (tot + chunk n tot off)))))
      else Ok (tot, off, s))"
  by pat_completeness auto
termination
  by (relation "measure (\<lambda>(ip, u, src, off, n, tot, s). unat (n - tot))") (simp_all add: chunk_progress)

declare writei_loop.simps [simp del]

definition writei :: "nat \<Rightarrow> bool \<Rightarrow> uint32 \<Rightarrow> uint32 \<Rightarrow> uint32 \<Rightarrow> 'a fstate_scheme \<Rightarrow> (int \<times> 'a fstate_scheme) res" where
  "writei ip user_src src off n s =
     (if off > i_size (itable s ip) \<or> off + n < off then Ok (- 1, s)
      else if unat (off + n) > MAXFILE * BSIZE then Ok (- 1, s)
      else bind_res (writei_loop ip user_src src off n 0 s) (\<lambda>(tot, off1, s1).
        let s2 = (if off1 > i_size (itable s1 ip) then upd_inode ip (\<lambda>p. p\<lparr>i_size := off1\<rparr>) s1 else s1)
        in bind_res (iupdate ip s2) (\<lambda>s3. Ok (sint tot, s3))))"

section \<open>Directories\<close>

definition ld16 :: "mem \<Rightarrow> addr \<Rightarrow> uint16" where
  "ld16 m a = ucast (m a) OR push_bit 8 (ucast (m (a + 1)))"

definition st16 :: "mem \<Rightarrow> addr \<Rightarrow> uint16 \<Rightarrow> mem" where
  "st16 m a v = m(a := ucast v, a + 1 := ucast (drop_bit 8 v))"

definition namecmp :: "mem \<Rightarrow> addr \<Rightarrow> addr \<Rightarrow> int" where
  "namecmp m s t = strncmp m s t (of_nat DIRSIZ)"

text \<open>The local \<^verbatim>\<open>struct dirent de\<close> is at \<open>klocal\<close>.\<close>

definition de_inum :: "'a mach_scheme \<Rightarrow> uint16" where
  "de_inum s = ld16 (phys (km s)) (klocal s)"

definition de_name :: "'a mach_scheme \<Rightarrow> addr" where
  "de_name s = klocal s + 2"

definition read_dirent :: "string \<Rightarrow> nat \<Rightarrow> uint32 \<Rightarrow> 'a fstate_scheme \<Rightarrow> 'a fstate_scheme res" where
  "read_dirent msg dp off s =
     bind_res (readi dp False (klocal s) off sizeof_dirent s) (\<lambda>(r, s1).
       if r \<noteq> uint sizeof_dirent then Panic msg else Ok s1)"

partial_function (option) dirlookup_loop ::
    "nat \<Rightarrow> addr \<Rightarrow> uint32 \<Rightarrow> 'a fstate_scheme \<Rightarrow> ((nat \<times> uint32) option \<times> 'a fstate_scheme) res option" where
  "dirlookup_loop dp name off s =
     (if off < i_size (itable s dp) then
        (case read_dirent ''dirlookup read'' dp off s of
           Panic e \<Rightarrow> Some (Panic e)
         | Loop \<Rightarrow> None
         | Ok s1 \<Rightarrow>
             if de_inum s1 = 0 then dirlookup_loop dp name (off + sizeof_dirent) s1
             else if namecmp (phys (km s1)) name (de_name s1) = 0
             then Some (bind_res (iget (i_dev (itable s1 dp)) (ucast (de_inum s1)) s1) (\<lambda>(ip, s2). Ok (Some (ip, off), s2)))
             else dirlookup_loop dp name (off + sizeof_dirent) s1)
      else Some (Ok (None, s)))"

declare dirlookup_loop.simps [code]

text \<open>The result has the inode and the offset of its entry (\<^verbatim>\<open>*poff\<close>).\<close>

definition dirlookup :: "nat \<Rightarrow> addr \<Rightarrow> 'a fstate_scheme \<Rightarrow> ((nat \<times> uint32) option \<times> 'a fstate_scheme) res" where
  "dirlookup dp name s =
     (if i_type (itable s dp) \<noteq> T_DIR then Panic ''dirlookup not DIR''
      else run_loop (dirlookup_loop dp name 0 s))"

text \<open>The search for a free entry in \<^verbatim>\<open>dirlink\<close>.\<close>

partial_function (option) dirlink_loop :: "nat \<Rightarrow> uint32 \<Rightarrow> 'a fstate_scheme \<Rightarrow> (uint32 \<times> 'a fstate_scheme) res option" where
  "dirlink_loop dp off s =
     (if off < i_size (itable s dp) then
        (case read_dirent ''dirlink read'' dp off s of
           Panic e \<Rightarrow> Some (Panic e)
         | Loop \<Rightarrow> None
         | Ok s1 \<Rightarrow> if de_inum s1 = 0 then Some (Ok (off, s1)) else dirlink_loop dp (off + sizeof_dirent) s1)
      else Some (Ok (off, s)))"

declare dirlink_loop.simps [code]

definition dirlink :: "nat \<Rightarrow> addr \<Rightarrow> uint32 \<Rightarrow> 'a fstate_scheme \<Rightarrow> (bool \<times> 'a fstate_scheme) res" where
  "dirlink dp name inum s =
     bind_res (dirlookup dp name s) (\<lambda>(found, s1).
       case found of
         Some (ip, _) \<Rightarrow> bind_res (iput ip s1) (\<lambda>s2. Ok (False, s2))
       | None \<Rightarrow>
           bind_res (run_loop (dirlink_loop dp 0 s1)) (\<lambda>(off, s2).
             let m = strncpy (phys (km s2)) (de_name s2) name (int DIRSIZ);
                 s3 = s2\<lparr>km := (km s2)\<lparr>phys := st16 m (klocal s2) (ucast inum)\<rparr>\<rparr>
             in bind_res (writei dp False (klocal s3) off sizeof_dirent s3) (\<lambda>(r, s4).
                  Ok (r = uint sizeof_dirent, s4))))"

section \<open>Paths\<close>

definition slash :: uint8 where "slash = 47"

partial_function (option) skip_slashes :: "mem \<Rightarrow> addr \<Rightarrow> addr option" where
  "skip_slashes m p = (if m p = slash then skip_slashes m (p + 1) else Some p)"

declare skip_slashes.simps [code]

partial_function (option) skip_name :: "mem \<Rightarrow> addr \<Rightarrow> addr option" where
  "skip_name m p = (if m p \<noteq> slash \<and> m p \<noteq> 0 then skip_name m (p + 1) else Some p)"

declare skip_name.simps [code]

definition copy_elem :: "mem \<Rightarrow> addr \<Rightarrow> addr \<Rightarrow> uint32 \<Rightarrow> mem" where
  "copy_elem m name s len =
     (if sint len \<ge> int DIRSIZ then memmove m name s (of_nat DIRSIZ)
      else (memmove m name s len)(name + len := 0))"

definition skipelem :: "addr \<Rightarrow> addr \<Rightarrow> mem \<Rightarrow> (addr \<times> mem) option" where
  "skipelem path name m =
     Option.bind (skip_slashes m path) (\<lambda>s.
       if m s = 0 then Some (0, m)
       else Option.bind (skip_name m s) (\<lambda>p.
         let m' = copy_elem m name s (p - s)
         in Option.bind (skip_slashes m' p) (\<lambda>path'. Some (path', m'))))"

partial_function (option) namex_loop ::
    "addr \<Rightarrow> bool \<Rightarrow> addr \<Rightarrow> nat \<Rightarrow> 'a fstate_scheme \<Rightarrow> (nat option \<times> 'a fstate_scheme) res option" where
  "namex_loop path nameiparent name ip s =
     Option.bind (skipelem path name (phys (km s))) (\<lambda>(path', m).
       let s1 = s\<lparr>km := (km s)\<lparr>phys := m\<rparr>\<rparr>
       in if path' = 0 then
            Some (if nameiparent then bind_res (iput ip s1) (\<lambda>s2. Ok (None, s2)) else Ok (Some ip, s1))
          else case ilock (Some ip) s1 of
            Panic e \<Rightarrow> Some (Panic e)
          | Loop \<Rightarrow> None
          | Ok s2 \<Rightarrow>
              if i_type (itable s2 ip) \<noteq> T_DIR then Some (bind_res (iunlockput ip s2) (\<lambda>s3. Ok (None, s3)))
              else if nameiparent \<and> phys (km s2) path' = 0
              then Some (bind_res (iunlock (Some ip) s2) (\<lambda>s3. Ok (Some ip, s3)))
              else case dirlookup ip name s2 of
                Panic e \<Rightarrow> Some (Panic e)
              | Loop \<Rightarrow> None
              | Ok (None, s3) \<Rightarrow> Some (bind_res (iunlockput ip s3) (\<lambda>s4. Ok (None, s4)))
              | Ok (Some (nxt, _), s3) \<Rightarrow>
                  (case iunlockput ip s3 of
                     Panic e \<Rightarrow> Some (Panic e)
                   | Loop \<Rightarrow> None
                   | Ok s4 \<Rightarrow> namex_loop path' nameiparent name nxt s4))"

declare namex_loop.simps [code]

text \<open>A relative path starts at \<^verbatim>\<open>myproc()->cwd\<close>, a null one is a fault in the kernel.\<close>

definition namex :: "addr \<Rightarrow> bool \<Rightarrow> addr \<Rightarrow> 'a fstate_scheme \<Rightarrow> (nat option \<times> 'a fstate_scheme) res" where
  "namex path nameiparent name s =
     bind_res
       (if phys (km s) path = slash then iget ROOTDEV ROOTINO s
        else case cwd (myproc s) of None \<Rightarrow> Panic ''kerneltrap'' | Some ip \<Rightarrow> Ok (ip, idup ip s))
       (\<lambda>(ip, s1). run_loop (namex_loop path nameiparent name ip s1))"

definition namei :: "addr \<Rightarrow> 'a fstate_scheme \<Rightarrow> (nat option \<times> 'a fstate_scheme) res" where
  "namei path s = namex path False (namebuf s) s"

definition nameiparent :: "addr \<Rightarrow> addr \<Rightarrow> 'a fstate_scheme \<Rightarrow> (nat option \<times> 'a fstate_scheme) res" where
  "nameiparent path name s = namex path True name s"

end
