(* ===== verification/Fs_Tx.thy ===== *)
theory Fs_Tx
  imports Fs
begin

text \<open>
  The file system inside a transaction. \<open>op_ok s P H k\<close>: the buffer cache is consistent, the
  pinned buffers \<open>P\<close> are those of the logged blocks, the buffers \<open>H\<close> are locked, and there is
  room for \<open>k\<close> more blocks in the log. The lemmas turn each use of the cache into a read or an
  update of the current contents \<open>view s\<close> of the disk.
\<close>

section \<open>Room in the log and in the cache\<close>

definition op_ok :: "'a lstate_scheme \<Rightarrow> nat set \<Rightarrow> nat set \<Rightarrow> nat \<Rightarrow> bool" where
  "op_ok s P H k \<longleftrightarrow> bc_ok s P H \<and> 1 \<le> outstanding s \<and> 0 \<le> lhn s \<and>
     pinned s P = lhblock s ` {..<nat (lhn s)} \<and> inj_on (lhblock s) {..<nat (lhn s)} \<and>
     nat (lhn s) + card H + k < NBUF"

lemma op_okD:
  assumes "op_ok s P H k"
  shows "bc_ok s P H" "1 \<le> outstanding s" "0 \<le> lhn s" "pinned s P = lhblock s ` {..<nat (lhn s)}"
    "inj_on (lhblock s) {..<nat (lhn s)}" "nat (lhn s) + card H + k < NBUF"
  using assms by (simp_all add: op_ok_def)

lemma op_ok_card:
  assumes "op_ok s P H k"
  shows "card P = nat (lhn s)" "finite P" "finite H" "card (P \<union> H) + k < NBUF"
proof -
  note D = op_okD [OF assms] and B = bc_okD(1,2) [OF bc_ok_bufs [OF op_okD(1) [OF assms]]]
  show c: "card P = nat (lhn s)"
    using pinned_card [OF D(1)] D(4) card_image [OF D(5)] by simp
  show f: "finite P" "finite H" using B finite_subset by blast+
  show "card (P \<union> H) + k < NBUF" using c D(6) card_Un_le [of P H] by linarith
qed

lemma op_ok_less: "op_ok s P H k \<Longrightarrow> j \<le> k \<Longrightarrow> op_ok s P H j"
  by (simp add: op_ok_def)

lemma bufs_sels [simp]:
  "lhn (s\<lparr>bufs := B\<rparr>) = lhn s" "lhblock (s\<lparr>bufs := B\<rparr>) = lhblock s" "outstanding (s\<lparr>bufs := B\<rparr>) = outstanding s"
  by simp_all

section \<open>Reading\<close>

lemma pinned_same: "\<forall>j \<in> P. blockno (B j) = blockno (bufs s j) \<Longrightarrow> pinned (s\<lparr>bufs := B\<rparr>) P = pinned s P"
  by (auto simp: pinned_def)

lemma view_clean_held:
  assumes ok: "bc_ok s P H" and "\<forall>i \<in> P \<union> H. \<not> cached s i b"
  shows "view s b = disk s b"
proof (cases "\<exists>i < NBUF. cached s i b \<and> valid (bufs s i)")
  case True
  then obtain i where i: "i < NBUF" "cached s i b" "valid (bufs s i)" by blast
  then have "bdata (bufs s i) = disk s b"
    using assms(2) bc_okD(11) [OF bc_ok_bufs [OF ok], of i] by (auto simp: cached_def)
  then show ?thesis using view_cached [OF ok i] by simp
next
  case False
  then show ?thesis using view_uncached by blast
qed

lemma op_bread:
  assumes op: "op_ok s P H (Suc k)" and free: "\<forall>i \<in> H. \<not> cached s i b"
  shows "\<exists>i B. bread ROOTDEV b s = Ok (i, s\<lparr>bufs := B\<rparr>) \<and> i < NBUF \<and> i \<notin> H \<and> blockno (B i) = b \<and>
     bdata (B i) = view s b \<and> op_ok (s\<lparr>bufs := B\<rparr>) P (insert i H) k \<and> view (s\<lparr>bufs := B\<rparr>) = view s \<and>
     (\<forall>j. j \<noteq> i \<longrightarrow> B j = bufs s j) \<and> (i \<notin> P \<longrightarrow> view s b = disk s b)"
proof -
  note D = op_okD [OF op] and C = op_ok_card [OF op]
  have room: "card (P \<union> H) < NBUF" using C(4) by simp
  obtain i B where r: "bread ROOTDEV b s = Ok (i, s\<lparr>bufs := B\<rparr>)" "i < NBUF" "i \<notin> H" "blockno (B i) = b"
      "bdata (B i) = view s b" "bc_ok (s\<lparr>bufs := B\<rparr>) P (insert i H)" "view (s\<lparr>bufs := B\<rparr>) = view s"
      "\<forall>j. j \<noteq> i \<longrightarrow> B j = bufs s j" "\<forall>j \<in> P. cached s j b \<longleftrightarrow> j = i" "\<forall>j \<in> P. blockno (B j) = blockno (bufs s j)"
    using bread_ex [OF D(1) free disjI2 [OF room]] by blast
  have "op_ok (s\<lparr>bufs := B\<rparr>) P (insert i H) k"
    unfolding op_ok_def using r(6) D C(3) r(3) pinned_same [OF r(10)] by simp
  moreover have "i \<notin> P \<longrightarrow> view s b = disk s b"
  proof
    assume "i \<notin> P"
    then have "\<not> cached s j b" if "j \<in> P \<union> H" for j using r(9) that free by auto
    then show "view s b = disk s b" using view_clean_held [OF D(1)] by simp
  qed
  ultimately show ?thesis using r(1-5,7,8) by (intro exI [of _ i] exI [of _ B] conjI)
qed

text \<open>A buffer that was only read is released.\<close>

lemma op_brelse:
  assumes op: "op_ok s P H k" and i: "i \<in> H" and clean: "i \<in> P \<or> bdata (bufs s i) = disk s (blockno (bufs s i))"
  shows "\<exists>B. brelse i s = Ok (s\<lparr>bufs := B\<rparr>) \<and> op_ok (s\<lparr>bufs := B\<rparr>) P (H - {i}) (Suc k) \<and> view (s\<lparr>bufs := B\<rparr>) = view s \<and>
     (\<forall>j. bdata (B j) = bdata (bufs s j) \<and> blockno (B j) = blockno (bufs s j))"
proof -
  note D = op_okD [OF op] and C = op_ok_card [OF op]
  obtain B where r: "brelse i s = Ok (s\<lparr>bufs := B\<rparr>)" "bc_ok (s\<lparr>bufs := B\<rparr>) P (H - {i})" "view (s\<lparr>bufs := B\<rparr>) = view s"
      "\<forall>j. bdata (B j) = bdata (bufs s j) \<and> blockno (B j) = blockno (bufs s j)"
    using brelse_ex [OF D(1) i clean] by blast
  have "card (H - {i}) + 1 = card H" using i C(3) by (metis Suc_eq_plus1 card_Suc_Diff1)
  then have "op_ok (s\<lparr>bufs := B\<rparr>) P (H - {i}) (Suc k)"
    unfolding op_ok_def using r(2) D pinned_same [of P B s] r(4) by simp
  then show ?thesis using r by blast
qed

lemma op_read:
  assumes op: "op_ok s P H (Suc k)" and free: "\<forall>i \<in> H. \<not> cached s i b"
  shows "\<exists>i B. bread ROOTDEV b s = Ok (i, s\<lparr>bufs := B\<rparr>) \<and> blockno (B i) = b \<and> bdata (B i) = view s b \<and>
     view (s\<lparr>bufs := B\<rparr>) = view s \<and>
     (\<exists>B'. brelse i (s\<lparr>bufs := B\<rparr>) = Ok (s\<lparr>bufs := B'\<rparr>) \<and> op_ok (s\<lparr>bufs := B'\<rparr>) P H (Suc k) \<and> view (s\<lparr>bufs := B'\<rparr>) = view s \<and>
        (\<forall>j \<in> H. bdata (B' j) = bdata (bufs s j) \<and> blockno (B' j) = blockno (bufs s j)))"
proof -
  obtain i B where r: "bread ROOTDEV b s = Ok (i, s\<lparr>bufs := B\<rparr>)" "i < NBUF" "i \<notin> H" "blockno (B i) = b"
     "bdata (B i) = view s b" "op_ok (s\<lparr>bufs := B\<rparr>) P (insert i H) k" "view (s\<lparr>bufs := B\<rparr>) = view s"
     "\<forall>j. j \<noteq> i \<longrightarrow> B j = bufs s j" "i \<notin> P \<longrightarrow> view s b = disk s b"
    using op_bread [OF op free] by blast
  have "i \<in> P \<or> bdata (bufs (s\<lparr>bufs := B\<rparr>) i) = disk (s\<lparr>bufs := B\<rparr>) (blockno (bufs (s\<lparr>bufs := B\<rparr>) i))"
    using r by auto
  from op_brelse [OF r(6) insertI1 this] obtain B' where
    "brelse i (s\<lparr>bufs := B\<rparr>) = Ok (s\<lparr>bufs := B'\<rparr>)" "op_ok (s\<lparr>bufs := B'\<rparr>) P (insert i H - {i}) (Suc k)"
    "view (s\<lparr>bufs := B'\<rparr>) = view s" "\<forall>j. bdata (B' j) = bdata (B j) \<and> blockno (B' j) = blockno (B j)"
    using r(7) by auto
  moreover have "insert i H - {i} = H" using r(3) by blast
  moreover have "\<forall>j \<in> H. B j = bufs s j" using r(3,8) by metis
  ultimately show ?thesis using r(1,4,5,7) by (intro exI [of _ i] exI [of _ B] conjI exI [of _ B']) simp_all
qed

section \<open>Updating\<close>

text \<open>What \<^verbatim>\<open>log_write\<close> does to a locked buffer.\<close>

lemma op_log_write:
  assumes op: "op_ok s P H (Suc k)" and i: "i \<in> H"
  shows "\<exists>B n L P'. log_write i s = Ok (s\<lparr>bufs := B, lhn := n, lhblock := L\<rparr>) \<and> i \<in> P' \<and> P \<subseteq> P' \<and>
     op_ok (s\<lparr>bufs := B, lhn := n, lhblock := L\<rparr>) P' H k \<and> view (s\<lparr>bufs := B\<rparr>) = view s \<and>
     (\<forall>j. bdata (B j) = bdata (bufs s j) \<and> blockno (B j) = blockno (bufs s j))"
proof -
  note D = op_okD [OF op] and C = op_ok_card [OF op]
  note BD = bc_okD [OF bc_ok_bufs [OF D(1)]]
  define b n where "b = blockno (bufs s i)" and "n = nat (lhn s)"
  have n: "lhn s = int n" using D(3) by (simp add: n_def)
  have iN: "i < NBUF" using i BD(2) by auto
  have id: "bdev (bufs s i) = ROOTDEV" using i BD(10) [of i] by simp
  have go: "\<not> lhn s \<ge> int LOGBLOCKS" "\<not> outstanding s < 1"
    using D(2,6) n by (simp_all add: LOGBLOCKS_def NBUF_def)
  show ?thesis
  proof (cases "find (\<lambda>k. lhblock s k = b) [0..<n]")
    case (Some m)
    then have m: "m < n" "lhblock s m = b" using find_upt_Some by fast+
    have "(lhblock s)(m := b) = lhblock s" using m by auto
    then have e: "log_write i s = Ok (s\<lparr>bufs := bufs s, lhn := lhn s, lhblock := lhblock s\<rparr>)"
      using go m Some by (simp add: log_write_def log_slot_def b_def [symmetric] n Let_def)
    have "b \<in> pinned s P" using m D(4) by (auto simp: n)
    then obtain j where "j \<in> P" "cached s j b" using pinned_iff [OF D(1)] by blast
    moreover from this have "j < NBUF" using BD(1) by blast
    ultimately have "i \<in> P" using BD(5) [OF iN, of j] id by (auto simp: cached_def b_def)
    then show ?thesis using e op_ok_less [OF op, of k]
      by (intro exI [of _ "bufs s"] exI [of _ "lhn s"] exI [of _ "lhblock s"] exI [of _ P]) simp
  next
    case None
    then have nb: "b \<notin> lhblock s ` {..<n}" by (auto simp: find_None_iff)
    define B where "B = (bufs s)(i := (bufs s i)\<lparr>brefcnt := brefcnt (bufs s i) + 1\<rparr>)"
    define L where "L = (lhblock s)(n := b)"
    have e: "log_write i s = Ok (s\<lparr>bufs := B, lhn := lhn s + 1, lhblock := L\<rparr>)"
      using go None by (simp add: log_write_def log_slot_def b_def [symmetric] n Let_def bpin_def upd_buf_def B_def L_def)
    have ni: "i \<notin> P" using nb D(4) by (auto simp: n pinned_def b_def)
    have bp: "bpin i s = s\<lparr>bufs := B\<rparr>" by (simp add: bpin_def upd_buf_def B_def)
    have fields: "bdata (B j) = bdata (bufs s j) \<and> blockno (B j) = blockno (bufs s j)" for j by (simp add: B_def)
    have "bc_ok (s\<lparr>bufs := B\<rparr>) (insert i P) H" and v: "view (s\<lparr>bufs := B\<rparr>) = view s"
      using bpin_spec [OF D(1) i ni] by (simp_all add: bp)
    then have ok: "bc_ok (s\<lparr>bufs := B, lhn := lhn s + 1, lhblock := L\<rparr>) (insert i P) H"
      by (subst bc_ok_cong [of _ "s\<lparr>bufs := B\<rparr>"]) simp_all
    have pin: "pinned (s\<lparr>bufs := B, lhn := lhn s + 1, lhblock := L\<rparr>) (insert i P) = L ` {..<Suc n}"
      using D(4) fields by (auto simp: pinned_def n b_def L_def lessThan_Suc)
    have "inj_on L {..<Suc n}"
      using D(5) nb by (auto simp: n L_def lessThan_Suc inj_on_def)
    then have "op_ok (s\<lparr>bufs := B, lhn := lhn s + 1, lhblock := L\<rparr>) (insert i P) H k"
      unfolding op_ok_def using ok pin D(2,6) by (simp add: n nat_add_distrib)
    then show ?thesis using e v fields
      by (intro exI [of _ B] exI [of _ "lhn s + 1"] exI [of _ L] exI [of _ "insert i P"]) auto
  qed
qed

text \<open>The state after a change of the current transaction.\<close>

definition logged :: "'a lstate_scheme \<Rightarrow> (nat \<Rightarrow> buf) \<Rightarrow> int \<Rightarrow> (nat \<Rightarrow> uint32) \<Rightarrow> 'a lstate_scheme" where
  "logged s B n L = s\<lparr>bufs := B, lhn := n, lhblock := L\<rparr>"

lemma logged_bufs [simp]: "(logged s B n L)\<lparr>bufs := B'\<rparr> = logged s B' n L"
  by (rule lstate.equality) (simp_all add: logged_def)

lemma logged_logged [simp]: "logged (logged s B n L) B' n' L' = logged s B' n' L'"
  by (rule lstate.equality) (simp_all add: logged_def)

lemma logged_sels [simp]:
  "bufs (logged s B n L) = B" "disk (logged s B n L) = disk s" "lhn (logged s B n L) = n"
  "lhblock (logged s B n L) = L" "outstanding (logged s B n L) = outstanding s" "pt (logged s B n L) = pt s"
  "cur (logged s B n L) = cur s" "km (logged s B n L) = km s" "klocal (logged s B n L) = klocal s"
  by (simp_all add: logged_def)

lemma bufs_logged: "(s\<lparr>bufs := B\<rparr>) = logged s B (lhn s) (lhblock s)"
  by (simp add: logged_def)

lemma set_data_bufs: "set_data i d (s\<lparr>bufs := B\<rparr>) = s\<lparr>bufs := B(i := (B i)\<lparr>bdata := d\<rparr>)\<rparr>"
  by (simp add: set_data_def upd_buf_def)

lemma op_set_data:
  assumes op: "op_ok s P H k" and i: "i \<in> H"
  shows "op_ok (set_data i d s) P H k" "view (set_data i d s) = (view s)(blockno (bufs s i) := d)"
proof -
  note D = op_okD [OF op]
  have "lhn (set_data i d s) = lhn s" "lhblock (set_data i d s) = lhblock s" "outstanding (set_data i d s) = outstanding s"
    "pinned (set_data i d s) P = pinned s P"
    by (simp_all add: set_data_def upd_buf_def pinned_def cong: image_cong) (auto simp: image_iff)
  then show "op_ok (set_data i d s) P H k"
    using D bc_ok_data(1) [OF D(1) i, of d] by (simp add: op_ok_def set_data_def)
  show "view (set_data i d s) = (view s)(blockno (bufs s i) := d)"
    using bc_ok_data(2) [OF D(1) i, of d] by (simp add: set_data_def)
qed

lemma op_update:
  assumes op: "op_ok s P H (Suc (Suc k))" and free: "\<forall>i \<in> H. \<not> cached s i b"
  shows "\<exists>i B. bread ROOTDEV b s = Ok (i, s\<lparr>bufs := B\<rparr>) \<and> blockno (B i) = b \<and> bdata (B i) = view s b \<and>
     (\<forall>d. \<exists>B' n L P'. log_release i (set_data i d (s\<lparr>bufs := B\<rparr>)) = Ok (logged s B' n L) \<and>
        op_ok (logged s B' n L) P' H (Suc k) \<and> view (logged s B' n L) = (view s)(b := d) \<and>
        (\<forall>j \<in> H. bdata (B' j) = bdata (bufs s j) \<and> blockno (B' j) = blockno (bufs s j)))"
proof -
  obtain i B where r: "bread ROOTDEV b s = Ok (i, s\<lparr>bufs := B\<rparr>)" "i < NBUF" "i \<notin> H" "blockno (B i) = b"
     "bdata (B i) = view s b" "op_ok (s\<lparr>bufs := B\<rparr>) P (insert i H) (Suc k)" "view (s\<lparr>bufs := B\<rparr>) = view s"
     "\<forall>j. j \<noteq> i \<longrightarrow> B j = bufs s j"
    using op_bread [OF op free] by blast
  have "\<exists>B' n L P'. log_release i (set_data i d (s\<lparr>bufs := B\<rparr>)) = Ok (logged s B' n L) \<and>
        op_ok (logged s B' n L) P' H (Suc k) \<and> view (logged s B' n L) = (view s)(b := d) \<and>
        (\<forall>j \<in> H. bdata (B' j) = bdata (bufs s j) \<and> blockno (B' j) = blockno (bufs s j))" for d
  proof -
    define B1 where "B1 = B(i := (B i)\<lparr>bdata := d\<rparr>)"
    have sd: "set_data i d (s\<lparr>bufs := B\<rparr>) = s\<lparr>bufs := B1\<rparr>" by (simp only: set_data_bufs B1_def)
    have o1: "op_ok (s\<lparr>bufs := B1\<rparr>) P (insert i H) (Suc k)" "view (s\<lparr>bufs := B1\<rparr>) = (view s)(b := d)"
      using op_set_data [OF r(6) insertI1, of d] r(4,7) by (simp_all add: sd)
    obtain B2 n L P' where w: "log_write i (s\<lparr>bufs := B1\<rparr>) = Ok (logged s B2 n L)" "i \<in> P'"
        "op_ok (logged s B2 n L) P' (insert i H) k" "view (s\<lparr>bufs := B2\<rparr>) = (view s)(b := d)"
        "\<forall>j. bdata (B2 j) = bdata (B1 j) \<and> blockno (B2 j) = blockno (B1 j)"
      using op_log_write [OF o1(1) insertI1] o1(2) by (auto simp: logged_def)
    obtain B3 where e: "brelse i (logged s B2 n L) = Ok (logged s B3 n L)"
        "op_ok (logged s B3 n L) P' (insert i H - {i}) (Suc k)" "view (logged s B3 n L) = view (logged s B2 n L)"
        "\<forall>j. bdata (B3 j) = bdata (B2 j) \<and> blockno (B3 j) = blockno (B2 j)"
      using op_brelse [OF w(3) insertI1] w(2) by auto
    have "view (logged s B2 n L) = view (s\<lparr>bufs := B2\<rparr>)" by (rule view_cong) (simp_all add: logged_def)
    moreover have "insert i H - {i} = H" using r(3) by blast
    moreover have "\<forall>j \<in> H. bdata (B3 j) = bdata (bufs s j) \<and> blockno (B3 j) = blockno (bufs s j)"
      using r(3,8) e(4) w(5) by (metis B1_def fun_upd_other)
    ultimately show ?thesis using e w(1,4) sd
      by (intro exI [of _ B3] exI [of _ n] exI [of _ L] exI [of _ P']) (simp add: log_release_def)
  qed
  then show ?thesis using r(1,4,5) by blast
qed

end
