(* ===== verification/Fs_Blocks.thy ===== *)
theory Fs_Blocks
  imports Fs_Tx
begin

text \<open>The block allocator of \<^verbatim>\<open>fs.c\<close>: what \<^verbatim>\<open>balloc\<close> and \<^verbatim>\<open>bfree\<close> do to the contents of the disk.\<close>

section \<open>The bitmap\<close>

lemma bit_free_iff: "bit_free d bi \<longleftrightarrow> \<not> bit (d (bi div 8)) (bi mod 8)"
  by (simp add: bit_free_def bit_mask_def bit_iff_and_push_bit_not_eq_0)

lemma bit_free_used: "bit_free (set_used bi d) bj \<longleftrightarrow> bit_free d bj \<and> bi \<noteq> bj"
proof (cases "bi div 8 = bj div 8")
  case True
  then have "bi = bj \<longleftrightarrow> bi mod 8 = bj mod 8" by (metis mult_div_mod_eq)
  moreover have "bj mod 8 < LENGTH(8)" by simp
  ultimately show ?thesis
    using True by (auto simp: bit_free_iff set_used_def bit_mask_def bit_simps)
qed (auto simp: bit_free_def set_used_def)

lemma clear_set_used:
  assumes "bit_free d bi"
  shows "clear_used bi (set_used bi d) = d"
proof -
  have "(d (bi div 8) OR bit_mask bi) AND NOT (bit_mask bi) = d (bi div 8)"
    by (rule bit_word_eqI) (use assms in \<open>auto simp: bit_free_iff bit_mask_def bit_simps\<close>)
  then show ?thesis by (simp add: clear_used_def set_used_def)
qed

lemma bit_free_clear: "bit_free (clear_used bi d) bj \<longleftrightarrow> bit_free d bj \<or> bi = bj"
proof (cases "bi div 8 = bj div 8")
  case True
  then have "bi = bj \<longleftrightarrow> bi mod 8 = bj mod 8" by (metis mult_div_mod_eq)
  moreover have "bj mod 8 < LENGTH(8)" by simp
  ultimately show ?thesis
    using True by (auto simp: bit_free_iff clear_used_def bit_mask_def bit_simps)
qed (auto simp: bit_free_def clear_used_def)

lemma BPB_val: "BPB = 8192" by (simp add: BPB_def BSIZE_def)

definition blk_free :: "(uint32 \<Rightarrow> block) \<Rightarrow> superblock \<Rightarrow> nat \<Rightarrow> bool" where
  "blk_free v b c \<longleftrightarrow> bit_free (v (BBLOCK (of_nat c) b)) (c mod BPB)"

lemma BBLOCK_same:
  assumes "b mod BPB = 0" "bi < BPB" "b + bi < 2 ^ 32"
  shows "BBLOCK (of_nat (b + bi)) B = BBLOCK (of_nat b) B" "(b + bi) mod BPB = bi"
proof -
  have u: "unat (of_nat (b + bi) :: uint32) = b + bi" "unat (of_nat b :: uint32) = b"
    using unat_of_nat_small32 [OF assms(3)] unat_of_nat_small32 [of b] assms(3) by simp_all
  have p: "unat (of_nat BPB :: uint32) = BPB" by (simp add: BPB_val)
  have "(b + bi) div BPB = b div BPB" using assms(1,2) by (auto simp: div_add1_eq [of b bi])
  then have "(of_nat (b + bi) :: uint32) div of_nat BPB = of_nat b div of_nat BPB"
    by (metis u p unat_div word_unat_eq_iff)
  then show "BBLOCK (of_nat (b + bi)) B = BBLOCK (of_nat b) B" by (simp only: BBLOCK_def)
  show "(b + bi) mod BPB = bi" using assms(1,2) by (simp add: mod_add_left_eq [symmetric, of b])
qed

lemma BBLOCK_inj:
  assumes "BBLOCK (of_nat e) B = BBLOCK (of_nat c) B" "e < 4294967296" "c < 4294967296"
  shows "e div BPB = c div BPB"
proof -
  have "(of_nat e :: uint32) div of_nat BPB = of_nat c div of_nat BPB" using assms(1) by (simp add: BBLOCK_def)
  then have "unat ((of_nat e :: uint32) div of_nat BPB) = unat ((of_nat c :: uint32) div of_nat BPB)" by (simp only:)
  moreover have "unat (of_nat BPB :: uint32) = BPB" by (simp add: BPB_val)
  ultimately show ?thesis using unat_of_nat_small32 [of e] unat_of_nat_small32 [of c] assms(2,3) by (simp add: unat_div)
qed

section \<open>Allocation\<close>

definition zeroed :: "block \<Rightarrow> block" where
  "zeroed d = (\<lambda>k. if k < BSIZE then 0 else d k)"

lemma sb_logged [simp]: "sb (logged s B n L) = sb s" "itable (logged s B n L) = itable s"
  "bufaddr (logged s B n L) = bufaddr s" "namebuf (logged s B n L) = namebuf s"
  by (simp_all add: logged_def)

lemma logged_of_bufs:
  fixes s :: "'a fstate_scheme"
  shows "logged (s\<lparr>bufs := B'\<rparr>) B n L = logged s B n L" "sb (s\<lparr>bufs := B'\<rparr>) = sb s"
  "s\<lparr>bufs := B', bufs := B\<rparr> = s\<lparr>bufs := B\<rparr>"
  by (simp_all add: logged_def)

lemma bzero_spec:
  assumes "op_ok s P {} (Suc (Suc k))"
  shows "\<exists>B n L P'. bzero ROOTDEV b s = Ok (logged s B n L) \<and> op_ok (logged s B n L) P' {} (Suc k) \<and>
     view (logged s B n L) = (view s)(b := zeroed (view s b))"
proof -
  obtain i B where r: "bread ROOTDEV b s = Ok (i, s\<lparr>bufs := B\<rparr>)" "bdata (B i) = view s b"
      "\<forall>d. \<exists>B' n L P'. log_release i (set_data i d (s\<lparr>bufs := B\<rparr>)) = Ok (logged s B' n L) \<and>
        op_ok (logged s B' n L) P' {} (Suc k) \<and> view (logged s B' n L) = (view s)(b := d)"
    using op_update [OF assms, of b] by auto
  from r(3) [rule_format, of "zeroed (view s b)"] show ?thesis
    using r(1,2) by (auto simp: bzero_def zeroed_def cong: if_cong)
qed

text \<open>The outcome of \<^verbatim>\<open>balloc\<close> from the bitmap block that starts at block \<open>b\<close>.\<close>

definition balloc_finds :: "uint32 \<times> 'a fstate_scheme \<Rightarrow> nat \<Rightarrow> 'a fstate_scheme \<Rightarrow> nat \<Rightarrow> bool" where
  "balloc_finds r c s k \<longleftrightarrow> fst r = of_nat c \<and> (\<exists>B n L P'. snd r = logged s B n L \<and> op_ok (logged s B n L) P' {} (Suc k) \<and>
     view (logged s B n L) =
       (let v = (view s)(BBLOCK (of_nat c) (sb s) := set_used (c mod BPB) (view s (BBLOCK (of_nat c) (sb s))))
        in v(of_nat c := zeroed (v (of_nat c)))))"

definition balloc_full :: "uint32 \<times> 'a fstate_scheme \<Rightarrow> 'a fstate_scheme \<Rightarrow> nat set \<Rightarrow> nat \<Rightarrow> bool" where
  "balloc_full r s P k \<longleftrightarrow> fst r = 0 \<and> (\<exists>B. snd r = s\<lparr>bufs := B\<rparr> \<and> op_ok (s\<lparr>bufs := B\<rparr>) P {} k \<and> view (s\<lparr>bufs := B\<rparr>) = view s)"

lemma balloc_take:
  assumes op: "op_ok s P {} (Suc (Suc (Suc k)))" and c: "c < 2 ^ 32"
    and b: "b mod BPB = 0" "bi < BPB" "c = b + bi" "c < sz"
    and scan: "scan_bits (view s (BBLOCK (of_nat b) (sb s))) b sz = Some bi"
  shows "\<exists>r. balloc_loop ROOTDEV sz b s = Ok r \<and> balloc_finds r c s k"
proof -
  let ?b = "BBLOCK (of_nat b) (sb s)"
  have same: "BBLOCK (of_nat c) (sb s) = ?b" "c mod BPB = bi" using BBLOCK_same [OF b(1,2)] c b(3) by simp_all
  obtain i B where r: "bread ROOTDEV ?b s = Ok (i, s\<lparr>bufs := B\<rparr>)" "bdata (B i) = view s ?b"
      "\<forall>d. \<exists>B' n L P'. log_release i (set_data i d (s\<lparr>bufs := B\<rparr>)) = Ok (logged s B' n L) \<and>
        op_ok (logged s B' n L) P' {} (Suc (Suc k)) \<and> view (logged s B' n L) = (view s)(?b := d)"
    using op_update [OF op, of ?b] by auto
  define d where "d = set_used bi (view s ?b)"
  obtain B1 n1 L1 P1 where u: "log_release i (set_data i d (s\<lparr>bufs := B\<rparr>)) = Ok (logged s B1 n1 L1)"
      "op_ok (logged s B1 n1 L1) P1 {} (Suc (Suc k))" "view (logged s B1 n1 L1) = (view s)(?b := d)"
    using r(3) by blast
  obtain B2 n2 L2 P2 where z: "bzero ROOTDEV (of_nat c) (logged s B1 n1 L1) = Ok (logged s B2 n2 L2)"
      "op_ok (logged s B2 n2 L2) P2 {} (Suc k)"
      "view (logged s B2 n2 L2) = ((view s)(?b := d))(of_nat c := zeroed (((view s)(?b := d)) (of_nat c)))"
    using bzero_spec [OF u(2), of "of_nat c"] u(3) by auto
  have "balloc_loop ROOTDEV sz b s = Ok (of_nat c, logged s B2 n2 L2)"
    using b(3,4) r(1,2) u(1) z(1) scan by (subst balloc_loop.simps) (simp add: d_def)
  moreover have "balloc_finds (of_nat c, logged s B2 n2 L2) c s k"
    unfolding balloc_finds_def same Let_def fst_conv snd_conv
    using z(2,3) by (intro conjI refl exI [of _ B2] exI [of _ n2] exI [of _ L2] exI [of _ P2]) (simp_all add: d_def)
  ultimately show ?thesis by blast
qed

lemma scan_bits_Some:
  assumes "scan_bits d b sz = Some bi"
  shows "bi < BPB" "b + bi < sz" "bit_free d bi" "\<And>j. j < bi \<Longrightarrow> \<not> bit_free d j"
proof -
  have "\<exists>i < min BPB (sz - b). bit_free d i \<and> bi = i \<and> (\<forall>j < i. \<not> bit_free d j)"
    using assms by (auto simp: scan_bits_def find_Some_iff)
  then show "bi < BPB" "b + bi < sz" "bit_free d bi" "\<And>j. j < bi \<Longrightarrow> \<not> bit_free d j" by auto
qed

lemma scan_bits_None: "scan_bits d b sz = None \<Longrightarrow> j < BPB \<Longrightarrow> b + j < sz \<Longrightarrow> \<not> bit_free d j"
  by (auto simp: scan_bits_def find_None_iff)

text \<open>The blocks of one bitmap block.\<close>

lemma blk_free_in:
  assumes "b mod BPB = 0" "j < BPB" "b + j < 2 ^ 32"
  shows "blk_free v B (b + j) \<longleftrightarrow> bit_free (v (BBLOCK (of_nat b) B)) j"
  unfolding blk_free_def using BBLOCK_same [OF assms] by simp

lemma balloc_loop_spec:
  assumes "op_ok s P {} (Suc (Suc (Suc k)))" "sz < 2 ^ 32" "b mod BPB = 0"
  shows "\<exists>r. balloc_loop ROOTDEV sz b s = Ok r \<and>
     ((\<exists>c. b \<le> c \<and> c < sz \<and> blk_free (view s) (sb s) c \<and> (\<forall>j. b \<le> j \<longrightarrow> j < c \<longrightarrow> \<not> blk_free (view s) (sb s) j) \<and>
         balloc_finds r c s k) \<or>
      ((\<forall>j. b \<le> j \<longrightarrow> j < sz \<longrightarrow> \<not> blk_free (view s) (sb s) j) \<and> balloc_full r s P (Suc (Suc (Suc k)))))"
  using assms
proof (induction "sz - b" arbitrary: b s rule: less_induct)
  case less
  note op = less.prems(1) and sz = less.prems(2) and b = less.prems(3)
  let ?d = "view s (BBLOCK (of_nat b) (sb s))"
  show ?case
  proof (cases "b < sz")
    case False
    then have "balloc_loop ROOTDEV sz b s = Ok (0, s)" by (simp add: balloc_loop.simps)
    moreover have "balloc_full (0, s) s P (Suc (Suc (Suc k)))"
      unfolding balloc_full_def using op by (auto intro!: exI [of _ "bufs s"])
    ultimately show ?thesis using False by (intro exI [of _ "(0, s)"]) simp
  next
    case lt: True
    show ?thesis
    proof (cases "scan_bits ?d b sz")
      case (Some bi)
      note S = scan_bits_Some [OF Some]
      have "blk_free (view s) (sb s) (b + bi)" using S blk_free_in [OF b S(1)] sz by simp
      moreover have "\<not> blk_free (view s) (sb s) j" if "b \<le> j" "j < b + bi" for j
        using S(1,2) S(4) [of "j - b"] blk_free_in [OF b, of "j - b" "view s" "sb s"] sz that by simp
      moreover obtain r where "balloc_loop ROOTDEV sz b s = Ok r" "balloc_finds r (b + bi) s k"
        using balloc_take [OF op _ b S(1) refl S(2) Some] S(2) sz by auto
      ultimately show ?thesis using S(2) by (intro exI [of _ r] conjI disjI1 exI [of _ "b + bi"]) auto
    next
      case None
      obtain i B B' where r: "bread ROOTDEV (BBLOCK (of_nat b) (sb s)) s = Ok (i, s\<lparr>bufs := B\<rparr>)" "bdata (B i) = ?d"
          "brelse i (s\<lparr>bufs := B\<rparr>) = Ok (s\<lparr>bufs := B'\<rparr>)" "op_ok (s\<lparr>bufs := B'\<rparr>) P {} (Suc (Suc (Suc k)))"
          "view (s\<lparr>bufs := B'\<rparr>) = view s"
        using op_read [OF op, of "BBLOCK (of_nat b) (sb s)"] by auto
      have e: "balloc_loop ROOTDEV sz b s = balloc_loop ROOTDEV sz (b + BPB) (s\<lparr>bufs := B'\<rparr>)"
        using lt r(1,2,3) None by (subst balloc_loop.simps) simp
      have none: "\<not> blk_free (view s) (sb s) j" if "b \<le> j" "j < b + BPB" "j < sz" for j
        using scan_bits_None [OF None, of "j - b"] blk_free_in [OF b, of "j - b" "view s" "sb s"] sz that by simp
      have m: "sz - (b + BPB) < sz - b" "(b + BPB) mod BPB = 0" using lt b by (simp_all add: BPB_val)
      obtain q where q: "balloc_loop ROOTDEV sz (b + BPB) (s\<lparr>bufs := B'\<rparr>) = Ok q"
        "(\<exists>c. b + BPB \<le> c \<and> c < sz \<and> blk_free (view s) (sb s) c \<and>
            (\<forall>j. b + BPB \<le> j \<longrightarrow> j < c \<longrightarrow> \<not> blk_free (view s) (sb s) j) \<and> balloc_finds q c (s\<lparr>bufs := B'\<rparr>) k) \<or>
         ((\<forall>j. b + BPB \<le> j \<longrightarrow> j < sz \<longrightarrow> \<not> blk_free (view s) (sb s) j) \<and>
            balloc_full q (s\<lparr>bufs := B'\<rparr>) P (Suc (Suc (Suc k))))"
        using less.hyps [OF m(1) r(4) sz m(2)] r(5) by auto
      have fi: "balloc_finds q c s k" if "balloc_finds q c (s\<lparr>bufs := B'\<rparr>) k" for c
        using that by (simp only: balloc_finds_def r(5) logged_of_bufs)
      have fu: "balloc_full q s P j" if "balloc_full q (s\<lparr>bufs := B'\<rparr>) P j" for j
        using that r(5) by (simp only: balloc_full_def logged_of_bufs)
      have low: "\<not> blk_free (view s) (sb s) j"
        if "\<forall>j. b + BPB \<le> j \<longrightarrow> j < c \<longrightarrow> \<not> blk_free (view s) (sb s) j" "b \<le> j" "j < c" "c \<le> sz" for j c
        using that none [of j] by (cases "j < b + BPB") auto
      from q(2) show ?thesis
      proof
        assume "\<exists>c. b + BPB \<le> c \<and> c < sz \<and> blk_free (view s) (sb s) c \<and>
          (\<forall>j. b + BPB \<le> j \<longrightarrow> j < c \<longrightarrow> \<not> blk_free (view s) (sb s) j) \<and> balloc_finds q c (s\<lparr>bufs := B'\<rparr>) k"
        then obtain c where c: "b + BPB \<le> c" "c < sz" "blk_free (view s) (sb s) c"
          "\<forall>j. b + BPB \<le> j \<longrightarrow> j < c \<longrightarrow> \<not> blk_free (view s) (sb s) j" "balloc_finds q c (s\<lparr>bufs := B'\<rparr>) k" by blast
        then show ?thesis
          using e q(1) fi low [OF c(4)] by (intro exI [of _ q] conjI disjI1 exI [of _ c]) auto
      next
        assume c: "(\<forall>j. b + BPB \<le> j \<longrightarrow> j < sz \<longrightarrow> \<not> blk_free (view s) (sb s) j) \<and>
          balloc_full q (s\<lparr>bufs := B'\<rparr>) P (Suc (Suc (Suc k)))"
        then show ?thesis
          using e q(1) fu low [OF conjunct1 [OF c]] by (intro exI [of _ q] conjI disjI2) auto
      qed
    qed
  qed
qed

lemma balloc_first:
  assumes op: "op_ok s P {} (Suc (Suc (Suc k)))" and c: "c < unat (sb_size (sb s))" "blk_free (view s) (sb s) c"
    "\<forall>j < c. \<not> blk_free (view s) (sb s) j" and d: "of_nat c \<noteq> BBLOCK (of_nat c) (sb s)"
  defines "w \<equiv> BBLOCK (of_nat c) (sb s)"
  shows "\<exists>B n L P'. balloc ROOTDEV s = Ok (of_nat c, logged s B n L) \<and> op_ok (logged s B n L) P' {} (Suc k) \<and>
     view (logged s B n L) = (view s)(w := set_used (c mod BPB) (view s w), of_nat c := zeroed (view s (of_nat c)))"
proof -
  have sz: "unat (sb_size (sb s)) < 2 ^ 32" using unat_less_32 by simp
  obtain r where r: "balloc ROOTDEV s = Ok r" "(\<exists>e. 0 \<le> e \<and> e < unat (sb_size (sb s)) \<and> blk_free (view s) (sb s) e \<and>
      (\<forall>j. 0 \<le> j \<longrightarrow> j < e \<longrightarrow> \<not> blk_free (view s) (sb s) j) \<and> balloc_finds r e s k) \<or>
      ((\<forall>j. 0 \<le> j \<longrightarrow> j < unat (sb_size (sb s)) \<longrightarrow> \<not> blk_free (view s) (sb s) j) \<and> balloc_full r s P (Suc (Suc (Suc k))))"
    using balloc_loop_spec [OF op sz, of 0] by (auto simp: balloc_def)
  then obtain e where e: "blk_free (view s) (sb s) e" "\<forall>j < e. \<not> blk_free (view s) (sb s) j" "balloc_finds r e s k"
    using c by auto
  then have "e = c" using c(2,3) by (metis linorder_neqE_nat)
  with e(3) have f: "balloc_finds r c s k" by simp
  then show ?thesis using r(1) d unfolding balloc_finds_def Let_def w_def by (cases r) auto
qed

lemma balloc_none:
  assumes op: "op_ok s P {} (Suc (Suc (Suc k)))" and c: "\<forall>c < unat (sb_size (sb s)). \<not> blk_free (view s) (sb s) c"
  shows "\<exists>B. balloc ROOTDEV s = Ok (0, s\<lparr>bufs := B\<rparr>) \<and> op_ok (s\<lparr>bufs := B\<rparr>) P {} (Suc (Suc (Suc k))) \<and> view (s\<lparr>bufs := B\<rparr>) = view s"
proof -
  have sz: "unat (sb_size (sb s)) < 2 ^ 32" using unat_less_32 by simp
  obtain r where r: "balloc ROOTDEV s = Ok r" "(\<exists>e < unat (sb_size (sb s)). blk_free (view s) (sb s) e) \<or>
      balloc_full r s P (Suc (Suc (Suc k)))"
    using balloc_loop_spec [OF op sz, of 0] by (auto simp: balloc_def)
  with c have "balloc_full r s P (Suc (Suc (Suc k)))" by blast
  then show ?thesis using r(1) unfolding balloc_full_def by (cases r) auto
qed

lemma bfree_spec:
  fixes s :: "'a fstate_scheme"
  assumes op: "op_ok s P {} (Suc (Suc k))" and c: "c < 2 ^ 32"
  defines "w \<equiv> BBLOCK (of_nat c) (sb s)"
  shows "blk_free (view s) (sb s) c \<Longrightarrow> bfree ROOTDEV (of_nat c) s = Panic ''freeing free block''"
    and "\<not> blk_free (view s) (sb s) c \<Longrightarrow> \<exists>B n L P'. bfree ROOTDEV (of_nat c) s = Ok (logged s B n L) \<and>
      op_ok (logged s B n L) P' {} (Suc k) \<and> view (logged s B n L) = (view s)(w := clear_used (c mod BPB) (view s w))"
proof -
  obtain i B where r: "bread ROOTDEV w s = Ok (i, s\<lparr>bufs := B\<rparr>)" "bdata (B i) = view s w"
      "\<forall>d. \<exists>B' n L P'. log_release i (set_data i d (s\<lparr>bufs := B\<rparr>)) = Ok (logged s B' n L) \<and>
        op_ok (logged s B' n L) P' {} (Suc k) \<and> view (logged s B' n L) = (view s)(w := d)"
    using op_update [OF op, of w] by auto
  have u: "unat (of_nat c :: uint32) = c" using c by (rule unat_of_nat_small32)
  show "blk_free (view s) (sb s) c \<Longrightarrow> bfree ROOTDEV (of_nat c) s = Panic ''freeing free block''"
    using r(1,2) by (simp add: bfree_def w_def [symmetric] u blk_free_def Let_def)
  assume n: "\<not> blk_free (view s) (sb s) c"
  from r(3) [rule_format, of "clear_used (c mod BPB) (view s w)"]
  show "\<exists>B n L P'. bfree ROOTDEV (of_nat c) s = Ok (logged s B n L) \<and>
      op_ok (logged s B n L) P' {} (Suc k) \<and> view (logged s B n L) = (view s)(w := clear_used (c mod BPB) (view s w))"
    using r(1,2) n by (auto simp: bfree_def w_def [symmetric] u blk_free_def Let_def)
qed

section \<open>A file system to try it on\<close>

text \<open>A disk of 100 blocks, of which the first 40 are in use; the bitmap is block 39.\<close>

definition ex_fs :: fstate where
  "ex_fs = \<lparr>km = \<lparr>phys = (\<lambda>_. 0), kend = 0x80400000, free_areas = (\<lambda>_. \<lparr>freelist = 0, nr_free = 0\<rparr>),
       refcnt = (\<lambda>_. 0), page_state = (\<lambda>_. 0)\<rparr>, pt = ready_table, cur = Some 2, klocal = 0x80010000,
     bufs = ex_bufs 0, disk = (\<lambda>_ _. 0)(39 := (\<lambda>k. if k < 5 then 0xff else 0)), wtrace = [],
     lstart = 2, outstanding = 1, committing = False, ldev = ROOTDEV, lhn = 0, lhblock = (\<lambda>_. 0),
     sb = \<lparr>sb_magic = FSMAGIC, sb_size = 100, sb_nblocks = 60, sb_ninodes = 50, sb_nlog = 30, sb_logstart = 2,
       sb_inodestart = 33, sb_bmapstart = 39\<rparr>,
     itable = (\<lambda>_. \<lparr>i_dev = 0, i_inum = 0, i_ref = 0, i_lock = initsleeplock, i_valid = False, i_type = 0, i_major = 0,
       i_minor = 0, i_nlink = 0, i_size = 0, i_addrs = (\<lambda>_. 0)\<rparr>),
     bufaddr = (\<lambda>i. 0x80020000 + 1024 * of_nat i), namebuf = 0x80011000\<rparr>"

lemma ex_fs_sels [simp]:
  "pt ex_fs = ready_table" "cur ex_fs = Some 2" "bufs ex_fs = ex_bufs 0" "lhn ex_fs = 0" "outstanding ex_fs = 1"
  "disk ex_fs = (\<lambda>_ _. 0)(39 := (\<lambda>k. if k < 5 then 0xff else 0))" "sb_size (sb ex_fs) = 100" "sb_bmapstart (sb ex_fs) = 39"
  by (simp_all add: ex_fs_def)

lemma bc_ok_ex_fs: "bc_ok ex_fs {} {}"
proof -
  have t: "bc_ok (ex_tx 0) {} {}" using tx_ok_ex [of 0] by (simp add: tx_ok_def)
  have "bufs_ok (ex_bufs 0) (disk ex_fs) (pid (myproc ex_fs)) {} {}"
  proof (rule bufs_okI)
    show "\<exists>xs. lru (ex_bufs 0) xs \<and> set xs = {..<NBUF}" using lru_ex_bufs [of 0] by (intro exI [of _ "[0..<NBUF]"]) auto
  qed (simp_all add: ex_bufs_def initsleeplock_def ROOTDEV_def)
  moreover have "still ex_fs" using t by (simp add: bc_ok_def still_def ex_tx_def)
  ultimately show ?thesis by (simp add: bc_ok_def)
qed

lemma op_ok_ex_fs: "k < NBUF \<Longrightarrow> op_ok ex_fs {} {} k"
  using bc_ok_ex_fs by (simp add: op_ok_def pinned_def)

lemma view_ex_fs: "view ex_fs = disk ex_fs"
proof
  fix b
  show "view ex_fs b = disk ex_fs b" by (rule view_uncached) (simp add: ex_bufs_def)
qed

lemma BBLOCK_ex_fs: "c < 100 \<Longrightarrow> BBLOCK (of_nat c) (sb ex_fs) = 39"
  using BBLOCK_same(1) [of 0 c "sb ex_fs"] by (simp add: BPB_val BBLOCK_def)

lemma blk_free_ex_fs: "blk_free (view ex_fs) (sb ex_fs) 40" "\<forall>j < 40. \<not> blk_free (view ex_fs) (sb ex_fs) j"
proof -
  show "blk_free (view ex_fs) (sb ex_fs) 40"
    using BBLOCK_ex_fs [of 40] by (simp add: blk_free_def view_ex_fs bit_free_def BPB_val)
  have "(0xff :: uint8) = - 1" by simp
  then have "bit (0xff :: uint8) (j mod 8)" for j by (simp only: bit_minus_1_iff possible_bit_word) simp
  then show "\<forall>j < 40. \<not> blk_free (view ex_fs) (sb ex_fs) j"
    using BBLOCK_ex_fs by (auto simp: blk_free_def view_ex_fs bit_free_iff BPB_val)
qed

section \<open>Properties\<close>

text \<open>
  C6. \<^verbatim>\<open>balloc\<close> inside a transaction with room for its two blocks. It returns the first
  block that the bitmap has as free, and exactly two blocks change: the bitmap block, in
  that one bit, and the block itself, which is zeroed. If no block is free it returns 0
  and changes nothing.
\<close>

theorem balloc_correct:
  fixes s :: "'a fstate_scheme"
  assumes "op_ok s P {} (Suc (Suc (Suc k)))"
  defines "used b \<equiv> \<exists>e < unat (sb_size (sb s)). BBLOCK (of_nat e) (sb s) = b"
  shows "(\<forall>c < unat (sb_size (sb s)). blk_free (view s) (sb s) c \<and> (\<forall>j < c. \<not> blk_free (view s) (sb s) j) \<and> \<not> used (of_nat c) \<longrightarrow>
          (\<exists>s' P'. balloc ROOTDEV s = Ok (of_nat c, s') \<and> op_ok s' P' {} (Suc k) \<and> itable s' = itable s \<and> disk s' = disk s \<and>
             (\<forall>e < unat (sb_size (sb s)). blk_free (view s') (sb s') e \<longleftrightarrow> blk_free (view s) (sb s) e \<and> e \<noteq> c) \<and>
             (\<forall>i < BSIZE. view s' (of_nat c) i = 0) \<and>
             (\<forall>b. b \<noteq> of_nat c \<and> b \<noteq> BBLOCK (of_nat c) (sb s) \<longrightarrow> view s' b = view s b))) \<and>
         ((\<forall>c < unat (sb_size (sb s)). \<not> blk_free (view s) (sb s) c) \<longrightarrow>
          (\<exists>s'. balloc ROOTDEV s = Ok (0, s') \<and> view s' = view s \<and> itable s' = itable s \<and> op_ok s' P {} (Suc k)))"
proof (intro conjI allI impI)
  fix c assume c: "c < unat (sb_size (sb s))"
    "blk_free (view s) (sb s) c \<and> (\<forall>j < c. \<not> blk_free (view s) (sb s) j) \<and> \<not> used (of_nat c)"
  define w where "w = BBLOCK (of_nat c) (sb s)"
  have d: "of_nat c \<noteq> w" using c unfolding used_def w_def by metis
  obtain B n L P' where r: "balloc ROOTDEV s = Ok (of_nat c, logged s B n L)" "op_ok (logged s B n L) P' {} (Suc k)"
     "view (logged s B n L) = (view s)(w := set_used (c mod BPB) (view s w), of_nat c := zeroed (view s (of_nat c)))"
    using balloc_first [OF assms(1), of c] c d unfolding w_def by blast
  have free: "blk_free (view (logged s B n L)) (sb s) e \<longleftrightarrow> blk_free (view s) (sb s) e \<and> e \<noteq> c"
    if e: "e < unat (sb_size (sb s))" for e
  proof -
    have ne: "BBLOCK (of_nat e) (sb s) \<noteq> of_nat c" using c(2) e unfolding used_def by blast
    show ?thesis
    proof (cases "BBLOCK (of_nat e) (sb s) = w")
      case True
      then have "e div BPB = c div BPB" using BBLOCK_inj [of e "sb s" c] e c(1) unat_less_32 unfolding w_def
        by (meson less_trans)
      then have "e = c \<longleftrightarrow> e mod BPB = c mod BPB" by (metis mult_div_mod_eq)
      then show ?thesis using r(3) True ne d by (auto simp: blk_free_def bit_free_used)
    next
      case False
      then have "e \<noteq> c" unfolding w_def by blast
      then show ?thesis using r(3) False ne by (simp add: blk_free_def)
    qed
  qed
  have "\<forall>i < BSIZE. view (logged s B n L) (of_nat c) i = 0" using r(3) by (simp add: zeroed_def)
  moreover have "\<forall>b. b \<noteq> of_nat c \<and> b \<noteq> BBLOCK (of_nat c) (sb s) \<longrightarrow> view (logged s B n L) b = view s b"
    using r(3) by (simp add: w_def)
  ultimately show "\<exists>s' P'. balloc ROOTDEV s = Ok (of_nat c, s') \<and> op_ok s' P' {} (Suc k) \<and> itable s' = itable s \<and> disk s' = disk s \<and>
             (\<forall>e < unat (sb_size (sb s)). blk_free (view s') (sb s') e \<longleftrightarrow> blk_free (view s) (sb s) e \<and> e \<noteq> c) \<and>
             (\<forall>i < BSIZE. view s' (of_nat c) i = 0) \<and>
             (\<forall>b. b \<noteq> of_nat c \<and> b \<noteq> BBLOCK (of_nat c) (sb s) \<longrightarrow> view s' b = view s b)"
    using r(1,2) free by (intro exI [of _ "logged s B n L"] exI [of _ P']) simp
next
  assume "\<forall>c < unat (sb_size (sb s)). \<not> blk_free (view s) (sb s) c"
  from balloc_none [OF assms(1) this] obtain B where "balloc ROOTDEV s = Ok (0, s\<lparr>bufs := B\<rparr>)"
    "op_ok (s\<lparr>bufs := B\<rparr>) P {} (Suc (Suc (Suc k)))" "view (s\<lparr>bufs := B\<rparr>) = view s" by blast
  moreover from this(2) have "op_ok (s\<lparr>bufs := B\<rparr>) P {} (Suc k)" by (rule op_ok_less) simp
  ultimately show "\<exists>s'. balloc ROOTDEV s = Ok (0, s') \<and> view s' = view s \<and> itable s' = itable s \<and> op_ok s' P {} (Suc k)"
    by (intro exI [of _ "s\<lparr>bufs := B\<rparr>"]) simp
qed

theorem balloc_correct_witness:
  "\<exists>s'. balloc ROOTDEV ex_fs = Ok (40, s') \<and> (\<forall>i < BSIZE. view s' 40 i = 0)"
proof -
  have op: "op_ok ex_fs {} {} (Suc (Suc (Suc 0)))" using op_ok_ex_fs by (simp add: NBUF_def MAXOPBLOCKS_def)
  have "\<not> (\<exists>e < unat (sb_size (sb ex_fs)). BBLOCK (of_nat e) (sb ex_fs) = of_nat 40)" using BBLOCK_ex_fs by auto
  then show ?thesis
    using conjunct1 [OF balloc_correct [OF op], rule_format, of 40] blk_free_ex_fs by auto
qed

text \<open>
  C37. Freeing undoes allocating: a block that \<^verbatim>\<open>balloc\<close> handed out and \<^verbatim>\<open>bfree\<close> takes back
  leaves the bitmap as it was, so only the contents of the block differ, and freeing it
  a second time panics.
\<close>

theorem balloc_bfree_roundtrip:
  fixes s :: "'a fstate_scheme"
  assumes "op_ok s P {} (Suc (Suc (Suc (Suc (Suc k)))))" "c < unat (sb_size (sb s))" "blk_free (view s) (sb s) c"
    "\<forall>j < c. \<not> blk_free (view s) (sb s) j" "of_nat c \<noteq> BBLOCK (of_nat c) (sb s)"
  shows "\<exists>s1 s2. balloc ROOTDEV s = Ok (of_nat c, s1) \<and> bfree ROOTDEV (of_nat c) s1 = Ok s2 \<and>
     (\<forall>b. b \<noteq> of_nat c \<longrightarrow> view s2 b = view s b) \<and> bfree ROOTDEV (of_nat c) s2 = Panic ''freeing free block''"
proof -
  define w where "w = BBLOCK (of_nat c) (sb s)"
  have c: "c < 2 ^ 32" using assms(2) unat_less_32 [of "sb_size (sb s)"] by simp
  obtain B n L P' where r: "balloc ROOTDEV s = Ok (of_nat c, logged s B n L)" "op_ok (logged s B n L) P' {} (Suc (Suc (Suc k)))"
     "view (logged s B n L) = (view s)(w := set_used (c mod BPB) (view s w), of_nat c := zeroed (view s (of_nat c)))"
    using balloc_first [OF assms] unfolding w_def by blast
  have nf: "\<not> blk_free (view (logged s B n L)) (sb (logged s B n L)) c"
    using r(3) assms(5) by (simp add: blk_free_def w_def [symmetric] bit_free_used)
  obtain B2 n2 L2 P2 where f: "bfree ROOTDEV (of_nat c) (logged s B n L) = Ok (logged s B2 n2 L2)"
     "op_ok (logged s B2 n2 L2) P2 {} (Suc (Suc k))"
     "view (logged s B2 n2 L2) = (view (logged s B n L))(w := clear_used (c mod BPB) (view (logged s B n L) w))"
    using bfree_spec(2) [OF r(2) c nf] by (auto simp: w_def)
  have fr: "bit_free (view s w) (c mod BPB)" using assms(3) by (simp add: blk_free_def w_def)
  have v: "view (logged s B2 n2 L2) = (view s)(of_nat c := zeroed (view s (of_nat c)))"
    using f(3) r(3) assms(5) clear_set_used [OF fr] by (auto simp: w_def fun_eq_iff)
  then have "blk_free (view (logged s B2 n2 L2)) (sb (logged s B2 n2 L2)) c"
    using assms(3,5) by (simp add: blk_free_def)
  then have "bfree ROOTDEV (of_nat c) (logged s B2 n2 L2) = Panic ''freeing free block''"
    by (rule bfree_spec(1) [OF f(2) c])
  then show ?thesis using r(1) f(1) v by (intro exI [of _ "logged s B n L"] exI [of _ "logged s B2 n2 L2"]) simp
qed

theorem balloc_bfree_roundtrip_witness:
  "\<exists>s1 s2. balloc ROOTDEV ex_fs = Ok (40, s1) \<and> bfree ROOTDEV 40 s1 = Ok s2 \<and> (\<forall>b. b \<noteq> 40 \<longrightarrow> view s2 b = view ex_fs b)"
proof -
  have op: "op_ok ex_fs {} {} (Suc (Suc (Suc (Suc (Suc 0)))))" using op_ok_ex_fs by (simp add: NBUF_def MAXOPBLOCKS_def)
  show ?thesis
    using balloc_bfree_roundtrip [OF op, of 40] blk_free_ex_fs BBLOCK_ex_fs [of 40] by auto
qed

end
