(* ===== verification/Fs_Inodes.thy ===== *)
theory Fs_Inodes
  imports Fs_Blocks
begin

text \<open>Inodes: the table of references, and the copies of an inode in memory and on the disk.\<close>

section \<open>The inode table\<close>

text \<open>
  The table stands for the number of references to each inode. An entry with no
  references is free, and no inode has two entries.
\<close>

definition entry_of :: "uint32 \<Rightarrow> uint32 \<Rightarrow> inode \<Rightarrow> bool" where
  "entry_of dev inum p \<longleftrightarrow> i_ref p > 0 \<and> i_dev p = dev \<and> i_inum p = inum"

definition irefs :: "(nat \<Rightarrow> inode) \<Rightarrow> uint32 \<times> uint32 \<Rightarrow> int" where
  "irefs T key = (\<Sum>i < NINODE. if entry_of (fst key) (snd key) (T i) then i_ref (T i) else 0)"

definition itable_ok :: "(nat \<Rightarrow> inode) \<Rightarrow> bool" where
  "itable_ok T \<longleftrightarrow> (\<forall>i < NINODE. i_ref (T i) \<ge> 0) \<and>
     (\<forall>i < NINODE. \<forall>j < NINODE. \<forall>d n. entry_of d n (T i) \<longrightarrow> entry_of d n (T j) \<longrightarrow> i = j)"

lemma itable_okD:
  "itable_ok T \<Longrightarrow> i < NINODE \<Longrightarrow> j < NINODE \<Longrightarrow> entry_of d n (T i) \<Longrightarrow> entry_of d n (T j) \<Longrightarrow> i = j"
  unfolding itable_ok_def by blast

lemma iget_loop_found:
  "iget_loop T dev inum is e = (Some i, e') \<Longrightarrow> i \<in> set is \<and> entry_of dev inum (T i)"
  by (induction "is" arbitrary: e) (auto simp: entry_of_def split: if_splits)

lemma iget_loop_none:
  assumes "iget_loop T dev inum is e = (None, e')"
  shows "\<forall>i \<in> set is. \<not> entry_of dev inum (T i)"
    "e' = (case e of None \<Rightarrow> find (\<lambda>i. i_ref (T i) = 0) is | Some x \<Rightarrow> Some x)"
proof -
  show "\<forall>i \<in> set is. \<not> entry_of dev inum (T i)"
    using assms by (induction "is" arbitrary: e) (auto simp: entry_of_def split: if_splits)
  show "e' = (case e of None \<Rightarrow> find (\<lambda>i. i_ref (T i) = 0) is | Some x \<Rightarrow> Some x)"
    using assms
  proof (induction "is" arbitrary: e)
    case (Cons a "is")
    from Cons.prems have "iget_loop T dev inum is (if e = None \<and> i_ref (T a) = 0 then Some a else e) = (None, e')"
      by (auto split: if_splits)
    from Cons.IH [OF this] show ?case by (cases e) auto
  qed (auto split: option.splits)
qed

lemma irefs_upd:
  assumes "i < NINODE"
  shows "irefs (T(i := p)) key = irefs T key - (if entry_of (fst key) (snd key) (T i) then i_ref (T i) else 0) +
     (if entry_of (fst key) (snd key) p then i_ref p else 0)"
proof -
  let ?f = "\<lambda>T i. if entry_of (fst key) (snd key) (T i) then i_ref (T i) else 0"
  have s: "sum (?f T) {..<NINODE} = ?f T i + sum (?f T) ({..<NINODE} - {i})" for T
    using assms by (intro sum.remove) auto
  have "sum (?f (T(i := p))) ({..<NINODE} - {i}) = sum (?f T) ({..<NINODE} - {i})"
    by (intro sum.cong) auto
  then show ?thesis using s [of T] s [of "T(i := p)"] by (simp add: irefs_def)
qed

lemma itable_ok_upd:
  assumes ok: "itable_ok T" and i: "i < NINODE" and p: "i_ref p \<ge> 0"
    and u: "\<And>d n j. entry_of d n p \<Longrightarrow> j < NINODE \<Longrightarrow> entry_of d n (T j) \<Longrightarrow> j = i"
  shows "itable_ok (T(i := p))"
  unfolding itable_ok_def
proof (intro conjI allI impI)
  fix j assume "j < NINODE"
  then show "0 \<le> i_ref ((T(i := p)) j)" using ok p by (auto simp: itable_ok_def)
next
  fix a b d n assume ab: "a < NINODE" "b < NINODE" "entry_of d n ((T(i := p)) a)" "entry_of d n ((T(i := p)) b)"
  have two: "a = b" if "entry_of d n (T a)" "entry_of d n (T b)"
    using ok ab(1,2) that unfolding itable_ok_def by blast
  show "a = b"
    using ab two u by (metis fun_upd_other fun_upd_same)
qed

lemma irefs_zero: "\<forall>i < NINODE. \<not> entry_of d n (T i) \<Longrightarrow> irefs T (d, n) = 0"
  by (simp add: irefs_def)

lemma irefs_entry:
  assumes "itable_ok T" "i < NINODE" "entry_of d n (T i)"
  shows "irefs T (d, n) = i_ref (T i)"
proof -
  have "irefs T (d, n) = (\<Sum>j < NINODE. if j = i then i_ref (T i) else 0)"
    unfolding irefs_def using assms by (intro sum.cong) (auto simp: itable_ok_def)
  then show ?thesis using assms(2) by simp
qed

lemma iget_cases:
  assumes ok: "itable_ok (itable s)"
  obtains i where "i < NINODE" "entry_of dev inum (itable s i)"
      "iget dev inum s = Ok (i, upd_inode i (\<lambda>p. p\<lparr>i_ref := i_ref p + 1\<rparr>) s)"
  | i where "i < NINODE" "i_ref (itable s i) = 0" "\<forall>j < NINODE. \<not> entry_of dev inum (itable s j)"
      "iget dev inum s = Ok (i, upd_inode i (\<lambda>p. p\<lparr>i_dev := dev, i_inum := inum, i_ref := 1, i_valid := False\<rparr>) s)"
  | "\<forall>j < NINODE. i_ref (itable s j) \<noteq> 0 \<and> \<not> entry_of dev inum (itable s j)" "iget dev inum s = Panic ''iget: no inodes''"
proof (cases "iget_loop (itable s) dev inum [0..<NINODE] None")
  case (Pair f e)
  show ?thesis
  proof (cases f)
    case (Some i)
    then have "i < NINODE" "entry_of dev inum (itable s i)"
      using iget_loop_found [of "itable s" dev inum "[0..<NINODE]" None i e] Pair by auto
    then show ?thesis using that(1) Pair Some by (simp add: iget_def)
  next
    case None
    note N = iget_loop_none [OF Pair [unfolded None]]
    show ?thesis
    proof (cases e)
      case (Some i)
      then have "find (\<lambda>i. i_ref (itable s i) = 0) [0..<NINODE] = Some i" using N(2) by simp
      then have "i < NINODE" "i_ref (itable s i) = 0" by (auto dest: find_upt_Some)
      then show ?thesis using that(2) N(1) Pair None Some by (simp add: iget_def)
    next
      case None
      then have "\<forall>j < NINODE. i_ref (itable s j) \<noteq> 0" using N(2) by (auto simp: find_None_iff)
      then show ?thesis using that(3) N(1) Pair None \<open>f = None\<close> by (simp add: iget_def)
    qed
  qed
qed

text \<open>One more reference in entry \<open>i\<close>, which was that of the inode or free.\<close>

lemma iget_step:
  assumes ok: "itable_ok (itable s)" and i: "i < NINODE"
    and p: "i_ref p > 0" "i_dev p = dev" "i_inum p = inum"
    and old: "entry_of dev inum (itable s i) \<and> i_ref p = i_ref (itable s i) + 1 \<or>
      i_ref (itable s i) = 0 \<and> i_ref p = 1 \<and> (\<forall>j < NINODE. \<not> entry_of dev inum (itable s j))"
  shows "itable_ok ((itable s)(i := p))"
    "irefs ((itable s)(i := p)) = (irefs (itable s))((dev, inum) := irefs (itable s) (dev, inum) + 1)"
    "\<exists>s''. iget dev inum (s\<lparr>itable := (itable s)(i := p)\<rparr>) = Ok (i, s'')"
proof -
  have only: "entry_of d n p \<longleftrightarrow> d = dev \<and> n = inum" for d n using p by (auto simp: entry_of_def)
  have old_only: "entry_of d n (itable s i) \<Longrightarrow> d = dev \<and> n = inum" for d n using old by (auto simp: entry_of_def)
  show ok': "itable_ok ((itable s)(i := p))"
  proof (rule itable_ok_upd [OF ok i])
    fix d n j assume "entry_of d n p" "j < NINODE" "entry_of d n (itable s j)"
    then show "j = i" using only old ok i unfolding itable_ok_def by metis
  qed (use p in simp)
  show "irefs ((itable s)(i := p)) = (irefs (itable s))((dev, inum) := irefs (itable s) (dev, inum) + 1)"
  proof
    fix key :: "uint32 \<times> uint32"
    show "irefs ((itable s)(i := p)) key = ((irefs (itable s))((dev, inum) := irefs (itable s) (dev, inum) + 1)) key"
    proof (cases "key = (dev, inum)")
      case True
      have "(if entry_of dev inum (itable s i) then i_ref (itable s i) else 0) = i_ref p - 1" "entry_of dev inum p"
        using old p by (auto simp: entry_of_def)
      then show ?thesis using irefs_upd [OF i, of "itable s" p key] True by simp
    next
      case False
      then have "\<not> entry_of (fst key) (snd key) (itable s i)" "\<not> entry_of (fst key) (snd key) p"
        using only old_only by (metis prod.collapse)+
      then show ?thesis using irefs_upd [OF i, of "itable s" p key] False by simp
    qed
  qed
  have e: "entry_of dev inum (((itable s)(i := p)) i)" using only by simp
  let ?s = "s\<lparr>itable := (itable s)(i := p)\<rparr>"
  have ok2: "itable_ok (itable ?s)" using ok' by simp
  show "\<exists>s''. iget dev inum ?s = Ok (i, s'')"
    using ok2
  proof (cases rule: iget_cases [of ?s dev inum])
    case (1 j)
    have "entry_of dev inum (itable ?s i)" using e by simp
    from itable_okD [OF ok2 1(1) i 1(2) this] show ?thesis using 1(3) by blast
  qed (use e i in auto)
qed

text \<open>
  C36. The inode table counts references. \<^verbatim>\<open>iget\<close> returns the entry of the inode it is asked
  for with one reference more and leaves every other count alone; two calls for the same
  inode get the same entry, so an inode never has two copies in memory. It panics exactly
  if every entry is in use for another inode. \<^verbatim>\<open>idup\<close> adds one reference. Both keep the
  table well formed.
\<close>

theorem iget_counts:
  fixes s :: "'a fstate_scheme"
  assumes "itable_ok (itable s)"
  shows "(case iget dev inum s of
       Ok (i, s') \<Rightarrow> i < NINODE \<and> entry_of dev inum (itable s' i) \<and> itable_ok (itable s') \<and>
         irefs (itable s') = (irefs (itable s))((dev, inum) := irefs (itable s) (dev, inum) + 1) \<and>
         (\<forall>j. j \<noteq> i \<longrightarrow> itable s' j = itable s j) \<and> (\<exists>s''. iget dev inum s' = Ok (i, s''))
     | Panic e \<Rightarrow> irefs (itable s) (dev, inum) = 0 \<and> (\<forall>j < NINODE. 0 < i_ref (itable s j))
     | Loop \<Rightarrow> False) \<and>
   (\<forall>i d n. i < NINODE \<and> entry_of d n (itable s i) \<longrightarrow>
      itable_ok (itable (idup i s)) \<and> irefs (itable (idup i s)) = (irefs (itable s))((d, n) := irefs (itable s) (d, n) + 1))"
proof (intro conjI allI impI)
  note ok = assms
  show "case iget dev inum s of
       Ok (i, s') \<Rightarrow> i < NINODE \<and> entry_of dev inum (itable s' i) \<and> itable_ok (itable s') \<and>
         irefs (itable s') = (irefs (itable s))((dev, inum) := irefs (itable s) (dev, inum) + 1) \<and>
         (\<forall>j. j \<noteq> i \<longrightarrow> itable s' j = itable s j) \<and> (\<exists>s''. iget dev inum s' = Ok (i, s''))
     | Panic e \<Rightarrow> irefs (itable s) (dev, inum) = 0 \<and> (\<forall>j < NINODE. 0 < i_ref (itable s j))
     | Loop \<Rightarrow> False"
    using ok
  proof (cases rule: iget_cases [of s dev inum])
    case (1 i)
    then show ?thesis using iget_step [OF ok 1(1), where dev = dev and inum = inum and p = "(itable s i)\<lparr>i_ref := i_ref (itable s i) + 1\<rparr>"]
      by (simp add: upd_inode_def entry_of_def)
  next
    case (2 i)
    then show ?thesis
      using iget_step [OF ok 2(1), where dev = dev and inum = inum and p = "(itable s i)\<lparr>i_dev := dev, i_inum := inum, i_ref := 1, i_valid := False\<rparr>"]
      by (simp add: upd_inode_def entry_of_def)
  next
    case 3
    then have "\<forall>j < NINODE. 0 < i_ref (itable s j)" using ok by (metis itable_ok_def order_le_less)
    then show ?thesis using 3 irefs_zero by simp
  qed
next
  fix i d n assume i: "i < NINODE \<and> entry_of d n (itable s i)"
  then show "itable_ok (itable (idup i s))"
    "irefs (itable (idup i s)) = (irefs (itable s))((d, n) := irefs (itable s) (d, n) + 1)"
    using iget_step [OF assms, where i = i and dev = d and inum = n and p = "(itable s i)\<lparr>i_ref := i_ref (itable s i) + 1\<rparr>"]
    by (simp_all add: idup_def upd_inode_def entry_of_def)
qed

lemma itable_ok_ex_fs: "itable_ok (itable ex_fs)"
  by (simp add: itable_ok_def ex_fs_def entry_of_def)

theorem iget_counts_witness: "\<exists>i s'. iget ROOTDEV 1 ex_fs = Ok (i, s') \<and> irefs (itable s') (ROOTDEV, 1) = 1"
proof -
  have "irefs (itable ex_fs) (ROOTDEV, 1) = 0" by (rule irefs_zero) (simp add: ex_fs_def entry_of_def)
  moreover have "0 < NINODE" "\<not> 0 < i_ref (itable ex_fs 0)" by (simp_all add: NINODE_def ex_fs_def)
  ultimately show ?thesis
    using conjunct1 [OF iget_counts [OF itable_ok_ex_fs, of ROOTDEV 1]] by (auto split: res.splits)
qed

section \<open>Inodes on the disk\<close>

lemma get16_put [simp]:
  "get16 (put16 off v d) off = v"
  "o' + 2 \<le> off \<or> off + 2 \<le> o' \<Longrightarrow> get16 (put16 off v d) o' = get16 d o'"
  "o' + 2 \<le> off \<or> off + 4 \<le> o' \<Longrightarrow> get16 (put32 off w d) o' = get16 d o'"
proof -
  show "get16 (put16 off v d) off = v"
    unfolding get16_def put16_def by (rule bit_word_eqI) (auto simp: bit_simps)
qed (auto simp: get16_def put16_def put32_def)

lemma get32_put [simp]:
  "o' + 4 \<le> off \<or> off + 2 \<le> o' \<Longrightarrow> get32 (put16 off v d) o' = get32 d o'"
  "o' + 4 \<le> off \<or> off + 4 \<le> o' \<Longrightarrow> get32 (put32 off w d) o' = get32 d o'"
  by (auto simp: get32_def put16_def put32_def)

lemma put_addrs_fold:
  fixes d off a
  defines "D m \<equiv> fold (\<lambda>i. put32 (off + 12 + 4 * i) (a i)) [0..<m] d"
  shows "k < m \<Longrightarrow> get32 (D m) (off + 12 + 4 * k) = a k"
    "o' + 4 \<le> off + 12 \<Longrightarrow> get32 (D m) o' = get32 d o'"
    "o' + 2 \<le> off + 12 \<Longrightarrow> get16 (D m) o' = get16 d o'"
    "x < off + 12 \<or> off + 12 + 4 * m \<le> x \<Longrightarrow> D m x = d x"
proof -
  show "k < m \<Longrightarrow> get32 (D m) (off + 12 + 4 * k) = a k" by (induction m) (auto simp: D_def less_Suc_eq)
  show "o' + 4 \<le> off + 12 \<Longrightarrow> get32 (D m) o' = get32 d o'" by (induction m) (auto simp: D_def)
  show "o' + 2 \<le> off + 12 \<Longrightarrow> get16 (D m) o' = get16 d o'" by (induction m) (auto simp: D_def)
  show "x < off + 12 \<or> off + 12 + 4 * m \<le> x \<Longrightarrow> D m x = d x" by (induction m) (auto simp: D_def put32_def)
qed

text \<open>The inode \<open>inum\<close> in the contents \<open>v\<close> of a disk; it has \<^verbatim>\<open>NDIRECT+1\<close> addresses.\<close>

definition clip :: "dinode \<Rightarrow> dinode" where
  "clip x = x\<lparr>di_addrs := (\<lambda>k. if k \<le> NDIRECT then di_addrs x k else 0)\<rparr>"

definition dinode_at :: "(uint32 \<Rightarrow> block) \<Rightarrow> superblock \<Rightarrow> uint32 \<Rightarrow> dinode" where
  "dinode_at v b inum = clip (get_dinode (v (IBLOCK inum b)) (dinode_off inum))"

lemma get_put_dinode: "clip (get_dinode (put_dinode off x d) off) = clip x"
  by (rule dinode.equality)
    (auto simp: clip_def get_dinode_def put_dinode_def put_addrs_def get_addrs_def put_addrs_fold fun_eq_iff simp del: upt_Suc)

lemma put_dinode_outside: "x < off \<or> off + 64 \<le> x \<Longrightarrow> put_dinode off y d x = d x"
  by (auto simp: put_dinode_def put_addrs_def put_addrs_fold(4) put16_def put32_def NDIRECT_def simp del: upt_Suc)

lemma get_dinode_cong:
  assumes "\<And>x. off \<le> x \<Longrightarrow> x < off + 64 \<Longrightarrow> d' x = d x"
  shows "clip (get_dinode d' off) = clip (get_dinode d off)"
  by (rule dinode.equality)
    (auto simp: clip_def get_dinode_def get_addrs_def get16_def get32_def fun_eq_iff NDIRECT_def assms)

lemma get_put_dinode_other:
  assumes "off + 64 \<le> off' \<or> off' + 64 \<le> off"
  shows "clip (get_dinode (put_dinode off' x d) off) = clip (get_dinode d off)"
  by (rule get_dinode_cong, rule put_dinode_outside) (use assms in auto)

lemma IPB_val: "IPB = 16" "sizeof_dinode = 64"
  by (simp_all add: IPB_def sizeof_dinode_def BSIZE_def NDIRECT_def)

lemma unat_16: "unat (16 :: uint32) = 16"
  by simp

lemma dinode_off_apart:
  assumes "IBLOCK j b = IBLOCK i b" "j \<noteq> i"
  shows "dinode_off j + 64 \<le> dinode_off i \<or> dinode_off i + 64 \<le> dinode_off j"
proof -
  have "j div 16 = i div 16" using assms(1) by (simp add: IBLOCK_def IPB_val)
  then have "unat j div 16 = unat i div 16" by (metis unat_div unat_16)
  moreover have "unat j \<noteq> unat i" using assms(2) by (simp add: word_unat_eq_iff)
  ultimately have "unat j mod 16 \<noteq> unat i mod 16" by (metis div_mult_mod_eq)
  then show ?thesis unfolding dinode_off_def IPB_val by linarith
qed

lemma op_ok_cong:
  assumes "bufs s' = bufs s" "disk s' = disk s" "pt s' = pt s" "cur s' = cur s"
    "lhn s' = lhn s" "lhblock s' = lhblock s" "outstanding s' = outstanding s"
  shows "op_ok s' = op_ok s"
  by (rule ext)+ (simp only: op_ok_def pinned_def bc_ok_cong [OF assms(1-4)] assms)

lemma op_ok_inode [simp]: "op_ok (upd_inode ip f s) = op_ok s"
  by (rule op_ok_cong) (simp_all add: upd_inode_def)

lemma view_inode [simp]: "view (upd_inode ip f s) = view s"
  by (rule view_cong) (simp_all add: upd_inode_def)

lemma iupdate_spec:
  fixes s :: "'a fstate_scheme"
  assumes op: "op_ok s P {} (Suc (Suc k))" and dev: "i_dev (itable s ip) = ROOTDEV"
  defines "b \<equiv> IBLOCK (i_inum (itable s ip)) (sb s)"
  shows "\<exists>B n L P'. iupdate ip s = Ok (logged s B n L) \<and> op_ok (logged s B n L) P' {} (Suc k) \<and>
     view (logged s B n L) = (view s)(b := put_dinode (dinode_off (i_inum (itable s ip))) (inode_disk (itable s ip)) (view s b))"
proof -
  obtain i B where r: "bread ROOTDEV b s = Ok (i, s\<lparr>bufs := B\<rparr>)" "bdata (B i) = view s b"
      "\<forall>d. \<exists>B' n L P'. log_release i (set_data i d (s\<lparr>bufs := B\<rparr>)) = Ok (logged s B' n L) \<and>
        op_ok (logged s B' n L) P' {} (Suc k) \<and> view (logged s B' n L) = (view s)(b := d)"
    using op_update [OF op, of b] by auto
  from r(3) [rule_format, of "put_dinode (dinode_off (i_inum (itable s ip))) (inode_disk (itable s ip)) (view s b)"]
  show ?thesis using r(1,2) dev by (auto simp: iupdate_def b_def)
qed

text \<open>Locking an inode that has not been read yet.\<close>

lemma ilock_reads:
  fixes s :: "'a fstate_scheme"
  assumes op: "op_ok s P {} (Suc k)" and q: "1 \<le> i_ref (itable s q)" "\<not> slocked (i_lock (itable s q))" "\<not> i_valid (itable s q)"
    and dev: "i_dev (itable s q) = ROOTDEV" and ty: "di_type (dinode_at (view s) (sb s) (i_inum (itable s q))) \<noteq> 0"
  shows "\<exists>s'. ilock (Some q) s = Ok s' \<and> op_ok s' P {} (Suc k) \<and> view s' = view s \<and>
     clip (inode_disk (itable s' q)) = dinode_at (view s) (sb s) (i_inum (itable s q)) \<and>
     i_valid (itable s' q) \<and> holdingsleep (i_lock (itable s' q)) s' \<and> (\<forall>j. j \<noteq> q \<longrightarrow> itable s' j = itable s j)"
proof -
  define s1 where "s1 = upd_inode q (\<lambda>p. p\<lparr>i_lock := take_lock (pid (myproc s)) (i_lock p)\<rparr>) s"
  define b where "b = IBLOCK (i_inum (itable s q)) (sb s)"
  define x where "x = get_dinode (view s b) (dinode_off (i_inum (itable s q)))"
  have lk: "lock_inode q s = Ok s1" using q(2) by (simp add: lock_inode_def acquiresleep_def s1_def upd_inode_def)
  have op1: "op_ok s1 P {} (Suc k)" "view s1 = view s" using op by (simp_all add: s1_def)
  obtain i B where r: "bread ROOTDEV b s1 = Ok (i, s1\<lparr>bufs := B\<rparr>)" "blockno (B i) = b" "bdata (B i) = view s b"
      "op_ok (s1\<lparr>bufs := B\<rparr>) P {i} k" "view (s1\<lparr>bufs := B\<rparr>) = view s" "i \<notin> P \<longrightarrow> view s b = disk s1 b"
    using op_bread [OF op1(1), of b] op1(2) by auto
  define s2 where "s2 = upd_inode q (load_dinode x) (s1\<lparr>bufs := B\<rparr>)"
  have s2: "op_ok s2 P {i} k" "view s2 = view s" "bufs s2 = B" "disk s2 = disk s1" "myproc s2 = myproc s"
    using r(4,5) by (simp_all add: s2_def s1_def) (simp_all add: upd_inode_def myproc_def me_def)
  obtain B' where e: "brelse i s2 = Ok (s2\<lparr>bufs := B'\<rparr>)" "op_ok (s2\<lparr>bufs := B'\<rparr>) P {} (Suc k)"
      "view (s2\<lparr>bufs := B'\<rparr>) = view s"
    using op_brelse [OF s2(1), of i] s2 r(2,3,6) by auto
  define s' where "s' = upd_inode q (\<lambda>p. p\<lparr>i_valid := True\<rparr>) (s2\<lparr>bufs := B'\<rparr>)"
  have I: "itable s' q = (load_dinode x (itable s q))\<lparr>i_lock := take_lock (pid (myproc s)) (i_lock (itable s q)), i_valid := True\<rparr>"
    by (rule inode.equality) (simp_all add: s'_def s2_def s1_def upd_inode_def load_dinode_def cong: if_cong)
  have at: "dinode_at (view s) (sb s) (i_inum (itable s q)) = clip x" by (simp add: dinode_at_def x_def b_def)
  then have "i_type (itable s' q) \<noteq> 0" using ty by (simp add: I load_dinode_def clip_def)
  then have "ilock (Some q) s = Ok s'"
    using q dev lk r(1,3) e(1)
    by (simp add: ilock_def s1_def [symmetric] s2_def x_def b_def s'_def Let_def)
      (simp add: s1_def s2_def upd_inode_def)
  moreover have "clip (inode_disk (itable s' q)) = clip x"
    by (rule dinode.equality) (simp_all add: I clip_def inode_disk_def load_dinode_def fun_eq_iff)
  moreover have "holdingsleep (i_lock (itable s' q)) s'" "\<forall>j. j \<noteq> q \<longrightarrow> itable s' j = itable s j"
    by (simp_all add: I holdingsleep_def take_lock_def)
      (simp_all add: s'_def s2_def s1_def upd_inode_def myproc_def me_def)
  ultimately show ?thesis
    using e(2,3) I at by (intro exI [of _ s']) (simp add: s'_def)
qed

text \<open>
  C15. The copies of an inode agree. \<^verbatim>\<open>iupdate\<close> writes the fields of the entry to the place of
  that inode on the disk and to no other inode, and an \<^verbatim>\<open>ilock\<close> that has to read the inode
  again gets back exactly the fields that were written.
\<close>

theorem iupdate_ilock_roundtrip:
  fixes s :: "'a fstate_scheme"
  assumes "op_ok s P {} (Suc (Suc k))" "i_dev (itable s ip) = ROOTDEV"
  defines "inum \<equiv> i_inum (itable s ip)"
  shows "\<exists>s'. iupdate ip s = Ok s' \<and> itable s' = itable s \<and> sb s' = sb s \<and>
     dinode_at (view s') (sb s) inum = clip (inode_disk (itable s ip)) \<and>
     (\<forall>j. j \<noteq> inum \<longrightarrow> dinode_at (view s') (sb s) j = dinode_at (view s) (sb s) j) \<and>
     (\<forall>q x. x = itable s q \<and> 1 \<le> i_ref x \<and> i_dev x = ROOTDEV \<and> i_inum x = inum \<and> \<not> i_valid x \<and> \<not> slocked (i_lock x) \<and>
        i_type (itable s ip) \<noteq> 0 \<longrightarrow>
        (\<exists>s''. ilock (Some q) s' = Ok s'' \<and> clip (inode_disk (itable s'' q)) = clip (inode_disk (itable s ip))))"
proof -
  define b where "b = IBLOCK inum (sb s)"
  obtain B n L P' where u: "iupdate ip s = Ok (logged s B n L)" "op_ok (logged s B n L) P' {} (Suc k)"
     "view (logged s B n L) = (view s)(b := put_dinode (dinode_off inum) (inode_disk (itable s ip)) (view s b))"
    using iupdate_spec [OF assms(1,2)] unfolding inum_def b_def by blast
  have own: "dinode_at (view (logged s B n L)) (sb s) inum = clip (inode_disk (itable s ip))"
    unfolding dinode_at_def u(3) b_def [symmetric] by (simp add: get_put_dinode)
  have "dinode_at (view (logged s B n L)) (sb s) j = dinode_at (view s) (sb s) j" if "j \<noteq> inum" for j
  proof (cases "IBLOCK j (sb s) = b")
    case True
    then have "dinode_off j + 64 \<le> dinode_off inum \<or> dinode_off inum + 64 \<le> dinode_off j"
      using dinode_off_apart that unfolding b_def by blast
    then show ?thesis unfolding dinode_at_def u(3) True by (simp add: get_put_dinode_other)
  qed (simp add: dinode_at_def u(3))
  moreover have "\<exists>s''. ilock (Some q) (logged s B n L) = Ok s'' \<and> clip (inode_disk (itable s'' q)) = clip (inode_disk (itable s ip))"
    if "1 \<le> i_ref (itable s q)" "i_dev (itable s q) = ROOTDEV" "i_inum (itable s q) = inum" "\<not> i_valid (itable s q)"
      "\<not> slocked (i_lock (itable s q))" "i_type (itable s ip) \<noteq> 0" for q
    using ilock_reads [OF u(2), of q] that own by (auto simp: clip_def inode_disk_def)
  ultimately show ?thesis using u(1) own by (intro exI [of _ "logged s B n L"]) auto
qed

text \<open>An inode table with an entry for inode 5, to be written.\<close>

definition ex_inode :: fstate where
  "ex_inode = upd_inode 0 (\<lambda>p. p\<lparr>i_dev := ROOTDEV, i_inum := 5, i_ref := 1, i_type := T_FILE, i_nlink := 1, i_size := 77\<rparr>) ex_fs"

theorem iupdate_ilock_roundtrip_witness:
  "\<exists>s' s''. iupdate 0 ex_inode = Ok s' \<and> ilock (Some 0) s' = Ok s'' \<and> i_size (itable s'' 0) = 77"
proof -
  have op: "op_ok ex_inode {} {} (Suc (Suc 0))"
    using op_ok_ex_fs [of "Suc (Suc 0)"] by (simp add: ex_inode_def NBUF_def MAXOPBLOCKS_def)
  have x: "itable ex_inode 0 = (itable ex_fs 0)\<lparr>i_dev := ROOTDEV, i_inum := 5, i_ref := 1, i_type := T_FILE, i_nlink := 1, i_size := 77\<rparr>"
    by (simp add: ex_inode_def upd_inode_def)
  have dev: "i_dev (itable ex_inode 0) = ROOTDEV" by (simp add: x)
  from iupdate_ilock_roundtrip [OF op dev] obtain s' where u: "iupdate 0 ex_inode = Ok s'"
      and all: "\<forall>q x. x = itable ex_inode q \<and> 1 \<le> i_ref x \<and> i_dev x = ROOTDEV \<and> i_inum x = i_inum (itable ex_inode 0) \<and>
        \<not> i_valid x \<and> \<not> slocked (i_lock x) \<and> i_type (itable ex_inode 0) \<noteq> 0 \<longrightarrow>
        (\<exists>s''. ilock (Some q) s' = Ok s'' \<and> clip (inode_disk (itable s'' q)) = clip (inode_disk (itable ex_inode 0)))" by blast
  from all [rule_format, of "itable ex_inode 0" 0] obtain s'' where
    "ilock (Some 0) s' = Ok s''" "clip (inode_disk (itable s'' 0)) = clip (inode_disk (itable ex_inode 0))"
    using x by (auto simp: ex_fs_def initsleeplock_def T_FILE_def)
  moreover from this(2) have "i_size (itable s'' 0) = 77"
    using x by (auto simp: clip_def inode_disk_def)
  ultimately show ?thesis using u by blast
qed

end
