(* ===== verification/Fs_Read.thy ===== *)
theory Fs_Read
  imports Fs_Inodes
begin

text \<open>
  Reading files: the bytes of a file as \<^verbatim>\<open>bmap\<close> finds them in the blocks, and what \<^verbatim>\<open>readi\<close>
  copies to kernel memory.
\<close>

section \<open>The bytes of a file\<close>

definition fblock :: "'a fstate_scheme \<Rightarrow> nat \<Rightarrow> nat \<Rightarrow> uint32" where
  "fblock s ip bn =
     (let a = i_addrs (itable s ip)
      in if bn < NDIRECT then a bn
         else if a NDIRECT = 0 then 0 else get32 (view s (a NDIRECT)) (4 * (bn - NDIRECT)))"

definition fbyte :: "'a fstate_scheme \<Rightarrow> nat \<Rightarrow> nat \<Rightarrow> uint8" where
  "fbyte s ip k = view s (fblock s ip (k div BSIZE)) (k mod BSIZE)"

text \<open>Every block that holds a byte before position \<open>e\<close> has been allocated.\<close>

definition mapped_to :: "'a fstate_scheme \<Rightarrow> nat \<Rightarrow> nat \<Rightarrow> bool" where
  "mapped_to s ip e \<longleftrightarrow> e \<le> MAXFILE * BSIZE \<and> (\<forall>k < e. fblock s ip (k div BSIZE) \<noteq> 0)"

text \<open>The \<open>n\<close> bytes at \<open>dst\<close> are not part of the data of a buffer.\<close>

definition in_bufs :: "'a fstate_scheme \<Rightarrow> addr \<Rightarrow> bool" where
  "in_bufs s a \<longleftrightarrow> (\<exists>i < NBUF. unat (a - bufaddr s i) < BSIZE)"

definition off_bufs :: "'a fstate_scheme \<Rightarrow> addr \<Rightarrow> nat \<Rightarrow> bool" where
  "off_bufs s dst n \<longleftrightarrow> unat dst + n \<le> 2 ^ 32 \<and> (\<forall>j < n. \<not> in_bufs s (dst + of_nat j)) \<and>
     (\<forall>i < NBUF. unat (bufaddr s i) + BSIZE \<le> 2 ^ 32)"

section \<open>States that differ in the cache and in memory\<close>

definition rd :: "'a fstate_scheme \<Rightarrow> (nat \<Rightarrow> buf) \<Rightarrow> mem \<Rightarrow> 'a fstate_scheme" where
  "rd s B m = s\<lparr>bufs := B, km := (km s)\<lparr>phys := m\<rparr>\<rparr>"

lemma rd_rd [simp]: "rd (rd s B m) B' m' = rd s B' m'"
  by (rule fstate.equality) (simp_all add: rd_def)

lemma rd_bufs [simp]: "(rd s B m)\<lparr>bufs := B'\<rparr> = rd s B' m"
  by (rule fstate.equality) (simp_all add: rd_def)

lemma bufs_rd: "(s :: 'a fstate_scheme)\<lparr>bufs := B\<rparr> = rd s B (phys (km s))"
  by (rule fstate.equality) (simp_all add: rd_def)

lemma rd_phys: "(rd s B m)\<lparr>km := (km (rd s B m))\<lparr>phys := m'\<rparr>\<rparr> = rd s B m'"
  by (rule fstate.equality) (simp_all add: rd_def)

lemma rd_sels [simp]:
  "bufs (rd s B m) = B" "disk (rd s B m) = disk s" "phys (km (rd s B m)) = m" "itable (rd s B m) = itable s"
  "sb (rd s B m) = sb s" "bufaddr (rd s B m) = bufaddr s" "pt (rd s B m) = pt s" "cur (rd s B m) = cur s"
  "klocal (rd s B m) = klocal s"
  by (simp_all add: rd_def)

lemma in_bufs_rd [simp]: "in_bufs (rd s B m) = in_bufs s" "off_bufs (rd s B m) = off_bufs s"
  by (simp_all add: in_bufs_def off_bufs_def fun_eq_iff)

lemma fblock_rd:
  assumes "view (rd s B m) = view s"
  shows "fblock (rd s B m) = fblock s" "fbyte (rd s B m) = fbyte s" "mapped_to (rd s B m) = mapped_to s"
proof -
  show "fblock (rd s B m) = fblock s" by (intro ext) (simp only: fblock_def rd_sels assms)
  then show "fbyte (rd s B m) = fbyte s" "mapped_to (rd s B m) = mapped_to s"
    by (intro ext, simp only: fbyte_def mapped_to_def assms)+
qed

lemma view_rd_mem: "view (rd s B m) = view (rd s B m')"
  by (rule view_cong) simp_all

lemma bc_rd_mem: "bc_ok (rd s B m) = bc_ok (rd s B m')"
  by (rule bc_ok_cong) simp_all

lemma bc_ok_same: "bc_ok (rd s (bufs s) m) = bc_ok s"
  by (rule bc_ok_cong) simp_all

lemma view_same: "view (rd s (bufs s) m) = view s"
  by (rule view_cong) simp_all

section \<open>One block\<close>

lemma rd_bread:
  fixes s :: "'a fstate_scheme"
  assumes ok: "bc_ok s P {}" and room: "card P < NBUF"
  shows "\<exists>i B. bread ROOTDEV b s = Ok (i, rd s B (phys (km s))) \<and> i < NBUF \<and> bdata (B i) = view s b \<and>
     view (rd s B (phys (km s))) = view s \<and>
     (\<forall>m. \<exists>B'. brelse i (rd s B m) = Ok (rd s B' m) \<and> bc_ok (rd s B' m) P {} \<and> view (rd s B' m) = view s)"
proof -
  obtain i B where r: "bread ROOTDEV b s = Ok (i, s\<lparr>bufs := B\<rparr>)" "i < NBUF" "blockno (B i) = b" "bdata (B i) = view s b"
      "bc_ok (s\<lparr>bufs := B\<rparr>) P {i}" "view (s\<lparr>bufs := B\<rparr>) = view s" "\<forall>j \<in> P. cached s j b \<longleftrightarrow> j = i"
    using bread_ex [OF ok, of b] room by auto
  have clean: "i \<in> P \<or> bdata (B i) = disk s b"
    using view_clean_held [OF ok, of b] r(4,7) by auto
  have "\<exists>B'. brelse i (rd s B m) = Ok (rd s B' m) \<and> bc_ok (rd s B' m) P {} \<and> view (rd s B' m) = view s" for m
  proof -
    have "bc_ok (rd s B m) P {i}" "view (rd s B m) = view s"
      using r(5,6) bc_rd_mem [of s B m "phys (km s)"] view_rd_mem [of s B m "phys (km s)"] by (simp_all add: bufs_rd)
    with brelse_ex [of "rd s B m" P "{i}" i] clean r(3) show ?thesis by auto
  qed
  then show ?thesis using r by (auto simp: bufs_rd)
qed

lemma bmap_mapped:
  fixes s :: "'a fstate_scheme"
  assumes ok: "bc_ok s P {}" "card P < NBUF" and dev: "i_dev (itable s ip) = ROOTDEV"
    and bn: "bn < MAXFILE" "fblock s ip bn \<noteq> 0"
  shows "\<exists>B. bmap ip bn s = Ok (fblock s ip bn, rd s B (phys (km s))) \<and> bc_ok (rd s B (phys (km s))) P {} \<and>
     view (rd s B (phys (km s))) = view s"
proof (cases "bn < NDIRECT")
  case True
  then have "bmap ip bn s = Ok (fblock s ip bn, rd s (bufs s) (phys (km s)))"
    using bn by (simp add: bmap_def bmap_alloc_def fblock_def bufs_rd [symmetric])
  then show ?thesis using ok by (intro exI [of _ "bufs s"]) (simp add: bc_ok_same view_same)
next
  case False
  let ?a = "i_addrs (itable s ip) NDIRECT" and ?m = "phys (km s)"
  have a: "?a \<noteq> 0" "get32 (view s ?a) (4 * (bn - NDIRECT)) = fblock s ip bn" "bn - NDIRECT < NINDIRECT"
    using bn False by (auto simp: fblock_def MAXFILE_def Let_def split: if_splits)
  obtain i B where r: "bread ROOTDEV ?a s = Ok (i, rd s B ?m)" "bdata (B i) = view s ?a"
      "\<forall>m. \<exists>B'. brelse i (rd s B m) = Ok (rd s B' m) \<and> bc_ok (rd s B' m) P {} \<and> view (rd s B' m) = view s"
    using rd_bread [OF ok, of ?a] by blast
  from r(3) [rule_format, of ?m] obtain B' where
    "brelse i (rd s B ?m) = Ok (rd s B' ?m)" "bc_ok (rd s B' ?m) P {}" "view (rd s B' ?m) = view s" by blast
  with r(1,2) a False bn(2) dev show ?thesis
    by (intro exI [of _ B']) (simp add: bmap_def bmap_alloc_def)
qed

section \<open>The loop\<close>

text \<open>The memory that a turn of the loop leaves.\<close>

lemma expose_rd: "expose_buf i (rd s B m) = rd s B (\<lambda>a. let k = unat (a - bufaddr s i) in if k < BSIZE then bdata (B i) k else m a)"
  by (rule fstate.equality) (simp_all add: expose_buf_def rd_def Let_def cong: if_cong)

lemma chunk_facts:
  assumes "tot < n"
  shows "unat (chunk n tot off) \<le> unat (n - tot)" "unat off mod BSIZE + unat (chunk n tot off) \<le> BSIZE"
    "0 < unat (chunk n tot off)" "unat (off mod of_nat BSIZE) = unat off mod BSIZE"
proof -
  have b: "unat (of_nat BSIZE :: uint32) = BSIZE" by (simp add: BSIZE_def)
  show m: "unat (off mod of_nat BSIZE) = unat off mod BSIZE" by (simp add: unat_mod b)
  have le: "off mod of_nat BSIZE < (of_nat BSIZE :: uint32)" by (simp add: BSIZE_def word_mod_less_divisor)
  then have u: "unat (of_nat BSIZE - off mod of_nat BSIZE) = BSIZE - unat off mod BSIZE"
    using unat_sub [of "off mod of_nat BSIZE" "of_nat BSIZE :: uint32"] by (simp add: m b word_less_nat_alt word_le_nat_alt)
  show "unat (chunk n tot off) \<le> unat (n - tot)" by (simp add: chunk_def min_def word_le_nat_alt)
  show "unat off mod BSIZE + unat (chunk n tot off) \<le> BSIZE"
    using u le by (auto simp: chunk_def min_def word_le_nat_alt word_less_nat_alt m b)
  show "0 < unat (chunk n tot off)"
    using chunk_progress [OF assms, of off] by (metis add.right_neutral less_irrefl not_gr_zero unat_eq_zero)
qed

definition turn_mem :: "'a fstate_scheme \<Rightarrow> nat \<Rightarrow> block \<Rightarrow> addr \<Rightarrow> uint32 \<Rightarrow> uint32 \<Rightarrow> mem \<Rightarrow> mem" where
  "turn_mem s i d dst o' c m =
     memmove (\<lambda>a. let k = unat (a - bufaddr s i) in if k < BSIZE then d k else m a) dst (bufaddr s i + o') c"

lemma turn_mem_eq:
  assumes i: "i < NBUF" and off: "off_bufs s dst (unat c)" and o': "unat o' + unat c \<le> BSIZE"
  shows "unat a < unat dst \<or> unat dst + unat c \<le> unat a \<Longrightarrow> \<not> in_bufs s a \<Longrightarrow> turn_mem s i d dst o' c m a = m a"
    "j < unat c \<Longrightarrow> turn_mem s i d dst o' c m (dst + of_nat j) = d (unat o' + j)"
proof -
  have r: "unat dst + unat c \<le> 4294967296" "unat (bufaddr s i) + BSIZE \<le> 4294967296"
    using off i by (auto simp: off_bufs_def)
  have src: "unat (bufaddr s i + o') + unat c \<le> 4294967296" if "0 < unat c"
  proof -
    have "unat (bufaddr s i) + unat o' < 2 ^ 32" using r(2) o' that by simp
    then have "unat (bufaddr s i + o') = unat (bufaddr s i) + unat o'" by (simp add: unat_word_ariths)
    then show ?thesis using r(2) o' by linarith
  qed
  note eq = memmove_eq [OF r(1) src]
  show "turn_mem s i d dst o' c m a = m a" if "unat a < unat dst \<or> unat dst + unat c \<le> unat a" "\<not> in_bufs s a"
  proof -
    have "\<not> unat (a - bufaddr s i) < BSIZE" using that(2) i by (auto simp: in_bufs_def)
    moreover have "\<not> (unat dst \<le> unat a \<and> unat a < unat dst + unat c)" using that(1) by linarith
    moreover have "memmove g dst (bufaddr s i + o') c a = g a" if "c = 0" for g using that by (simp add: memmove_def)
    ultimately show ?thesis by (cases "c = 0") (auto simp: turn_mem_def eq unat_gt_0)
  qed
  show "turn_mem s i d dst o' c m (dst + of_nat j) = d (unat o' + j)" if "j < unat c"
  proof -
    have c: "0 < unat c" using that by linarith
    have j: "unat (of_nat j :: uint32) = j" using that unat_less_32 [of c] by (intro unat_of_nat_small32) simp
    have "unat (dst + of_nat j) = unat dst + j" using r(1) that by (simp add: unat_word_ariths j)
    moreover have "unat (o' + of_nat j) = unat o' + j" using o' that by (simp add: unat_word_ariths j BSIZE_def)
    moreover have "bufaddr s i + o' + (dst + of_nat j - dst) - bufaddr s i = o' + of_nat j" by simp
    ultimately show ?thesis using that o' by (simp add: turn_mem_def eq [OF c] Let_def)
  qed
qed

lemma readi_turn:
  fixes s :: "'a fstate_scheme"
  assumes ok: "bc_ok s P {}" "card P < NBUF" and dev: "i_dev (itable s ip) = ROOTDEV" and tot: "tot < n"
    and mp: "mapped_to s ip (unat off + unat (n - tot))"
  defines "c \<equiv> chunk n tot off"
  shows "\<exists>i B m. i < NBUF \<and> m = turn_mem s i (view s (fblock s ip (unat off div BSIZE))) dst (off mod of_nat BSIZE) c (phys (km s)) \<and>
     bc_ok (rd s B m) P {} \<and> view (rd s B m) = view s \<and>
     readi_loop ip False dst off n tot s = readi_loop ip False (dst + c) (off + c) n (tot + c) (rd s B m)"
proof -
  let ?m = "phys (km s)" and ?bn = "unat off div BSIZE"
  have "0 < unat (n - tot)" using tot unat_sub [of tot n] by (simp add: word_less_nat_alt word_le_nat_alt)
  then have bn: "fblock s ip ?bn \<noteq> 0" and "unat off < MAXFILE * BSIZE" using mp by (auto simp: mapped_to_def)
  then have lt: "?bn < MAXFILE" by (simp add: less_mult_imp_div_less)
  obtain B where B: "bmap ip ?bn s = Ok (fblock s ip ?bn, rd s B ?m)" "bc_ok (rd s B ?m) P {}" "view (rd s B ?m) = view s"
    using bmap_mapped [OF ok dev lt bn] by blast
  obtain i B1 where r: "bread ROOTDEV (fblock s ip ?bn) (rd s B ?m) = Ok (i, rd s B1 ?m)" "i < NBUF"
      "bdata (B1 i) = view s (fblock s ip ?bn)"
      "\<forall>m. \<exists>B'. brelse i (rd s B1 m) = Ok (rd s B' m) \<and> bc_ok (rd s B' m) P {} \<and> view (rd s B' m) = view s"
    using rd_bread [OF B(2) ok(2), of "fblock s ip ?bn"] B(3) by auto
  define m where "m = turn_mem s i (view s (fblock s ip ?bn)) dst (off mod of_nat BSIZE) c ?m"
  have e: "either_copyout False dst (bufaddr s i + off mod of_nat BSIZE) c (expose_buf i (rd s B1 ?m)) = Ok (True, rd s B1 m)"
    by (simp add: either_copyout_def expose_rd rd_phys m_def turn_mem_def r(3) Let_def cong: if_cong)
  obtain B' where "brelse i (rd s B1 m) = Ok (rd s B' m)" "bc_ok (rd s B' m) P {}" "view (rd s B' m) = view s"
    using r(4) by blast
  moreover from this(1) have "readi_loop ip False dst off n tot s = readi_loop ip False (dst + c) (off + c) n (tot + c) (rd s B' m)"
    using tot B(1) bn r(1) e dev
    by (subst readi_loop.simps) (simp add: Let_def c_def)
  ultimately show ?thesis using r(2) m_def by blast
qed

lemma off_bufs_tail:
  assumes "off_bufs s dst n" "unat c \<le> n" "0 < n"
  shows "off_bufs s dst (unat c)" "off_bufs s (dst + c) (n - unat c)" "unat c < n \<Longrightarrow> unat (dst + c) = unat dst + unat c"
proof -
  have r: "unat dst + n \<le> 2 ^ 32" and f: "\<forall>j < n. \<not> in_bufs s (dst + of_nat j)"
    using assms(1) by (auto simp: off_bufs_def)
  show "off_bufs s dst (unat c)" using assms by (auto simp: off_bufs_def)
  show u: "unat (dst + c) = unat dst + unat c" if "unat c < n"
    using r that by (simp add: unat_word_ariths)
  have "\<not> in_bufs s (dst + c + of_nat j)" if "j < n - unat c" for j
    using f [rule_format, of "unat c + j"] that by (simp add: algebra_simps)
  moreover have "unat (dst + c) + (n - unat c) \<le> 2 ^ 32"
  proof (cases "unat c < n")
    case False
    then show ?thesis using unat_less_32 [of "dst + c"] by simp
  qed (use u r in simp)
  ultimately show "off_bufs s (dst + c) (n - unat c)" using assms(1) by (auto simp: off_bufs_def)
qed

lemma word_add_le_total:
  fixes t c n :: "32 word"
  assumes "t \<le> n" "c \<le> n - t"
  shows "t + c \<le> n"
proof -
  have "unat t + unat c \<le> unat n"
    using assms unat_sub [OF assms(1)] by (simp add: word_le_nat_alt)
  moreover from this have "unat (t + c) = unat t + unat c"
    using unat_less_32 [of n] by (simp add: unat_word_ariths)
  ultimately show ?thesis by (simp add: word_le_nat_alt)
qed

lemma fbyte_block: "o' + j < BSIZE \<Longrightarrow> o' = k mod BSIZE \<Longrightarrow> view s (fblock s ip (k div BSIZE)) (o' + j) = fbyte s ip (k + j)"
proof -
  assume a: "o' + j < BSIZE" "o' = k mod BSIZE"
  have e: "k + j = BSIZE * (k div BSIZE) + (o' + j)" using a(2) by simp
  have "(k + j) div BSIZE = k div BSIZE" "(k + j) mod BSIZE = o' + j" unfolding e using a(1) by simp_all
  then show ?thesis by (simp add: fbyte_def)
qed

text \<open>The bytes of the first turn and those of the others.\<close>

lemma readi_join:
  fixes s :: "'a fstate_scheme"
  assumes ob: "off_bufs s dst N" and c: "unat c \<le> N" "0 < N" "N < 2 ^ 32" and i: "i < NBUF"
    and o': "unat o' = unat off mod BSIZE" "unat off mod BSIZE + unat c \<le> BSIZE"
    and m: "m = turn_mem s i (view s (fblock s ip (unat off div BSIZE))) dst o' c (phys (km s))"
    and rest: "\<forall>j < N - unat c. m' (dst + c + of_nat j) = fbyte s ip (unat off + unat c + j)"
      "\<forall>a. (unat a < unat (dst + c) \<or> unat (dst + c) + (N - unat c) \<le> unat a) \<and> \<not> in_bufs s a \<longrightarrow> m' a = m a"
  shows "j < N \<Longrightarrow> m' (dst + of_nat j) = fbyte s ip (unat off + j)"
    "unat a < unat dst \<or> unat dst + N \<le> unat a \<Longrightarrow> \<not> in_bufs s a \<Longrightarrow> m' a = phys (km s) a"
proof -
  note ob' = off_bufs_tail [OF ob c(1,2)]
  note tm = turn_mem_eq [OF i ob'(1), of o']
  have keep: "m' a = m a" if "unat a < unat dst + unat c \<or> unat dst + N \<le> unat a" "\<not> in_bufs s a" for a
    using rest(2) that ob'(3) c(1) by (cases "unat c < N") auto
  show "m' (dst + of_nat j) = fbyte s ip (unat off + j)" if j: "j < N"
  proof (cases "j < unat c")
    case True
    have b: "unat dst + N \<le> 2 ^ 32" "\<not> in_bufs s (dst + of_nat j)" using ob j by (auto simp: off_bufs_def)
    have "unat (of_nat j :: uint32) = j" using j c(3) by (intro unat_of_nat_small32) simp
    then have "unat (dst + of_nat j) = unat dst + j" using j b(1) by (simp add: unat_word_ariths)
    then have "m' (dst + of_nat j) = m (dst + of_nat j)" using keep b(2) True by simp
    also have "\<dots> = view s (fblock s ip (unat off div BSIZE)) (unat off mod BSIZE + j)"
      using tm(2) True o' by (simp add: m)
    also have "\<dots> = fbyte s ip (unat off + j)" using o'(2) True by (intro fbyte_block) simp_all
    finally show ?thesis .
  next
    case False
    then show ?thesis using rest(1) [rule_format, of "j - unat c"] j by (simp add: of_nat_diff algebra_simps)
  qed
  show "m' a = phys (km s) a" if "unat a < unat dst \<or> unat dst + N \<le> unat a" "\<not> in_bufs s a"
    using keep [of a] tm(1) [of a] that c(1) o' by (auto simp: m)
qed

lemma readi_loop_spec:
  fixes s :: "'a fstate_scheme"
  assumes "bc_ok s P {}" "card P < NBUF" "i_dev (itable s ip) = ROOTDEV" "tot \<le> n"
    "mapped_to s ip (unat off + unat (n - tot))" "off_bufs s dst (unat (n - tot))"
  shows "\<exists>B m. readi_loop ip False dst off n tot s = Ok (n, rd s B m) \<and> bc_ok (rd s B m) P {} \<and> view (rd s B m) = view s \<and>
     (\<forall>j < unat (n - tot). m (dst + of_nat j) = fbyte s ip (unat off + j)) \<and>
     (\<forall>a. (unat a < unat dst \<or> unat dst + unat (n - tot) \<le> unat a) \<and> \<not> in_bufs s a \<longrightarrow> m a = phys (km s) a)"
  using assms
proof (induction "unat (n - tot)" arbitrary: s dst off tot rule: less_induct)
  case less
  show ?case
  proof (cases "tot < n")
    case False
    then have "tot = n" using less.prems(4) by simp
    then show ?thesis using less.prems(1)
      by (intro exI [of _ "bufs s"] exI [of _ "phys (km s)"])
        (subst readi_loop.simps, simp add: bufs_rd [symmetric] bc_ok_same view_same)
  next
    case True
    define c where "c = chunk n tot off"
    define N where "N = unat (n - tot)"
    note ch = chunk_facts [OF True, of off, folded c_def]
    have le: "c \<le> n - tot" by (simp add: c_def chunk_def)
    then have N: "unat (n - (tot + c)) = N - unat c" "unat c \<le> N" "0 < N" "N < 2 ^ 32"
      using unat_sub [OF le] ch unat_less_32 [of "n - tot"] by (simp_all add: N_def algebra_simps word_le_nat_alt)
    obtain i B m where t: "i < NBUF" "m = turn_mem s i (view s (fblock s ip (unat off div BSIZE))) dst (off mod of_nat BSIZE) c (phys (km s))"
       "bc_ok (rd s B m) P {}" "view (rd s B m) = view s"
       "readi_loop ip False dst off n tot s = readi_loop ip False (dst + c) (off + c) n (tot + c) (rd s B m)"
      using readi_turn [OF less.prems(1-3) True less.prems(5), of dst] unfolding c_def by blast
    note f = fblock_rd [OF t(4)] and ob = off_bufs_tail(2) [OF less.prems(6) [folded N_def] N(2,3)]
    have "MAXFILE * BSIZE < 2 ^ 32" by (simp add: MAXFILE_def NDIRECT_def NINDIRECT_def BSIZE_def)
    then have "unat off + N < 2 ^ 32" using less.prems(5) by (simp add: mapped_to_def N_def)
    then have oc: "unat (off + c) = unat off + unat c" using N(2) by (simp add: unat_word_ariths)
    have "unat (n - (tot + c)) < unat (n - tot)" "i_dev (itable (rd s B m) ip) = ROOTDEV"
        "mapped_to (rd s B m) ip (unat (off + c) + unat (n - (tot + c)))" "off_bufs (rd s B m) (dst + c) (unat (n - (tot + c)))"
      using N ch(3) less.prems(3,5) ob by (simp_all add: f(3) oc N_def [symmetric])
    from less.hyps [OF this(1) t(3) less.prems(2) this(2) word_add_le_total [OF less.prems(4) le] this(3,4)] obtain B' m' where
      h: "readi_loop ip False (dst + c) (off + c) n (tot + c) (rd s B m) = Ok (n, rd s B' m')"
        "bc_ok (rd s B' m') P {}" "view (rd s B' m') = view s"
        "\<forall>j < N - unat c. m' (dst + c + of_nat j) = fbyte s ip (unat off + unat c + j)"
        "\<forall>a. (unat a < unat (dst + c) \<or> unat (dst + c) + (N - unat c) \<le> unat a) \<and> \<not> in_bufs s a \<longrightarrow> m' a = m a"
      by (auto simp: N(1) t(4) f oc)
    note readi_join [OF less.prems(6) [folded N_def] N(2,3,4) t(1) ch(4,2) t(2) h(4,5)]
    then show ?thesis
      using t(5) h(1-3) by (intro exI [of _ B'] exI [of _ m']) (simp add: N_def [symmetric])
  qed
qed

section \<open>readi\<close>

lemma word_add_overflow:
  fixes a b :: "32 word"
  assumes "2 ^ 32 \<le> unat a + unat b"
  shows "a + b < a"
proof -
  have "unat (a + b) = (unat a + unat b) mod 2 ^ 32" by (simp add: unat_word_ariths)
  also have "\<dots> = unat a + unat b - 2 ^ 32"
    using assms unat_less_32 [of a] unat_less_32 [of b] by (simp add: mod_if)
  finally show ?thesis using assms unat_less_32 [of b] by (simp add: word_less_nat_alt)
qed

lemma sint_of_unat_small: "unat (w :: 32 word) < 2147483648 \<Longrightarrow> sint w = int (unat w)"
proof -
  assume "unat w < 2147483648"
  then have lt: "int (unat w) < int 2147483648" by (simp only: of_nat_less_iff)
  have p: "(2 :: int) ^ 31 = int 2147483648" by simp
  have "uint w < 2 ^ 31" unfolding p uint_nat [of w] by (rule lt)
  moreover have "- (2 ^ 31) \<le> uint w" using uint_ge_0 [of w] by (rule order_trans [rotated]) simp
  ultimately have "signed_take_bit 31 (uint w) = uint w" by (rule signed_take_bit_int_eq_self [rotated])
  then show ?thesis by (simp add: sint_uint)
qed

lemma readi_spec:
  fixes s :: "'a fstate_scheme"
  assumes ok: "bc_ok s P {}" "card P < NBUF" and dev: "i_dev (itable s ip) = ROOTDEV"
    and mp: "mapped_to s ip (unat (i_size (itable s ip)))"
    and r: "unat off \<le> unat (i_size (itable s ip))" "unat off + unat n < 2 ^ 32"
  defines "c \<equiv> min (unat n) (unat (i_size (itable s ip)) - unat off)"
  assumes ob: "off_bufs s dst c"
  shows "\<exists>B m. readi ip False dst off n s = Ok (int c, rd s B m) \<and> bc_ok (rd s B m) P {} \<and> view (rd s B m) = view s \<and>
     (\<forall>j < c. m (dst + of_nat j) = fbyte s ip (unat off + j)) \<and>
     (\<forall>a. (unat a < unat dst \<or> unat dst + c \<le> unat a) \<and> \<not> in_bufs s a \<longrightarrow> m a = phys (km s) a)"
proof -
  define z where "z = i_size (itable s ip)"
  define n' where "n' = (if off + n > z then z - off else n)"
  have on: "unat (off + n) = unat off + unat n" using r(2) by (simp add: unat_word_ariths)
  have zo: "unat (z - off) = unat z - unat off" using r(1) by (simp add: unat_sub word_le_nat_alt z_def)
  have c: "unat n' = c" using on zo by (auto simp: n'_def c_def z_def word_less_nat_alt)
  have mx: "unat z \<le> MAXFILE * BSIZE" using mp by (simp add: mapped_to_def z_def)
  then have "unat n' < 2147483648"
    using c by (simp add: c_def z_def MAXFILE_def NDIRECT_def NINDIRECT_def BSIZE_def)
  then have si: "sint n' = int c" using c sint_of_unat_small [of n'] by simp
  have "mapped_to s ip (unat off + unat (n' - 0))"
    using mp r(1) mx by (auto simp: mapped_to_def c c_def z_def)
  from readi_loop_spec [OF ok dev _ this, of dst] ob c obtain B m where
    "readi_loop ip False dst off n' 0 s = Ok (n', rd s B m)" "bc_ok (rd s B m) P {}" "view (rd s B m) = view s"
    "\<forall>j < c. m (dst + of_nat j) = fbyte s ip (unat off + j)"
    "\<forall>a. (unat a < unat dst \<or> unat dst + c \<le> unat a) \<and> \<not> in_bufs s a \<longrightarrow> m a = phys (km s) a" by auto
  moreover have "readi ip False dst off n s = bind_res (readi_loop ip False dst off n' 0 s) (\<lambda>(tot, s1). Ok (sint tot, s1))"
    using r on by (simp add: readi_def n'_def z_def word_less_nat_alt)
  ultimately show ?thesis by (intro exI [of _ B] exI [of _ m]) (simp add: si)
qed

text \<open>
  C16. Reading a file. \<^verbatim>\<open>readi\<close> into kernel memory returns the number of bytes between \<^verbatim>\<open>off\<close> and
  the end of the file, at most \<^verbatim>\<open>n\<close>, and copies exactly those bytes of the file to \<^verbatim>\<open>dst\<close>,
  through direct and indirect blocks. Nothing but the destination and the cached blocks changes.
  A read past the end, or one whose end overflows, returns 0.
\<close>

theorem readi_correct:
  fixes s :: "'a fstate_scheme"
  assumes "bc_ok s P {}" "card P < NBUF" "i_dev (itable s ip) = ROOTDEV" "mapped_to s ip (unat (i_size (itable s ip)))"
    "off_bufs s dst (min (unat n) (unat (i_size (itable s ip)) - unat off))"
  defines "z \<equiv> unat (i_size (itable s ip))"
  shows "if z < unat off \<or> 2 ^ 32 \<le> unat off + unat n then readi ip False dst off n s = Ok (0, s)
     else \<exists>s'. readi ip False dst off n s = Ok (int (min (unat n) (z - unat off)), s') \<and>
       bc_ok s' P {} \<and> view s' = view s \<and> itable s' = itable s \<and>
       (\<forall>j < min (unat n) (z - unat off). phys (km s') (dst + of_nat j) = fbyte s ip (unat off + j)) \<and>
       (\<forall>a. (unat a < unat dst \<or> unat dst + min (unat n) (z - unat off) \<le> unat a) \<and> \<not> in_bufs s a \<longrightarrow>
          phys (km s') a = phys (km s) a)"
proof (cases "z < unat off \<or> 2 ^ 32 \<le> unat off + unat n")
  case True
  have "off + n < off" if "2 ^ 32 \<le> unat off + unat n"
    using that by (rule word_add_overflow)
  then show ?thesis using True by (auto simp: readi_def z_def word_less_nat_alt)
next
  case False
  then have r: "unat off \<le> unat (i_size (itable s ip))" "unat off + unat n < 2 ^ 32" by (simp_all add: z_def)
  from readi_spec [OF assms(1-4) r assms(5)] obtain B m where
    "readi ip False dst off n s = Ok (int (min (unat n) (z - unat off)), rd s B m)" "bc_ok (rd s B m) P {}" "view (rd s B m) = view s"
    "\<forall>j < min (unat n) (z - unat off). m (dst + of_nat j) = fbyte s ip (unat off + j)"
    "\<forall>a. (unat a < unat dst \<or> unat dst + min (unat n) (z - unat off) \<le> unat a) \<and> \<not> in_bufs s a \<longrightarrow> m a = phys (km s) a"
    unfolding z_def by blast
  then show ?thesis using False by (intro if_not_P [THEN iffD2] exI [of _ "rd s B m"]) simp_all
qed

text \<open>
  A directory of three entries in block 50: one that is free, \<^verbatim>\<open>a\<close> for inode 7 and \<^verbatim>\<open>b\<close> for
  inode 9. The string \<^verbatim>\<open>b\<close> is at \<open>0x80300000\<close>.
\<close>

definition ex_dir :: fstate where
  "ex_dir = ex_fs\<lparr>disk := (disk ex_fs)(50 := (\<lambda>_. 0)(16 := 7, 18 := 97, 32 := 9, 34 := 98)),
     km := (km ex_fs)\<lparr>phys := (\<lambda>_. 0)(0x80300000 := 98)\<rparr>,
     itable := (itable ex_fs)(0 := (itable ex_fs 0)\<lparr>i_dev := ROOTDEV, i_inum := 1, i_ref := 1, i_valid := True, i_type := T_DIR,
       i_nlink := 1, i_size := 48, i_addrs := (\<lambda>_. 0)(0 := 50)\<rparr>)\<rparr>"

lemma ex_dir_sels [simp]:
  "bufs ex_dir = ex_bufs 0" "i_size (itable ex_dir 0) = 48" "i_dev (itable ex_dir 0) = ROOTDEV" "i_type (itable ex_dir 0) = T_DIR"
  "i_addrs (itable ex_dir 0) = (\<lambda>_. 0)(0 := 50)" "klocal ex_dir = 0x80010000" "bufaddr ex_dir i = 0x80020000 + 1024 * of_nat i"
  "phys (km ex_dir) = (\<lambda>_. 0)(0x80300000 := 98)"
  by (simp_all add: ex_dir_def) (simp_all add: ex_fs_def)

lemma bc_ok_ex_dir: "bc_ok ex_dir {} {}"
proof -
  have "bufs_ok (ex_bufs 0) (disk ex_dir) (pid (myproc ex_dir)) {} {}"
  proof (rule bufs_okI)
    show "\<exists>xs. lru (ex_bufs 0) xs \<and> set xs = {..<NBUF}" using lru_ex_bufs [of 0] by (intro exI [of _ "[0..<NBUF]"]) auto
  qed (simp_all add: ex_bufs_def initsleeplock_def ROOTDEV_def)
  moreover have "still ex_dir" using bc_ok_ex_fs by (simp add: bc_ok_def still_def ex_dir_def)
  ultimately show ?thesis by (simp add: bc_ok_def)
qed

lemma view_ex_dir: "view ex_dir 50 = (\<lambda>_. 0)(16 := 7, 18 := 97, 32 := 9, 34 := 98)"
proof -
  have "view ex_dir 50 = disk ex_dir 50" by (rule view_uncached) (simp add: ex_bufs_def)
  then show ?thesis by (simp add: ex_dir_def)
qed

lemma unat_bufaddr_ex:
  assumes "i < NBUF"
  shows "unat (bufaddr ex_dir i) = 2147614720 + 1024 * i"
proof -
  have n: "NBUF = 30" by (simp add: NBUF_def MAXOPBLOCKS_def)
  have k: "unat (0x80020000 :: uint32) = 2147614720" by simp
  have "unat (of_nat (1024 * i) :: uint32) = 1024 * i" using assms n by (intro unat_of_nat_small32) simp
  then have u: "unat (1024 * of_nat i :: uint32) = 1024 * i" by simp
  have "unat (0x80020000 + 1024 * of_nat i :: uint32) = unat (0x80020000 :: uint32) + unat (1024 * of_nat i :: uint32)"
    using assms n by (intro unat_plus_small) (simp only: u k)
  then show ?thesis unfolding ex_dir_sels u k .
qed

lemma in_bufs_ex_dir:
  assumes "in_bufs ex_dir a"
  shows "2147614720 \<le> unat a \<and> unat a < 2147614720 + 1024 * NBUF"
proof -
  obtain i where i: "i < NBUF" "unat (a - bufaddr ex_dir i) < BSIZE" using assms by (auto simp: in_bufs_def)
  have n: "NBUF = 30" by (simp add: NBUF_def MAXOPBLOCKS_def)
  note b = unat_bufaddr_ex [OF i(1)]
  have "unat (bufaddr ex_dir i + (a - bufaddr ex_dir i)) = unat (bufaddr ex_dir i) + unat (a - bufaddr ex_dir i)"
    using i b n by (intro unat_plus_small) (simp add: BSIZE_def)
  then have "unat a = unat (bufaddr ex_dir i) + unat (a - bufaddr ex_dir i)" by simp
  then show ?thesis using b i by (simp add: BSIZE_def)
qed

lemma off_bufs_ex_dir:
  assumes "unat dst + n \<le> 2147614720"
  shows "off_bufs ex_dir dst n"
proof -
  have n: "NBUF = 30" by (simp add: NBUF_def MAXOPBLOCKS_def)
  have "unat (bufaddr ex_dir i) + BSIZE \<le> 2 ^ 32" if "i < NBUF" for i
    using unat_bufaddr_ex [OF that] that n by (simp add: BSIZE_def del: ex_dir_sels)
  moreover have "\<not> in_bufs ex_dir (dst + of_nat j)" if "j < n" for j
  proof -
    have "unat (of_nat j :: uint32) = j" using that assms by (intro unat_of_nat_small32) simp
    then have "unat (dst + of_nat j) = unat dst + j" using that assms by (simp add: unat_word_ariths)
    then show ?thesis using in_bufs_ex_dir that assms by force
  qed
  ultimately show ?thesis using assms by (simp add: off_bufs_def)
qed

lemma fbyte_ex_dir: "k < 1024 \<Longrightarrow> fbyte ex_dir 0 k = ((\<lambda>_. 0)(16 := 7, 18 := 97, 32 := 9, 34 := 98)) k"
  by (simp add: fbyte_def fblock_def BSIZE_def NDIRECT_def view_ex_dir)

lemma mapped_ex_dir: "mapped_to ex_dir 0 48"
  by (simp add: mapped_to_def fblock_def BSIZE_def NDIRECT_def MAXFILE_def)

theorem readi_correct_witness:
  "\<exists>s'. readi 0 False 0x80010000 32 100 ex_dir = Ok (16, s') \<and> phys (km s') 0x80010002 = 98"
proof -
  have "off_bufs ex_dir 0x80010000 16" by (rule off_bufs_ex_dir) simp
  then obtain s' where "readi 0 False 0x80010000 32 100 ex_dir = Ok (16, s')"
      "\<forall>j < 16. phys (km s') (0x80010000 + of_nat j) = fbyte ex_dir 0 (32 + j)"
    using readi_correct [OF bc_ok_ex_dir, where ip = 0 and dst = "0x80010000" and n = 100 and off = 32] mapped_ex_dir by (auto simp: NBUF_def MAXOPBLOCKS_def)
  then show ?thesis using fbyte_ex_dir [of 34] by (auto dest: spec [of _ 2])
qed

end
