(* ===== verification/Fs_Dir.thy ===== *)
theory Fs_Dir
  imports Fs_Read
begin

text \<open>
  Directories: the entries that the bytes of a directory denote, and the search of
  \<^verbatim>\<open>dirlookup\<close>, which ends on every directory.
\<close>

section \<open>The entries of a directory\<close>

definition dent_off :: "nat \<Rightarrow> uint32" where
  "dent_off k = of_nat (16 * k)"

definition dent_inum :: "'a fstate_scheme \<Rightarrow> nat \<Rightarrow> nat \<Rightarrow> uint16" where
  "dent_inum s dp k = ucast (fbyte s dp (16 * k)) OR push_bit 8 (ucast (fbyte s dp (16 * k + 1)))"

definition dent_name :: "'a fstate_scheme \<Rightarrow> nat \<Rightarrow> nat \<Rightarrow> uint8 list" where
  "dent_name s dp k = cstr (\<lambda>a. fbyte s dp (16 * k + 2 + unat a)) 0 DIRSIZ"

definition dent_hit :: "'a fstate_scheme \<Rightarrow> nat \<Rightarrow> uint8 list \<Rightarrow> nat \<Rightarrow> bool" where
  "dent_hit s dp nm k \<longleftrightarrow> dent_inum s dp k \<noteq> 0 \<and> dent_name s dp k = nm"

text \<open>The number of entries, and a directory whose size is that of its entries.\<close>

definition dents :: "'a fstate_scheme \<Rightarrow> nat \<Rightarrow> nat" where
  "dents s dp = unat (i_size (itable s dp)) div 16"

definition dir_ok :: "'a fstate_scheme \<Rightarrow> nat \<Rightarrow> nat set \<Rightarrow> bool" where
  "dir_ok s dp P \<longleftrightarrow> bc_ok s P {} \<and> card P < NBUF \<and> i_dev (itable s dp) = ROOTDEV \<and> i_type (itable s dp) = T_DIR \<and>
     16 dvd unat (i_size (itable s dp)) \<and> mapped_to s dp (unat (i_size (itable s dp))) \<and> off_bufs s (klocal s) 16"

text \<open>The name that is looked up is neither in a buffer nor in the local \<^verbatim>\<open>struct dirent\<close>.\<close>

definition name_apart :: "'a fstate_scheme \<Rightarrow> addr \<Rightarrow> bool" where
  "name_apart s name \<longleftrightarrow> (\<forall>j < DIRSIZ. \<not> in_bufs s (name + of_nat j) \<and>
     (unat (name + of_nat j) < unat (klocal s) \<or> unat (klocal s) + 16 \<le> unat (name + of_nat j)))"

lemma cstr_cong:
  "\<forall>j < n. m (p + of_nat j) = m' (q + of_nat j) \<Longrightarrow> cstr m p n = cstr m' q n"
proof (induction n arbitrary: p q)
  case (Suc n)
  have "\<forall>j < n. m (p + 1 + of_nat j) = m' (q + 1 + of_nat j)"
    using Suc.prems by (metis Suc_less_eq add.assoc of_nat_Suc)
  from Suc.IH [OF this] show ?case using Suc.prems [rule_format, of 0] by simp
qed simp

lemma rd_dents:
  assumes "view (rd s B m) = view s"
  shows "dents (rd s B m) = dents s" "dent_hit (rd s B m) = dent_hit s" "dent_inum (rd s B m) = dent_inum s"
  by (intro ext, simp add: dents_def dent_hit_def dent_inum_def dent_name_def fblock_rd [OF assms])+

lemma name_apart_rd [simp]: "name_apart (rd s B m) = name_apart s"
  by (intro ext) (simp add: name_apart_def)

lemma dir_ok_rd:
  assumes "dir_ok s dp P" "bc_ok (rd s B m) P {}" "view (rd s B m) = view s"
  shows "dir_ok (rd s B m) dp P"
  using assms by (simp add: dir_ok_def fblock_rd [OF assms(3)])

section \<open>Reading one entry\<close>

lemma dir_offset:
  assumes "dir_ok s dp P" "k \<le> dents s dp"
  shows "unat (dent_off k) = 16 * k" "16 * k \<le> unat (i_size (itable s dp))"
    "unat (i_size (itable s dp)) = 16 * dents s dp" "unat (i_size (itable s dp)) < 2147483648"
proof -
  show z: "unat (i_size (itable s dp)) = 16 * dents s dp" using assms(1) by (simp add: dir_ok_def dents_def)
  then show "16 * k \<le> unat (i_size (itable s dp))" using assms(2) by simp
  then show "unat (dent_off k) = 16 * k"
    unfolding dent_off_def using unat_less_32 [of "i_size (itable s dp)"] by (intro unat_of_nat_small32) simp
  show "unat (i_size (itable s dp)) < 2147483648"
    using assms(1) by (simp add: dir_ok_def mapped_to_def MAXFILE_def NDIRECT_def NINDIRECT_def BSIZE_def)
qed

lemma read_dirent_spec:
  fixes s :: "'a fstate_scheme"
  assumes ok: "dir_ok s dp P" and k: "k < dents s dp" and na: "name_apart s name"
  shows "\<exists>B m. read_dirent msg dp (dent_off k) s = Ok (rd s B m) \<and> dir_ok (rd s B m) dp P \<and> view (rd s B m) = view s \<and>
     de_inum (rd s B m) = dent_inum s dp k \<and> cstr m (de_name (rd s B m)) DIRSIZ = dent_name s dp k \<and>
     cstr m name DIRSIZ = cstr (phys (km s)) name DIRSIZ"
proof -
  note D = ok [unfolded dir_ok_def] and o' = dir_offset [OF ok less_imp_le [OF k]]
  have sz: "unat sizeof_dirent = 16" "uint sizeof_dirent = 16" by (simp_all add: sizeof_dirent_def DIRSIZ_def)
  have c: "min (unat sizeof_dirent) (unat (i_size (itable s dp)) - unat (dent_off k)) = 16"
    using k by (simp add: sz o')
  obtain B m where r: "readi dp False (klocal s) (dent_off k) sizeof_dirent s = Ok (16, rd s B m)"
      "bc_ok (rd s B m) P {}" "view (rd s B m) = view s"
      "\<forall>j < 16. m (klocal s + of_nat j) = fbyte s dp (16 * k + j)"
      "\<forall>a. (unat a < unat (klocal s) \<or> unat (klocal s) + 16 \<le> unat a) \<and> \<not> in_bufs s a \<longrightarrow> m a = phys (km s) a"
    using readi_spec [of s P dp "dent_off k" sizeof_dirent "klocal s"] D k o'(2-4) unfolding c o'(1) sz by auto
  have "de_inum (rd s B m) = dent_inum s dp k"
    using r(4) [rule_format, of 0] r(4) [rule_format, of 1] by (simp add: de_inum_def ld16_def dent_inum_def)
  moreover have "cstr m (de_name (rd s B m)) DIRSIZ = dent_name s dp k"
    unfolding dent_name_def
  proof (rule cstr_cong, intro allI impI)
    fix j assume j: "j < DIRSIZ"
    then have "unat (of_nat j :: uint32) = j" by (intro unat_of_nat_small32) (simp add: DIRSIZ_def)
    then show "m (de_name (rd s B m) + of_nat j) = fbyte s dp (16 * k + 2 + unat (0 + of_nat j :: uint32))"
      using r(4) [rule_format, of "2 + j"] j by (simp add: de_name_def DIRSIZ_def algebra_simps)
  qed
  moreover have "cstr m name DIRSIZ = cstr (phys (km s)) name DIRSIZ"
    using na r(5) by (intro cstr_cong) (auto simp: name_apart_def)
  ultimately show ?thesis
    using r(1) dir_ok_rd [OF ok r(2,3)] r(3) by (intro exI [of _ B] exI [of _ m]) (simp add: read_dirent_def sz)
qed

section \<open>The search\<close>

lemma dent_off_less:
  assumes "dir_ok s dp P" "k \<le> dents s dp"
  shows "dent_off k < i_size (itable s dp) \<longleftrightarrow> k < dents s dp"
  using dir_offset [OF assms] by (simp add: word_less_nat_alt)

lemma dent_off_Suc: "dent_off k + sizeof_dirent = dent_off (Suc k)"
  by (simp add: dent_off_def sizeof_dirent_def DIRSIZ_def)

lemma dirlookup_loop_spec:
  fixes s :: "'a fstate_scheme"
  assumes "dir_ok s dp P" "k \<le> dents s dp" "name_apart s name"
  defines "nm \<equiv> cstr (phys (km s)) name DIRSIZ"
  shows "\<exists>B m. dir_ok (rd s B m) dp P \<and> view (rd s B m) = view s \<and>
     dirlookup_loop dp name (dent_off k) s = Some (case find (dent_hit s dp nm) [k..<dents s dp] of
        None \<Rightarrow> Ok (None, rd s B m)
      | Some j \<Rightarrow> bind_res (iget ROOTDEV (ucast (dent_inum s dp j)) (rd s B m)) (\<lambda>(ip, s2). Ok (Some (ip, dent_off j), s2)))"
  using assms(1-3) unfolding nm_def
proof (induction "dents s dp - k" arbitrary: s k)
  case 0
  then have "k = dents s dp" by simp
  then show ?case using dent_off_less [OF 0(2,3)] 0(2)
    by (intro exI [of _ "bufs s"] exI [of _ "phys (km s)"])
      (subst dirlookup_loop.simps, simp add: bufs_rd [symmetric])
next
  case (Suc x)
  have k: "k < dents s dp" using Suc.hyps(2) by simp
  obtain B m where r: "read_dirent ''dirlookup read'' dp (dent_off k) s = Ok (rd s B m)" "dir_ok (rd s B m) dp P" "view (rd s B m) = view s"
      "de_inum (rd s B m) = dent_inum s dp k" "cstr m (de_name (rd s B m)) DIRSIZ = dent_name s dp k"
      "cstr m name DIRSIZ = cstr (phys (km s)) name DIRSIZ"
    using read_dirent_spec [OF Suc.prems(1) k Suc.prems(3)] by blast
  note d = rd_dents [OF r(3)]
  have u: "[k..<dents s dp] = k # [Suc k..<dents s dp]" using k by (rule upt_conv_Cons)
  have cmp: "namecmp m name (de_name (rd s B m)) = 0 \<longleftrightarrow> dent_name s dp k = cstr (phys (km s)) name DIRSIZ"
    using r(5,6) by (auto simp: namecmp_def strncmp_eq_0 DIRSIZ_def)
  have dev: "i_dev (itable s dp) = ROOTDEV" using Suc.prems(1) by (simp add: dir_ok_def)
  note unf = dirlookup_loop.simps [of dp name "dent_off k" s]
  show ?case
  proof (cases "dent_hit s dp (cstr (phys (km s)) name DIRSIZ) k")
    case True
    then show ?thesis using r(1-4) u cmp dev dent_off_less [OF Suc.prems(1,2)] k unf
      by (intro exI [of _ B] exI [of _ m]) (simp add: dent_hit_def)
  next
    case False
    have "x = dents (rd s B m) dp - Suc k" "Suc k \<le> dents (rd s B m) dp" "name_apart (rd s B m) name"
      using Suc.hyps(2) Suc.prems(3) k by (simp_all add: d)
    from Suc.hyps(1) [OF this(1) r(2) this(2,3), unfolded d rd_rd rd_sels r(3,6)] obtain B' m' where
      "dir_ok (rd s B' m') dp P" "view (rd s B' m') = view s"
      "dirlookup_loop dp name (dent_off (Suc k)) (rd s B m) =
        Some (case find (dent_hit s dp (cstr (phys (km s)) name DIRSIZ)) [Suc k..<dents s dp] of
          None \<Rightarrow> Ok (None, rd s B' m')
        | Some j \<Rightarrow> bind_res (iget ROOTDEV (ucast (dent_inum s dp j)) (rd s B' m')) (\<lambda>(ip, s2). Ok (Some (ip, dent_off j), s2)))"
      by blast
    moreover have "dirlookup_loop dp name (dent_off k) s = dirlookup_loop dp name (dent_off (Suc k)) (rd s B m)"
      using r(1,4) cmp False dent_off_less [OF Suc.prems(1,2)] k unf
      by (cases "dent_inum s dp k = 0") (simp_all add: dent_hit_def dent_off_Suc)
    ultimately show ?thesis using False u by (intro exI [of _ B'] exI [of _ m']) simp
  qed
qed

lemma itable_upd: "itable (upd_inode i f s) = (itable s)(i := f (itable s i))"
  by (simp add: upd_inode_def)

text \<open>
  C17. Looking up a name. On a directory whose blocks are allocated and whose size is that of its
  entries \<^verbatim>\<open>dirlookup\<close> returns: with the first entry in use that has this name, its offset
  and a reference to its inode, or with nothing if no entry has the name. The contents of the
  disk do not change.
\<close>

theorem dirlookup_first:
  fixes s :: "'a fstate_scheme"
  assumes "dir_ok s dp P" "name_apart s name" "itable_ok (itable s)" "\<exists>i < NINODE. i_ref (itable s i) = 0"
  defines "hit \<equiv> dent_hit s dp (cstr (phys (km s)) name DIRSIZ)"
  shows "\<exists>r s'. dirlookup dp name s = Ok (r, s') \<and> view s' = view s \<and>
     (case r of
        None \<Rightarrow> (\<forall>k < dents s dp. \<not> hit k) \<and> itable s' = itable s
      | Some (ip, off) \<Rightarrow> \<exists>k < dents s dp. unat off = 16 * k \<and> hit k \<and> (\<forall>j < k. \<not> hit j) \<and>
          entry_of ROOTDEV (ucast (dent_inum s dp k)) (itable s' ip))"
proof -
  have ty: "i_type (itable s dp) = T_DIR" "dent_off 0 = 0" using assms(1) by (simp_all add: dir_ok_def dent_off_def)
  obtain B m where l: "view (rd s B m) = view s" "dirlookup dp name s = (case find hit [0..<dents s dp] of
        None \<Rightarrow> Ok (None, rd s B m)
      | Some j \<Rightarrow> bind_res (iget ROOTDEV (ucast (dent_inum s dp j)) (rd s B m)) (\<lambda>(ip, s2). Ok (Some (ip, dent_off j), s2)))"
    using dirlookup_loop_spec [OF assms(1) le0 assms(2)] ty by (auto simp: dirlookup_def hit_def run_loop_def)
  show ?thesis
  proof (cases "find hit [0..<dents s dp]")
    case None
    then have "\<forall>k < dents s dp. \<not> hit k" by (simp add: find_None_iff)
    then show ?thesis using l None by (intro exI [of _ None] exI [of _ "rd s B m"]) simp
  next
    case (Some k)
    then have k: "k < dents s dp" "hit k" "\<forall>j < k. \<not> hit j" by (auto simp: find_Some_iff)
    have ok: "itable_ok (itable (rd s B m))" using assms(3) by simp
    have "\<exists>i s'. iget ROOTDEV (ucast (dent_inum s dp k)) (rd s B m) = Ok (i, s') \<and> view s' = view s \<and>
        entry_of ROOTDEV (ucast (dent_inum s dp k)) (itable s' i)"
    proof (rule iget_cases [OF ok, of ROOTDEV "ucast (dent_inum s dp k)"], goal_cases)
      case (1 i)
      then show ?case using l(1) by (intro exI [of _ i]) (auto simp: entry_of_def itable_upd)
    next
      case (2 i)
      then show ?case using l(1) by (intro exI [of _ i]) (auto simp: entry_of_def itable_upd)
    next
      case 3
      then show ?case using assms(4) by auto
    qed
    then show ?thesis using l(2) Some k dir_offset(1) [OF assms(1) less_imp_le [OF k(1)]] by auto
  qed
qed

lemma cstr_one: "m p \<noteq> 0 \<Longrightarrow> m (p + 1) = 0 \<Longrightarrow> cstr m p (Suc (Suc n)) = [m p]"
  by simp

lemma dent_ex_dir:
  "dent_inum ex_dir 0 0 = 0" "dent_name ex_dir 0 (Suc 0) = [97]" "dent_name ex_dir 0 2 = [98]" "dent_inum ex_dir 0 2 = 9"
  "dents ex_dir 0 = 3"
  using cstr_one [of _ 0 12] by (simp_all add: dent_inum_def dent_name_def fbyte_ex_dir dents_def DIRSIZ_def)

theorem dirlookup_first_witness:
  "\<exists>ip s'. dirlookup 0 0x80300000 ex_dir = Ok (Some (ip, 32), s') \<and> i_inum (itable s' ip) = 9"
proof -
  have nm: "cstr (phys (km ex_dir)) 0x80300000 DIRSIZ = [98]"
    using cstr_one [of "phys (km ex_dir)" "0x80300000" 12] by (simp add: DIRSIZ_def)
  have "dir_ok ex_dir 0 {}"
    using bc_ok_ex_dir mapped_ex_dir off_bufs_ex_dir [of "0x80010000" 16]
    by (simp add: dir_ok_def NBUF_def MAXOPBLOCKS_def)
  moreover have "name_apart ex_dir 0x80300000"
    unfolding name_apart_def
  proof (intro allI impI)
    fix j assume "j < DIRSIZ"
    then have "unat (0x80300000 + of_nat j :: uint32) = 2150629376 + j"
      using unat_add_of_nat [of "0x80300000" j] by (simp add: DIRSIZ_def)
    then show "\<not> in_bufs ex_dir (0x80300000 + of_nat j) \<and> (unat (0x80300000 + of_nat j :: uint32) < unat (klocal ex_dir) \<or>
        unat (klocal ex_dir) + 16 \<le> unat (0x80300000 + of_nat j :: uint32))"
      using in_bufs_ex_dir [of "0x80300000 + of_nat j"] by (auto simp: NBUF_def MAXOPBLOCKS_def)
  qed
  moreover have "itable_ok (itable ex_dir)" "\<exists>i < NINODE. i_ref (itable ex_dir i) = 0"
    by (auto simp: itable_ok_def entry_of_def ex_dir_def ex_fs_def NINODE_def intro!: exI [of _ 1] split: if_splits)
  ultimately obtain r s' where r: "dirlookup 0 0x80300000 ex_dir = Ok (r, s')"
     "case r of
        None \<Rightarrow> (\<forall>k < 3. \<not> dent_hit ex_dir 0 [98] k) \<and> itable s' = itable ex_dir
      | Some (ip, off) \<Rightarrow> \<exists>k < 3. unat off = 16 * k \<and> dent_hit ex_dir 0 [98] k \<and> (\<forall>j < k. \<not> dent_hit ex_dir 0 [98] j) \<and>
          entry_of ROOTDEV (ucast (dent_inum ex_dir 0 k)) (itable s' ip)"
    using dirlookup_first [of ex_dir 0 "{}" "0x80300000"] unfolding nm dent_ex_dir(5) by blast
  have h: "dent_hit ex_dir 0 [98] k \<longleftrightarrow> k = 2" if "k < 3" for k
  proof -
    have "k = 0 \<or> k = 1 \<or> k = 2" using that by linarith
    then show ?thesis by (auto simp: dent_hit_def dent_ex_dir)
  qed
  show ?thesis
  proof (cases r)
    case (Some x)
    then have "unat (snd x) = 32" "entry_of ROOTDEV 9 (itable s' (fst x))" using r(2) h by (auto simp: dent_ex_dir split: prod.splits)
    then show ?thesis using r(1) Some by (intro exI [of _ "fst x"] exI [of _ s']) (simp add: entry_of_def word_unat_eq_iff prod_eq_iff)
  qed (use r(2) h [of 2] in auto)
qed

end
