(* ===== verification/Fs_Path.thy ===== *)
theory Fs_Path
  imports Fs_Dir
begin

text \<open>
  Path names: \<^verbatim>\<open>skipelem\<close> takes the elements off a path one by one, as \<^verbatim>\<open>namex\<close> calls it.
\<close>

section \<open>The elements of a path\<close>

text \<open>The pieces between slashes, and those that are not empty.\<close>

primrec pieces :: "uint8 list \<Rightarrow> uint8 list list" where
  "pieces [] = [[]]"
| "pieces (c # cs) = (if c = slash then [] # pieces cs else (c # hd (pieces cs)) # tl (pieces cs))"

definition elems :: "uint8 list \<Rightarrow> uint8 list list" where
  "elems bs = filter (\<lambda>w. w \<noteq> []) (pieces bs)"

lemma pieces_not_Nil [simp]: "pieces bs \<noteq> []"
  by (cases bs) auto

lemma pieces_word: "slash \<notin> set w \<Longrightarrow> pieces (w @ bs) = (w @ hd (pieces bs)) # tl (pieces bs)"
  by (induction w) auto

lemma elems_slash: "elems (dropWhile (\<lambda>c. c = slash) bs) = elems bs"
  by (induction bs) (simp_all add: elems_def)

lemma elems_word:
  assumes "bs \<noteq> []" "hd bs \<noteq> slash"
  shows "elems bs = takeWhile (\<lambda>c. c \<noteq> slash) bs # elems (dropWhile (\<lambda>c. c \<noteq> slash) bs)"
proof -
  let ?w = "takeWhile (\<lambda>c. c \<noteq> slash) bs" and ?r = "dropWhile (\<lambda>c. c \<noteq> slash) bs"
  have w: "slash \<notin> set ?w" by (auto dest: set_takeWhileD)
  have ne: "?w \<noteq> []" using assms by (cases bs) auto
  have "pieces bs = (?w @ hd (pieces ?r)) # tl (pieces ?r)" using pieces_word [OF w, of ?r] by simp
  moreover have "hd (pieces ?r) = []"
  proof (cases ?r)
    case (Cons c cs)
    then have "c = slash" by (metis (mono_tags) dropWhile_eq_Cons_conv)
    then show ?thesis by (simp add: Cons)
  next
    case Nil
    then show ?thesis by (simp only: pieces.simps list.sel)
  qed
  ultimately have "elems bs = ?w # filter (\<lambda>w. w \<noteq> []) (tl (pieces ?r))" using ne by (simp add: elems_def)
  moreover have "filter (\<lambda>w. w \<noteq> []) (tl (pieces ?r)) = elems ?r"
    using \<open>hd (pieces ?r) = []\<close> by (cases "pieces ?r") (auto simp: elems_def)
  ultimately show ?thesis by simp
qed

section \<open>Strings in memory\<close>

definition has_str :: "mem \<Rightarrow> addr \<Rightarrow> uint8 list \<Rightarrow> bool" where
  "has_str m p bs \<longleftrightarrow> 0 < unat p \<and> unat p + length bs < 2 ^ 32 \<and> length bs < 2147483648 \<and> 0 \<notin> set bs \<and>
     (\<forall>i < length bs. m (p + of_nat i) = bs ! i) \<and> m (p + of_nat (length bs)) = 0"

lemma has_str_hd:
  assumes "has_str m p bs"
  shows "m p = (case bs of [] \<Rightarrow> 0 | c # _ \<Rightarrow> c)"
  using assms by (cases bs) (auto simp: has_str_def dest: spec [of _ 0])

lemma has_str_drop:
  assumes "has_str m p bs" "n \<le> length bs"
  shows "has_str m (p + of_nat n) (drop n bs)" "unat (p + of_nat n) = unat p + n"
proof -
  show u: "unat (p + of_nat n) = unat p + n" using assms by (intro unat_add_of_nat) (simp add: has_str_def)
  have "m (p + of_nat n + of_nat i) = drop n bs ! i" if "i < length bs - n" for i
    using assms that by (simp add: has_str_def add.assoc flip: of_nat_add)
  moreover have "m (p + of_nat n + of_nat (length bs - n)) = 0"
    using assms by (simp add: has_str_def add.assoc flip: of_nat_add)
  ultimately show "has_str m (p + of_nat n) (drop n bs)"
    using assms u by (auto simp: has_str_def dest: in_set_dropD)
qed

lemma has_str_tl: "has_str m p (c # cs) \<Longrightarrow> has_str m (p + 1) cs"
  using has_str_drop(1) [of m p "c # cs" 1] by simp

lemma has_str_cong:
  assumes "has_str m p bs" "\<forall>i \<le> length bs. m' (p + of_nat i) = m (p + of_nat i)"
  shows "has_str m' p bs"
  using assms by (simp add: has_str_def)

lemma skip_slashes_spec:
  "has_str m p bs \<Longrightarrow> skip_slashes m p = Some (p + of_nat (length (takeWhile (\<lambda>c. c = slash) bs)))"
proof (induction bs arbitrary: p)
  case Nil
  then show ?case using has_str_hd [of m p] by (subst skip_slashes.simps) (simp add: slash_def)
next
  case (Cons c cs)
  then show ?case using has_str_hd [OF Cons.prems] Cons.IH [OF has_str_tl [OF Cons.prems]]
    by (subst skip_slashes.simps) (simp add: algebra_simps)
qed

lemma skip_name_spec:
  "has_str m p bs \<Longrightarrow> skip_name m p = Some (p + of_nat (length (takeWhile (\<lambda>c. c \<noteq> slash) bs)))"
proof (induction bs arbitrary: p)
  case Nil
  then show ?case using has_str_hd [of m p] by (subst skip_name.simps) simp
next
  case (Cons c cs)
  have "c \<noteq> 0" using Cons.prems by (auto simp: has_str_def)
  then show ?case using has_str_hd [OF Cons.prems] Cons.IH [OF has_str_tl [OF Cons.prems]]
    by (subst skip_name.simps) (simp add: algebra_simps)
qed

lemma drop_takeWhile: "drop (length (takeWhile P bs)) bs = dropWhile P bs"
  by (metis append_eq_conv_conj takeWhile_dropWhile_id)

lemma cstr_take:
  "n \<le> length bs \<Longrightarrow> 0 \<notin> set bs \<Longrightarrow> \<forall>i < n. m (p + of_nat i) = bs ! i \<Longrightarrow> cstr m p n = take n bs"
proof (induction bs arbitrary: p n)
  case (Cons c cs)
  show ?case
  proof (cases n)
    case (Suc k)
    have "\<forall>i < k. m (p + 1 + of_nat i) = cs ! i"
      using Cons.prems(3) Suc by (metis Suc_less_eq add.assoc nth_Cons_Suc of_nat_Suc)
    then have "cstr m (p + 1) k = take k cs" using Cons.prems Suc by (intro Cons.IH) simp_all
    moreover have "m p = c" using Cons.prems(3) [rule_format, of 0] Suc by simp
    ultimately show ?thesis using Suc Cons.prems(2) by simp
  qed simp
qed simp

lemma cstr_has_str: "has_str m p bs \<Longrightarrow> cstr m p n = take n bs"
proof (induction bs arbitrary: p n)
  case Nil
  then show ?case using has_str_hd [OF Nil] by (cases n) simp_all
next
  case (Cons c cs)
  have "c \<noteq> 0" using Cons.prems by (auto simp: has_str_def)
  then show ?case using has_str_hd [OF Cons.prems] Cons.IH [OF has_str_tl [OF Cons.prems]] by (cases n) simp_all
qed

section \<open>One element\<close>

definition out_name :: "addr \<Rightarrow> addr \<Rightarrow> bool" where
  "out_name name a \<longleftrightarrow> unat a < unat name \<or> unat name + DIRSIZ \<le> unat a"

lemma copy_elem_spec:
  assumes nm: "unat name + DIRSIZ \<le> 2 ^ 32" and e: "0 \<notin> set e" "length e < 2147483648" "unat s + length e < 2 ^ 32"
    "\<forall>i < length e. m (s + of_nat i) = e ! i" and name0: "name \<noteq> 0"
  defines "m' \<equiv> copy_elem m name s (of_nat (length e))"
  shows "cstr m' name DIRSIZ = take DIRSIZ e" "out_name name a \<Longrightarrow> m' a = m a"
proof -
  let ?k = "of_nat (length e) :: uint32"
  have uk: "unat ?k = length e" using e(2) by (intro unat_of_nat_small32) simp
  have si: "sint ?k = int (length e)" using sint_of_unat_small [of ?k] e(2) uk by simp
  define c where "c = (if length e \<ge> DIRSIZ then DIRSIZ else length e)"
  have uc: "unat (of_nat c :: uint32) = c" using e(2) by (intro unat_of_nat_small32) (auto simp: c_def DIRSIZ_def)
  define m1 where "m1 = memmove m name s (of_nat c)"
  have eq: "m1 x = (if unat name \<le> unat x \<and> unat x < unat name + c then m (s + (x - name)) else m x)" for x
  proof -
    have "unat name + c \<le> 4294967296" "unat s + c \<le> 4294967296" using nm e(3) by (auto simp: c_def)
    then show ?thesis unfolding m1_def by (subst memmove_eq) (simp_all only: uc)
  qed
  have un: "unat (name + of_nat i) = unat name + i" if "i < DIRSIZ" for i
    using nm that by (intro unat_add_of_nat) simp
  have cp: "m1 (name + of_nat i) = e ! i" if "i < c" for i
    using that e(4) un [of i] by (auto simp: eq c_def split: if_splits)
  have m': "m' = (if length e \<ge> DIRSIZ then m1 else m1(name + of_nat (length e) := 0))"
    by (auto simp: m'_def copy_elem_def si m1_def c_def)
  show "cstr m' name DIRSIZ = take DIRSIZ e"
  proof (cases "length e \<ge> DIRSIZ")
    case True
    then show ?thesis using cp e(1) by (intro cstr_take) (simp_all add: m' c_def)
  next
    case False
    have ne: "name + of_nat i \<noteq> name + of_nat (length e)" if "i < length e" for i
    proof
      assume "name + of_nat i = name + of_nat (length e)"
      then have "unat (name + of_nat i) = unat (name + of_nat (length e))" by (simp only:)
      then show False using un [of i] un [of "length e"] that False by simp
    qed
    have "has_str m' name e"
      unfolding has_str_def using e(1,2) cp ne False nm name0 by (auto simp: m' c_def unat_gt_0)
    then show ?thesis by (rule cstr_has_str)
  qed
  show "m' a = m a" if "out_name name a"
  proof -
    have "m1 a = m a" using that by (auto simp: eq out_name_def c_def)
    moreover have "a \<noteq> name + of_nat (length e)" if "length e < DIRSIZ"
      using un [OF that] \<open>out_name name a\<close> that by (auto simp: out_name_def)
    ultimately show ?thesis by (auto simp: m')
  qed
qed

definition str_apart :: "addr \<Rightarrow> addr \<Rightarrow> nat \<Rightarrow> bool" where
  "str_apart name p n \<longleftrightarrow> name \<noteq> 0 \<and> unat name + DIRSIZ \<le> 2 ^ 32 \<and> (unat p + n < unat name \<or> unat name + DIRSIZ \<le> unat p)"

text \<open>A string stays when the name buffer is written.\<close>

lemma has_str_frame:
  assumes "has_str m p bs" "str_apart name p (length bs)" "\<And>a. out_name name a \<Longrightarrow> m' a = m a"
  shows "has_str m' p bs"
proof (rule has_str_cong [OF assms(1)], intro allI impI)
  fix i assume "i \<le> length bs"
  then have "unat (p + of_nat i) = unat p + i" by (rule has_str_drop(2) [OF assms(1)])
  then show "m' (p + of_nat i) = m (p + of_nat i)"
    using assms(2) \<open>i \<le> length bs\<close> by (intro assms(3)) (auto simp: out_name_def str_apart_def)
qed

text \<open>Moving past the first bytes of a string with a property.\<close>

lemma skip_bytes:
  fixes P :: "uint8 \<Rightarrow> bool"
  assumes "has_str m p bs" "str_apart name p (length bs)"
  defines "n \<equiv> length (takeWhile P bs)"
  shows "has_str m (p + of_nat n) (dropWhile P bs)" "str_apart name (p + of_nat n) (length (dropWhile P bs))"
proof -
  have n: "n \<le> length bs" "drop n bs = dropWhile P bs" by (simp_all add: n_def length_takeWhile_le drop_takeWhile)
  show "has_str m (p + of_nat n) (dropWhile P bs)" using has_str_drop(1) [OF assms(1) n(1)] n(2) by simp
  have "length (dropWhile P bs) = length bs - n" using n(2) by (metis length_drop)
  then show "str_apart name (p + of_nat n) (length (dropWhile P bs))"
    using has_str_drop(2) [OF assms(1) n(1)] n(1) assms(2) by (auto simp: str_apart_def)
qed

lemma elems_Nil: "elems bs = [] \<longleftrightarrow> dropWhile (\<lambda>c. c = slash) bs = []"
proof (cases "dropWhile (\<lambda>c. c = slash) bs")
  case Nil
  from elems_slash [of bs] have "elems bs = elems []" unfolding Nil by (rule sym)
  then show ?thesis unfolding Nil by (simp add: elems_def)
next
  case (Cons c cs)
  then have "c \<noteq> slash" using dropWhile_eq_Cons_conv [of "\<lambda>c. c = slash" bs c cs] by simp
  then have "elems (c # cs) \<noteq> []" using elems_word [of "c # cs"] by simp
  then show ?thesis using elems_slash [of bs] unfolding Cons by simp
qed

lemma skipelem_spec:
  assumes str: "has_str m p bs" and ap: "str_apart name p (length bs)"
  shows "if elems bs = [] then skipelem p name m = Some (0, m)
     else \<exists>p' m' rest. skipelem p name m = Some (p', m') \<and> has_str m' p' rest \<and> str_apart name p' (length rest) \<and>
       length rest < length bs \<and> elems rest = tl (elems bs) \<and>
       cstr m' name DIRSIZ = take DIRSIZ (hd (elems bs)) \<and> (m' p' = 0 \<longleftrightarrow> elems rest = [])"
proof -
  define b1 where "b1 = dropWhile (\<lambda>c. c = slash) bs"
  define p1 where "p1 = p + of_nat (length (takeWhile (\<lambda>c. c = slash) bs))"
  have s1: "skip_slashes m p = Some p1" using skip_slashes_spec [OF str] by (simp add: p1_def)
  note h1 = skip_bytes [OF str ap, of "\<lambda>c. c = slash", folded b1_def p1_def]
  show ?thesis
  proof (cases "b1 = []")
    case True
    then show ?thesis using s1 has_str_hd [OF h1(1)] by (simp add: skipelem_def elems_Nil b1_def [symmetric])
  next
    case False
    have hd1: "hd b1 \<noteq> slash" using False hd_dropWhile [of "\<lambda>c. c = slash" bs] unfolding b1_def by simp
    then have m0: "m p1 \<noteq> 0" using has_str_hd [OF h1(1)] h1(1) False by (cases b1) (auto simp: has_str_def)
    define e where "e = takeWhile (\<lambda>c. c \<noteq> slash) b1"
    define b2 where "b2 = dropWhile (\<lambda>c. c \<noteq> slash) b1"
    define p2 where "p2 = p1 + of_nat (length e)"
    define m' where "m' = copy_elem m name p1 (of_nat (length e))"
    define rest where "rest = dropWhile (\<lambda>c. c = slash) b2"
    define p' where "p' = p2 + of_nat (length (takeWhile (\<lambda>c. c = slash) b2))"
    have s2: "skip_name m p1 = Some p2" using skip_name_spec [OF h1(1)] by (simp add: p2_def e_def)
    note h2 = skip_bytes [OF h1, of "\<lambda>c. c \<noteq> slash", folded e_def b2_def p2_def]
    have le: "length e \<le> length b1" by (simp add: e_def length_takeWhile_le)
    have nth: "b1 ! i = e ! i" if "i < length e" for i using that by (simp add: e_def takeWhile_nth)
    have ce: "cstr m' name DIRSIZ = take DIRSIZ e" "\<And>a. out_name name a \<Longrightarrow> m' a = m a"
      unfolding m'_def using h1 le nth ap
      by (intro copy_elem_spec; force simp: has_str_def str_apart_def e_def dest: set_takeWhileD)+
    have h2': "has_str m' p2 b2" by (rule has_str_frame [OF h2 ce(2)])
    have s3: "skip_slashes m' p2 = Some p'" using skip_slashes_spec [OF h2'] by (simp add: p'_def)
    note h3 = skip_bytes [OF h2' h2(2), of "\<lambda>c. c = slash", folded rest_def p'_def]
    have el: "elems bs = e # elems rest"
      using elems_word [OF False hd1] by (simp add: e_def rest_def b2_def elems_slash) (simp add: b1_def elems_slash)
    have "0 < length e" using False hd1 by (cases b1) (simp_all add: e_def)
    moreover have "length b1 \<le> length bs" "length rest \<le> length b2" "length b1 = length e + length b2"
      unfolding b1_def rest_def by (simp_all add: length_dropWhile_le) (metis b1_def b2_def e_def length_append takeWhile_dropWhile_id)
    moreover have "m' p' = 0 \<longleftrightarrow> elems rest = []"
    proof -
      have "dropWhile (\<lambda>c. c = slash) rest = rest" by (simp only: rest_def dropWhile_idem)
      then have "elems rest = [] \<longleftrightarrow> rest = []" by (simp only: elems_Nil)
      then show ?thesis using has_str_hd [OF h3(1)] h3(1) by (cases rest) (auto simp: has_str_def)
    qed
    moreover have "skipelem p name m = Some (p', m')" using s1 s2 s3 m0 by (simp add: skipelem_def m'_def p2_def)
    ultimately have "length rest < length bs" "m' p' = 0 \<longleftrightarrow> elems rest = []" "skipelem p name m = Some (p', m')" by linarith+
    then show ?thesis using el h3 ce(1) by (simp only: list.distinct list.sel if_False) blast
  qed
qed

text \<open>The elements that \<^verbatim>\<open>namex\<close> sees, each with whether it is the last one (\<^verbatim>\<open>*path == 0\<close>).\<close>

partial_function (option) names :: "addr \<Rightarrow> addr \<Rightarrow> mem \<Rightarrow> (uint8 list \<times> bool) list option" where
  "names path name m =
     Option.bind (skipelem path name m) (\<lambda>(path', m').
       if path' = 0 then Some []
       else Option.bind (names path' name m') (\<lambda>l. Some ((cstr m' name DIRSIZ, m' path' = 0) # l)))"

text \<open>
  C18. Paths. Taking the elements of a string off with \<^verbatim>\<open>skipelem\<close>, as the loop of \<^verbatim>\<open>namex\<close>
  does, ends, and gives the non-empty pieces between its slashes in order, each cut to
  \<^verbatim>\<open>DIRSIZ\<close> bytes; the last one, and no other, leaves an empty path.
\<close>

theorem skipelem_elements:
  assumes "has_str m path bs" "str_apart name path (length bs)"
  shows "names path name m = Some (map (\<lambda>i. (take DIRSIZ (elems bs ! i), Suc i = length (elems bs))) [0..<length (elems bs)])"
  using assms
proof (induction "length bs" arbitrary: m path bs rule: less_induct)
  case less
  note S = skipelem_spec [OF less.prems]
  show ?case
  proof (cases "elems bs")
    case Nil
    then show ?thesis using S by (subst names.simps) simp
  next
    case (Cons e es)
    then obtain p' m' rest where r: "skipelem path name m = Some (p', m')" "has_str m' p' rest" "str_apart name p' (length rest)"
       "length rest < length bs" "elems rest = es" "cstr m' name DIRSIZ = take DIRSIZ e" "m' p' = 0 \<longleftrightarrow> es = []"
      using S by auto
    have "names p' name m' = Some (map (\<lambda>i. (take DIRSIZ (es ! i), Suc i = length es)) [0..<length es])"
      using less.hyps [OF r(4,2,3)] r(5) by simp
    moreover have "p' \<noteq> 0" using r(2) by (auto simp: has_str_def)
    moreover have "[0..<Suc (length es)] = 0 # map Suc [0..<length es]" by (simp only: map_Suc_upt upt_conv_Cons zero_less_Suc)
    ultimately show ?thesis using r Cons by (subst names.simps) (simp add: comp_def)
  qed
qed

text \<open>The path \<^verbatim>\<open>/a//bb/\<close>.\<close>

theorem skipelem_elements_witness:
  "names 0x100 0x200 (\<lambda>a. let k = unat (a - 0x100) in if k < 7 then [47, 97, 47, 47, 98, 98, 47] ! k else 0) =
     Some [([97], False), ([98, 98], True)]"
proof -
  let ?m = "\<lambda>a :: addr. let k = unat (a - 0x100) in if k < 7 then [47, 97, 47, 47, 98, 98, 47 :: uint8] ! k else 0"
  have "\<forall>i < 7. ?m (0x100 + of_nat i) = [47, 97, 47, 47, 98, 98, 47] ! i"
  proof (intro allI impI)
    fix i :: nat assume "i < 7"
    then show "?m (0x100 + of_nat i) = [47, 97, 47, 47, 98, 98, 47] ! i"
      using unat_of_nat_small32 [of i] by simp
  qed
  then have "has_str ?m 0x100 [47, 97, 47, 47, 98, 98, 47]" by (simp add: has_str_def)
  moreover have "str_apart 0x200 0x100 (length [47, 97, 47, 47, 98, 98, 47 :: uint8])" by (simp add: str_apart_def DIRSIZ_def)
  moreover have "elems [47, 97, 47, 47, 98, 98, 47] = [[97], [98, 98]]" by (simp add: elems_def slash_def)
  ultimately show ?thesis using skipelem_elements [of ?m "0x100" "[47, 97, 47, 47, 98, 98, 47]" "0x200"] by (simp add: DIRSIZ_def)
qed

end
