(* ===== verification/Grep.thy ===== *)
theory Grep
  imports YH_Prelude
begin

text \<open>
  \<^verbatim>\<open>user/grep.c\<close>: the regular-expression matcher for \<^verbatim>\<open>^ . * $\<close> and the line loop
  around it. A C string is the list of its characters before the terminating
  0, so \<^verbatim>\<open>s[0] == 0\<close> is \<open>s = []\<close> and \<^verbatim>\<open>s+1\<close> is \<open>tl s\<close>. The system call \<^verbatim>\<open>read\<close>
  is a parameter of the line loop.
\<close>

section \<open>The matcher\<close>

function (sequential) matchhere :: "string \<Rightarrow> string \<Rightarrow> bool"
  and matchstar :: "char \<Rightarrow> string \<Rightarrow> string \<Rightarrow> bool" where
  "matchhere [] text = True"
| "matchhere (c # re) text =
     (if re \<noteq> [] \<and> hd re = CHR ''*'' then matchstar c (tl re) text
      else if c = CHR ''$'' \<and> re = [] then text = []
      else if text \<noteq> [] \<and> (c = CHR ''.'' \<or> c = hd text) then matchhere re (tl text)
      else False)"
| "matchstar c re text =
     (if matchhere re text then True
      else if text \<noteq> [] \<and> (hd text = c \<or> c = CHR ''.'') then matchstar c re (tl text)
      else False)"
  by pat_completeness auto
termination
  by (relation "measures
       [\<lambda>x. case x of Inl (re, text) \<Rightarrow> length re | Inr (c, re, text) \<Rightarrow> Suc (length re),
        \<lambda>x. case x of Inl (re, text) \<Rightarrow> length text | Inr (c, re, text) \<Rightarrow> length text]")
    (auto simp: neq_Nil_conv)

declare matchhere.simps(2) [simp del] matchstar.simps [simp del]

function match_loop :: "string \<Rightarrow> string \<Rightarrow> bool" where
  "match_loop re text =
     (if matchhere re text then True
      else if text \<noteq> [] then match_loop re (tl text) else False)"
  by pat_completeness auto
termination
  by (relation "measure (\<lambda>(re, text). length text)") auto

declare match_loop.simps [simp del]

definition match :: "string \<Rightarrow> string \<Rightarrow> bool" where
  "match re text = (if re \<noteq> [] \<and> hd re = CHR ''^'' then matchhere (tl re) text else match_loop re text)"

section \<open>The line loop\<close>

fun strchr_split :: "string \<Rightarrow> char \<Rightarrow> (string \<times> string) option" where
  "strchr_split [] c = None"
| "strchr_split (x # xs) c =
     (if x = CHR 0x00 then None
      else if x = c then Some ([], xs)
      else map_option (\<lambda>(l, r). (x # l, r)) (strchr_split xs c))"

lemma strchr_split_length: "strchr_split xs c = Some (l, r) \<Longrightarrow> length r < length xs"
  by (induction xs c arbitrary: l r rule: strchr_split.induct) (auto split: if_splits)

function grep_lines :: "string \<Rightarrow> string \<Rightarrow> string \<times> string" where
  "grep_lines pattern p =
     (case strchr_split p (CHR 0x0A) of
        None \<Rightarrow> ([], p)
      | Some (l, r) \<Rightarrow>
          let (out, rest) = grep_lines pattern r
          in ((if match pattern l then l @ [CHR 0x0A] else []) @ out, rest))"
  by pat_completeness auto
termination
  by (relation "measure (\<lambda>(pattern, p). length p)") (auto dest!: strchr_split_length)

declare grep_lines.simps [simp del]

text \<open>
  \<open>rd n s\<close> is \<^verbatim>\<open>read(fd, buf+m, n)\<close>: the bytes read (none for a result \<^verbatim>\<open><= 0\<close>)
  and the new state of the descriptor. \<open>buf\<close> is the part \<^verbatim>\<open>buf[0..m)\<close> of the
  1024-byte buffer that is in use; the result is what was written to
  descriptor 1.
\<close>

partial_function (option) grep ::
    "(nat \<Rightarrow> 's \<Rightarrow> string \<times> 's) \<Rightarrow> string \<Rightarrow> string \<Rightarrow> string \<Rightarrow> 's \<Rightarrow> (string \<times> 's) option" where
  "grep rd pattern buf out s =
     (let (xs, s') = rd (1024 - length buf - 1) s
      in if xs = [] then Some (out, s')
         else let (o1, rest) = grep_lines pattern (buf @ xs)
              in grep rd pattern rest (out @ o1) s')"

declare grep.simps [code]

section \<open>What a pattern means\<close>

datatype atom = One char | Star char

fun atoms :: "string \<Rightarrow> atom list \<times> bool" where
  "atoms [] = ([], False)"
| "atoms [c] = (if c = CHR ''$'' then ([], True) else ([One c], False))"
| "atoms (c # d # re) =
     (if d = CHR ''*'' then apfst ((#) (Star c)) (atoms re) else apfst ((#) (One c)) (atoms (d # re)))"

definition accepts :: "char \<Rightarrow> char \<Rightarrow> bool" where
  "accepts c x \<longleftrightarrow> c = CHR ''.'' \<or> x = c"

primrec lang :: "atom list \<Rightarrow> string set" where
  "lang [] = {[]}"
| "lang (a # as) = (case a of One c \<Rightarrow> {x # w |x w. accepts c x \<and> w \<in> lang as}
                    | Star c \<Rightarrow> {u @ w |u w. list_all (accepts c) u \<and> w \<in> lang as})"

definition here_spec :: "string \<Rightarrow> string \<Rightarrow> bool" where
  "here_spec re text \<longleftrightarrow>
     (\<exists>u v. text = u @ v \<and> u \<in> lang (fst (atoms re)) \<and> (snd (atoms re) \<longrightarrow> v = []))"

definition match_spec :: "string \<Rightarrow> string \<Rightarrow> bool" where
  "match_spec re text \<longleftrightarrow>
     (if re \<noteq> [] \<and> hd re = CHR ''^'' then here_spec (tl re) text
      else \<exists>pre suf. text = pre @ suf \<and> here_spec re suf)"

lemma here_spec_star:
  "here_spec (c # CHR ''*'' # re) text \<longleftrightarrow>
     (\<exists>u v. text = u @ v \<and> list_all (accepts c) u \<and> here_spec re v)" (is "?l \<longleftrightarrow> ?r")
proof -
  have at: "fst (atoms (c # CHR ''*'' # re)) = Star c # fst (atoms re)"
      "snd (atoms (c # CHR ''*'' # re)) = snd (atoms re)" by simp_all
  have "?l \<longleftrightarrow> (\<exists>u w v. text = (u @ w) @ v \<and> list_all (accepts c) u \<and> w \<in> lang (fst (atoms re)) \<and>
      (snd (atoms re) \<longrightarrow> v = []))"
    unfolding here_spec_def at by (simp only: lang.simps atom.case mem_Collect_eq) blast
  also have "\<dots> \<longleftrightarrow> ?r"
    unfolding here_spec_def append_assoc by blast
  finally show ?thesis .
qed

lemma here_spec_one:
  assumes "re = [] \<Longrightarrow> c \<noteq> CHR ''$''" "re \<noteq> [] \<Longrightarrow> hd re \<noteq> CHR ''*''"
  shows "here_spec (c # re) str \<longleftrightarrow> str \<noteq> [] \<and> accepts c (hd str) \<and> here_spec re (tl str)"
proof -
  have at: "fst (atoms (c # re)) = One c # fst (atoms re)" "snd (atoms (c # re)) = snd (atoms re)"
    using assms by (cases re, simp, simp)+
  show ?thesis
    unfolding here_spec_def at by (cases str) (auto simp: Cons_eq_append_conv)
qed

lemma here_spec_end: "here_spec ''$'' str \<longleftrightarrow> str = []"
  by (auto simp: here_spec_def)

lemma split_Cons:
  "(\<exists>u v. x # xs = u @ v \<and> P u \<and> Q v) \<longleftrightarrow>
     P [] \<and> Q (x # xs) \<or> (\<exists>u v. xs = u @ v \<and> P (x # u) \<and> Q v)"
  unfolding Cons_eq_append_conv by blast

lemma split_Nil: "(\<exists>u v. [] = u @ v \<and> P u \<and> Q v) \<longleftrightarrow> P [] \<and> Q []"
  by simp

lemma match_specs:
  "matchhere re str \<longleftrightarrow> here_spec re str"
  "matchstar c re str \<longleftrightarrow> (\<exists>u v. str = u @ v \<and> list_all (accepts c) u \<and> here_spec re v)"
proof (induction re str and c re str rule: matchhere_matchstar.induct)
  case (1 str)
  then show ?case by (simp add: here_spec_def)
next
  case (2 c re str)
  consider "re \<noteq> []" "hd re = CHR ''*''" | "re = []" "c = CHR ''$''"
    | "re = [] \<longrightarrow> c \<noteq> CHR ''$''" "re \<noteq> [] \<longrightarrow> hd re \<noteq> CHR ''*''" by blast
  then show ?case
  proof cases
    case 1
    then obtain re' where re: "re = CHR ''*'' # re'" by (cases re) auto
    show ?thesis using "2.IH"(1) by (simp add: re matchhere.simps(2) here_spec_star)
  next
    case 3
    have "matchhere (c # re) str \<longleftrightarrow> str \<noteq> [] \<and> accepts c (hd str) \<and> matchhere re (tl str)"
      using 3 by (cases "re = []") (simp_all add: matchhere.simps(2) accepts_def eq_commute [of "hd str" c])
    moreover have "matchhere re (tl str) = here_spec re (tl str)" if "str \<noteq> []" "accepts c (hd str)"
      using "2.IH"(2) 3 that by (auto simp: accepts_def)
    ultimately show ?thesis using here_spec_one [of re c str] 3 by blast
  qed (simp add: matchhere.simps(2) here_spec_end)
next
  case (3 c re str)
  have "(\<exists>u v. str = u @ v \<and> list_all (accepts c) u \<and> here_spec re v) \<longleftrightarrow>
        here_spec re str \<or> (str \<noteq> [] \<and> accepts c (hd str) \<and>
          (\<exists>u v. tl str = u @ v \<and> list_all (accepts c) u \<and> here_spec re v))"
    by (cases str) (simp_all only: split_Cons split_Nil list.pred_inject list.sel list.distinct simp_thms, blast)
  moreover have a: "accepts c x \<longleftrightarrow> x = c \<or> c = CHR ''.''" for x
    unfolding accepts_def by blast
  then have "matchstar c re str \<longleftrightarrow>
      matchhere re str \<or> (str \<noteq> [] \<and> accepts c (hd str) \<and> matchstar c re (tl str))"
    by (subst matchstar.simps) simp
  moreover have "matchstar c re (tl str) \<longleftrightarrow> (\<exists>u v. tl str = u @ v \<and> list_all (accepts c) u \<and> here_spec re v)"
    if "\<not> matchhere re str" "str \<noteq> []" "accepts c (hd str)"
    by (rule "3.IH"(2)) (use that a in blast)+
  ultimately show ?case
    unfolding "3.IH"(1) by argo
qed

lemma match_loop_spec: "match_loop re str \<longleftrightarrow> (\<exists>pre suf. str = pre @ suf \<and> here_spec re suf)"
proof (induction re str rule: match_loop.induct)
  case (1 re str)
  have "(\<exists>pre suf. str = pre @ suf \<and> here_spec re suf) \<longleftrightarrow>
        here_spec re str \<or> (str \<noteq> [] \<and> (\<exists>pre suf. tl str = pre @ suf \<and> here_spec re suf))"
    using split_Cons [where P = "\<lambda>_. True" and Q = "here_spec re"]
    by (cases str) (simp_all del: append_eq_Cons_conv)
  then show ?case
    using 1 by (subst match_loop.simps) (auto simp: match_specs(1))
qed

lemma match_eq_spec: "match re str \<longleftrightarrow> match_spec re str"
  by (simp add: match_def match_spec_def match_specs(1) match_loop_spec)

section \<open>The line loop prints the matching lines\<close>

definition unlines :: "string list \<Rightarrow> string" where
  "unlines ls = concat (map (\<lambda>l. l @ [CHR 0x0A]) ls)"

lemma unlines_simps [simp]:
  "unlines [] = []" "unlines (l # ls) = l @ CHR 0x0A # unlines ls"
  "unlines (ls @ ms) = unlines ls @ unlines ms"
  by (simp_all add: unlines_def)

definition text_line :: "string \<Rightarrow> bool" where
  "text_line l \<longleftrightarrow> CHR 0x0A \<notin> set l \<and> CHR 0x00 \<notin> set l"

lemma strchr_split_line: "text_line l \<Longrightarrow> strchr_split (l @ CHR 0x0A # r) (CHR 0x0A) = Some (l, r)"
  by (induction l) (auto simp: text_line_def)

lemma strchr_split_none: "text_line l \<Longrightarrow> strchr_split l (CHR 0x0A) = None"
  by (induction l) (auto simp: text_line_def)

text \<open>
  The buffer holds 1023 bytes of input. \<open>long_tail tail\<close>: the rest \<open>tail\<close> of the input begins with a
  line that has no newline or does not fit with its newline.
\<close>

definition long_tail :: "string \<Rightarrow> bool" where
  "long_tail tail \<longleftrightarrow> CHR 0x0A \<notin> set (take 1023 tail) \<and> CHR 0x00 \<notin> set tail"

lemma long_tail_prefix: "long_tail (ys @ zs) \<Longrightarrow> length ys \<le> 1023 \<Longrightarrow> text_line ys"
  by (auto simp: long_tail_def text_line_def)

lemma grep_lines_spec:
  assumes "ys @ zs = unlines ls @ tail" "\<forall>l \<in> set ls. text_line l" "long_tail tail" "length ys \<le> 1023"
  shows "\<exists>ls1 ls2 rest. ls = ls1 @ ls2 \<and> rest @ zs = unlines ls2 @ tail \<and> text_line rest \<and> length rest \<le> length ys \<and>
           grep_lines pattern ys = (unlines (filter (match pattern) ls1), rest)"
  using assms(1,2,4)
proof (induction ls arbitrary: ys)
  case Nil
  then have "text_line ys" using assms(3) long_tail_prefix [of ys zs] by simp
  with Nil show ?case
    by (subst grep_lines.simps) (simp add: strchr_split_none)
next
  case (Cons l ls)
  have l: "text_line l" using Cons.prems(2) by simp
  obtain us where us: "ys = (l @ [CHR 0x0A]) @ us \<and> us @ zs = unlines ls @ tail \<or>
      ys @ us = l @ [CHR 0x0A] \<and> zs = us @ unlines ls @ tail"
    using Cons.prems(1) append_eq_append_conv2 [of ys zs "l @ [CHR 0x0A]" "unlines ls @ tail"] by auto
  consider (whole) ys' where "ys = l @ CHR 0x0A # ys'" "ys' @ zs = unlines ls @ tail"
    | (part) "\<exists>l'. l = ys @ l'"
  proof (cases "ys = (l @ [CHR 0x0A]) @ us \<and> us @ zs = unlines ls @ tail")
    case True
    then show ?thesis using that(1) [of us] by simp
  next
    case False
    then have e: "ys @ us = l @ [CHR 0x0A]" "zs = us @ unlines ls @ tail" using us by auto
    show ?thesis
    proof (cases us rule: rev_cases)
      case Nil
      then show ?thesis using e that(1) [of "[]"] by simp
    next
      case (snoc vs v)
      then have "(ys @ vs) @ [v] = l @ [CHR 0x0A]" using e(1) by simp
      then show ?thesis using that(2) by (metis butlast_snoc)
    qed
  qed
  then show ?case
  proof cases
    case whole
    obtain ls1 ls2 rest where r: "ls = ls1 @ ls2" "rest @ zs = unlines ls2 @ tail" "text_line rest" "length rest \<le> length ys'"
        "grep_lines pattern ys' = (unlines (filter (match pattern) ls1), rest)"
      using Cons.IH [OF whole(2)] Cons.prems(2,3) whole(1) by auto
    have "grep_lines pattern ys = (unlines (filter (match pattern) (l # ls1)), rest)"
      using r(5) l by (subst grep_lines.simps) (simp add: whole(1) strchr_split_line)
    then show ?thesis
      using r whole(1) by (intro exI [of _ "l # ls1"] exI [of _ ls2] exI [of _ rest]) simp
  next
    case part
    then have "text_line ys" using l by (auto simp: text_line_def)
    then have "grep_lines pattern ys = (unlines (filter (match pattern) []), ys)"
      by (subst grep_lines.simps) (simp add: strchr_split_none)
    then show ?thesis
      using Cons.prems(1) \<open>text_line ys\<close> by (intro exI [of _ "[]"] exI [of _ "l # ls"] exI [of _ ys]) simp
  qed
qed

lemma partial_line_short:
  assumes "rest @ zs = unlines (l # ls) @ tail" "text_line rest"
  shows "length rest \<le> length l"
proof (rule ccontr)
  assume "\<not> length rest \<le> length l"
  then have "rest ! length l = (rest @ zs) ! length l" by (simp add: nth_append)
  also have "\<dots> = CHR 0x0A" unfolding assms(1) by simp
  finally show False
    using assms(2) \<open>\<not> length rest \<le> length l\<close> by (metis nth_mem not_le text_line_def)
qed

text \<open>
  \<open>stream_of rem rd\<close>: the descriptor delivers the bytes \<open>rem s\<close> in order, in
  pieces of any positive size up to the number asked for.
\<close>

definition stream_of :: "('s \<Rightarrow> string) \<Rightarrow> (nat \<Rightarrow> 's \<Rightarrow> string \<times> 's) \<Rightarrow> bool" where
  "stream_of rem rd \<longleftrightarrow>
     (\<forall>n s. let (xs, s') = rd n s
            in rem s = xs @ rem s' \<and> length xs \<le> n \<and> (xs = [] \<longrightarrow> n = 0 \<or> rem s = []))"

lemma grep_spec:
  assumes "stream_of rem rd" "buf @ rem s = unlines ls @ tail" "text_line buf" "length buf \<le> 1023" "long_tail tail"
    and "\<forall>l \<in> set ls. text_line l \<and> length l \<le> 1022"
  shows "\<exists>s'. grep rd pattern buf out s = Some (out @ unlines (filter (match pattern) ls), s') \<and> (tail = [] \<longrightarrow> rem s' = [])"
  using assms(2-4,6)
proof (induction "length (rem s)" arbitrary: s buf out ls rule: less_induct)
  case less
  obtain xs s' where rd: "rd (1024 - length buf - 1) s = (xs, s')" by fastforce
  have law: "rem s = xs @ rem s'" "xs = [] \<longrightarrow> 1024 - length buf - 1 = 0 \<or> rem s = []" "length xs \<le> 1024 - length buf - 1"
    using assms(1) [unfolded stream_of_def, rule_format, of "1024 - length buf - 1" s] rd by auto
  show ?case
  proof (cases "xs = []")
    case True
    have "ls = []"
    proof (cases ls)
      case (Cons l ls')
      have "length buf \<le> 1022"
        using partial_line_short [of buf "rem s" l ls' tail] less.prems(1,2,4) Cons by fastforce
      then have "rem s = []" using law(2) True by simp
      then have "CHR 0x0A \<in> set buf" using less.prems(1) Cons by simp
      then show ?thesis using less.prems(2) by (simp add: text_line_def)
    qed
    then show ?thesis
      using True rd law(1) less.prems(1) by (subst grep.simps) auto
  next
    case False
    obtain ls1 ls2 rest where r: "ls = ls1 @ ls2" "rest @ rem s' = unlines ls2 @ tail" "text_line rest" "length rest \<le> 1023"
        "grep_lines pattern (buf @ xs) = (unlines (filter (match pattern) ls1), rest)"
      using grep_lines_spec [of "buf @ xs" "rem s'" ls tail pattern] less.prems law(1,3) assms(5) by fastforce
    have "length (rem s') < length (rem s)" using law(1) False by simp
    from less.hyps [OF this r(2,3,4), of "out @ unlines (filter (match pattern) ls1)"] less.prems(4) r(1)
    obtain s'' where "grep rd pattern rest (out @ unlines (filter (match pattern) ls1)) s'
        = Some (out @ unlines (filter (match pattern) ls), s'')" "tail = [] \<longrightarrow> rem s'' = []"
      by auto
    then show ?thesis
      using rd r(5) False by (subst grep.simps) simp
  qed
qed

text \<open>The complete lines of an input up to the first that is longer than 1022 characters.\<close>

function short_lines :: "string \<Rightarrow> string list" where
  "short_lines xs =
     (case strchr_split xs (CHR 0x0A) of
        None \<Rightarrow> []
      | Some (l, r) \<Rightarrow> if length l \<le> 1022 then l # short_lines r else [])"
  by pat_completeness auto
termination
  by (relation "measure length") (auto dest!: strchr_split_length)

declare short_lines.simps [simp del]

lemma strchr_split_Some: "strchr_split xs (CHR 0x0A) = Some (l, r) \<Longrightarrow> xs = l @ CHR 0x0A # r \<and> text_line l"
  by (induction xs "CHR 0x0A" arbitrary: l r rule: strchr_split.induct) (auto simp: text_line_def split: if_splits)

lemma strchr_split_None: "strchr_split xs (CHR 0x0A) = None \<Longrightarrow> CHR 0x00 \<notin> set xs \<Longrightarrow> CHR 0x0A \<notin> set xs"
  by (induction xs "CHR 0x0A" rule: strchr_split.induct) (auto split: if_splits)

lemma short_lines_split:
  "CHR 0x00 \<notin> set xs \<Longrightarrow> \<exists>tail. xs = unlines (short_lines xs) @ tail \<and> long_tail tail \<and>
     (\<forall>l \<in> set (short_lines xs). text_line l \<and> length l \<le> 1022)"
proof (induction xs rule: short_lines.induct)
  case (1 xs)
  show ?case
  proof (cases "strchr_split xs (CHR 0x0A)")
    case None
    then show ?thesis
      using 1 strchr_split_None [OF None] by (simp add: short_lines.simps [of xs] long_tail_def) (meson in_set_takeD)
  next
    case (Some y)
    obtain l r where y: "y = (l, r)" by fastforce
    note xs = strchr_split_Some [OF Some [unfolded y]]
    show ?thesis
    proof (cases "length l \<le> 1022")
      case True
      then have "short_lines xs = l # short_lines r" by (simp add: short_lines.simps [of xs] Some y)
      moreover have "CHR 0x00 \<notin> set r" using 1(2) xs by simp
      ultimately show ?thesis using 1(1) [OF Some y [symmetric] True] xs True by fastforce
    next
      case False
      then have "CHR 0x0A \<notin> set (take 1023 xs)" using xs by (auto simp: text_line_def dest: in_set_takeD)
      then show ?thesis using False 1(2) by (simp add: short_lines.simps [of xs] Some y long_tail_def)
    qed
  qed
qed

lemma short_lines_unlines: "\<forall>l \<in> set ls. text_line l \<and> length l \<le> 1022 \<Longrightarrow> short_lines (unlines ls) = ls"
proof (induction ls)
  case (Cons l ls)
  then show ?case using strchr_split_line [of l "unlines ls"] by (subst short_lines.simps) simp
qed (simp add: short_lines.simps)

section \<open>Properties\<close>

text \<open>
  C29. The backtracking matcher of \<^verbatim>\<open>grep\<close> decides exactly the language its
  pattern denotes: \<^verbatim>\<open>^\<close> anchors the beginning, a final \<^verbatim>\<open>$\<close> the end, \<^verbatim>\<open>.\<close> accepts
  any character, \<^verbatim>\<open>c*\<close> any number of characters accepted by \<^verbatim>\<open>c\<close>, and without an
  anchor the match may start anywhere.
\<close>

theorem match_correct: "match re str \<longleftrightarrow> match_spec re str"
  by (rule match_eq_spec)

text \<open>
  C30. On every input without 0 bytes \<^verbatim>\<open>grep\<close> ends, however \<^verbatim>\<open>read\<close> cuts the input into pieces,
  and writes exactly the matching lines, in order, among the complete lines up to the first one
  that is longer than 1022 characters. If all lines are complete and not longer, these are all
  the matching lines of the input, and all of it is read.
\<close>

theorem grep_prints_matching_lines:
  assumes "stream_of rem rd" "CHR 0x00 \<notin> set (rem s)"
  shows "\<exists>s'. grep rd pattern [] [] s = Some (unlines (filter (match_spec pattern) (short_lines (rem s))), s') \<and>
     (\<forall>ls. rem s = unlines ls \<and> (\<forall>l \<in> set ls. text_line l \<and> length l \<le> 1022) \<longrightarrow>
        short_lines (rem s) = ls \<and> rem s' = [])"
proof -
  have m: "match pattern = match_spec pattern" by (simp add: fun_eq_iff match_eq_spec)
  obtain tail where tail: "rem s = unlines (short_lines (rem s)) @ tail" "long_tail tail"
      "\<forall>l \<in> set (short_lines (rem s)). text_line l \<and> length l \<le> 1022"
    using short_lines_split [OF assms(2)] by blast
  obtain s' where s': "grep rd pattern [] [] s = Some (unlines (filter (match pattern) (short_lines (rem s))), s')"
      "tail = [] \<longrightarrow> rem s' = []"
    using grep_spec [OF assms(1), of "[]" s "short_lines (rem s)" tail pattern "[]"] tail by (auto simp: text_line_def)
  have "short_lines (rem s) = ls \<and> rem s' = []"
    if "rem s = unlines ls" "\<forall>l \<in> set ls. text_line l \<and> length l \<le> 1022" for ls
    using short_lines_unlines [OF that(2)] that(1) tail(1) s'(2) by simp
  then show ?thesis using s'(1) unfolding m by blast
qed

text \<open>Two complete lines and one that is not.\<close>

theorem grep_prints_matching_lines_witness:
  "\<exists>s'. grep (\<lambda>n s. (take (min n 3) s, drop (min n 3) s)) ''a.*c'' [] []
           (unlines [''xaybc'', ''none'', ''ac''] @ ''abc'') = Some (unlines [''xaybc'', ''ac''], s')"
proof -
  let ?s = "unlines [''xaybc'', ''none'', ''ac''] @ ''abc''"
  have "stream_of id (\<lambda>n s. (take (min n 3) s, drop (min n 3) s))"
    by (auto simp: stream_of_def min_def)
  moreover have "short_lines ?s = [''xaybc'', ''none'', ''ac'']" by (simp add: short_lines.simps)
  moreover have "filter (match_spec ''a.*c'') [''xaybc'', ''none'', ''ac''] = [''xaybc'', ''ac'']"
    by (simp add: match_eq_spec [symmetric] match_def match_loop.simps matchhere.simps(2) matchstar.simps)
  ultimately show ?thesis
    using grep_prints_matching_lines [of id _ ?s "''a.*c''"] by auto
qed

end
