(* ===== verification/Ring.thy ===== *)
theory Ring
  imports YH_Prelude
begin

text \<open>
  Ring buffers with free-running 32-bit indices, as in pipes and the console: the
  element of index \<open>k\<close> is in slot \<open>k mod n\<close>, and the indices wrap around at
  \<open>2 ^ 32\<close>, a multiple of \<open>n\<close>.
\<close>

definition ring_list :: "nat \<Rightarrow> (nat \<Rightarrow> 'a) \<Rightarrow> uint32 \<Rightarrow> uint32 \<Rightarrow> 'a list" where
  "ring_list n d r w = map (\<lambda>k. d (unat (r + of_nat k) mod n)) [0..<unat (w - r)]"

definition slot :: "nat \<Rightarrow> uint32 \<Rightarrow> nat" where
  "slot n i = unat i mod n"

lemma length_ring_list [simp]: "length (ring_list n d r w) = unat (w - r)"
  by (simp add: ring_list_def)

lemma ring_list_empty [simp]: "ring_list n d r r = []"
  by (simp add: ring_list_def)

lemma ring_list_Nil_iff: "ring_list n d r w = [] \<longleftrightarrow> r = w"
  by (auto simp: ring_list_def unat_eq_0)

lemma slot_add:
  assumes "n dvd 4294967296"
  shows "unat (r + of_nat k :: uint32) mod n = (unat r + k) mod n"
proof -
  have "unat (r + of_nat k :: uint32) = (unat r + k) mod 4294967296"
    by (simp add: unat_word_ariths unat_of_nat take_bit_eq_mod mod_simps)
  then show ?thesis
    using assms by (simp add: mod_mod_cancel)
qed

lemma index_advance: "unat (w - r :: uint32) < 4294967295 \<Longrightarrow> unat (w + 1 - r) = Suc (unat (w - r))"
proof -
  assume "unat (w - r) < 4294967295"
  then have "unat ((w - r) + 1) = unat (w - r) + 1"
    by (simp add: unat_word_ariths)
  then show ?thesis by (simp add: algebra_simps)
qed

lemma index_retreat: "r \<noteq> w \<Longrightarrow> unat (w - (r + 1) :: uint32) = unat (w - r) - 1"
proof -
  assume "r \<noteq> w"
  then have "unat (w - r) \<ge> 1" by (simp add: Suc_le_eq unat_gt_0)
  moreover have "w - (r + 1) = (w - r) - 1" by simp
  ultimately show ?thesis
    by (metis One_nat_def unat_1 unat_sub word_le_nat_alt)
qed

lemma slot_distinct:
  assumes "n dvd 4294967296" "k < unat (w - r)" "unat (w - r) < n"
  shows "unat (r + of_nat k :: uint32) mod n \<noteq> slot n w"
proof -
  have w: "w = r + of_nat (unat (w - r))" by simp
  have "slot n w = (unat r + unat (w - r)) mod n"
    unfolding slot_def by (subst w) (rule slot_add [OF assms(1)])
  moreover have "(unat r + k) mod n \<noteq> (unat r + unat (w - r)) mod n"
  proof
    assume "(unat r + k) mod n = (unat r + unat (w - r)) mod n"
    then have "n dvd (unat r + unat (w - r)) - (unat r + k)"
      by (metis add_le_cancel_left assms(2) less_imp_le_nat mod_eq_dvd_iff_nat)
    then have "n dvd unat (w - r) - k" by simp
    with assms(2,3) show False
      by (metis diff_is_0_eq' dvd_imp_le less_imp_diff_less linorder_not_less zero_less_diff)
  qed
  ultimately show ?thesis using slot_add [OF assms(1)] by simp
qed

text \<open>Writing at the write index appends.\<close>

lemma ring_list_put:
  assumes "n dvd 4294967296" "unat (w - r) < n" "n \<le> 4294967295"
  shows "ring_list n (d(slot n w := c)) r (w + 1) = ring_list n d r w @ [c]"
proof -
  have len: "unat (w + 1 - r) = Suc (unat (w - r))"
    by (rule index_advance) (use assms in linarith)
  have "map (\<lambda>k. (d(slot n w := c)) (unat (r + of_nat k) mod n)) [0..<unat (w - r)]
      = map (\<lambda>k. d (unat (r + of_nat k) mod n)) [0..<unat (w - r)]"
    using slot_distinct [OF assms(1) _ assms(2)] by simp
  moreover have "unat (r + of_nat (unat (w - r))) mod n = slot n w"
    by (simp add: slot_def)
  ultimately show ?thesis
    unfolding ring_list_def len upt_Suc_append [OF le0] map_append by (simp del: fun_upd_apply) simp
qed

text \<open>Advancing the read index removes the first element.\<close>

lemma ring_list_get:
  assumes "r \<noteq> w"
  shows "ring_list n d r w = d (slot n r) # ring_list n d (r + 1) w"
proof -
  have "unat (w - r) \<noteq> 0" using assms by (simp add: unat_eq_0)
  then obtain k where k: "unat (w - r) = Suc k" by (metis not0_implies_Suc)
  have k': "unat (w - (r + 1)) = k" using index_retreat [OF assms] k by simp
  show ?thesis
    unfolding ring_list_def k k' upt_conv_Cons [OF zero_less_Suc] list.map
    by (simp add: slot_def map_Suc_upt [symmetric] comp_def algebra_simps del: upt_Suc)
qed

text \<open>Dropping the element last written.\<close>

lemma ring_list_unput:
  assumes "r \<noteq> w"
  shows "ring_list n d r (w - 1) = butlast (ring_list n d r w)"
proof -
  have "unat (w - r) \<noteq> 0" using assms by (simp add: unat_eq_0)
  then obtain k where k: "unat (w - r) = Suc k" by (metis not0_implies_Suc)
  have "w - 1 - r = w - r - 1" by simp
  then have "unat (w - 1 - r) = k"
    using k by (metis One_nat_def diff_Suc_1 le_numeral_extra(4) plus_1_eq_Suc le_add1 unat_1 unat_sub word_le_nat_alt)
  then show ?thesis
    unfolding ring_list_def k by (simp add: butlast_append)
qed

section \<open>Bounded first-in first-out queues\<close>

text \<open>What the users of a ring rely on.\<close>

locale fifo =
  fixes items :: "'q \<Rightarrow> 'a list"
    and ok :: "'q \<Rightarrow> bool"
    and cap :: nat
    and put :: "'a \<Rightarrow> 'q \<Rightarrow> 'q"
    and get :: "'q \<Rightarrow> 'q"
  assumes put_back: "ok q \<Longrightarrow> length (items q) < cap \<Longrightarrow> ok (put c q) \<and> items (put c q) = items q @ [c]"
    and get_front: "ok q \<Longrightarrow> items q \<noteq> [] \<Longrightarrow> ok (get q) \<and> items (get q) = tl (items q)"
begin

lemma put_many:
  "ok q \<Longrightarrow> length (items q) + length bs \<le> cap \<Longrightarrow>
     ok (fold put bs q) \<and> items (fold put bs q) = items q @ bs"
proof (induction bs arbitrary: q)
  case (Cons b bs)
  from put_back [of q b] Cons.prems have "ok (put b q)" "items (put b q) = items q @ [b]" by auto
  with Cons.IH [of "put b q"] Cons.prems show ?case by simp
qed simp

lemma get_many:
  "ok q \<Longrightarrow> k \<le> length (items q) \<Longrightarrow> ok ((get ^^ k) q) \<and> items ((get ^^ k) q) = drop k (items q)"
proof (induction k)
  case (Suc k)
  then have ih: "ok ((get ^^ k) q)" "items ((get ^^ k) q) = drop k (items q)" by simp_all
  moreover have "drop k (items q) \<noteq> []" using Suc.prems by simp
  ultimately show ?case
    using get_front [of "(get ^^ k) q"] by (simp add: tl_drop drop_Suc)
qed simp

end

end
