(* ===== verification/Pipe.thy ===== *)
theory Pipe
  imports Sleeplock Ring
begin

text \<open>
  \<^verbatim>\<open>kernel/pipe.c\<close>. A pipe is a ring of \<^verbatim>\<open>PIPESIZE\<close> bytes with free-running 32-bit
  counters. \<open>pi\<close> is the address of the pipe, \<open>P\<close> its contents. \<^verbatim>\<open>pipewrite\<close> and
  \<^verbatim>\<open>piperead\<close> are modelled from one acquisition of the lock to the next \<^verbatim>\<open>sleep\<close> or
  the return; a writer that slept continues with its count \<open>i\<close>.
\<close>

section \<open>State and operations\<close>

definition PIPESIZE :: nat where "PIPESIZE = 512"

record pipe =
  pdata :: "nat \<Rightarrow> uint8"
  nread :: uint32
  nwrite :: uint32
  readopen :: bool
  writeopen :: bool

text \<open>The initialisation in \<^verbatim>\<open>pipealloc\<close>; the data keep what the page held.\<close>

definition pipe_init :: "pipe \<Rightarrow> pipe" where
  "pipe_init P = P\<lparr>readopen := True, writeopen := True, nwrite := 0, nread := 0\<rparr>"

definition pipe_full :: "pipe \<Rightarrow> bool" where
  "pipe_full P \<longleftrightarrow> nwrite P = nread P + of_nat PIPESIZE"

definition pipe_put :: "uint8 \<Rightarrow> pipe \<Rightarrow> pipe" where
  "pipe_put c P = P\<lparr>pdata := (pdata P)(slot PIPESIZE (nwrite P) := c), nwrite := nwrite P + 1\<rparr>"

definition pipe_next :: "pipe \<Rightarrow> uint8" where
  "pipe_next P = pdata P (slot PIPESIZE (nread P))"

definition pipe_get :: "pipe \<Rightarrow> pipe" where
  "pipe_get P = P\<lparr>nread := nread P + 1\<rparr>"

text \<open>
  One byte between the user address \<open>va\<close> of the current process and the local
  variable \<^verbatim>\<open>ch\<close>.
\<close>

definition copyin_byte :: "uint32 \<Rightarrow> 'a mach_scheme \<Rightarrow> (uint8 option \<times> 'a mach_scheme) res" where
  "copyin_byte va s =
     (let as = p_as (myproc s)
      in bind_res (copyin as (pagetable as) (klocal s) va 1 (km s)) (\<lambda>(ok, k).
           Ok (if ok then Some (phys k (klocal s)) else None, s\<lparr>km := k\<rparr>)))"

definition copyout_byte :: "uint32 \<Rightarrow> uint8 \<Rightarrow> 'a mach_scheme \<Rightarrow> (bool \<times> 'a mach_scheme) res" where
  "copyout_byte va c s =
     (let as = p_as (myproc s);
          k = (km s)\<lparr>phys := (phys (km s))(klocal s := c)\<rparr>
      in bind_res (copyout as (pagetable as) va (klocal s) 1 k) (\<lambda>(ok, k1). Ok (ok, s\<lparr>km := k1\<rparr>)))"

function pipewrite_loop ::
    "addr \<Rightarrow> uint32 \<Rightarrow> int \<Rightarrow> int \<Rightarrow> pipe \<Rightarrow> 'a mach_scheme \<Rightarrow> (int blk \<times> int \<times> pipe \<times> 'a mach_scheme) res" where
  "pipewrite_loop pi addr n i P s =
     (if i < n then
        if \<not> readopen P \<or> killed (me s) (pt s) then Ok (Ret (- 1), i, P, s)
        else if pipe_full P then Ok (Sleep, i, P, ksleep (KPipeWrite pi) (kwakeup (KPipeRead pi) s))
        else bind_res (copyin_byte (addr + of_int i) s) (\<lambda>(c, s1).
               case c of
                 None \<Rightarrow> Ok (Ret i, i, P, kwakeup (KPipeRead pi) s1)
               | Some ch \<Rightarrow> pipewrite_loop pi addr n (i + 1) (pipe_put ch P) s1)
      else Ok (Ret i, i, P, kwakeup (KPipeRead pi) s))"
  by pat_completeness auto
termination
  by (relation "measure (\<lambda>(pi, addr, n, i, P, s). nat (n - i))") auto

declare pipewrite_loop.simps [simp del]

definition pipewrite ::
    "addr \<Rightarrow> uint32 \<Rightarrow> int \<Rightarrow> pipe \<Rightarrow> 'a mach_scheme \<Rightarrow> (int blk \<times> int \<times> pipe \<times> 'a mach_scheme) res" where
  "pipewrite pi addr n P s = pipewrite_loop pi addr n 0 P s"

text \<open>The copying loop of \<^verbatim>\<open>piperead\<close>.\<close>

function piperead_loop ::
    "uint32 \<Rightarrow> int \<Rightarrow> int \<Rightarrow> pipe \<Rightarrow> 'a mach_scheme \<Rightarrow> (int \<times> pipe \<times> 'a mach_scheme) res" where
  "piperead_loop addr n i P s =
     (if i < n then
        if nread P = nwrite P then Ok (i, P, s)
        else bind_res (copyout_byte (addr + of_int i) (pipe_next P) s) (\<lambda>(ok, s1).
               if \<not> ok then Ok (if i = 0 then - 1 else i, P, s1)
               else piperead_loop addr n (i + 1) (pipe_get P) s1)
      else Ok (i, P, s))"
  by pat_completeness auto
termination
  by (relation "measure (\<lambda>(addr, n, i, P, s). nat (n - i))") auto

declare piperead_loop.simps [simp del]

definition piperead ::
    "addr \<Rightarrow> uint32 \<Rightarrow> int \<Rightarrow> pipe \<Rightarrow> 'a mach_scheme \<Rightarrow> (int blk \<times> pipe \<times> 'a mach_scheme) res" where
  "piperead pi addr n P s =
     (if nread P = nwrite P \<and> writeopen P
      then if killed (me s) (pt s) then Ok (Ret (- 1), P, s) else Ok (Sleep, P, ksleep (KPipeRead pi) s)
      else bind_res (piperead_loop addr n 0 P s) (\<lambda>(i, P1, s1).
             Ok (Ret i, P1, kwakeup (KPipeWrite pi) s1)))"

text \<open>The update of the flags in \<^verbatim>\<open>pipeclose\<close>, and the whole function.\<close>

definition close_end :: "bool \<Rightarrow> pipe \<Rightarrow> pipe" where
  "close_end writable P = (if writable then P\<lparr>writeopen := False\<rparr> else P\<lparr>readopen := False\<rparr>)"

definition pipeclose :: "addr \<Rightarrow> bool \<Rightarrow> pipe \<Rightarrow> 'a mach_scheme \<Rightarrow> (pipe \<times> 'a mach_scheme) res" where
  "pipeclose pi writable P s =
     (let P1 = close_end writable P;
          s1 = kwakeup (if writable then KPipeRead pi else KPipeWrite pi) s
      in if \<not> readopen P1 \<and> \<not> writeopen P1
         then bind_res (kfree pi (km s1)) (\<lambda>k. Ok (P1, s1\<lparr>km := k\<rparr>))
         else Ok (P1, s1))"

section \<open>The bytes in a pipe\<close>

definition pipe_bytes :: "pipe \<Rightarrow> uint8 list" where
  "pipe_bytes P = ring_list PIPESIZE (pdata P) (nread P) (nwrite P)"

definition pipe_ok :: "pipe \<Rightarrow> bool" where
  "pipe_ok P \<longleftrightarrow> length (pipe_bytes P) \<le> PIPESIZE"

lemma PIPESIZE_facts: "PIPESIZE dvd 4294967296" "PIPESIZE \<le> 4294967295" "0 < PIPESIZE"
  by (simp_all add: PIPESIZE_def)

lemma pipe_full_iff: "pipe_full P \<longleftrightarrow> length (pipe_bytes P) = PIPESIZE"
proof -
  have "unat (of_nat PIPESIZE :: uint32) = PIPESIZE" by (simp add: PIPESIZE_def)
  then have "unat (nwrite P - nread P) = PIPESIZE \<longleftrightarrow> nwrite P - nread P = of_nat PIPESIZE"
    by (metis unsigned_word_eqI)
  also have "\<dots> \<longleftrightarrow> nwrite P = nread P + of_nat PIPESIZE"
    by (metis add.commute diff_add_cancel add_diff_cancel_left')
  finally show ?thesis by (simp add: pipe_full_def pipe_bytes_def)
qed

lemma pipe_bytes_init [simp]: "pipe_bytes (pipe_init P) = []"
  by (simp add: pipe_bytes_def pipe_init_def)

lemma pipe_bytes_flags [simp]:
  "pipe_bytes (P\<lparr>readopen := b\<rparr>) = pipe_bytes P" "pipe_bytes (P\<lparr>writeopen := b\<rparr>) = pipe_bytes P"
  by (simp_all add: pipe_bytes_def)

lemma pipe_bytes_close [simp]: "pipe_bytes (close_end w P) = pipe_bytes P"
  by (simp add: pipe_bytes_def close_end_def)

lemma pipe_bytes_put:
  assumes "pipe_ok P" "\<not> pipe_full P"
  shows "pipe_bytes (pipe_put c P) = pipe_bytes P @ [c]"
proof -
  have "unat (nwrite P - nread P) < PIPESIZE"
    using assms by (simp add: pipe_ok_def pipe_full_iff) (simp add: pipe_bytes_def)
  then show ?thesis
    unfolding pipe_bytes_def pipe_put_def by (simp add: ring_list_put PIPESIZE_facts)
qed

lemma pipe_bytes_get:
  assumes "nread P \<noteq> nwrite P"
  shows "pipe_bytes P = pipe_next P # pipe_bytes (pipe_get P)"
  unfolding pipe_bytes_def pipe_get_def pipe_next_def by (simp add: ring_list_get [OF assms])

lemma pipe_empty_iff: "nread P = nwrite P \<longleftrightarrow> pipe_bytes P = []"
  by (simp add: pipe_bytes_def ring_list_Nil_iff)

interpretation pipe_queue: fifo pipe_bytes pipe_ok PIPESIZE pipe_put pipe_get
proof
  show "pipe_ok (pipe_put c q) \<and> pipe_bytes (pipe_put c q) = pipe_bytes q @ [c]"
    if "pipe_ok q" "length (pipe_bytes q) < PIPESIZE" for q c
    using that pipe_bytes_put [of q c] by (simp add: pipe_ok_def pipe_full_iff)
  show "pipe_ok (pipe_get q) \<and> pipe_bytes (pipe_get q) = tl (pipe_bytes q)"
    if "pipe_ok q" "pipe_bytes q \<noteq> []" for q
    using that pipe_bytes_get [of q] by (auto simp: pipe_ok_def pipe_empty_iff)
qed

section \<open>What the critical sections do\<close>

lemma copyin_byte_frame:
  "copyin_byte va s = Ok (c, s') \<Longrightarrow> pt s' = pt s \<and> cur s' = cur s \<and> me s' = me s"
  by (auto simp: copyin_byte_def Let_def bind_res_Ok_iff me_def)

lemma copyout_byte_frame:
  "copyout_byte va c s = Ok (ok, s') \<Longrightarrow> pt s' = pt s \<and> cur s' = cur s \<and> me s' = me s"
  by (auto simp: copyout_byte_def Let_def bind_res_Ok_iff me_def)

lemma put_sel [simp]: "readopen (pipe_put c P) = readopen P" "writeopen (pipe_put c P) = writeopen P"
  by (simp_all add: pipe_put_def)

lemma put_sels [simp]: "readopen (fold pipe_put bs P) = readopen P" "writeopen (fold pipe_put bs P) = writeopen P"
  by (induction bs arbitrary: P) simp_all

lemma get_sels [simp]: "readopen ((pipe_get ^^ k) P) = readopen P" "writeopen ((pipe_get ^^ k) P) = writeopen P"
  by (induction k) (simp_all add: pipe_get_def)

text \<open>
  The bytes that a caller hands over: \<open>fetched va bs s = Some s1\<close> says that \<^verbatim>\<open>copyin\<close> yields
  the bytes \<open>bs\<close> from the user addresses \<open>va\<close>, \<open>va + 1\<close>, ... in this order, and leaves the machine
  \<open>s1\<close>. \<open>stored va bs s = Some s1\<close> says that \<^verbatim>\<open>copyout\<close> stores them there.
\<close>

primrec fetched :: "uint8 list \<Rightarrow> uint32 \<Rightarrow> 'a mach_scheme \<Rightarrow> 'a mach_scheme option" where
  "fetched [] va s = Some s"
| "fetched (b # bs) va s =
     (case copyin_byte va s of Ok (Some c, s1) \<Rightarrow> if c = b then fetched bs (va + 1) s1 else None | _ \<Rightarrow> None)"

primrec stored :: "uint8 list \<Rightarrow> uint32 \<Rightarrow> 'a mach_scheme \<Rightarrow> 'a mach_scheme option" where
  "stored [] va s = Some s"
| "stored (b # bs) va s = (case copyout_byte va b s of Ok (True, s1) \<Rightarrow> stored bs (va + 1) s1 | _ \<Rightarrow> None)"

lemma fetched_frame: "fetched bs va s = Some s1 \<Longrightarrow> pt s1 = pt s \<and> cur s1 = cur s \<and> me s1 = me s"
proof (induction bs arbitrary: va s)
  case (Cons b bs)
  then obtain s2 where "copyin_byte va s = Ok (Some b, s2)" "fetched bs (va + 1) s2 = Some s1"
    by (auto split: res.splits option.splits prod.splits if_splits)
  then show ?case using Cons.IH copyin_byte_frame by metis
qed simp

lemma stored_frame: "stored bs va s = Some s1 \<Longrightarrow> pt s1 = pt s \<and> cur s1 = cur s \<and> me s1 = me s"
proof (induction bs arbitrary: va s)
  case (Cons b bs)
  then obtain s2 where "copyout_byte va b s = Ok (True, s2)" "stored bs (va + 1) s2 = Some s1"
    by (auto split: res.splits prod.splits bool.splits)
  then show ?case using Cons.IH copyout_byte_frame by metis
qed simp

text \<open>
  How a critical section of \<^verbatim>\<open>pipewrite\<close> ends that has put the bytes \<open>bs\<close> and then is in the
  machine \<open>s1\<close>: closed or killed, full, all written, or the next byte cannot be read.
\<close>

definition write_stops ::
    "addr \<Rightarrow> uint32 \<Rightarrow> int \<Rightarrow> pipe \<Rightarrow> 'a mach_scheme \<Rightarrow> int \<Rightarrow> int blk \<Rightarrow> 'a mach_scheme \<Rightarrow> bool" where
  "write_stops pi addr n P s1 i r s' \<longleftrightarrow>
     (if n \<le> i then r = Ret i \<and> s' = kwakeup (KPipeRead pi) s1
      else if \<not> readopen P \<or> killed (me s1) (pt s1) then r = Ret (- 1) \<and> s' = s1
      else if length (pipe_bytes P) = PIPESIZE
        then r = Sleep \<and> s' = ksleep (KPipeWrite pi) (kwakeup (KPipeRead pi) s1)
      else \<exists>s2. copyin_byte (addr + of_int i) s1 = Ok (None, s2) \<and> r = Ret i \<and> s' = kwakeup (KPipeRead pi) s2)"

definition write_spec ::
    "addr \<Rightarrow> uint32 \<Rightarrow> int \<Rightarrow> int \<Rightarrow> pipe \<Rightarrow> 'a mach_scheme \<Rightarrow> (int blk \<times> int \<times> pipe \<times> 'a mach_scheme) res \<Rightarrow> bool" where
  "write_spec pi addr n i P s R \<longleftrightarrow>
     (\<exists>bs s1. fetched bs (addr + of_int i) s = Some s1 \<and>
        (case R of
           Ok (r, i', P', s') \<Rightarrow> i' = i + int (length bs) \<and> P' = fold pipe_put bs P \<and> pipe_ok P' \<and>
             pipe_bytes P' = pipe_bytes P @ bs \<and> (bs \<noteq> [] \<longrightarrow> i' \<le> n \<and> readopen P \<and> \<not> killed (me s) (pt s)) \<and>
             write_stops pi addr n P' s1 i' r s'
         | Panic e \<Rightarrow> copyin_byte (addr + of_int (i + int (length bs))) s1 = Panic e
         | Loop \<Rightarrow> copyin_byte (addr + of_int (i + int (length bs))) s1 = Loop))"

lemma write_spec_stop:
  assumes "pipe_ok P" "write_stops pi addr n P s i r s'"
  shows "write_spec pi addr n i P s (Ok (r, i, P, s'))"
  unfolding write_spec_def using assms by (intro exI [of _ "[]"] exI [of _ s]) simp

lemma write_spec_put:
  assumes c: "copyin_byte (addr + of_int i) s = Ok (Some ch, s2)" and ok: "pipe_ok P" "length (pipe_bytes P) < PIPESIZE"
    and g: "i < n" "readopen P" "\<not> killed (me s) (pt s)" and w: "write_spec pi addr n (i + 1) (pipe_put ch P) s2 R"
  shows "write_spec pi addr n i P s R"
proof -
  note put = pipe_queue.put_back [OF ok, of ch]
  obtain bs s1 where f: "fetched bs (addr + of_int (i + 1)) s2 = Some s1"
    and R: "case R of
           Ok (r, i', P', s') \<Rightarrow> i' = i + 1 + int (length bs) \<and> P' = fold pipe_put bs (pipe_put ch P) \<and> pipe_ok P' \<and>
             pipe_bytes P' = pipe_bytes (pipe_put ch P) @ bs \<and>
             (bs \<noteq> [] \<longrightarrow> i' \<le> n \<and> readopen (pipe_put ch P) \<and> \<not> killed (me s2) (pt s2)) \<and>
             write_stops pi addr n P' s1 i' r s'
         | Panic e \<Rightarrow> copyin_byte (addr + of_int (i + 1 + int (length bs))) s1 = Panic e
         | Loop \<Rightarrow> copyin_byte (addr + of_int (i + 1 + int (length bs))) s1 = Loop"
    using w by (auto simp: write_spec_def)
  have "fetched (ch # bs) (addr + of_int i) s = Some s1" using f c by (simp add: algebra_simps)
  then show ?thesis
    unfolding write_spec_def using R put g
    by (intro exI [of _ "ch # bs"] exI [of _ s1]) (auto simp: algebra_simps split: res.splits)
qed

lemma pipewrite_loop_spec: "pipe_ok P \<Longrightarrow> write_spec pi addr n i P s (pipewrite_loop pi addr n i P s)"
proof (induction pi addr n i P s rule: pipewrite_loop.induct)
  case (1 pi addr n i P s)
  have len: "length (pipe_bytes P) \<le> PIPESIZE" using "1.prems" by (simp add: pipe_ok_def)
  show ?case
  proof (cases "i < n \<and> \<not> (\<not> readopen P \<or> killed (me s) (pt s)) \<and> \<not> pipe_full P")
    case False
    then obtain r s' where "pipewrite_loop pi addr n i P s = Ok (r, i, P, s')" "write_stops pi addr n P s i r s'"
      using pipewrite_loop.simps [of pi addr n i P s] by (auto simp: write_stops_def pipe_full_iff split: if_splits)
    then show ?thesis using write_spec_stop "1.prems" by simp
  next
    case True
    have room: "length (pipe_bytes P) < PIPESIZE" using True len by (simp add: pipe_full_iff)
    have loop: "pipewrite_loop pi addr n i P s = bind_res (copyin_byte (addr + of_int i) s) (\<lambda>(c, s1).
               case c of
                 None \<Rightarrow> Ok (Ret i, i, P, kwakeup (KPipeRead pi) s1)
               | Some ch \<Rightarrow> pipewrite_loop pi addr n (i + 1) (pipe_put ch P) s1)"
      using True pipewrite_loop.simps [of pi addr n i P s] by simp
    show ?thesis
    proof (cases "copyin_byte (addr + of_int i) s")
      case (Ok x)
      obtain c s2 where x: "x = (c, s2)" by fastforce
      show ?thesis
      proof (cases c)
        case None
        then have "write_stops pi addr n P s i (Ret i) (kwakeup (KPipeRead pi) s2)"
          using True Ok x room by (simp add: write_stops_def)
        then show ?thesis using write_spec_stop [OF "1.prems"] loop Ok x None by simp
      next
        case (Some ch)
        have "write_spec pi addr n (i + 1) (pipe_put ch P) s2 (pipewrite_loop pi addr n (i + 1) (pipe_put ch P) s2)"
          by (rule "1.IH" [OF _ _ _ Some]) (use True pipe_queue.put_back [OF "1.prems" room, of ch] in auto)
        then show ?thesis using write_spec_put [of addr i s ch s2 P n pi] Ok x Some True room "1.prems" loop by simp
      qed
    qed (auto simp: loop write_spec_def intro!: exI [of _ "[]"])
  qed
qed

text \<open>
  The same for \<^verbatim>\<open>piperead\<close> that has taken \<open>k\<close> bytes: all asked for or all there are, or the
  next one cannot be stored.
\<close>

definition read_spec ::
    "uint32 \<Rightarrow> int \<Rightarrow> int \<Rightarrow> pipe \<Rightarrow> 'a mach_scheme \<Rightarrow> (int \<times> pipe \<times> 'a mach_scheme) res \<Rightarrow> bool" where
  "read_spec addr n i P s R \<longleftrightarrow>
     (\<exists>k s1. k \<le> min (nat (n - i)) (length (pipe_bytes P)) \<and> stored (take k (pipe_bytes P)) (addr + of_int i) s = Some s1 \<and>
        (case R of
           Ok (r, P', s') \<Rightarrow> P' = (pipe_get ^^ k) P \<and> pipe_ok P' \<and> pipe_bytes P' = drop k (pipe_bytes P) \<and>
             (if k = min (nat (n - i)) (length (pipe_bytes P)) then r = i + int k \<and> s' = s1
              else copyout_byte (addr + of_int i + of_nat k) (pipe_bytes P ! k) s1 = Ok (False, s') \<and>
                   r = (if i + int k = 0 then - 1 else i + int k))
         | Panic e \<Rightarrow> k < length (pipe_bytes P) \<and> copyout_byte (addr + of_int i + of_nat k) (pipe_bytes P ! k) s1 = Panic e
         | Loop \<Rightarrow> k < length (pipe_bytes P) \<and> copyout_byte (addr + of_int i + of_nat k) (pipe_bytes P ! k) s1 = Loop))"

lemma read_spec_get:
  assumes c: "copyout_byte (addr + of_int i) (pipe_next P) s = Ok (True, s2)" and ok: "pipe_ok P" "nread P \<noteq> nwrite P"
    and g: "i < n" and w: "read_spec addr n (i + 1) (pipe_get P) s2 R"
  shows "read_spec addr n i P s R"
proof -
  have b: "pipe_bytes P = pipe_next P # pipe_bytes (pipe_get P)" by (rule pipe_bytes_get [OF ok(2)])
  have n: "nat (n - i) = Suc (nat (n - (i + 1)))" using g by simp
  obtain k s1 where k: "k \<le> min (nat (n - (i + 1))) (length (pipe_bytes (pipe_get P)))"
    and f: "stored (take k (pipe_bytes (pipe_get P))) (addr + of_int (i + 1)) s2 = Some s1"
    and R: "case R of
           Ok (r, P', s') \<Rightarrow> P' = (pipe_get ^^ k) (pipe_get P) \<and> pipe_ok P' \<and> pipe_bytes P' = drop k (pipe_bytes (pipe_get P)) \<and>
             (if k = min (nat (n - (i + 1))) (length (pipe_bytes (pipe_get P))) then r = i + 1 + int k \<and> s' = s1
              else copyout_byte (addr + of_int (i + 1) + of_nat k) (pipe_bytes (pipe_get P) ! k) s1 = Ok (False, s') \<and>
                   r = (if i + 1 + int k = 0 then - 1 else i + 1 + int k))
         | Panic e \<Rightarrow> k < length (pipe_bytes (pipe_get P)) \<and>
             copyout_byte (addr + of_int (i + 1) + of_nat k) (pipe_bytes (pipe_get P) ! k) s1 = Panic e
         | Loop \<Rightarrow> k < length (pipe_bytes (pipe_get P)) \<and>
             copyout_byte (addr + of_int (i + 1) + of_nat k) (pipe_bytes (pipe_get P) ! k) s1 = Loop"
    using w by (auto simp: read_spec_def)
  have "stored (take (Suc k) (pipe_bytes P)) (addr + of_int i) s = Some s1" using f c by (simp add: b algebra_simps)
  moreover have "Suc k \<le> min (nat (n - i)) (length (pipe_bytes P))" using k n by (simp add: b)
  moreover have "(pipe_get ^^ k) (pipe_get P) = (pipe_get ^^ Suc k) P" by (simp add: funpow_swap1)
  moreover have e: "addr + of_int (i + 1) + of_nat k = addr + of_int i + of_nat (Suc k)" by simp
  moreover have "drop (Suc k) (pipe_bytes P) = drop k (pipe_bytes (pipe_get P))" "pipe_bytes P ! Suc k = pipe_bytes (pipe_get P) ! k"
    "length (pipe_bytes P) = Suc (length (pipe_bytes (pipe_get P)))" using b by simp_all
  ultimately show ?thesis
    unfolding read_spec_def using R [unfolded e] n
    by (intro exI [of _ "Suc k"] exI [of _ s1]) (auto simp del: of_nat_Suc take_Suc_Cons split: res.splits if_splits)
qed

lemma piperead_loop_spec: "pipe_ok P \<Longrightarrow> read_spec addr n i P s (piperead_loop addr n i P s)"
proof (induction addr n i P s rule: piperead_loop.induct)
  case (1 addr n i P s)
  show ?case
  proof (cases "i < n \<and> nread P \<noteq> nwrite P")
    case False
    then have "piperead_loop addr n i P s = Ok (i, P, s)" "min (nat (n - i)) (length (pipe_bytes P)) = 0"
      using piperead_loop.simps [of addr n i P s] by (auto simp: pipe_empty_iff)
    then show ?thesis using "1.prems" by (simp add: read_spec_def)
  next
    case True
    then have loop: "piperead_loop addr n i P s = bind_res (copyout_byte (addr + of_int i) (pipe_next P) s) (\<lambda>(ok, s1).
               if \<not> ok then Ok (if i = 0 then - 1 else i, P, s1)
               else piperead_loop addr n (i + 1) (pipe_get P) s1)"
      using piperead_loop.simps [of addr n i P s] by simp
    have b: "pipe_bytes P = pipe_next P # pipe_bytes (pipe_get P)" using pipe_bytes_get True by blast
    show ?thesis
    proof (cases "copyout_byte (addr + of_int i) (pipe_next P) s")
      case (Ok x)
      obtain ok s2 where x: "x = (ok, s2)" by fastforce
      show ?thesis
      proof (cases ok)
        case False
        then have "piperead_loop addr n i P s = Ok (if i = 0 then - 1 else i, P, s2)" using loop Ok x by simp
        moreover have "min (nat (n - i)) (length (pipe_bytes P)) \<noteq> 0" using True by (simp add: b)
        ultimately show ?thesis
          unfolding read_spec_def using Ok x False "1.prems" by (intro exI [of _ 0] exI [of _ s]) (simp add: b)
      next
        case ok: True
        have "read_spec addr n (i + 1) (pipe_get P) s2 (piperead_loop addr n (i + 1) (pipe_get P) s2)"
          by (rule "1.IH") (use True ok pipe_queue.get_front [OF "1.prems"] in \<open>auto simp: pipe_empty_iff\<close>)
        then show ?thesis using read_spec_get [of addr i P s s2 n] Ok x ok True "1.prems" loop by simp
      qed
    qed (use loop in \<open>auto simp: read_spec_def b intro!: exI [of _ 0]\<close>)
  qed
qed

section \<open>Readers and writers\<close>

text \<open>
  The critical sections on a pipe are those of \<^verbatim>\<open>pipewrite\<close> (with \<open>i\<close> bytes written so far),
  \<^verbatim>\<open>piperead\<close> and \<^verbatim>\<open>pipeclose\<close>. The pipe comes with the bytes sent and received so far: a
  writer sends the bytes that \<^verbatim>\<open>copyin\<close> yields from its buffer, as many as its count
  advances; a reader receives as many bytes as its call returns.
\<close>

primrec fetch :: "nat \<Rightarrow> uint32 \<Rightarrow> 'a mach_scheme \<Rightarrow> uint8 list" where
  "fetch 0 va s = []"
| "fetch (Suc k) va s = (case copyin_byte va s of Ok (Some c, s1) \<Rightarrow> c # fetch k (va + 1) s1 | _ \<Rightarrow> [])"

type_synonym pipe_hist = "pipe \<times> uint8 list \<times> uint8 list"

datatype pipe_op = PWrite uint32 int int | PRead uint32 int | PClose bool

fun pipe_section :: "addr \<Rightarrow> (pipe_op, pipe_hist, 'a) csect" where
  "pipe_section pi (PWrite addr n i) ((P, sent, rcvd), s) =
     (case pipewrite_loop pi addr n i P s of
        Ok (r, i', P', s') \<Rightarrow> Some ((P', sent @ fetch (nat (i' - i)) (addr + of_int i) s, rcvd), s', r = Sleep)
      | _ \<Rightarrow> None)"
| "pipe_section pi (PRead addr n) ((P, sent, rcvd), s) =
     (case piperead pi addr n P s of
        Ok (Ret k, P', s') \<Rightarrow> Some ((P', sent, rcvd @ take (nat k) (pipe_bytes P)), s', False)
      | Ok (Sleep, P', s') \<Rightarrow> Some ((P', sent, rcvd), s', True)
      | _ \<Rightarrow> None)"
| "pipe_section pi (PClose writable) ((P, sent, rcvd), s) =
     (case pipeclose pi writable P s of Ok (P', s') \<Rightarrow> Some ((P', sent, rcvd), s', False) | _ \<Rightarrow> None)"

definition pipe_chans :: "addr \<Rightarrow> kobj set" where
  "pipe_chans pi = {KPipeRead pi, KPipeWrite pi}"

definition read_blocked :: "pipe_hist \<Rightarrow> bool" where
  "read_blocked m = (case m of (P, _) \<Rightarrow> pipe_bytes P = [] \<and> writeopen P)"

definition write_blocked :: "pipe_hist \<Rightarrow> bool" where
  "write_blocked m = (case m of (P, _) \<Rightarrow> length (pipe_bytes P) = PIPESIZE \<and> readopen P)"

definition pipe_hist_ok :: "pipe_hist \<Rightarrow> bool" where
  "pipe_hist_ok m = (case m of (P, sent, rcvd) \<Rightarrow> pipe_ok P \<and> sent = rcvd @ pipe_bytes P)"

lemma fetch_fetched: "fetched bs va s = Some s1 \<Longrightarrow> fetch (length bs) va s = bs"
  by (induction bs arbitrary: va s) (auto split: res.splits option.splits prod.splits if_splits)

text \<open>What a section does to the pipe, the history and the process table.\<close>

inductive pipe_effect :: "addr \<Rightarrow> nat option \<Rightarrow> nat \<Rightarrow> pipe_hist \<Rightarrow> ptable \<Rightarrow> pipe_hist \<Rightarrow> ptable \<Rightarrow> bool \<Rightarrow> bool" where
  Fails: "pipe_effect pi cu p m t m t False"
| Sent: "readopen P' = readopen P \<Longrightarrow> writeopen P' = writeopen P \<Longrightarrow> pipe_bytes P' = pipe_bytes P @ bs \<Longrightarrow>
    pipe_effect pi cu p (P, sent, rcvd) t (P', sent @ bs, rcvd) (wakeup cu (KPipeRead pi) t) False"
| SentSleeps: "readopen P' = readopen P \<Longrightarrow> writeopen P' = writeopen P \<Longrightarrow> pipe_bytes P' = pipe_bytes P @ bs \<Longrightarrow>
    length (pipe_bytes P') = PIPESIZE \<Longrightarrow> readopen P' \<Longrightarrow>
    pipe_effect pi cu p (P, sent, rcvd) t (P', sent @ bs, rcvd)
      (sleep_enter (KPipeWrite pi) p (wakeup cu (KPipeRead pi) t)) True"
| Rcvd: "readopen P' = readopen P \<Longrightarrow> writeopen P' = writeopen P \<Longrightarrow> pipe_bytes P = bs @ pipe_bytes P' \<Longrightarrow>
    pipe_effect pi cu p (P, sent, rcvd) t (P', sent, rcvd @ bs) (wakeup cu (KPipeWrite pi) t) False"
| ReadSleeps: "pipe_bytes P = [] \<Longrightarrow> writeopen P \<Longrightarrow>
    pipe_effect pi cu p (P, h) t (P, h) (sleep_enter (KPipeRead pi) p t) True"
| Closed: "pipe_effect pi cu p (P, h) t (close_end w P, h)
      (wakeup cu (if w then KPipeRead pi else KPipeWrite pi) t) False"

inductive_cases pipe_effectE: "pipe_effect pi cu p m t m' t' slept"

lemma pipewrite_effect:
  assumes "pipe_ok P" and e: "pipewrite_loop pi addr n i P s = Ok (r, i', P', s')"
  shows "pipe_ok P' \<and> cur s' = cur s \<and> pipe_effect pi (cur s) (me s) (P, sent, rcvd) (pt s)
     (P', sent @ fetch (nat (i' - i)) (addr + of_int i) s, rcvd) (pt s') (r = Sleep)"
proof -
  obtain bs s1 where f: "fetched bs (addr + of_int i) s = Some s1" and i': "i' = i + int (length bs)"
    and P': "P' = fold pipe_put bs P" "pipe_ok P'" "pipe_bytes P' = pipe_bytes P @ bs"
    and bs: "bs \<noteq> [] \<longrightarrow> i' \<le> n \<and> readopen P \<and> \<not> killed (me s) (pt s)" and st: "write_stops pi addr n P' s1 i' r s'"
    using pipewrite_loop_spec [OF assms(1), of pi addr n i s] by (auto simp: e write_spec_def)
  note fr = fetched_frame [OF f]
  have fe: "fetch (nat (i' - i)) (addr + of_int i) s = bs" using fetch_fetched [OF f] i' by simp
  have fl: "readopen P' = readopen P" "writeopen P' = writeopen P" using P'(1) by simp_all
  consider "r = Ret (- 1)" "s' = s1" "bs = []"
    | "r = Sleep" "s' = ksleep (KPipeWrite pi) (kwakeup (KPipeRead pi) s1)" "length (pipe_bytes P') = PIPESIZE" "readopen P'"
    | "r \<noteq> Sleep" "pt s' = wakeup (cur s) (KPipeRead pi) (pt s)" "cur s' = cur s"
    using st bs fr fl copyin_byte_frame [of "addr + of_int i'" s1]
    by (auto simp: write_stops_def split: if_splits)
  then show ?thesis
  proof cases
    case 1
    then show ?thesis using P' fr fe by (auto intro: pipe_effect.Fails)
  next
    case 2
    then show ?thesis
      using pipe_effect.SentSleeps [OF fl P'(3) 2(3,4), of pi "cur s" "me s" sent rcvd "pt s"] P'(2) fr fe
      by (simp add: me_def)
  next
    case 3
    then show ?thesis
      using pipe_effect.Sent [OF fl P'(3), of pi "cur s" "me s" sent rcvd "pt s"] P'(2) fe by simp
  qed
qed

lemma piperead_effect:
  assumes "pipe_ok P" and e: "piperead pi addr n P s = Ok (r, P', s')"
  shows "pipe_ok P' \<and> cur s' = cur s \<and> pipe_effect pi (cur s) (me s) (P, sent, rcvd) (pt s)
     (P', sent, case r of Ret k \<Rightarrow> rcvd @ take (nat k) (pipe_bytes P) | Sleep \<Rightarrow> rcvd) (pt s') (r = Sleep)"
proof (cases "pipe_bytes P = [] \<and> writeopen P")
  case True
  then show ?thesis
    using e assms(1) pipe_effect.Fails [of pi "cur s" "me s" "(P, sent, rcvd)" "pt s"]
      pipe_effect.ReadSleeps [of P pi "cur s" "me s" "(sent, rcvd)" "pt s"]
    by (auto simp: piperead_def pipe_empty_iff split: if_splits)
next
  case False
  then obtain i s1 where l: "piperead_loop addr n 0 P s = Ok (i, P', s1)" and r: "r = Ret i" "s' = kwakeup (KPipeWrite pi) s1"
    using e by (auto simp: piperead_def pipe_empty_iff bind_res_Ok_iff split: if_splits)
  obtain k s2 where k: "k \<le> min (nat n) (length (pipe_bytes P))" "stored (take k (pipe_bytes P)) addr s = Some s2"
    and P': "P' = (pipe_get ^^ k) P" "pipe_ok P'" "pipe_bytes P' = drop k (pipe_bytes P)"
    and i: "if k = min (nat n) (length (pipe_bytes P)) then i = int k \<and> s1 = s2
            else copyout_byte (addr + of_nat k) (pipe_bytes P ! k) s2 = Ok (False, s1) \<and> i = (if int k = 0 then - 1 else int k)"
    using piperead_loop_spec [OF assms(1), of addr n 0 s] by (auto simp: l read_spec_def cong: if_cong)
  have fr: "pt s1 = pt s" "cur s1 = cur s"
    using i stored_frame [OF k(2)] copyout_byte_frame [of "addr + of_nat k" "pipe_bytes P ! k" s2 False s1] by (auto split: if_splits)
  have "nat i = k" using i by (auto split: if_splits)
  then show ?thesis
    using pipe_effect.Rcvd [of P' P "take k (pipe_bytes P)" pi "cur s" "me s" sent rcvd "pt s"] P' fr by (simp add: r)
qed

lemma pipe_section_effect:
  assumes "pipe_hist_ok m" and e: "pipe_section pi oper (m, s) = Some (m', s', slept)"
  shows "pipe_hist_ok m' \<and> cur s' = cur s \<and> pipe_effect pi (cur s) (me s) m (pt s) m' (pt s') slept"
proof -
  obtain P sent rcvd where m: "m = (P, sent, rcvd)" by (metis prod_cases3)
  have ok: "pipe_ok P" "sent = rcvd @ pipe_bytes P" using assms(1) by (simp_all add: pipe_hist_ok_def m)
  have "pipe_ok (fst m') \<and> cur s' = cur s \<and> pipe_effect pi (cur s) (me s) m (pt s) m' (pt s') slept"
  proof (cases oper)
    case (PWrite addr n i)
    then obtain r i' P1 where "pipewrite_loop pi addr n i P s = Ok (r, i', P1, s')" "slept = (r = Sleep)"
      "m' = (P1, sent @ fetch (nat (i' - i)) (addr + of_int i) s, rcvd)"
      using e by (auto simp: m split: res.splits)
    then show ?thesis using pipewrite_effect [OF ok(1)] by (simp add: m)
  next
    case (PRead addr n)
    then obtain r P1 where "piperead pi addr n P s = Ok (r, P1, s')" "slept = (r = Sleep)"
      "m' = (P1, sent, case r of Ret k \<Rightarrow> rcvd @ take (nat k) (pipe_bytes P) | Sleep \<Rightarrow> rcvd)"
      using e by (auto simp: m split: res.splits blk.splits)
    then show ?thesis using piperead_effect [OF ok(1)] by (simp add: m)
  next
    case (PClose w)
    then have "m' = (close_end w P, sent, rcvd)" "cur s' = cur s" "\<not> slept"
      "pt s' = wakeup (cur s) (if w then KPipeRead pi else KPipeWrite pi) (pt s)"
      using e by (auto simp: m pipeclose_def Let_def bind_res_Ok_iff split: res.splits if_splits)
    then show ?thesis using ok(1) pipe_effect.Closed [of pi "cur s" "me s" P "(sent, rcvd)" "pt s" w] by (simp add: m pipe_ok_def)
  qed
  moreover from this have "sent' = rcvd' @ pipe_bytes P'" if "m' = (P', sent', rcvd')" for P' sent' rcvd'
    using ok(2) that by (auto simp: m elim!: pipe_effectE)
  ultimately show ?thesis by (cases m') (auto simp: pipe_hist_ok_def)
qed

lemma pipe_effect_runs:
  assumes "pipe_effect pi cu p m t m' t' slept" "pstate (procs t i) = RUNNING"
  shows "slept \<or> pstate (procs t' i) = RUNNING"
  using assms by (auto simp: running_wakeup elim!: pipe_effectE)

lemma pipe_effect_others:
  assumes "pipe_effect pi cu p m t m' t' slept" "j \<noteq> p" "asleep_on ch t' j"
  shows "asleep_on ch t j"
  using assms by (auto simp: asleep_on_sleep elim!: pipe_effectE dest: asleep_on_wakeup_sub)

interpretation readers: sleep_channel pipe_hist_ok read_blocked "pipe_section pi" "pipe_chans pi" "KPipeRead pi" for pi
proof
  fix s s' :: "'a mach_scheme" and i j m m' oper slept
  assume c: "cur s = Some i" and ok: "pipe_hist_ok m" and e: "pipe_section pi oper (m, s) = Some (m', s', slept)"
  note eff = pipe_section_effect [OF ok e]
  then have f: "pipe_effect pi (Some i) i m (pt s) m' (pt s') slept" using c by (simp add: me_cur)
  show "pipe_hist_ok m'" using eff by simp
  show "cur s' = Some i \<and> (slept \<or> pstate (procs (pt s') i) = RUNNING)" if "pstate (procs (pt s) i) = RUNNING"
    using eff c pipe_effect_runs [OF f that] by simp
  show "asleep_on (KPipeRead pi) (pt s) j" if "j \<noteq> i" "asleep_on (KPipeRead pi) (pt s') j"
    by (rule pipe_effect_others [OF f that])
  show "read_blocked m'" if "j \<noteq> i" "asleep_on (KPipeRead pi) (pt s') j" "read_blocked m"
    using f that by (cases rule: pipe_effect.cases)
      (auto simp: read_blocked_def asleep_on_sleep asleep_on_wakeup close_end_def split: if_splits)
  show "read_blocked m'" if "pstate (procs (pt s) i) = RUNNING" "asleep_on (KPipeRead pi) (pt s') i"
    using f that by (cases rule: pipe_effect.cases)
      (auto simp: read_blocked_def running_not_asleep asleep_on_sleep dest: asleep_on_wakeup_sub)
qed (simp add: pipe_chans_def)

interpretation writers: sleep_channel pipe_hist_ok write_blocked "pipe_section pi" "pipe_chans pi" "KPipeWrite pi" for pi
proof
  fix s s' :: "'a mach_scheme" and i j m m' oper slept
  assume c: "cur s = Some i" and ok: "pipe_hist_ok m" and e: "pipe_section pi oper (m, s) = Some (m', s', slept)"
  note eff = pipe_section_effect [OF ok e]
  then have f: "pipe_effect pi (Some i) i m (pt s) m' (pt s') slept" using c by (simp add: me_cur)
  have le: "length (pipe_bytes (fst m')) \<le> PIPESIZE" using eff by (cases m') (simp add: pipe_hist_ok_def pipe_ok_def)
  show "pipe_hist_ok m'" using eff by simp
  show "cur s' = Some i \<and> (slept \<or> pstate (procs (pt s') i) = RUNNING)" if "pstate (procs (pt s) i) = RUNNING"
    using eff c pipe_effect_runs [OF f that] by simp
  show "asleep_on (KPipeWrite pi) (pt s) j" if "j \<noteq> i" "asleep_on (KPipeWrite pi) (pt s') j"
    by (rule pipe_effect_others [OF f that])
  show "write_blocked m'" if "j \<noteq> i" "asleep_on (KPipeWrite pi) (pt s') j" "write_blocked m"
    using f that le by (cases rule: pipe_effect.cases)
      (auto simp: write_blocked_def asleep_on_sleep asleep_on_wakeup close_end_def split: if_splits)
  show "write_blocked m'" if "pstate (procs (pt s) i) = RUNNING" "asleep_on (KPipeWrite pi) (pt s') i"
    using f that by (cases rule: pipe_effect.cases)
      (auto simp: write_blocked_def running_not_asleep asleep_on_sleep dest: asleep_on_wakeup_sub)
qed (simp add: pipe_chans_def)

text \<open>A pipe for the witnesses.\<close>

definition ex_pipe :: pipe where
  "ex_pipe = \<lparr>pdata = (\<lambda>_. 5), nread = 0, nwrite = 0, readopen = True, writeopen = True\<rparr>"

end
