(* ===== verification/Vm_Walk.thy ===== *)
theory Vm_Walk
  imports Vm
begin

text \<open>
  What a page table in memory means: the two-level tree below a root page, the
  entry a virtual address selects, and the effect of \<^verbatim>\<open>walk\<close> and \<^verbatim>\<open>mappages\<close> on
  them.
\<close>

section \<open>Entry addresses\<close>

lemma unat_PX_less: "unat (PX l va) < 1024"
proof -
  have "PX l va = take_bit 10 (drop_bit (PXSHIFT l) va)"
    by (simp only: PX_def mask10 take_bit_eq_mask)
  then have "unat (PX l va) = take_bit 10 (unat (drop_bit (PXSHIFT l) va))"
    by (simp only: unsigned_take_bit_eq)
  moreover have "take_bit 10 (unat (drop_bit (PXSHIFT l) va)) < 2 ^ 10"
    by (rule take_bit_nat_less_exp)
  ultimately show ?thesis by simp
qed

lemma slot_offset: "unat (pte_slot pt l va - pt) = 4 * unat (PX l va)"
  using unat_PX_less [of l va] by (simp add: pte_slot_def unat_word_ariths)

lemma slot_page:
  assumes "unat pt mod 4096 = 0"
  shows "PGROUNDDOWN (pte_slot pt l va) = pt" "unat (pte_slot pt l va) mod 4 = 0"
proof -
  have "unat (pte_slot pt l va - pt) < 4096"
    using unat_PX_less [of l va] slot_offset [of pt l va] by linarith
  then show "PGROUNDDOWN (pte_slot pt l va) = pt"
    by (rule page_offset [OF assms, THEN iffD1])
  obtain q where q: "unat pt = 4096 * q"
    using assms by (auto simp: mod_eq_0_iff_dvd)
  then have "q < 1048576" using unat_less_32 [of pt] by simp
  then have "unat (pt + (pte_slot pt l va - pt)) = unat pt + unat (pte_slot pt l va - pt)"
    using q unat_PX_less [of l va] slot_offset [of pt l va]
    by (intro unat_plus_small) linarith
  then have "unat (pte_slot pt l va) = 4 * (1024 * q + unat (PX l va))"
    using q slot_offset [of pt l va] by simp
  then show "unat (pte_slot pt l va) mod 4 = 0"
    by simp
qed

lemma slot_eq_iff: "pte_slot pt l va = pte_slot pt l va' \<longleftrightarrow> PX l va = PX l va'"
proof
  assume "pte_slot pt l va = pte_slot pt l va'"
  then have "4 * unat (PX l va) = 4 * unat (PX l va')" by (metis slot_offset)
  then show "PX l va = PX l va'" by (simp add: word_unat_eq_iff)
qed (simp add: pte_slot_def)

lemma same_vpage_iff: "PX 1 va = PX 1 va' \<and> PX 0 va = PX 0 va' \<longleftrightarrow> PGROUNDDOWN va = PGROUNDDOWN va'"
proof -
  have "unat va div 4194304 = unat va div 4096 div 1024" for va :: uint32
    by (simp add: div_mult2_eq [symmetric])
  then have "(unat va div 4194304 = unat va' div 4194304 \<and>
      unat va div 4096 mod 1024 = unat va' div 4096 mod 1024) \<longleftrightarrow> unat va div 4096 = unat va' div 4096"
    by (metis div_mult_mod_eq)
  then show ?thesis
    by (simp only: word_unat_eq_iff [of "PX 1 va"] word_unat_eq_iff [of "PX 0 va"] unat_PX1 unat_PX0
        PGROUNDDOWN_eq_iff)
qed

section \<open>The meaning of a page table\<close>

definition tvalid :: "kmem \<Rightarrow> addr \<Rightarrow> uint32 \<Rightarrow> bool" where
  "tvalid s pt va = has (pte_at s (pte_slot pt 1 va)) PTE_V"

definition table :: "kmem \<Rightarrow> addr \<Rightarrow> uint32 \<Rightarrow> addr" where
  "table s pt va = PTE2PA (pte_at s (pte_slot pt 1 va))"

definition leaf_slot :: "kmem \<Rightarrow> addr \<Rightarrow> uint32 \<Rightarrow> addr" where
  "leaf_slot s pt va = pte_slot (table s pt va) 0 va"

text \<open>The leaf entry of \<open>va\<close>, 0 where the second-level table is missing.\<close>

definition leaf :: "kmem \<Rightarrow> addr \<Rightarrow> uint32 \<Rightarrow> uint32" where
  "leaf s pt va = (if tvalid s pt va then pte_at s (leaf_slot s pt va) else 0)"

definition tables :: "kmem \<Rightarrow> addr \<Rightarrow> addr set" where
  "tables s pt = insert pt {table s pt va |va. tvalid s pt va}"

definition owned :: "kmem \<Rightarrow> addr \<Rightarrow> bool" where
  "owned s a \<longleftrightarrow> (\<exists>i < NPAGES. a = idx2pa i \<and> i \<notin> free_set s)"

text \<open>A page table is a tree of different allocated pages.\<close>

definition pt_ok :: "kmem \<Rightarrow> addr \<Rightarrow> bool" where
  "pt_ok s pt \<longleftrightarrow> owned s pt \<and>
     (\<forall>va. tvalid s pt va \<longrightarrow> owned s (table s pt va) \<and> table s pt va \<noteq> pt) \<and>
     (\<forall>va va'. tvalid s pt va \<longrightarrow> tvalid s pt va' \<longrightarrow> table s pt va = table s pt va' \<longrightarrow> PX 1 va = PX 1 va')"

lemma owned_aligned: "owned s a \<Longrightarrow> unat a mod 4096 = 0 \<and> a \<noteq> 0 \<and> a mod PGSIZE = 0 \<and> KERNBASE \<le> a \<and> a < PHYSTOP"
  unfolding owned_def by (elim exE conjE) (simp only: idx2pa_aligned idx2pa_nonzero idx2pa_range simp_thms)

lemma owned_not_free_bytes:
  assumes "kmem_ok s" "owned s a" "PGROUNDDOWN x = a"
  shows "x \<notin> pbytes (free_set s)"
  using assms not_free_bytes unfolding owned_def by blast

lemma pt_okD:
  assumes "pt_ok s pt"
  shows "owned s pt" "tvalid s pt va \<Longrightarrow> owned s (table s pt va)" "tvalid s pt va \<Longrightarrow> table s pt va \<noteq> pt"
    "tvalid s pt va \<Longrightarrow> tvalid s pt va' \<Longrightarrow> table s pt va = table s pt va' \<Longrightarrow> PX 1 va = PX 1 va'"
proof -
  note a = assms [unfolded pt_ok_def]
  show "owned s pt" by (rule conjunct1 [OF a])
  show "tvalid s pt va \<Longrightarrow> owned s (table s pt va)" "tvalid s pt va \<Longrightarrow> table s pt va \<noteq> pt"
    using conjunct1 [OF conjunct2 [OF a]] by blast+
  show "tvalid s pt va \<Longrightarrow> tvalid s pt va' \<Longrightarrow> table s pt va = table s pt va' \<Longrightarrow> PX 1 va = PX 1 va'"
    using conjunct2 [OF conjunct2 [OF a]] by blast
qed

lemma tables_owned: "pt_ok s pt \<Longrightarrow> a \<in> tables s pt \<Longrightarrow> owned s a"
  unfolding tables_def using pt_okD(1,2) by blast

lemma table_in_tables: "tvalid s pt va \<Longrightarrow> table s pt va \<in> tables s pt"
  by (auto simp: tables_def)

lemma leaf_slot_page:
  assumes "pt_ok s pt" "tvalid s pt va"
  shows "PGROUNDDOWN (leaf_slot s pt va) = table s pt va" "unat (leaf_slot s pt va) mod 4 = 0"
  using slot_page [of "table s pt va" 0 va] owned_aligned [OF pt_okD(2) [OF assms]]
  by (simp_all add: leaf_slot_def)

lemma root_slot_page:
  assumes "pt_ok s pt"
  shows "PGROUNDDOWN (pte_slot pt 1 va) = pt" "unat (pte_slot pt 1 va) mod 4 = 0"
  using slot_page [of pt 1 va] owned_aligned [OF pt_okD(1) [OF assms]] by simp_all

lemma leaf_slot_nonzero:
  assumes "pt_ok s pt" "tvalid s pt va"
  shows "leaf_slot s pt va \<noteq> 0"
proof
  assume "leaf_slot s pt va = 0"
  then have "table s pt va = 0"
    using leaf_slot_page(1) [OF assms] by (simp add: PGROUNDDOWN_def)
  then show False using owned_aligned [OF pt_okD(2) [OF assms]] by simp
qed

text \<open>A state that agrees on the pages of the table gives it the same meaning.\<close>

lemma pt_frame:
  assumes "pt_ok s pt" "\<And>x. PGROUNDDOWN x \<in> tables s pt \<Longrightarrow> phys s' x = phys s x"
  shows "tvalid s' pt = tvalid s pt" "tvalid s pt va \<Longrightarrow> table s' pt va = table s pt va"
    "leaf s' pt = leaf s pt" "tables s' pt = tables s pt"
proof -
  have r: "pte_at s' (pte_slot pt 1 va) = pte_at s (pte_slot pt 1 va)" for va
    using root_slot_page [OF assms(1)] assms(2) by (intro ld32_page_cong) (auto simp: tables_def)
  then show tv: "tvalid s' pt = tvalid s pt"
    by (simp add: tvalid_def fun_eq_iff)
  have ta: "table s' pt = table s pt" using r by (simp add: table_def fun_eq_iff)
  then show "tvalid s pt va \<Longrightarrow> table s' pt va = table s pt va" by simp
  have "pte_at s' (leaf_slot s pt va) = pte_at s (leaf_slot s pt va)" if "tvalid s pt va" for va
    using leaf_slot_page [OF assms(1) that] assms(2) table_in_tables [OF that]
    by (intro ld32_page_cong) auto
  then show "leaf s' pt = leaf s pt"
    by (auto simp: leaf_def fun_eq_iff tv leaf_slot_def ta)
  show "tables s' pt = tables s pt" by (simp add: tables_def tv ta)
qed

lemma pt_ok_frame:
  assumes "pt_ok s pt" "\<And>x. PGROUNDDOWN x \<in> tables s pt \<Longrightarrow> phys s' x = phys s x"
    and "\<And>a. a \<in> tables s pt \<Longrightarrow> owned s' a"
  shows "pt_ok s' pt"
proof -
  note f = pt_frame [OF assms(1,2)] and d = pt_okD [OF assms(1)]
  have "owned s' (table s' pt va) \<and> table s' pt va \<noteq> pt" if "tvalid s' pt va" for va
    using that assms(3) [OF table_in_tables] d(3) by (simp add: f)
  moreover have "PX 1 va = PX 1 va'"
    if "tvalid s' pt va" "tvalid s' pt va'" "table s' pt va = table s' pt va'" for va va'
    using that d(4) [of va va'] f by simp
  moreover have "owned s' pt" using assms(3) by (simp add: tables_def)
  ultimately show ?thesis unfolding pt_ok_def by blast
qed

section \<open>\<open>walk\<close>\<close>

lemma va_below_MAXVA: "\<not> MAXVA \<le> (ucast (va :: uint32) :: uint64)"
proof -
  have "unat (ucast va :: uint64) = unat va"
    using unat_less_32 [of va] by (simp add: unsigned_ucast_eq take_bit_nat_eq_self)
  then show ?thesis using unat_less_32 [of va] by (simp add: word_le_nat_alt layout_vals)
qed

lemma walk_noalloc: "walk pt va False s = Ok (if tvalid s pt va then leaf_slot s pt va else 0, s)"
  using va_below_MAXVA [of va] by (simp add: walk_def tvalid_def leaf_slot_def table_def Let_def)

section \<open>Writing one entry\<close>

lemma owned_set_pte [simp]: "owned (set_pte a v s) = owned s"
  by (simp add: owned_def set_pte_def free_set_def fun_eq_iff)

lemma set_pte_sels [simp]:
  "free_set (set_pte a v s) = free_set s" "refcnt (set_pte a v s) = refcnt s" "kend (set_pte a v s) = kend s"
  by (simp_all add: set_pte_def free_set_def)

lemma set_pte_other: "unat a mod 4 = 0 \<Longrightarrow> PGROUNDDOWN x \<noteq> PGROUNDDOWN a \<Longrightarrow> phys (set_pte a v s) x = phys s x"
  by (simp add: set_pte_def st32_other_page)

lemma kmem_ok_set_pte:
  assumes "kmem_ok s" "unat a mod 4 = 0" "owned s (PGROUNDDOWN a)"
  shows "kmem_ok (set_pte a v s)"
  unfolding set_pte_def
proof (rule kmem_ok_write [OF assms(1)])
  fix x
  assume "x \<in> pbytes (free_set s)"
  then have "PGROUNDDOWN x \<noteq> PGROUNDDOWN a"
    using owned_not_free_bytes [OF assms(1,3)] by blast
  then show "st32 (phys s) a v x = phys s x"
    using assms(2) by (intro st32_other_page) auto
qed

lemma set_leaf:
  fixes v :: uint32
  assumes ok: "pt_ok s pt" and tv: "tvalid s pt va"
  defines "s' \<equiv> set_pte (leaf_slot s pt va) v s"
  shows "tvalid s' pt = tvalid s pt" "table s' pt = table s pt" "tables s' pt = tables s pt" "pt_ok s' pt"
    "leaf s' pt va' = (if PGROUNDDOWN va' = PGROUNDDOWN va then v else leaf s pt va')"
proof -
  note sl = leaf_slot_page [OF ok tv]
  have r: "pte_at s' (pte_slot pt 1 w) = pte_at s (pte_slot pt 1 w)" for w
    using root_slot_page [OF ok, of w] pt_okD(3) [OF ok tv] sl unfolding s'_def
    by (intro ld32_page_cong set_pte_other) auto
  show tvs: "tvalid s' pt = tvalid s pt" and tab: "table s' pt = table s pt"
    using r by (simp_all add: fun_eq_iff tvalid_def table_def)
  show "tables s' pt = tables s pt" by (simp add: tables_def tvs tab)
  have own: "owned s' = owned s" by (simp add: s'_def)
  show "pt_ok s' pt"
    unfolding pt_ok_def tvs tab own by (rule ok [unfolded pt_ok_def])
  have lf: "leaf s' pt va' = (if tvalid s pt va' then pte_at s' (leaf_slot s pt va') else 0)"
    by (simp add: leaf_def leaf_slot_def tvs tab)
  show "leaf s' pt va' = (if PGROUNDDOWN va' = PGROUNDDOWN va then v else leaf s pt va')"
  proof (cases "PGROUNDDOWN va' = PGROUNDDOWN va")
    case True
    then have "PX 1 va' = PX 1 va" "PX 0 va' = PX 0 va" using same_vpage_iff by blast+
    then have "leaf_slot s pt va' = leaf_slot s pt va" "tvalid s pt va' = tvalid s pt va"
      by (simp_all add: leaf_slot_def table_def pte_slot_def tvalid_def)
    moreover have "pte_at s' (leaf_slot s pt va) = v" by (simp add: s'_def set_pte_def)
    ultimately show ?thesis using True tv by (simp add: lf)
  next
    case False
    have "pte_at s' (leaf_slot s pt va') = pte_at s (leaf_slot s pt va')" if tv': "tvalid s pt va'"
    proof -
      have "leaf_slot s pt va' \<noteq> leaf_slot s pt va"
      proof
        assume e: "leaf_slot s pt va' = leaf_slot s pt va"
        then have t: "table s pt va' = table s pt va"
          using leaf_slot_page(1) [OF ok tv'] sl(1) by simp
        then have "PX 1 va' = PX 1 va" using pt_okD(4) [OF ok tv' tv] by simp
        moreover have "PX 0 va' = PX 0 va" using e t by (simp add: leaf_slot_def slot_eq_iff)
        ultimately show False using False same_vpage_iff by blast
      qed
      then show ?thesis
        using sl(2) leaf_slot_page(2) [OF ok tv'] by (simp add: s'_def set_pte_def ld32_st32_other)
    qed
    then show ?thesis unfolding lf using False by (simp add: leaf_def)
  qed
qed

section \<open>What extending a table keeps\<close>

definition grows :: "kmem \<Rightarrow> kmem \<Rightarrow> addr \<Rightarrow> bool" where
  "grows s s' pt \<longleftrightarrow> kmem_ok s' \<and> pt_ok s' pt \<and> free_set s' \<subseteq> free_set s \<and> kend s' = kend s \<and>
     (\<forall>p. p \<notin> free_set s \<longrightarrow> refcnt s' p = refcnt s p) \<and>
     tables s pt \<subseteq> tables s' pt \<and> tables s' pt \<subseteq> tables s pt \<union> avail_pages s \<and>
     (\<forall>x. x \<notin> pbytes (free_set s) \<longrightarrow> PGROUNDDOWN x \<notin> tables s pt \<longrightarrow> phys s' x = phys s x)"

lemma grows_refl: "kmem_ok s \<Longrightarrow> pt_ok s pt \<Longrightarrow> grows s s pt"
  by (simp add: grows_def)

lemma pbytes_mono: "A \<subseteq> B \<Longrightarrow> pbytes A \<subseteq> pbytes B"
  by (auto simp: pbytes_def)

lemma avail_page_bytes: "PGROUNDDOWN x \<in> avail_pages s \<Longrightarrow> x \<in> pbytes (free_set s)"
  by (auto simp: avail_pages_def pbytes_def)

lemma growsD:
  assumes "grows s s' pt"
  shows "kmem_ok s'" "pt_ok s' pt" "free_set s' \<subseteq> free_set s" "kend s' = kend s"
    "p \<notin> free_set s \<Longrightarrow> refcnt s' p = refcnt s p"
    "tables s pt \<subseteq> tables s' pt" "tables s' pt \<subseteq> tables s pt \<union> avail_pages s"
    "x \<notin> pbytes (free_set s) \<Longrightarrow> PGROUNDDOWN x \<notin> tables s pt \<Longrightarrow> phys s' x = phys s x"
  using assms by (simp_all add: grows_def)

lemma grows_trans:
  assumes a: "grows s t pt" and b: "grows t u pt"
  shows "grows s u pt"
proof -
  note a = growsD [OF a] and b = growsD [OF b]
  have nf: "p \<notin> free_set t" if "p \<notin> free_set s" for p using that a(3) by blast
  have "phys u x = phys s x" if x: "x \<notin> pbytes (free_set s)" "PGROUNDDOWN x \<notin> tables s pt" for x
  proof -
    have "x \<notin> pbytes (free_set t)" using x(1) a(3) pbytes_mono by blast
    moreover have "PGROUNDDOWN x \<notin> tables t pt"
      using a(7) x avail_page_bytes by blast
    ultimately show ?thesis using a(8) [OF x] b(8) by simp
  qed
  moreover have "avail_pages t \<subseteq> avail_pages s"
    using a(3) by (auto simp: avail_pages_def)
  then have "tables u pt \<subseteq> tables s pt \<union> avail_pages s" using a(7) b(7) by blast
  moreover have "refcnt u p = refcnt s p" if "p \<notin> free_set s" for p
    using a(5) [OF that] b(5) [OF nf [OF that]] by simp
  ultimately show ?thesis
    unfolding grows_def using a(3,4,6) b(1-4,6) by (intro conjI allI impI) (blast | simp)+
qed

lemma grows_set_leaf:
  assumes "kmem_ok s" "pt_ok s pt" "tvalid s pt va"
  shows "grows s (set_pte (leaf_slot s pt va) v s) pt"
proof -
  note sl = leaf_slot_page [OF assms(2,3)] and se = set_leaf [OF assms(2,3)]
  have "kmem_ok (set_pte (leaf_slot s pt va) v s)"
    using kmem_ok_set_pte [OF assms(1) sl(2)] pt_okD(2) [OF assms(2,3)] sl(1) by simp
  moreover have "phys (set_pte (leaf_slot s pt va) v s) x = phys s x" if "PGROUNDDOWN x \<notin> tables s pt" for x
    using that sl table_in_tables [OF assms(3)] by (intro set_pte_other) auto
  ultimately show ?thesis using se(3,4) by (simp add: grows_def)
qed

lemma has_iff:
  "has p PTE_V \<longleftrightarrow> bit p 0" "has p PTE_R \<longleftrightarrow> bit p 1" "has p PTE_W \<longleftrightarrow> bit p 2" "has p PTE_X \<longleftrightarrow> bit p 3"
  "has p PTE_U \<longleftrightarrow> bit p 4" "has p PTE_COW \<longleftrightarrow> bit p 8"
proof -
  have h: "p AND 2 ^ n \<noteq> 0 \<longleftrightarrow> bit p n" for n
    by (simp add: and_exp_eq_0_iff_not_bit)
  show "has p PTE_V \<longleftrightarrow> bit p 0" "has p PTE_R \<longleftrightarrow> bit p 1" "has p PTE_W \<longleftrightarrow> bit p 2"
    "has p PTE_X \<longleftrightarrow> bit p 3" "has p PTE_U \<longleftrightarrow> bit p 4" "has p PTE_COW \<longleftrightarrow> bit p 8"
    using h [of 0] h [of 1] h [of 2] h [of 3] h [of 4] h [of 8]
    by (simp_all add: has_def pte_bit_defs)
qed

lemma has_PTE_V_new: "has (PA2PTE pa OR PTE_V) PTE_V" "has (PA2PTE pa OR pm OR PTE_V) PTE_V"
  by (simp_all add: has_iff bit_or_iff) (simp_all add: PTE_V_def)

lemma not_has_0: "\<not> has 0 fl"
  by (simp add: has_def)

lemma PTE2PA_table: "unat pa mod 4096 = 0 \<Longrightarrow> PTE2PA (PA2PTE pa OR PTE_V) = pa"
  by (rule PTE2PA_PA2PTE) (simp_all add: PTE_V_def)

text \<open>Hanging a zeroed page below a root that had no table there.\<close>

lemma set_root:
  assumes ok: "kmem_ok s" "pt_ok s pt" and nv: "\<not> tvalid s pt va"
    and pg: "owned s pg" "pg \<notin> tables s pt" "\<And>x. PGROUNDDOWN x = pg \<Longrightarrow> phys s x = 0"
  defines "s' \<equiv> set_pte (pte_slot pt 1 va) (PA2PTE pg OR PTE_V) s"
  shows "kmem_ok s'" "pt_ok s' pt" "tvalid s' pt va" "table s' pt va = pg" "leaf s' pt = leaf s pt"
    "tables s' pt = insert pg (tables s pt)"
proof -
  note rs = root_slot_page [OF ok(2)]
  show "kmem_ok s'"
    unfolding s'_def using rs [of va] pt_okD(1) [OF ok(2)] by (intro kmem_ok_set_pte [OF ok(1)]) simp_all
  have same: "pte_at s' (pte_slot pt 1 w) = (if PX 1 w = PX 1 va then PA2PTE pg OR PTE_V
      else pte_at s (pte_slot pt 1 w))" for w
    using rs(2) [of w] rs(2) [of va] slot_eq_iff [of pt 1 w va]
    by (auto simp: s'_def set_pte_def pte_slot_def ld32_st32_other)
  have al: "unat pg mod 4096 = 0" using owned_aligned [OF pg(1)] by simp
  have tv: "tvalid s' pt w \<longleftrightarrow> PX 1 w = PX 1 va \<or> tvalid s pt w" for w
    unfolding tvalid_def same by (simp add: has_PTE_V_new)
  have tb: "table s' pt w = (if PX 1 w = PX 1 va then pg else table s pt w)" for w
    unfolding table_def same by (simp add: PTE2PA_table [OF al])
  show "tvalid s' pt va" "table s' pt va = pg" by (simp_all add: tv tb)
  have nvw: "\<not> tvalid s pt w" if "PX 1 w = PX 1 va" for w
    using nv that by (simp add: tvalid_def pte_slot_def)
  show tabs: "tables s' pt = insert pg (tables s pt)"
    unfolding tables_def tv tb using nvw by (auto intro: exI [of _ va])
  have own: "owned s' = owned s" by (simp add: s'_def)
  show "pt_ok s' pt"
    unfolding pt_ok_def
  proof (intro conjI allI impI)
    show "owned s' pt" using pt_okD(1) [OF ok(2)] own by simp
    fix w
    assume w: "tvalid s' pt w"
    show "owned s' (table s' pt w)" "table s' pt w \<noteq> pt"
      using w pg pt_okD(2,3) [OF ok(2), of w] own unfolding tv tb by (auto simp: tables_def)
    fix w'
    assume w': "tvalid s' pt w'" and eq: "table s' pt w = table s' pt w'"
    show "PX 1 w = PX 1 w'"
      using w w' eq pg(2) table_in_tables pt_okD(4) [OF ok(2), of w w'] unfolding tv tb
      by (auto split: if_splits)
  qed
  have other: "phys s' x = phys s x" if "PGROUNDDOWN x \<noteq> pt" for x
    unfolding s'_def using that rs [of va] by (intro set_pte_other) simp_all
  show "leaf s' pt = leaf s pt"
  proof
    fix w
    show "leaf s' pt w = leaf s pt w"
    proof (cases "PX 1 w = PX 1 va")
      case True
      have sp: "PGROUNDDOWN (pte_slot pg 0 w) = pg" "unat (pte_slot pg 0 w) mod 4 = 0"
        using slot_page [OF al] by simp_all
      have "pg \<noteq> pt" using pg(2) by (auto simp: tables_def)
      then have "pte_at s' (pte_slot pg 0 w) = ld32 (\<lambda>_. 0) (pte_slot pg 0 w)"
        using sp pg(3) other by (intro ld32_page_cong) auto
      also have "\<dots> = 0" by (simp add: ld32_def)
      finally show ?thesis
        using True nvw [OF True] by (simp add: leaf_def tv leaf_slot_def tb)
    next
      case False
      have "pte_at s' (leaf_slot s pt w) = pte_at s (leaf_slot s pt w)" if "tvalid s pt w"
        using leaf_slot_page [OF ok(2) that] pt_okD(3) [OF ok(2) that] other by (intro ld32_page_cong) auto
      then show ?thesis
        using False by (simp add: leaf_def tv leaf_slot_def tb)
    qed
  qed
qed

section \<open>Allocating a page\<close>

lemma kalloc_page:
  assumes "kmem_ok s" "kalloc s = (pg, s1)" "pg \<noteq> 0"
  obtains i where "pg = idx2pa i" "i \<in> free_set s" "i < NPAGES" "kmem_ok s1" "free_set s1 = free_set s - {i}"
    "refcnt s1 = (refcnt s)(i := 1)" "kend s1 = kend s"
    "\<And>x. x \<notin> pbytes (free_set s) \<Longrightarrow> phys s1 x = phys s x"
proof -
  have ne: "free_set s \<noteq> {}" using kalloc_none [OF assms(1)] assms(2,3) by auto
  obtain i s' where i: "kalloc s = (idx2pa i, s')" "i \<in> free_set s" "kmem_ok s'" "free_set s' = free_set s - {i}"
      "refcnt s' = (refcnt s)(i := 1)" "kend s' = kend s"
      "\<And>x. x \<notin> pbytes (free_set s) \<Longrightarrow> phys s' x = phys s x"
    by (rule kalloc_some [OF assms(1) ne]) blast
  then show thesis
    using that [of i] assms(2) free_setD(1) [OF assms(1) i(2)] by simp
qed

lemma kalloc_fails: "kmem_ok s \<Longrightarrow> kalloc s = (0, s1) \<Longrightarrow> s1 = s \<and> free_set s = {}"
  using kmem_pages.alloc_null_iff [of s] kalloc_none [of s] by (auto simp: avail_pages_def)

text \<open>The page that comes out of \<^verbatim>\<open>kalloc\<close>, filled by its new owner.\<close>

lemma filled_page:
  fixes m :: mem
  assumes ok: "kmem_ok s" and ka: "kalloc s = (pg, s1)" "pg \<noteq> 0"
    and m: "\<forall>x. PGROUNDDOWN x \<noteq> pg \<longrightarrow> m x = phys s1 x"
  defines "s2 \<equiv> s1\<lparr>phys := m\<rparr>"
  shows "kmem_ok s2" "kend s2 = kend s" "owned s2 pg" "\<not> owned s pg" "owned s a \<Longrightarrow> owned s2 a"
    "pg \<in> avail_pages s" "free_set s2 = free_set s - {pa2idx pg}" "refcnt s2 = (refcnt s)(pa2idx pg := 1)"
    "x \<notin> pbytes (free_set s) \<Longrightarrow> phys s2 x = phys s x" "pa2idx pg \<in> free_set s" "refcnt s2 (pa2idx pg) = 1"
proof -
  obtain i where i: "pg = idx2pa i" "i \<in> free_set s" "i < NPAGES" "kmem_ok s1" "free_set s1 = free_set s - {i}"
    "refcnt s1 = (refcnt s)(i := 1)" "kend s1 = kend s"
    "\<And>x. x \<notin> pbytes (free_set s) \<Longrightarrow> phys s1 x = phys s x"
    by (rule kalloc_page [OF ok ka]) blast
  have px: "pa2idx pg = i" using i(1,3) by simp
  have nf: "i \<notin> free_set s1" using i(5) by simp
  show "kmem_ok s2"
    unfolding s2_def
    by (rule kmem_ok_write [OF i(4)]) (use m not_free_bytes [OF i(4,3) nf] i(1) in metis)
  have fs: "free_set s2 = free_set s1" by (simp add: s2_def free_set_def)
  then show "free_set s2 = free_set s - {pa2idx pg}" "pa2idx pg \<in> free_set s"
    using i(2,5) px by simp_all
  show "refcnt s2 = (refcnt s)(pa2idx pg := 1)" "kend s2 = kend s" "refcnt s2 (pa2idx pg) = 1"
    using i(6,7) px by (simp_all add: s2_def)
  show "owned s2 pg" unfolding owned_def using i(1,3) fs nf by blast
  show "\<not> owned s pg" unfolding owned_def using i(1,2,3) by (metis idx2pa_inj)
  show "owned s a \<Longrightarrow> owned s2 a" unfolding owned_def using fs i(5) by blast
  show "pg \<in> avail_pages s" unfolding avail_pages_def using i(1,2) by blast
  show "x \<notin> pbytes (free_set s) \<Longrightarrow> phys s2 x = phys s x"
    using m i(1,2,8) by (auto simp: s2_def pbytes_def)
qed

lemma pt_after_alloc:
  fixes m :: mem
  assumes ok: "kmem_ok s" "pt_ok s pt" and ka: "kalloc s = (pg, s1)" "pg \<noteq> 0"
    and m: "\<forall>x. PGROUNDDOWN x \<noteq> pg \<longrightarrow> m x = phys s1 x"
  defines "s2 \<equiv> s1\<lparr>phys := m\<rparr>"
  shows "pt_ok s2 pt" "leaf s2 pt = leaf s pt" "tables s2 pt = tables s pt" "tvalid s2 pt = tvalid s pt"
    "pg \<notin> tables s pt" "grows s s2 pt" "tvalid s pt va \<Longrightarrow> leaf_slot s2 pt va = leaf_slot s pt va"
proof -
  note f = filled_page [OF ok(1) ka m, folded s2_def]
  have same: "phys s2 x = phys s x" if "PGROUNDDOWN x \<in> tables s pt" for x
    using f(9) [of x] owned_not_free_bytes [OF ok(1) tables_owned [OF ok(2) that]] by blast
  show "tvalid s pt va \<Longrightarrow> leaf_slot s2 pt va = leaf_slot s pt va"
    using pt_frame(2) [OF ok(2) same] by (simp add: leaf_slot_def)
  show "pt_ok s2 pt"
    using pt_ok_frame [OF ok(2) same] f(5) tables_owned [OF ok(2)] by blast
  moreover show "leaf s2 pt = leaf s pt" "tables s2 pt = tables s pt" "tvalid s2 pt = tvalid s pt"
    using pt_frame [OF ok(2) same] by blast+
  moreover show "pg \<notin> tables s pt" using f(4) tables_owned [OF ok(2)] by blast
  ultimately show "grows s s2 pt"
    unfolding grows_def using f(1,2,7,8,9,10) by auto
qed

lemma walk_alloc:
  assumes ok: "kmem_ok s" "pt_ok s pt"
  shows "\<exists>a s'. walk pt va True s = Ok (a, s') \<and> grows s s' pt \<and> leaf s' pt = leaf s pt \<and>
           (if a = 0 then \<not> tvalid s pt va \<and> free_set s = {} else tvalid s' pt va \<and> a = leaf_slot s' pt va)"
proof (cases "tvalid s pt va")
  case True
  then have "walk pt va True s = Ok (leaf_slot s pt va, s)"
    using va_below_MAXVA [of va] by (simp add: walk_def tvalid_def leaf_slot_def table_def Let_def)
  then show ?thesis
    using True leaf_slot_nonzero [OF ok(2) True] grows_refl [OF ok] by auto
next
  case nv: False
  obtain pg s1 where ka: "kalloc s = (pg, s1)" by fastforce
  show ?thesis
  proof (cases "pg = 0")
    case True
    then have "walk pt va True s = Ok (0, s)"
      using nv ka va_below_MAXVA [of va] kalloc_fails [OF ok(1)] by (simp add: walk_def tvalid_def Let_def)
    then show ?thesis
      using nv True ka kalloc_fails [OF ok(1)] grows_refl [OF ok] by auto
  next
    case False
    let ?m = "memset (phys s1) pg 0 PGSIZE"
    let ?s2 = "s1\<lparr>phys := ?m\<rparr>"
    let ?s3 = "set_pte (pte_slot pt 1 va) (PA2PTE pg OR PTE_V) ?s2"
    obtain i where i: "pg = idx2pa i" "i < NPAGES"
      by (rule kalloc_page [OF ok(1) ka False]) blast
    then have "unat pg mod 4096 = 0" by (simp add: idx2pa_aligned)
    then have m: "?m = (\<lambda>x. if PGROUNDDOWN x = pg then 0 else phys s1 x)"
      by (simp add: memset_page cong: if_cong)
    have ma: "\<forall>x. PGROUNDDOWN x \<noteq> pg \<longrightarrow> ?m x = phys s1 x" by (simp add: m)
    note f = filled_page [OF ok(1) ka False ma] and pa = pt_after_alloc [OF ok ka False ma]
    have z: "\<And>x. PGROUNDDOWN x = pg \<Longrightarrow> phys ?s2 x = 0" by (simp add: m)
    have nv2: "\<not> tvalid ?s2 pt va" using nv pa(4) by simp
    have "pg \<notin> tables ?s2 pt" using pa(3,5) by simp
    note sr = set_root [OF f(1) pa(1) nv2 f(3) this z]
    have "walk pt va True s = Ok (pte_slot pg 0 va, ?s3)"
      using nv ka False va_below_MAXVA [of va] by (simp add: walk_def tvalid_def Let_def)
    moreover have "grows s ?s3 pt"
    proof -
      have "phys ?s3 x = phys ?s2 x" if "PGROUNDDOWN x \<notin> tables s pt" for x
        using that root_slot_page [OF pa(1), of va] by (intro set_pte_other) (auto simp: tables_def)
      then show ?thesis
        using growsD [OF pa(6)] sr(1,2,6) pa(3) f(6) unfolding grows_def by auto
    qed
    moreover have "leaf ?s3 pt = leaf s pt" using sr(5) pa(2) by simp
    moreover have "pte_slot pg 0 va = leaf_slot ?s3 pt va" using sr(4) by (simp add: leaf_slot_def)
    moreover have "leaf_slot ?s3 pt va \<noteq> 0" using leaf_slot_nonzero sr(2,3) by blast
    ultimately show ?thesis using sr(3) by auto
  qed
qed

end
