(* ===== verification/Vm_Map.thy ===== *)
theory Vm_Map
  imports Vm_Walk
begin

text \<open>
  The effect of \<^verbatim>\<open>mappages\<close>, \<^verbatim>\<open>uvmunmap\<close> and \<^verbatim>\<open>vmfault\<close> on the meaning of a page table.
  Virtual pages are counted by \<open>vpn\<close>, the virtual page number.
\<close>

section \<open>Virtual page numbers\<close>

definition vpn :: "uint32 \<Rightarrow> nat" where
  "vpn va = unat va div 4096"

lemma vpn_less: "vpn va < 1048576"
  using unat_less_32 [of va] by (simp add: vpn_def less_mult_imp_div_less)

lemma same_vpn: "PGROUNDDOWN va = PGROUNDDOWN va' \<longleftrightarrow> vpn va = vpn va'"
  by (simp add: PGROUNDDOWN_eq_iff vpn_def)

lemma unat_aligned: "unat a mod 4096 = 0 \<Longrightarrow> unat a = 4096 * vpn a"
  unfolding vpn_def using mult_div_mod_eq [of 4096 "unat a"] by simp

lemma aligned_same_vpn: "unat a mod 4096 = 0 \<Longrightarrow> PGROUNDDOWN w = a \<longleftrightarrow> vpn w = vpn a"
  using same_vpn [of w a] by (simp add: PGROUNDDOWN_id)

lemma next_page:
  assumes "unat a mod 4096 = 0" "vpn a + 1 < 1048576"
  shows "unat (a + PGSIZE) mod 4096 = 0" "vpn (a + PGSIZE) = vpn a + 1"
proof -
  have "unat (a + PGSIZE) = unat a + 4096"
    using assms unat_aligned [OF assms(1)] by (subst unat_plus_small) (simp_all add: layout_vals)
  then show "unat (a + PGSIZE) mod 4096 = 0" "vpn (a + PGSIZE) = vpn a + 1"
    using assms(1) by (simp_all add: vpn_def)
qed

lemma nth_page_eq:
  assumes "k < 1048576" "a + of_nat k * PGSIZE = a"
  shows "k = 0"
proof -
  have "unat (of_nat (k * 4096) :: 32 word) = k * 4096"
    using assms(1) by (intro unat_of_nat_small32) simp
  moreover have "(of_nat (k * 4096) :: 32 word) = 0" using assms(2) by (simp add: PGSIZE_def)
  ultimately show ?thesis by simp
qed

section \<open>\<open>mappages\<close>\<close>

definition mapped :: "(uint32 \<Rightarrow> uint32) \<Rightarrow> nat \<Rightarrow> nat \<Rightarrow> uint32 \<Rightarrow> uint32 \<Rightarrow> uint32 \<Rightarrow> uint32" where
  "mapped lf q n pa pm w =
     (if q \<le> vpn w \<and> vpn w < q + n then PA2PTE (pa + of_nat (vpn w - q) * PGSIZE) OR pm OR PTE_V else lf w)"

lemma mapped_0 [simp]: "mapped lf q 0 pa pm = lf"
  by (auto simp: mapped_def fun_eq_iff)

lemma mapped_Suc:
  "mapped (\<lambda>w. if vpn w = q then PA2PTE pa OR pm OR PTE_V else lf w) (q + 1) n (pa + PGSIZE) pm = mapped lf q (Suc n) pa pm"
proof
  fix w
  show "mapped (\<lambda>w. if vpn w = q then PA2PTE pa OR pm OR PTE_V else lf w) (q + 1) n (pa + PGSIZE) pm w
      = mapped lf q (Suc n) pa pm w"
  proof (cases "q < vpn w")
    case True
    then obtain d where "vpn w = q + Suc d" using less_imp_Suc_add by auto
    then show ?thesis by (simp add: mapped_def algebra_simps)
  qed (auto simp: mapped_def)
qed

lemma mappages_step:
  assumes ok: "kmem_ok s" "pt_ok s pt" and al: "unat a mod 4096 = 0" and nv: "\<not> has (leaf s pt a) PTE_V"
  obtains (full) s1 where "mappages_loop pt a lst pa pm s = Some (Ok (False, s1))" "grows s s1 pt"
      "leaf s1 pt = leaf s pt" "free_set s1 = {}"
    | (mapped) s2 where "grows s s2 pt"
      "leaf s2 pt = (\<lambda>w. if vpn w = vpn a then PA2PTE pa OR pm OR PTE_V else leaf s pt w)"
      "mappages_loop pt a lst pa pm s = (if a = lst then Some (Ok (True, s2))
         else mappages_loop pt (a + PGSIZE) lst (pa + PGSIZE) pm s2)"
proof -
  obtain p s1 where w: "walk pt a True s = Ok (p, s1)" "grows s s1 pt" "leaf s1 pt = leaf s pt"
    "if p = 0 then \<not> tvalid s pt a \<and> free_set s = {} else tvalid s1 pt a \<and> p = leaf_slot s1 pt a"
    using walk_alloc [OF ok] by blast
  show thesis
  proof (cases "p = 0")
    case True
    then have "mappages_loop pt a lst pa pm s = Some (Ok (False, s1))"
      by (subst mappages_loop.simps) (simp add: w(1))
    moreover have "free_set s1 = {}" using w(4) True growsD(3) [OF w(2)] by auto
    ultimately show thesis using full w(2,3) by blast
  next
    case False
    note g = growsD [OF w(2)]
    have tv: "tvalid s1 pt a" and p: "p = leaf_slot s1 pt a" using w(4) False by auto
    have npv: "\<not> has (pte_at s1 p) PTE_V" using nv w(3) tv p by (metis leaf_def)
    let ?s2 = "set_pte p (PA2PTE pa OR pm OR PTE_V) s1"
    have "grows s ?s2 pt"
      using grows_trans [OF w(2) grows_set_leaf [OF g(1,2) tv]] p by simp
    moreover have "leaf ?s2 pt = (\<lambda>w. if vpn w = vpn a then PA2PTE pa OR pm OR PTE_V else leaf s pt w)"
      using set_leaf(5) [OF g(2) tv] w(3) same_vpn p by (simp add: fun_eq_iff)
    moreover have "mappages_loop pt a lst pa pm s = (if a = lst then Some (Ok (True, ?s2))
         else mappages_loop pt (a + PGSIZE) lst (pa + PGSIZE) pm ?s2)"
      using npv False by (subst mappages_loop.simps) (simp add: w(1) Let_def)
    ultimately show thesis by (rule mapped)
  qed
qed

lemma mappages_loop_spec:
  assumes "kmem_ok s" "pt_ok s pt" "unat a mod 4096 = 0" "vpn a + Suc n \<le> 1048576"
    and "\<And>w. vpn a \<le> vpn w \<Longrightarrow> vpn w < vpn a + Suc n \<Longrightarrow> \<not> has (leaf s pt w) PTE_V"
  shows "\<exists>ok s' j. mappages_loop pt a (a + of_nat n * PGSIZE) pa pm s = Some (Ok (ok, s')) \<and> grows s s' pt \<and>
           leaf s' pt = mapped (leaf s pt) (vpn a) j pa pm \<and>
           (if ok then j = Suc n else j \<le> n \<and> free_set s' = {})"
  using assms
proof (induction n arbitrary: s a pa)
  case 0
  have nv: "\<not> has (leaf s pt a) PTE_V" using "0.prems"(5) by simp
  show ?case
  proof (cases rule: mappages_step [OF "0.prems"(1-3) nv, of "a + of_nat 0 * PGSIZE" pa pm])
    case (1 s1)
    then show ?thesis by (intro exI [of _ False] exI [of _ s1] exI [of _ 0]) simp
  next
    case (2 s2)
    then show ?thesis
      using mapped_Suc [of "vpn a" pa pm "leaf s pt" 0]
      by (intro exI [of _ True] exI [of _ s2] exI [of _ 1]) simp
  qed
next
  case (Suc n)
  have nv: "\<not> has (leaf s pt a) PTE_V" using Suc.prems(5) by simp
  let ?lst = "a + of_nat (Suc n) * PGSIZE"
  show ?case
  proof (cases rule: mappages_step [OF Suc.prems(1-3) nv, of ?lst pa pm])
    case (1 s1)
    then show ?thesis by (intro exI [of _ False] exI [of _ s1] exI [of _ 0]) simp
  next
    case (2 s2)
    note g = growsD [OF 2(1)]
    have "a \<noteq> ?lst" using nth_page_eq [of "Suc n" a] Suc.prems(4) by auto
    moreover have l: "?lst = (a + PGSIZE) + of_nat n * PGSIZE" by (simp add: algebra_simps)
    ultimately have st: "mappages_loop pt a ?lst pa pm s
        = mappages_loop pt (a + PGSIZE) ((a + PGSIZE) + of_nat n * PGSIZE) (pa + PGSIZE) pm s2"
      using 2(3) by metis
    have nx: "unat (a + PGSIZE) mod 4096 = 0" "vpn (a + PGSIZE) = vpn a + 1"
      using next_page [OF Suc.prems(3)] Suc.prems(4) by auto
    have nv2: "\<not> has (leaf s2 pt w) PTE_V"
      if "vpn (a + PGSIZE) \<le> vpn w" "vpn w < vpn (a + PGSIZE) + Suc n" for w
      using that Suc.prems(5) [of w] by (simp add: 2(2) nx)
    have b2: "vpn (a + PGSIZE) + Suc n \<le> 1048576" using Suc.prems(4) nx(2) by simp
    obtain ok s' j where s': "mappages_loop pt a ?lst pa pm s = Some (Ok (ok, s'))" "grows s2 s' pt"
        "leaf s' pt = mapped (leaf s2 pt) (vpn a + 1) j (pa + PGSIZE) pm"
        "if ok then j = Suc n else j \<le> n \<and> free_set s' = {}"
      using Suc.IH [OF g(1,2) nx(1) b2 nv2, of "pa + PGSIZE"] unfolding st nx(2) by blast
    have "leaf s' pt = mapped (leaf s pt) (vpn a) (Suc j) pa pm"
      using s'(3) mapped_Suc [of "vpn a" pa pm "leaf s pt" j] by (simp add: 2(2))
    then show ?thesis
      using s'(1,4) grows_trans [OF 2(1) s'(2)]
      by (intro exI [of _ ok] exI [of _ s'] exI [of _ "Suc j"]) (auto split: if_splits)
  qed
qed

lemma mappages_spec:
  assumes "kmem_ok s" "pt_ok s pt" "unat va mod 4096 = 0" "0 < n" "n < 1048576" "vpn va + n \<le> 1048576"
    and "\<And>w. vpn va \<le> vpn w \<Longrightarrow> vpn w < vpn va + n \<Longrightarrow> \<not> has (leaf s pt w) PTE_V"
  obtains ok s' j where "mappages pt va (of_nat n * PGSIZE) pa pm s = Ok (ok, s')" "grows s s' pt"
    "leaf s' pt = mapped (leaf s pt) (vpn va) j pa pm" "if ok then j = n else j < n \<and> free_set s' = {}"
proof -
  obtain k where k: "n = Suc k" using assms(4) by (cases n) auto
  have "unat (of_nat (n * 4096) :: 32 word) = n * 4096"
    using assms(5) by (intro unat_of_nat_small32) simp
  then have u: "unat (of_nat n * PGSIZE) = n * 4096" by (simp add: PGSIZE_def)
  then have sz: "of_nat n * PGSIZE mod PGSIZE = 0" "of_nat n * PGSIZE \<noteq> 0" "va mod PGSIZE = 0"
    using assms(3,4) by (auto simp: mod_PGSIZE word_unat_eq_iff [of "of_nat n * PGSIZE"])
  have lst: "va + of_nat n * PGSIZE - PGSIZE = va + of_nat k * PGSIZE"
    by (simp add: k algebra_simps)
  obtain ok s' j where m: "mappages_loop pt va (va + of_nat k * PGSIZE) pa pm s = Some (Ok (ok, s'))" and r: "grows s s' pt"
      "leaf s' pt = mapped (leaf s pt) (vpn va) j pa pm" "if ok then j = Suc k else j \<le> k \<and> free_set s' = {}"
    using mappages_loop_spec [OF assms(1-3), of k pa pm] assms(6,7) unfolding k by blast
  have "mappages pt va (of_nat n * PGSIZE) pa pm s = Ok (ok, s')"
    unfolding mappages_def lst m using sz by (simp add: run_loop_def)
  then show thesis
    using that [OF _ r(1,2)] r(3) by (simp add: k less_Suc_eq_le)
qed

text \<open>The common case of one page.\<close>

lemma mappages_one:
  assumes "kmem_ok s" "pt_ok s pt" "unat va mod 4096 = 0" "\<not> has (leaf s pt va) PTE_V"
  obtains (full) s' where "mappages pt va PGSIZE pa pm s = Ok (False, s')" "grows s s' pt" "leaf s' pt = leaf s pt"
      "free_set s' = {}"
    | (mapped) s' where "mappages pt va PGSIZE pa pm s = Ok (True, s')" "grows s s' pt"
      "leaf s' pt = (\<lambda>w. if vpn w = vpn va then PA2PTE pa OR pm OR PTE_V else leaf s pt w)"
proof -
  have nv: "\<not> has (leaf s pt w) PTE_V" if "vpn va \<le> vpn w" "vpn w < vpn va + 1" for w
  proof -
    have "vpn w = vpn va" using that by simp
    then have "PX 1 w = PX 1 va \<and> PX 0 w = PX 0 va" using same_vpage_iff same_vpn by blast
    then have "leaf s pt w = leaf s pt va" by (simp add: leaf_def tvalid_def leaf_slot_def table_def pte_slot_def)
    then show ?thesis using assms(4) by simp
  qed
  have b: "vpn va + 1 \<le> 1048576" using vpn_less [of va] by simp
  have n: "0 < (1::nat)" "1 < (1048576::nat)" by simp_all
  obtain ok s' j where s': "mappages pt va (of_nat 1 * PGSIZE) pa pm s = Ok (ok, s')" "grows s s' pt"
      "leaf s' pt = mapped (leaf s pt) (vpn va) j pa pm" "if ok then j = 1 else j < 1 \<and> free_set s' = {}"
    by (rule mappages_spec [OF assms(1-3) n b nv]) blast
  have "mapped (leaf s pt) (vpn va) 1 pa pm = (\<lambda>w. if vpn w = vpn va then PA2PTE pa OR pm OR PTE_V else leaf s pt w)"
    using mapped_Suc [of "vpn va" pa pm "leaf s pt" 0] by simp
  then show thesis
    using s' full [of s'] mapped [of s'] by (cases ok) auto
qed

section \<open>A new page table\<close>

lemma uvmcreate_spec:
  assumes ok: "kmem_ok s" and u: "uvmcreate s = (pt, s')"
  shows "if pt = 0 then s' = s \<and> free_set s = {}
         else kmem_ok s' \<and> pt_ok s' pt \<and> leaf s' pt = (\<lambda>_. 0) \<and> tables s' pt = {pt} \<and> pt \<in> avail_pages s \<and>
              free_set s' = free_set s - {pa2idx pt} \<and> kend s' = kend s"
proof -
  obtain pg s1 where ka: "kalloc s = (pg, s1)" by fastforce
  show ?thesis
  proof (cases "pg = 0")
    case True
    then show ?thesis using u ka kalloc_fails [OF ok] by (auto simp: uvmcreate_def)
  next
    case False
    let ?m = "memset (phys s1) pg 0 PGSIZE"
    have pt: "pt = pg" "s' = s1\<lparr>phys := ?m\<rparr>" using u ka False by (auto simp: uvmcreate_def)
    obtain i where i: "pg = idx2pa i" "i < NPAGES"
      by (rule kalloc_page [OF ok ka False]) blast
    then have al: "unat pg mod 4096 = 0" by (simp add: idx2pa_aligned)
    then have m: "?m = (\<lambda>x. if PGROUNDDOWN x = pg then 0 else phys s1 x)"
      by (simp add: memset_page cong: if_cong)
    have ma: "\<forall>x. PGROUNDDOWN x \<noteq> pg \<longrightarrow> ?m x = phys s1 x" by (simp add: m)
    note f = filled_page [OF ok ka False ma]
    have "pte_at s' (pte_slot pt 1 w) = ld32 (\<lambda>_. 0) (pte_slot pt 1 w)" for w
      unfolding pt(2) using slot_page [OF al, of 1 w] pt(1) by (intro ld32_page_cong) (simp_all add: m)
    then have tv: "\<not> tvalid s' pt w" for w
      by (simp add: tvalid_def ld32_def not_has_0)
    have "pt_ok s' pt" unfolding pt_ok_def using tv f(3) pt by blast
    moreover have "leaf s' pt = (\<lambda>_. 0)" "tables s' pt = {pt}"
      using tv by (simp_all add: leaf_def tables_def fun_eq_iff)
    ultimately show ?thesis using f(1,2,6,7) False pt by simp
  qed
qed

section \<open>Flags\<close>

lemma PTE_FLAGS_small: "PTE_FLAGS p AND NOT 0x3FF = 0"
  by (simp add: PTE_FLAGS_def and.assoc)

lemma flag_bits_small:
  "PTE_V AND NOT 0x3FF = 0" "PTE_R AND NOT 0x3FF = 0" "PTE_W AND NOT 0x3FF = 0" "PTE_X AND NOT 0x3FF = 0"
  "PTE_U AND NOT 0x3FF = 0" "PTE_COW AND NOT 0x3FF = 0"
  by (simp_all add: pte_bit_defs)

lemma or_small: "a AND NOT 0x3FF = 0 \<Longrightarrow> b AND NOT 0x3FF = 0 \<Longrightarrow> (a OR b) AND NOT 0x3FF = (0 :: uint32)"
  by (simp only: bit.conj_disj_distrib2 or.left_neutral)

lemma and_small: "a AND NOT 0x3FF = 0 \<Longrightarrow> (a AND b) AND NOT 0x3FF = (0 :: uint32)"
  by (metis and.assoc and.commute and_zero_eq)

text \<open>The entry that \<^verbatim>\<open>vmfault\<close> installs for the private copy of a shared page.\<close>

definition cow_pte :: "uint32 \<Rightarrow> uint32 \<Rightarrow> uint32" where
  "cow_pte pg e = PA2PTE pg OR ((PTE_FLAGS e OR PTE_W) AND NOT PTE_COW)"

lemma cow_pte_decode:
  assumes "unat pg mod 4096 = 0"
  shows "PTE2PA (cow_pte pg e) = pg" "has (cow_pte pg e) PTE_W" "\<not> has (cow_pte pg e) PTE_COW"
    "has (cow_pte pg e) PTE_V = has e PTE_V" "has (cow_pte pg e) PTE_U = has e PTE_U"
    "has (cow_pte pg e) PTE_R = has e PTE_R" "has (cow_pte pg e) PTE_X = has e PTE_X"
proof -
  show "PTE2PA (cow_pte pg e) = pg"
    unfolding cow_pte_def using assms by (intro PTE2PA_PA2PTE and_small or_small PTE_FLAGS_small flag_bits_small)
  have lo: "bit (PA2PTE pg) n = False" if "n < 10" for n
    using that by (simp add: PA2PTE_def bit_push_bit_iff)
  have fl: "bit (PTE_FLAGS e) n = bit e n" if "n < 10" for n
    using that by (simp add: PTE_FLAGS_def mask10 bit_and_iff bit_mask_iff)
  show "has (cow_pte pg e) PTE_W" "\<not> has (cow_pte pg e) PTE_COW"
    "has (cow_pte pg e) PTE_V = has e PTE_V" "has (cow_pte pg e) PTE_U = has e PTE_U"
    "has (cow_pte pg e) PTE_R = has e PTE_R" "has (cow_pte pg e) PTE_X = has e PTE_X"
    unfolding has_iff cow_pte_def bit_or_iff bit_and_iff
    by (simp_all add: lo fl bit_not_iff bit_or_iff) (simp_all add: pte_bit_defs bit_push_bit_iff)
qed

section \<open>Dropping a reference\<close>

text \<open>
  A \<^verbatim>\<open>kfree\<close> of a referenced page that is no table of \<open>pt\<close> keeps the page table,
  takes one reference away and, on the last one, gives the page back.
\<close>

lemma kfree_keeps_pt:
  assumes ok: "kmem_ok s" "pt_ok s pt" and pa: "page_addr s pa" "refcnt s (pa2idx pa) \<noteq> 0" "pa \<notin> tables s pt"
  obtains s' where "kfree pa s = Ok s'" "kmem_ok s'" "pt_ok s' pt" "leaf s' pt = leaf s pt" "kend s' = kend s"
    "tables s' pt = tables s pt" "refcnt s' = (refcnt s)(pa2idx pa := refcnt s (pa2idx pa) - 1)"
    "free_set s' = (if refcnt s (pa2idx pa) = 1 then insert (pa2idx pa) (free_set s) else free_set s)"
    "\<forall>x. x \<notin> pbytes (free_set s) \<longrightarrow> (PGROUNDDOWN x = pa \<longrightarrow> refcnt s (pa2idx pa) \<noteq> 1) \<longrightarrow> phys s' x = phys s x"
    "\<And>a. owned s a \<Longrightarrow> a \<noteq> pa \<Longrightarrow> owned s' a"
proof -
  let ?i = "pa2idx pa"
  have i: "?i < NPAGES" "idx2pa ?i = pa" using page_addr_idx [OF pa(1) kmem_ok_kend [OF ok(1)]] by blast+
  have nf: "?i \<notin> free_set s" using free_setD(2) [OF ok(1)] pa(2) by blast
  show thesis
  proof (cases "refcnt s ?i = 1")
    case True
    obtain s' where s': "kfree pa s = Ok s'" "kmem_ok s'" "free_set s' = insert ?i (free_set s)"
        "refcnt s' = (refcnt s)(?i := 0)" "kend s' = kend s"
        "\<And>x. x \<notin> pbytes (insert ?i (free_set s)) \<Longrightarrow> phys s' x = phys s x"
      by (rule kfree_last [OF ok(1) pa(1) True]) blast
    have ow: "owned s' a" if "owned s a" "a \<noteq> pa" for a
      using that s'(3) i(2) unfolding owned_def by auto
    have nb: "x \<notin> pbytes (insert ?i (free_set s))" if "x \<notin> pbytes (free_set s)" "PGROUNDDOWN x \<noteq> pa" for x
      using that i(2) by (auto simp: pbytes_def)
    have same: "phys s' x = phys s x" if "PGROUNDDOWN x \<in> tables s pt" for x
      using s'(6) nb owned_not_free_bytes [OF ok(1) tables_owned [OF ok(2) that]] that pa(3) by metis
    have "pt_ok s' pt"
      using pt_ok_frame [OF ok(2) same] ow tables_owned [OF ok(2)] pa(3) by metis
    then show thesis
      using that [of s'] s' ow nb pt_frame [OF ok(2) same] True by simp
  next
    case False
    then have "1 < refcnt s ?i"
      using pa(2) by (simp add: word_less_nat_alt unat_eq_0 [symmetric] word_unat_eq_iff)
    note k = kfree_shared [OF pa(1) this] and r = kmem_ok_refcnt [OF ok(1) nf]
    let ?s = "s\<lparr>refcnt := (refcnt s)(?i := refcnt s ?i - 1)\<rparr>"
    have same: "phys ?s x = phys s x" for x by simp
    have ow: "owned ?s a = owned s a" for a by (simp add: owned_def free_set_def)
    have "pt_ok ?s pt"
      using pt_ok_frame [OF ok(2), of ?s] ow tables_owned [OF ok(2)] by simp
    moreover have "leaf ?s pt = leaf s pt" "tables ?s pt = tables s pt"
      using pt_frame [OF ok(2), of ?s] by simp_all
    ultimately show thesis
      using that [of ?s] k r False ow by simp
  qed
qed

section \<open>Copy on write\<close>

lemma page_range:
  assumes "unat a mod 4096 = 0"
  shows "unat a + 4096 \<le> 4294967296" "unat a \<le> unat x \<and> unat x < unat a + 4096 \<longleftrightarrow> PGROUNDDOWN x = a"
proof -
  have a: "unat a = 4096 * vpn a" using unat_aligned [OF assms] .
  then show "unat a + 4096 \<le> 4294967296" using vpn_less [of a] by linarith
  have "unat a \<le> unat x \<and> unat x < unat a + 4096 \<longleftrightarrow> vpn x = vpn a"
    unfolding a using mult_div_mod_eq [of 4096 "unat x"] by (auto simp: vpn_def)
  then show "unat a \<le> unat x \<and> unat x < unat a + 4096 \<longleftrightarrow> PGROUNDDOWN x = a"
    using aligned_same_vpn [OF assms] by simp
qed

lemma page_copy_eq:
  assumes "unat pg mod 4096 = 0" "unat pa mod 4096 = 0"
  shows "memmove m pg pa PGSIZE = (\<lambda>x. if PGROUNDDOWN x = pg then m (pa + (x - pg)) else m x)"
  using memmove_eq [of pg PGSIZE pa m] page_range [OF assms(1)] page_range(1) [OF assms(2)]
  by (simp add: fun_eq_iff layout_vals)

lemma PGROUNDDOWN_idem [simp]: "PGROUNDDOWN (PGROUNDDOWN va) = PGROUNDDOWN va"
  by (simp add: PGROUNDDOWN_id)

lemma same_page_entry:
  assumes "PGROUNDDOWN va = PGROUNDDOWN w"
  shows "tvalid s pt va = tvalid s pt w" "leaf_slot s pt va = leaf_slot s pt w" "leaf s pt va = leaf s pt w"
proof -
  have "PX 1 va = PX 1 w \<and> PX 0 va = PX 0 w" using assms same_vpage_iff by blast
  then show "tvalid s pt va = tvalid s pt w" "leaf_slot s pt va = leaf_slot s pt w" "leaf s pt va = leaf s pt w"
    by (simp_all add: leaf_def tvalid_def leaf_slot_def table_def pte_slot_def)
qed

lemma vmfault_cow:
  assumes ok: "kmem_ok s" "pt_ok s pt" and hp: "va < as_region_start as MR_HEAP + as_region_size as MR_HEAP"
    and cow: "has (leaf s pt va) PTE_V" "has (leaf s pt va) PTE_COW"
  defines "pa \<equiv> PTE2PA (leaf s pt va)"
  assumes pa: "page_addr s pa" "refcnt s (pa2idx pa) \<noteq> 0" "pa \<notin> tables s pt" and fr: "free_set s \<noteq> {}"
  obtains pg s' where "vmfault as pt va False s = Ok (pg, s')" "pg \<in> avail_pages s" "kmem_ok s'" "pt_ok s' pt"
    "leaf s' pt = (\<lambda>w. if vpn w = vpn va then cow_pte pg (leaf s pt va) else leaf s pt w)"
    "\<And>x. PGROUNDDOWN x = pg \<Longrightarrow> phys s' x = phys s (pa + (x - pg))"
    "refcnt s' = (refcnt s)(pa2idx pg := 1, pa2idx pa := refcnt s (pa2idx pa) - 1)"
    "\<forall>x. x \<notin> pbytes (free_set s) \<longrightarrow> PGROUNDDOWN x \<notin> tables s pt \<longrightarrow>
       (PGROUNDDOWN x = pa \<longrightarrow> refcnt s (pa2idx pa) \<noteq> 1) \<longrightarrow> phys s' x = phys s x"
proof -
  let ?va = "PGROUNDDOWN va" and ?e = "leaf s pt va" and ?i = "pa2idx pa"
  have tv: "tvalid s pt va" using cow(1) not_has_0 by (metis leaf_def)
  note va = same_page_entry [of ?va va s pt, simplified]
  have i: "?i < NPAGES" "idx2pa ?i = pa" using page_addr_idx [OF pa(1) kmem_ok_kend [OF ok(1)]] by blast+
  have nf: "?i \<notin> free_set s" using free_setD(2) [OF ok(1)] pa(2) by blast
  have pal: "unat pa mod 4096 = 0" using idx2pa_aligned [OF i(1)] i(2) by simp
  obtain pg s1 where ka: "kalloc s = (pg, s1)" by fastforce
  have pg0: "pg \<noteq> 0" using kalloc_fails [OF ok(1)] ka fr by auto
  obtain j where j: "pg = idx2pa j" "j < NPAGES" "j \<in> free_set s"
    and al: "\<And>x. x \<notin> pbytes (free_set s) \<Longrightarrow> phys s1 x = phys s x"
    by (rule kalloc_page [OF ok(1) ka pg0]) blast
  have pgal: "unat pg mod 4096 = 0" using idx2pa_aligned [OF j(2)] j(1) by simp
  let ?m = "memmove (phys s1) pg pa PGSIZE"
  define s2 where "s2 = s1\<lparr>phys := ?m\<rparr>"
  have ma: "\<forall>x. PGROUNDDOWN x \<noteq> pg \<longrightarrow> ?m x = phys s1 x" by (simp add: page_copy_eq [OF pgal pal])
  note f = filled_page [OF ok(1) ka pg0 ma, folded s2_def] and pt2 = pt_after_alloc [OF ok ka pg0 ma, folded s2_def]
  have tv2: "tvalid s2 pt va" using tv pt2(4) by simp
  define s3 where "s3 = set_pte (leaf_slot s2 pt va) (cow_pte pg ?e) s2"
  note sl = set_leaf [OF pt2(1) tv2, of "cow_pte pg ?e", folded s3_def]
  have k3: "kmem_ok s3" unfolding s3_def using grows_set_leaf [OF f(1) pt2(1) tv2] growsD(1) by blast
  have s3: "free_set s3 = free_set s2" "refcnt s3 = refcnt s2" "kend s3 = kend s2" by (simp_all add: s3_def)
  have ne: "pa \<noteq> pg" "?i \<noteq> pa2idx pg" using nf j i f(10) by auto
  have p3: "page_addr s3 pa" "refcnt s3 ?i \<noteq> 0" "pa \<notin> tables s3 pt"
    using pa f(2,8) ne(2) sl(3) pt2(3) s3 by (simp_all add: page_addr_def)
  obtain s' where s': "kfree pa s3 = Ok s'" "kmem_ok s'" "pt_ok s' pt" "leaf s' pt = leaf s3 pt"
    "refcnt s' = (refcnt s3)(?i := refcnt s3 ?i - 1)"
    "\<forall>x. x \<notin> pbytes (free_set s3) \<longrightarrow> (PGROUNDDOWN x = pa \<longrightarrow> refcnt s3 ?i \<noteq> 1) \<longrightarrow> phys s' x = phys s3 x"
    by (rule kfree_keeps_pt [OF k3 sl(4) p3]) blast
  have r3: "refcnt s3 ?i = refcnt s ?i" using f(8) ne(2) s3 by simp
  have in3: "phys s3 x = phys s2 x" if "PGROUNDDOWN x \<notin> tables s pt" for x
    using that leaf_slot_page [OF pt2(1) tv2] table_in_tables [OF tv2] pt2(3)
    unfolding s3_def by (intro set_pte_other) auto
  show thesis
  proof (rule that)
    have slot: "leaf_slot s2 pt va = leaf_slot s pt va" using pt2(7) [OF tv] .
    have pte: "pte_at s (leaf_slot s pt va) = ?e" using tv by (simp add: leaf_def)
    have "kfree pa (set_pte (leaf_slot s pt va) (cow_pte pg ?e) (s1\<lparr>phys := ?m\<rparr>)) = Ok s'"
      using s'(1) unfolding s3_def slot unfolding s2_def .
    then show "vmfault as pt va False s = Ok (pg, s')"
      using hp cow tv leaf_slot_nonzero [OF ok(2) tv] ka pg0
      by (simp add: vmfault_def walk_noalloc va Let_def pte pa_def [symmetric] cow_pte_def [symmetric] not_le)
    show "pg \<in> avail_pages s" by (rule f(6))
    show "leaf s' pt = (\<lambda>w. if vpn w = vpn va then cow_pte pg ?e else leaf s pt w)"
      using s'(4) sl(5) pt2(2) same_vpn by (simp add: fun_eq_iff)
    show "refcnt s' = (refcnt s)(pa2idx pg := 1, ?i := refcnt s ?i - 1)"
      using s'(5) r3 f(8) s3(2) by simp
    show "phys s' x = phys s (pa + (x - pg))" if x: "PGROUNDDOWN x = pg" for x
    proof -
      have "x \<notin> pbytes (free_set s3)"
        using owned_not_free_bytes [OF f(1,3)] x s3(1) by simp
      then have "phys s' x = ?m x"
        using spec [OF s'(6), of x] in3 [of x] x ne(1) pt2(5) by (simp add: s2_def)
      also have "\<dots> = phys s1 (pa + (x - pg))" using x by (simp add: page_copy_eq [OF pgal pal])
      also have "\<dots> = phys s (pa + (x - pg))"
      proof -
        have "unat (x - pg) < 4096" using page_offset [OF pgal] x by simp
        then have "PGROUNDDOWN (pa + (x - pg)) = pa" using page_offset [OF pal, of "pa + (x - pg)"] by simp
        then have "pa + (x - pg) \<notin> pbytes (free_set s)" using not_free_bytes [OF ok(1) i(1) nf] i(2) by simp
        then show ?thesis by (rule al)
      qed
      finally show ?thesis .
    qed
    have "phys s' x = phys s x"
      if x: "x \<notin> pbytes (free_set s)" "PGROUNDDOWN x \<notin> tables s pt" "PGROUNDDOWN x = pa \<longrightarrow> refcnt s ?i \<noteq> 1" for x
    proof -
      have "x \<notin> pbytes (free_set s3)" using x(1) f(7) s3(1) by (auto simp: pbytes_def)
      then show ?thesis using spec [OF s'(6), of x] x r3 in3 [of x] f(9) [of x] by simp
    qed
    then show "\<forall>x. x \<notin> pbytes (free_set s) \<longrightarrow> PGROUNDDOWN x \<notin> tables s pt \<longrightarrow>
       (PGROUNDDOWN x = pa \<longrightarrow> refcnt s ?i \<noteq> 1) \<longrightarrow> phys s' x = phys s x" by blast
  qed (use s' in blast)+
qed

end
