(* ===== verification/Vm_Spec.thy ===== *)
theory Vm_Spec
  imports Vm_Map
begin

text \<open>
  Properties of \<^verbatim>\<open>kernel/addrspace.c\<close>. The witnesses use a small concrete machine:
  one free page (index 100), a root table (200), a second-level table (201) and a
  user page (202).
\<close>

section \<open>A concrete machine\<close>

definition ex_kmem :: kmem where
  "ex_kmem = \<lparr>phys = (\<lambda>_. 0), kend = 0x80030000,
     free_areas = (\<lambda>_. \<lparr>freelist = 0, nr_free = 0\<rparr>)(0 := \<lparr>freelist = idx2pa 100, nr_free = 1\<rparr>),
     refcnt = (\<lambda>_. 0)(200 := 1, 201 := 1, 202 := 1), page_state = (\<lambda>_. 0)(100 := PG_BUDDY_FREE)\<rparr>"

lemma ex_kmem_ok: "kmem_ok ex_kmem"
  unfolding kmem_ok_def
proof
  let ?fl = "(\<lambda>_. [])(0 := [100 :: nat])"
  have fp: "free_pages ?fl = {100}"
    by (auto simp: free_pages_def blk_def)
  show "kmem_inv ex_kmem ?fl"
    unfolding kmem_inv_def
  proof (intro conjI)
    show "blocks_ok ?fl" by (auto simp: blocks_ok_def NPAGES_val split: if_splits)
    show "merged ?fl" by (simp add: merged_def)
    have "idx2pa 100 \<noteq> 0" by (rule idx2pa_nonzero) (simp add: NPAGES_val)
    then show "lists_ok ex_kmem ?fl" by (simp add: lists_ok_def ex_kmem_def ld32_def)
    show "pages_ok ex_kmem ?fl"
      unfolding pages_ok_def fp by (simp add: ex_kmem_def PG_BUDDY_FREE_def idx2pa_def layout_defs)
    show "KERNBASE \<le> kend ex_kmem" by (simp add: ex_kmem_def layout_defs)
  qed
qed

lemma ex_free_set: "free_set ex_kmem = {100}"
  by (auto simp: free_set_def ex_kmem_def PG_BUDDY_FREE_def)

lemma ex_owned: "k \<in> {200, 201, 202} \<Longrightarrow> owned ex_kmem (idx2pa k)"
  unfolding owned_def ex_free_set by (auto simp: NPAGES_val intro: exI [of _ k])

lemma ex_pt0: "pt_ok ex_kmem (idx2pa 200)" "\<not> tvalid ex_kmem (idx2pa 200) va" "leaf ex_kmem (idx2pa 200) = (\<lambda>_. 0)"
  "tables ex_kmem (idx2pa 200) = {idx2pa 200}"
proof -
  show nv: "\<not> tvalid ex_kmem (idx2pa 200) va" for va
    by (simp add: tvalid_def ex_kmem_def ld32_def not_has_0)
  show "pt_ok ex_kmem (idx2pa 200)" unfolding pt_ok_def using nv ex_owned by blast
  show "leaf ex_kmem (idx2pa 200) = (\<lambda>_. 0)" "tables ex_kmem (idx2pa 200) = {idx2pa 200}"
    using nv by (simp_all add: leaf_def tables_def fun_eq_iff)
qed

text \<open>The user page mapped at virtual address \<open>0x1000\<close> with the flags \<open>fl\<close>.\<close>

definition ex_table :: kmem where
  "ex_table = set_pte (pte_slot (idx2pa 200) 1 0x1000) (PA2PTE (idx2pa 201) OR PTE_V) ex_kmem"

definition ex_map :: "uint32 \<Rightarrow> kmem" where
  "ex_map fl = set_pte (leaf_slot ex_table (idx2pa 200) 0x1000) (PA2PTE (idx2pa 202) OR (fl OR PTE_V)) ex_table"

lemma ex_idx [simp]:
  "idx2pa 200 \<noteq> idx2pa 201" "idx2pa 202 \<noteq> idx2pa 200" "idx2pa 202 \<noteq> idx2pa 201" "pa2idx (idx2pa 202) = 202"
  by (simp_all add: idx2pa_inj NPAGES_val)

lemma ex_table_facts:
  "kmem_ok ex_table" "pt_ok ex_table (idx2pa 200)" "tvalid ex_table (idx2pa 200) 0x1000"
  "leaf ex_table (idx2pa 200) = (\<lambda>_. 0)" "tables ex_table (idx2pa 200) = {idx2pa 201, idx2pa 200}"
proof -
  have z: "\<And>x. PGROUNDDOWN x = idx2pa 201 \<Longrightarrow> phys ex_kmem x = 0" by (simp add: ex_kmem_def)
  have nt: "idx2pa 201 \<notin> tables ex_kmem (idx2pa 200)" unfolding ex_pt0(4) using ex_idx(1) by (metis singletonD)
  have ow: "owned ex_kmem (idx2pa 201)" by (rule ex_owned) simp
  note sr = set_root [OF ex_kmem_ok ex_pt0(1) ex_pt0(2) [of "0x1000"] ow nt z, folded ex_table_def]
  show "kmem_ok ex_table" "pt_ok ex_table (idx2pa 200)" "tvalid ex_table (idx2pa 200) 0x1000"
    "leaf ex_table (idx2pa 200) = (\<lambda>_. 0)" "tables ex_table (idx2pa 200) = {idx2pa 201, idx2pa 200}"
    using sr by (simp_all add: ex_pt0)
qed

lemma ex_map_facts:
  assumes "fl AND NOT 0x3FF = 0"
  defines "s \<equiv> ex_map fl" and "pt \<equiv> idx2pa 200"
  shows "kmem_ok s" "pt_ok s pt" "leaf s pt 0x1000 = PA2PTE (idx2pa 202) OR (fl OR PTE_V)"
    "PTE2PA (leaf s pt 0x1000) = idx2pa 202" "PTE_FLAGS (leaf s pt 0x1000) = fl OR PTE_V"
    "page_addr s (idx2pa 202)" "refcnt s 202 = 1" "idx2pa 202 \<notin> tables s pt" "free_set s = {100}"
proof -
  note sl = set_leaf [OF ex_table_facts(2,3), of "PA2PTE (idx2pa 202) OR (fl OR PTE_V)", folded ex_map_def, folded s_def pt_def]
  show "kmem_ok s"
    unfolding s_def ex_map_def using grows_set_leaf [OF ex_table_facts(1-3)] growsD(1) by blast
  show "pt_ok s pt" using sl(4) .
  show lf: "leaf s pt 0x1000 = PA2PTE (idx2pa 202) OR (fl OR PTE_V)" using sl(5) by simp
  have sm: "(fl OR PTE_V) AND NOT 0x3FF = 0" using assms(1) flag_bits_small(1) by (rule or_small)
  show "PTE2PA (leaf s pt 0x1000) = idx2pa 202"
    unfolding lf using sm by (intro PTE2PA_PA2PTE) (simp_all add: idx2pa_aligned NPAGES_val)
  show "PTE_FLAGS (leaf s pt 0x1000) = fl OR PTE_V" unfolding lf using sm by (rule PTE_FLAGS_PA2PTE)
  show "free_set s = {100}" using ex_free_set by (simp add: s_def ex_map_def ex_table_def)
  show "refcnt s 202 = 1" by (simp add: s_def ex_map_def ex_table_def ex_kmem_def)
  show "page_addr s (idx2pa 202)"
    by (simp add: page_addr_def s_def ex_map_def ex_table_def) (simp add: ex_kmem_def idx2pa_def layout_defs)
  show "idx2pa 202 \<notin> tables s pt" using sl(3) ex_table_facts(5) by (simp add: pt_def)
qed

section \<open>Properties\<close>

text \<open>
  C19. \<^verbatim>\<open>mappages\<close> of \<open>n\<close> unmapped pages never panics or diverges. On success the
  entry of each of the \<open>n\<close> virtual pages holds its physical page with the given
  flags, and the translation of every other virtual address is unchanged. It
  fails only when physical memory is exhausted, and then only a prefix is
  mapped. Either way the allocator and the table stay well formed, and memory
  outside the table's own pages and the free pages is not written.
\<close>

theorem mappages_maps_range:
  assumes "kmem_ok s" "pt_ok s pt" "unat va mod 4096 = 0" "0 < n" "n < 1048576" "vpn va + n \<le> 1048576"
    and "\<forall>w. vpn va \<le> vpn w \<and> vpn w < vpn va + n \<longrightarrow> \<not> has (leaf s pt w) PTE_V"
  shows "\<exists>ok s' j. mappages pt va (of_nat n * PGSIZE) pa pm s = Ok (ok, s') \<and> grows s s' pt \<and>
           leaf s' pt = mapped (leaf s pt) (vpn va) j pa pm \<and> (if ok then j = n else j < n \<and> free_set s' = {})"
proof -
  have nv: "\<And>w. vpn va \<le> vpn w \<Longrightarrow> vpn w < vpn va + n \<Longrightarrow> \<not> has (leaf s pt w) PTE_V"
    using assms(7) by blast
  obtain ok s' j where "mappages pt va (of_nat n * PGSIZE) pa pm s = Ok (ok, s')" "grows s s' pt"
      "leaf s' pt = mapped (leaf s pt) (vpn va) j pa pm" "if ok then j = n else j < n \<and> free_set s' = {}"
    by (rule mappages_spec [OF assms(1-6) nv]) blast
  then show ?thesis by blast
qed

theorem mappages_maps_range_witness:
  "\<exists>ok s' j. mappages (idx2pa 200) 0x3000 (of_nat 2 * PGSIZE) (idx2pa 202) (PTE_R OR PTE_U) ex_table = Ok (ok, s') \<and>
     grows ex_table s' (idx2pa 200) \<and>
     leaf s' (idx2pa 200) = mapped (leaf ex_table (idx2pa 200)) 3 j (idx2pa 202) (PTE_R OR PTE_U)"
  using mappages_maps_range [OF ex_table_facts(1,2), of "0x3000" 2 "idx2pa 202" "PTE_R OR PTE_U"]
  by (auto simp: vpn_def ex_table_facts(4) not_has_0)

text \<open>
  C4. A write fault on a copy-on-write page below the end of the heap gives the
  process a page of its own: the entry now maps a fresh page, writable and no
  longer copy-on-write, with the same other permissions; the fresh page has the
  bytes of the shared one; the shared page loses one reference and keeps its
  bytes for its other owners; no other translation and no other page in use
  changes.
\<close>

theorem vmfault_private_copy:
  assumes "kmem_ok s" "pt_ok s pt" "va < as_region_start as MR_HEAP + as_region_size as MR_HEAP"
    and "has (leaf s pt va) PTE_V" "has (leaf s pt va) PTE_COW" "PTE2PA (leaf s pt va) = pa"
    and "page_addr s pa" "refcnt s (pa2idx pa) \<noteq> 0" "pa \<notin> tables s pt" "free_set s \<noteq> {}"
  shows "\<exists>pg e s'. vmfault as pt va False s = Ok (pg, s') \<and> pg \<in> avail_pages s \<and> kmem_ok s' \<and> pt_ok s' pt \<and>
           leaf s' pt = (\<lambda>w. if vpn w = vpn va then e else leaf s pt w) \<and> PTE2PA e = pg \<and>
           has e PTE_V \<and> has e PTE_W \<and> \<not> has e PTE_COW \<and> has e PTE_U = has (leaf s pt va) PTE_U \<and>
           (\<forall>x. PGROUNDDOWN x = pg \<longrightarrow> phys s' x = phys s (pa + (x - pg))) \<and>
           refcnt s' = (refcnt s)(pa2idx pg := 1, pa2idx pa := refcnt s (pa2idx pa) - 1) \<and>
           (\<forall>x. x \<notin> pbytes (free_set s) \<longrightarrow> PGROUNDDOWN x \<notin> tables s pt \<longrightarrow>
              (PGROUNDDOWN x = pa \<longrightarrow> refcnt s (pa2idx pa) \<noteq> 1) \<longrightarrow> phys s' x = phys s x)"
proof -
  note a = assms(7-9) [folded assms(6)]
  obtain pg s' where v: "vmfault as pt va False s = Ok (pg, s')" "pg \<in> avail_pages s" "kmem_ok s'" "pt_ok s' pt"
    "leaf s' pt = (\<lambda>w. if vpn w = vpn va then cow_pte pg (leaf s pt va) else leaf s pt w)"
    and b: "\<And>x. PGROUNDDOWN x = pg \<Longrightarrow> phys s' x = phys s (PTE2PA (leaf s pt va) + (x - pg))"
    and r: "refcnt s' = (refcnt s)(pa2idx pg := 1, pa2idx (PTE2PA (leaf s pt va)) := refcnt s (pa2idx (PTE2PA (leaf s pt va))) - 1)"
    and fr: "\<forall>x. x \<notin> pbytes (free_set s) \<longrightarrow> PGROUNDDOWN x \<notin> tables s pt \<longrightarrow>
       (PGROUNDDOWN x = PTE2PA (leaf s pt va) \<longrightarrow> refcnt s (pa2idx (PTE2PA (leaf s pt va))) \<noteq> 1) \<longrightarrow> phys s' x = phys s x"
    by (rule vmfault_cow [OF assms(1-5) a assms(10)]) blast
  obtain j where j: "j \<in> free_set s" "pg = idx2pa j" using v(2) by (auto simp: avail_pages_def)
  have al: "unat pg mod 4096 = 0" using idx2pa_aligned [OF free_setD(1) [OF assms(1) j(1)]] j(2) by simp
  show ?thesis
    using v b r fr cow_pte_decode [OF al, of "leaf s pt va"] assms(4) unfolding assms(6)
    by (intro exI [of _ pg] exI [of _ "cow_pte pg (leaf s pt va)"] exI [of _ s'] conjI) simp_all
qed

definition ex_as :: addr_space where
  "ex_as = \<lparr>pagetable = idx2pa 200,
     regions = [\<lparr>va_start = 0, va_end = 0x4000, mtype = MR_HEAP, perm = PTE_R OR PTE_W\<rparr>]\<rparr>"

lemma ex_as_heap: "as_region_start ex_as MR_HEAP + as_region_size ex_as MR_HEAP = 0x4000"
  by (simp add: ex_as_def as_region_start_def as_region_size_def as_region_index_def)

lemma ex_guard_flags:
  "(PTE_R OR PTE_COW) AND NOT 0x3FF = 0" "PTE_R AND NOT 0x3FF = 0"
  "has (leaf (ex_map (PTE_R OR PTE_COW)) (idx2pa 200) 0x1000) PTE_V"
  "has (leaf (ex_map (PTE_R OR PTE_COW)) (idx2pa 200) 0x1000) PTE_COW"
  "\<not> has (leaf (ex_map (PTE_R OR PTE_COW)) (idx2pa 200) 0x1000) PTE_U"
proof -
  show s: "(PTE_R OR PTE_COW) AND NOT 0x3FF = 0" "PTE_R AND NOT 0x3FF = 0" by (simp_all add: pte_bit_defs)
  have l: "leaf (ex_map (PTE_R OR PTE_COW)) (idx2pa 200) 0x1000 = PA2PTE (idx2pa 202) OR ((PTE_R OR PTE_COW) OR PTE_V)"
    by (rule ex_map_facts(3) [OF s(1)])
  show "has (leaf (ex_map (PTE_R OR PTE_COW)) (idx2pa 200) 0x1000) PTE_V"
    "has (leaf (ex_map (PTE_R OR PTE_COW)) (idx2pa 200) 0x1000) PTE_COW"
    "\<not> has (leaf (ex_map (PTE_R OR PTE_COW)) (idx2pa 200) 0x1000) PTE_U"
    unfolding l has_def by (simp_all add: PA2PTE_def idx2pa_def layout_defs pte_bit_defs)
qed

theorem vmfault_private_copy_witness:
  "\<exists>pg s'. vmfault ex_as (idx2pa 200) 0x1000 False (ex_map (PTE_R OR PTE_COW)) = Ok (pg, s') \<and>
     pg \<in> avail_pages (ex_map (PTE_R OR PTE_COW)) \<and> has (leaf s' (idx2pa 200) 0x1000) PTE_W"
proof -
  note m = ex_map_facts [OF ex_guard_flags(1)]
  have "(0x1000 :: uint32) < as_region_start ex_as MR_HEAP + as_region_size ex_as MR_HEAP"
    unfolding ex_as_heap by simp
  from vmfault_private_copy [OF m(1,2) this ex_guard_flags(3,4) m(4,6) _ m(8)] m(7,9)
  show ?thesis by auto
qed

text \<open>
  One byte copied out to a page that is mapped without \<^verbatim>\<open>PTE_U\<close>: \<^verbatim>\<open>vmfault\<close> decides.
\<close>

lemma copyout_one:
  assumes nv: "tvalid s pt va" "\<not> has (leaf s pt va) PTE_U" and f: "vmfault as pt (PGROUNDDOWN va) False s = Ok (pa, s1)"
    and w: "pa \<noteq> 0 \<Longrightarrow> tvalid s1 pt va"
  shows "copyout as pt va src 1 s =
    (if pa = 0 \<or> \<not> has (leaf s1 pt va) PTE_W then Ok (False, s1)
     else Ok (True, s1\<lparr>phys := memmove (phys s1) (pa + (va - PGROUNDDOWN va)) src 1\<rparr>))"
proof -
  note e = same_page_entry [of "PGROUNDDOWN va" va, simplified]
  have "unat (va - PGROUNDDOWN va) < 4096" using page_offset [of "PGROUNDDOWN va" va] by simp
  then have "1 \<le> PGSIZE - (va - PGROUNDDOWN va)"
    by (simp add: word_le_nat_alt unat_sub layout_vals)
  then have n: "(if 1 < PGSIZE - (va - PGROUNDDOWN va) then 1 else PGSIZE - (va - PGROUNDDOWN va)) = (1 :: uint32)"
    by (simp add: order_antisym_conv not_less)
  have lf: "pte_at t (leaf_slot t pt va) = leaf t pt va" if "tvalid t pt va" for t using that by (simp add: leaf_def)
  have fin: "copyout_loop as pt a b 0 t = Some (Ok (True, t))" for a b t
    by (subst copyout_loop.simps) simp
  show ?thesis
    unfolding copyout_def run_loop_def
    using nv f w lf [OF nv(1)] lf [of s1] va_below_MAXVA
    by (subst copyout_loop.simps) (simp add: walk_noalloc e Let_def n fin)
qed

lemma vmfault_not_cow:
  assumes "pt_ok s pt" "has (leaf s pt va) PTE_V" "\<not> has (leaf s pt va) PTE_COW"
  shows "vmfault as pt va rd s = Ok (0, s)"
proof -
  have tv: "tvalid s pt va" using assms(2) not_has_0 by (metis leaf_def)
  then have "pte_at s (leaf_slot s pt va) = leaf s pt va" by (simp add: leaf_def)
  then show ?thesis
    using assms tv leaf_slot_nonzero [OF assms(1) tv]
    by (simp add: vmfault_def walk_noalloc same_page_entry [of "PGROUNDDOWN va" va, simplified] Let_def)
qed

text \<open>
  C33. A page mapped without user access, such as the guard page below the user
  stack, refuses a byte copied to user space as long as it is not copy-on-write. Once
  \<^verbatim>\<open>fork\<close> has made the address space copy-on-write, the same copy succeeds:
  \<^verbatim>\<open>vmfault\<close> takes the copy-on-write path without looking at \<^verbatim>\<open>PTE_U\<close>.
\<close>

theorem copyout_guard_page:
  assumes "kmem_ok s" "pt_ok s pt" "PGROUNDDOWN va < as_region_start as MR_HEAP + as_region_size as MR_HEAP"
    and "has (leaf s pt va) PTE_V" "\<not> has (leaf s pt va) PTE_U" "PTE2PA (leaf s pt va) = pa"
    and "page_addr s pa" "refcnt s (pa2idx pa) \<noteq> 0" "pa \<notin> tables s pt" "free_set s \<noteq> {}"
  shows "if has (leaf s pt va) PTE_COW then \<exists>s'. copyout as pt va src 1 s = Ok (True, s')
         else copyout as pt va src 1 s = Ok (False, s)"
proof -
  have tv: "tvalid s pt va" using assms(4) not_has_0 by (metis leaf_def)
  note e = same_page_entry [of "PGROUNDDOWN va" va, simplified]
  show ?thesis
  proof (cases "has (leaf s pt va) PTE_COW")
    case False
    then have "vmfault as pt (PGROUNDDOWN va) False s = Ok (0, s)"
      using vmfault_not_cow [OF assms(2), of "PGROUNDDOWN va"] assms(4) by (simp add: e)
    from copyout_one [OF tv assms(5) this] False show ?thesis by simp
  next
    case True
    have h: "has (leaf s pt (PGROUNDDOWN va)) PTE_V" "has (leaf s pt (PGROUNDDOWN va)) PTE_COW"
      using assms(4) True by (simp_all add: e)
    note a = assms(7-9) [folded assms(6), folded e(3)]
    obtain pg s' where v: "vmfault as pt (PGROUNDDOWN va) False s = Ok (pg, s')" "pg \<in> avail_pages s"
      "leaf s' pt = (\<lambda>w. if vpn w = vpn (PGROUNDDOWN va) then cow_pte pg (leaf s pt (PGROUNDDOWN va)) else leaf s pt w)"
      by (rule vmfault_cow [OF assms(1-3) h a assms(10)]) blast
    obtain j where j: "j \<in> free_set s" "pg = idx2pa j" using v(2) by (auto simp: avail_pages_def)
    note lt = free_setD(1) [OF assms(1) j(1)]
    have pg: "unat pg mod 4096 = 0" "pg \<noteq> 0" using idx2pa_aligned [OF lt] idx2pa_nonzero [OF lt] j(2) by simp_all
    have "vpn va = vpn (PGROUNDDOWN va)" using same_vpn [of va "PGROUNDDOWN va"] by simp
    then have l: "leaf s' pt va = cow_pte pg (leaf s pt va)" using v(3) by (simp add: e)
    then have w: "has (leaf s' pt va) PTE_W" "has (leaf s' pt va) PTE_V"
      using cow_pte_decode [OF pg(1)] assms(4) by simp_all
    then have "tvalid s' pt va" using not_has_0 by (metis leaf_def)
    from copyout_one [OF tv assms(5) v(1) this] w(1) pg(2) True show ?thesis by simp
  qed
qed

theorem copyout_guard_page_witness:
  "(\<exists>s'. copyout ex_as (idx2pa 200) 0x1000 (idx2pa 0) 1 (ex_map (PTE_R OR PTE_COW)) = Ok (True, s')) \<and>
   copyout ex_as (idx2pa 200) 0x1000 (idx2pa 0) 1 (ex_map PTE_R) = Ok (False, ex_map PTE_R)"
proof
  have pd: "PGROUNDDOWN 0x1000 = 0x1000" by (simp add: PGROUNDDOWN_def PGSIZE_def)
  have h: "PGROUNDDOWN 0x1000 < as_region_start ex_as MR_HEAP + as_region_size ex_as MR_HEAP"
    unfolding ex_as_heap pd by simp
  note m = ex_map_facts [OF ex_guard_flags(1)] and n = ex_map_facts [OF ex_guard_flags(2)]
  from copyout_guard_page [OF m(1,2) h ex_guard_flags(3,5) m(4,6) _ m(8), of "idx2pa 0"] m(7,9) ex_guard_flags(4)
  show "\<exists>s'. copyout ex_as (idx2pa 200) 0x1000 (idx2pa 0) 1 (ex_map (PTE_R OR PTE_COW)) = Ok (True, s')"
    by simp
  have fl: "has (leaf (ex_map PTE_R) (idx2pa 200) 0x1000) PTE_V" "\<not> has (leaf (ex_map PTE_R) (idx2pa 200) 0x1000) PTE_U"
    "\<not> has (leaf (ex_map PTE_R) (idx2pa 200) 0x1000) PTE_COW"
    unfolding n(3) has_def by (simp_all add: PA2PTE_def idx2pa_def layout_defs pte_bit_defs)
  from copyout_guard_page [OF n(1,2) h fl(1,2) n(4,6) _ n(8), of "idx2pa 0"] n(7,9) fl(3)
  show "copyout ex_as (idx2pa 200) 0x1000 (idx2pa 0) 1 (ex_map PTE_R) = Ok (False, ex_map PTE_R)"
    by simp
qed

end
