(* ===== verification/Pipe_Spec.thy ===== *)
theory Pipe_Spec
  imports Pipe Vm_Spec
begin

text \<open>
  Properties of \<^verbatim>\<open>kernel/pipe.c\<close>. The witnesses run \<^verbatim>\<open>pipewrite\<close> and \<^verbatim>\<open>piperead\<close> on a
  machine whose current process has the page of \<open>Vm_Spec\<close> mapped at \<open>0x1000\<close>.
\<close>

section \<open>Bytes of a mapped page\<close>

lemma memmove_one: "memmove m d s 1 = m(d := m s)"
  by (simp add: memmove_def)

lemma one_byte: "(if 1 < PGSIZE - (va - PGROUNDDOWN va) then 1 else PGSIZE - (va - PGROUNDDOWN va)) = (1 :: uint32)"
proof -
  have "unat (va - PGROUNDDOWN va) < 4096" using page_offset [of "PGROUNDDOWN va" va] by simp
  then have "1 \<le> PGSIZE - (va - PGROUNDDOWN va)" by (simp add: word_le_nat_alt unat_sub layout_vals)
  then show ?thesis by (simp add: order_antisym_conv not_less)
qed

definition user_byte :: "'a mach_scheme \<Rightarrow> uint32 \<Rightarrow> addr" where
  "user_byte s va = PTE2PA (leaf (km s) (pagetable (p_as (myproc s))) va) + (va - PGROUNDDOWN va)"

definition user_page :: "'a mach_scheme \<Rightarrow> uint32 \<Rightarrow> bool" where
  "user_page s va \<longleftrightarrow> (let e = leaf (km s) (pagetable (p_as (myproc s))) va
     in has e PTE_V \<and> has e PTE_U \<and> has e PTE_W \<and> \<not> has e PTE_COW \<and> PTE2PA e \<noteq> 0)"

lemma copyin_byte_mapped:
  assumes "pt_ok (km s) (pagetable (p_as (myproc s)))" "user_page s va"
  shows "copyin_byte va s = Ok (Some (phys (km s) (user_byte s va)),
    s\<lparr>km := (km s)\<lparr>phys := (phys (km s))(klocal s := phys (km s) (user_byte s va))\<rparr>\<rparr>)"
proof -
  let ?pt = "pagetable (p_as (myproc s))" and ?k = "km s"
  have u: "has (leaf ?k ?pt va) PTE_V" "has (leaf ?k ?pt va) PTE_U" "PTE2PA (leaf ?k ?pt va) \<noteq> 0"
    using assms(2) by (simp_all add: user_page_def Let_def)
  have tv: "tvalid ?k ?pt va" using u(1) not_has_0 by (metis leaf_def)
  have lf: "pte_at ?k (leaf_slot ?k ?pt va) = leaf ?k ?pt va" using tv by (simp add: leaf_def)
  note e = same_page_entry [of "PGROUNDDOWN va" va, simplified]
  have fin: "copyin_loop as pt a b 0 t = Some (Ok (True, t))" for as pt a b t by (subst copyin_loop.simps) simp
  have w: "walkaddr ?pt (PGROUNDDOWN va) ?k = Ok (PTE2PA (leaf ?k ?pt va))"
    using u lf tv leaf_slot_nonzero [OF assms(1) tv] va_below_MAXVA by (simp add: walkaddr_def walk_noalloc e)
  have "copyin (p_as (myproc s)) ?pt (klocal s) va 1 ?k =
      Ok (True, ?k\<lparr>phys := (phys ?k)(klocal s := phys ?k (user_byte s va))\<rparr>)"
    unfolding copyin_def run_loop_def using u
    by (subst copyin_loop.simps) (simp add: w Let_def one_byte fin memmove_one user_byte_def)
  then show ?thesis by (simp add: copyin_byte_def Let_def)
qed

lemma copyout_byte_mapped:
  assumes "pt_ok (km s) (pagetable (p_as (myproc s)))" "user_page s va"
    and l: "PGROUNDDOWN (klocal s) \<notin> tables (km s) (pagetable (p_as (myproc s)))"
  shows "copyout_byte va c s = Ok (True, s\<lparr>km := (km s)\<lparr>phys := (phys (km s))(klocal s := c, user_byte s va := c)\<rparr>\<rparr>)"
proof -
  let ?pt = "pagetable (p_as (myproc s))" and ?k = "(km s)\<lparr>phys := (phys (km s))(klocal s := c)\<rparr>"
  note fr = pt_frame [OF assms(1), of ?k]
  have lk: "leaf ?k ?pt = leaf (km s) ?pt" using l by (intro fr(3)) auto
  have u: "has (leaf ?k ?pt va) PTE_V" "has (leaf ?k ?pt va) PTE_U" "has (leaf ?k ?pt va) PTE_W"
    "\<not> has (leaf ?k ?pt va) PTE_COW" "PTE2PA (leaf ?k ?pt va) \<noteq> 0"
    using assms(2) unfolding lk by (simp_all add: user_page_def Let_def)
  have tv: "tvalid ?k ?pt va" using u(1) not_has_0 by (metis leaf_def)
  have pk: "pt_ok ?k ?pt"
  proof (rule pt_ok_frame [OF assms(1)])
    show "owned ?k a" if "a \<in> tables (km s) ?pt" for a
      using tables_owned [OF assms(1) that] by (simp add: owned_def free_set_def)
  qed (use l in auto)
  have lf: "pte_at ?k (leaf_slot ?k ?pt va) = leaf ?k ?pt va" using tv by (simp add: leaf_def)
  note e = same_page_entry [of "PGROUNDDOWN va" va, simplified]
  have fin: "copyout_loop as pt a b 0 t = Some (Ok (True, t))" for as pt a b t by (subst copyout_loop.simps) simp
  define k where "k = ?k"
  have "copyout (p_as (myproc s)) ?pt va (klocal s) 1 k =
      Ok (True, k\<lparr>phys := (phys k)(PTE2PA (leaf k ?pt va) + (va - PGROUNDDOWN va) := phys k (klocal s))\<rparr>)"
    unfolding copyout_def run_loop_def using u [folded k_def] tv [folded k_def] lf [folded k_def]
      leaf_slot_nonzero [OF pk tv, folded k_def] va_below_MAXVA
    by (subst copyout_loop.simps) (simp add: walk_noalloc e Let_def one_byte fin memmove_one)
  then show ?thesis
    unfolding k_def lk by (simp add: copyout_byte_def Let_def user_byte_def)
qed

text \<open>Process 2 of this machine has a writable page that starts with the bytes 7 and 8.\<close>

definition ex_flags :: uint32 where
  "ex_flags = PTE_R OR PTE_W OR PTE_U"

definition ex_user :: mach where
  "ex_user = \<lparr>km = (ex_map ex_flags)\<lparr>phys := (phys (ex_map ex_flags))(idx2pa 202 := 7, idx2pa 202 + 1 := 8)\<rparr>,
     pt = ready_table\<lparr>procs := (procs ready_table)(2 := (procs ready_table 2)\<lparr>p_as := ex_as\<rparr>)\<rparr>,
     cur = None, klocal = idx2pa 150\<rparr>"

text \<open>Machines with the same process and page table.\<close>

definition ex_like :: "mach \<Rightarrow> bool" where
  "ex_like s \<longleftrightarrow> cur s = Some 2 \<and> pagetable (p_as (procs (pt s) 2)) = idx2pa 200 \<and> klocal s = idx2pa 150 \<and>
     (\<exists>m. km s = (ex_map ex_flags)\<lparr>phys := m\<rparr> \<and>
        (\<forall>x. PGROUNDDOWN x \<in> {idx2pa 201, idx2pa 200} \<longrightarrow> m x = phys (ex_map ex_flags) x))"

lemma ex_tables: "tables (ex_map fl) (idx2pa 200) = {idx2pa 201, idx2pa 200}"
  using set_leaf(3) [OF ex_table_facts(2,3), of "PA2PTE (idx2pa 202) OR (fl OR PTE_V)", folded ex_map_def] ex_table_facts(5) by simp

lemma ex_flags_facts: "ex_flags AND NOT 0x3FF = 0"
  "has (PA2PTE (idx2pa 202) OR (ex_flags OR PTE_V)) PTE_V" "has (PA2PTE (idx2pa 202) OR (ex_flags OR PTE_V)) PTE_U"
  "has (PA2PTE (idx2pa 202) OR (ex_flags OR PTE_V)) PTE_W" "\<not> has (PA2PTE (idx2pa 202) OR (ex_flags OR PTE_V)) PTE_COW"
  by (simp_all add: has_def ex_flags_def PA2PTE_def idx2pa_def layout_defs pte_bit_defs)

lemma ex_like_mapped:
  assumes "ex_like s" "PGROUNDDOWN va = 0x1000"
  shows "pt_ok (km s) (pagetable (p_as (myproc s)))" "user_page s va" "user_byte s va = idx2pa 202 + (va - 0x1000)"
    "PGROUNDDOWN (klocal s) \<notin> tables (km s) (pagetable (p_as (myproc s)))"
proof -
  let ?pt = "idx2pa 200" and ?e = "ex_map ex_flags"
  note f = ex_map_facts [OF ex_flags_facts(1)]
  obtain m where m: "km s = ?e\<lparr>phys := m\<rparr>" "\<And>x. PGROUNDDOWN x \<in> tables ?e ?pt \<Longrightarrow> m x = phys ?e x"
    and pt: "pagetable (p_as (myproc s)) = ?pt" and kl: "klocal s = idx2pa 150"
    using assms(1) unfolding ex_like_def ex_tables by (auto simp: myproc_def me_def)
  have lf: "leaf (km s) ?pt = leaf ?e ?pt" "tables (km s) ?pt = tables ?e ?pt"
    using pt_frame(3,4) [OF f(2), of "km s"] m by auto
  have "owned (km s) a" if "a \<in> tables ?e ?pt" for a
    using tables_owned [OF f(2) that] by (simp add: m(1) owned_def free_set_def)
  then show "pt_ok (km s) (pagetable (p_as (myproc s)))"
    using pt_ok_frame [OF f(2), of "km s"] m pt by auto
  have l: "leaf (km s) ?pt va = PA2PTE (idx2pa 202) OR (ex_flags OR PTE_V)" "PTE2PA (leaf (km s) ?pt va) = idx2pa 202"
    using same_page_entry(3) [of va "0x1000" ?e ?pt] assms(2) f(3,4) by (simp_all add: lf PGROUNDDOWN_def PGSIZE_def)
  have nz: "idx2pa 202 \<noteq> 0" by (rule idx2pa_nonzero) (simp add: NPAGES_val)
  have "has (leaf (km s) ?pt va) PTE_V" "has (leaf (km s) ?pt va) PTE_U" "has (leaf (km s) ?pt va) PTE_W"
    "\<not> has (leaf (km s) ?pt va) PTE_COW" unfolding l(1) by (rule ex_flags_facts)+
  then show "user_page s va" unfolding user_page_def Let_def pt using l(2) nz by metis
  show "user_byte s va = idx2pa 202 + (va - 0x1000)" by (simp add: user_byte_def pt l(2) assms(2))
  have "idx2pa 150 \<noteq> idx2pa 200" "idx2pa 150 \<noteq> idx2pa 201" "PGROUNDDOWN (idx2pa 150) = idx2pa 150"
    by (simp_all add: idx2pa_def layout_defs PGROUNDDOWN_def)
  then show "PGROUNDDOWN (klocal s) \<notin> tables (km s) (pagetable (p_as (myproc s)))"
    unfolding kl pt lf(2) ex_tables by auto
qed

lemma ex_like_write:
  assumes "ex_like s" "PGROUNDDOWN a \<notin> {idx2pa 201, idx2pa 200}"
  shows "ex_like (s\<lparr>km := (km s)\<lparr>phys := (phys (km s))(a := c)\<rparr>\<rparr>)"
proof -
  obtain m where "km s = (ex_map ex_flags)\<lparr>phys := m\<rparr>"
    "\<forall>x. PGROUNDDOWN x \<in> {idx2pa 201, idx2pa 200} \<longrightarrow> m x = phys (ex_map ex_flags) x"
    using assms(1) by (auto simp: ex_like_def)
  then show ?thesis
    using assms unfolding ex_like_def by (intro conjI exI [of _ "m(a := c)"]) auto
qed

lemma ex_like_copies:
  assumes "ex_like s" "PGROUNDDOWN va = 0x1000"
  shows "copyin_byte va s = Ok (Some (phys (km s) (idx2pa 202 + (va - 0x1000))),
      s\<lparr>km := (km s)\<lparr>phys := (phys (km s))(idx2pa 150 := phys (km s) (idx2pa 202 + (va - 0x1000)))\<rparr>\<rparr>)"
    "copyout_byte va c s = Ok (True,
      s\<lparr>km := (km s)\<lparr>phys := (phys (km s))(idx2pa 150 := c, idx2pa 202 + (va - 0x1000) := c)\<rparr>\<rparr>)"
proof -
  note m = ex_like_mapped [OF assms]
  have kl: "klocal s = idx2pa 150" using assms(1) by (simp add: ex_like_def)
  show "copyin_byte va s = Ok (Some (phys (km s) (idx2pa 202 + (va - 0x1000))),
      s\<lparr>km := (km s)\<lparr>phys := (phys (km s))(idx2pa 150 := phys (km s) (idx2pa 202 + (va - 0x1000)))\<rparr>\<rparr>)"
    using copyin_byte_mapped [OF m(1,2)] by (simp add: m(3) kl)
  show "copyout_byte va c s = Ok (True,
      s\<lparr>km := (km s)\<lparr>phys := (phys (km s))(idx2pa 150 := c, idx2pa 202 + (va - 0x1000) := c)\<rparr>\<rparr>)"
    using copyout_byte_mapped [OF m(1,2,4), of c] by (simp add: m(3) kl)
qed

lemma ex_pages:
  "PGROUNDDOWN (idx2pa 150) \<notin> {idx2pa 201, idx2pa 200}" "PGROUNDDOWN (idx2pa 202) \<notin> {idx2pa 201, idx2pa 200}"
  "PGROUNDDOWN (idx2pa 202 + 1) \<notin> {idx2pa 201, idx2pa 200}" "PGROUNDDOWN 0x1000 = 0x1000" "PGROUNDDOWN 0x1001 = 0x1000"
  "idx2pa 202 \<noteq> idx2pa 150" "idx2pa 202 + 1 \<noteq> idx2pa 150"
  by (simp_all add: idx2pa_def layout_defs PGROUNDDOWN_def)

text \<open>The machine while process 2 runs, with the bytes \<open>a\<close> and \<open>b\<close> at the beginning of its page.\<close>

definition ex_run :: "uint8 \<Rightarrow> uint8 \<Rightarrow> uint8 \<Rightarrow> mach" where
  "ex_run l a b = ex_user\<lparr>cur := Some 2, pt := upd_proc 2 (\<lambda>p. p\<lparr>pstate := RUNNING\<rparr>) (pt ex_user),
     km := (km ex_user)\<lparr>phys := (phys (km ex_user))(idx2pa 202 := a, idx2pa 202 + 1 := b, idx2pa 150 := l)\<rparr>\<rparr>"

lemma ex_run_like: "ex_like (ex_run l a b)"
proof -
  let ?m = "(phys (ex_map ex_flags))(idx2pa 202 := a, idx2pa 202 + 1 := b, idx2pa 150 := l)"
  have "km (ex_run l a b) = (ex_map ex_flags)\<lparr>phys := ?m\<rparr>"
    by (simp add: ex_run_def ex_user_def fun_upd_twist)
  moreover have "\<forall>x. PGROUNDDOWN x \<in> {idx2pa 201, idx2pa 200} \<longrightarrow> ?m x = phys (ex_map ex_flags) x"
    using ex_pages(1-3) by auto
  ultimately show ?thesis
    unfolding ex_like_def by (intro conjI exI [of _ ?m]) (simp_all add: ex_run_def ex_user_def ex_as_def)
qed

lemma ex_run_copies:
  "copyin_byte 0x1000 (ex_run l a b) = Ok (Some a, ex_run a a b)" "copyin_byte 0x1001 (ex_run l a b) = Ok (Some b, ex_run b a b)"
  "copyout_byte 0x1000 c (ex_run l a b) = Ok (True, ex_run c c b)" "copyout_byte 0x1001 c (ex_run l a b) = Ok (True, ex_run c a c)"
  using ex_like_copies(1) [OF ex_run_like ex_pages(4), of l a b] ex_like_copies(1) [OF ex_run_like ex_pages(5), of l a b]
    ex_like_copies(2) [OF ex_run_like ex_pages(4), of c l a b] ex_like_copies(2) [OF ex_run_like ex_pages(5), of c l a b]
    ex_pages(6,7)
  by (auto simp: ex_run_def fun_eq_iff intro!: mach.equality kmem.equality)

lemma ex_run_sels [simp]: "cur (ex_run l a b) = Some 2" "me (ex_run l a b) = 2" "\<not> killed 2 (pt (ex_run l a b))"
  "phys (km (ex_run l a b)) (idx2pa 202) = a" "phys (km (ex_run l a b)) (idx2pa 202 + 1) = b"
  using ex_pages(6,7) by (simp_all add: ex_run_def ex_user_def me_def killed_def ready_table_def idle_proc_def)

text \<open>Nobody sleeps in it, so a wakeup changes nothing.\<close>

lemma ex_run_wakeup [simp]: "kwakeup ch (ex_run l a b) = ex_run l a b"
proof -
  have "wakeup cu ch (upd_proc 2 (\<lambda>p. p\<lparr>pstate := RUNNING\<rparr>) (pt ex_user)) = upd_proc 2 (\<lambda>p. p\<lparr>pstate := RUNNING\<rparr>) (pt ex_user)" for cu
    by (simp add: wakeup_def ex_user_def ready_table_def upd_proc_def fun_eq_iff)
  then show ?thesis by (simp add: kwakeup_def ex_run_def)
qed

section \<open>Properties\<close>

text \<open>
  C25. A pipe is a queue of at most \<^verbatim>\<open>PIPESIZE\<close> bytes, across the wrap-around of its
  counters. In every interleaving of the critical sections of \<^verbatim>\<open>pipewrite\<close>, \<^verbatim>\<open>piperead\<close> and
  \<^verbatim>\<open>pipeclose\<close> with interrupts, kills and other sleeps and wakeups, the bytes that the
  writers' buffers yielded are the bytes counted by the readers' return values followed
  by the bytes in the pipe. No wakeup is lost: a reader sleeps only while the pipe is
  empty and the write end open, a writer only while it is full and the read end open.
\<close>

theorem pipe_fifo:
  fixes s :: "'a mach_scheme"
  assumes "mon_reach (pipe_section pi) (pipe_chans pi) (pipe_init P0, [], []) ((P, sent, rcvd), s)"
  shows "sent = rcvd @ pipe_bytes P \<and> length (pipe_bytes P) \<le> PIPESIZE \<and>
     (\<forall>j. asleep_on (KPipeRead pi) (pt s) j \<longrightarrow> rcvd = sent \<and> writeopen P) \<and>
     (\<forall>j. asleep_on (KPipeWrite pi) (pt s) j \<longrightarrow> length (pipe_bytes P) = PIPESIZE \<and> readopen P)"
proof -
  have i: "pipe_hist_ok (pipe_init P0, [], [])" by (simp add: pipe_hist_ok_def pipe_ok_def)
  show ?thesis
    using readers.object_ok [OF assms i] readers.no_lost_wakeup [OF assms i] writers.no_lost_wakeup [OF assms i]
    by (auto simp: pipe_hist_ok_def pipe_ok_def read_blocked_def write_blocked_def)
qed

lemma ex_pipe_bytes:
  "pipe_ok (pipe_init P)" "pipe_bytes (pipe_put 7 (pipe_init P)) = [7]" "pipe_bytes (pipe_put 8 (pipe_put 7 (pipe_init P))) = [7, 8]"
  "pipe_ok (pipe_put 7 (pipe_init P))" "pipe_ok (pipe_put 8 (pipe_put 7 (pipe_init P)))"
  using pipe_queue.put_many [of "pipe_init P" "[7]"] pipe_queue.put_many [of "pipe_init P" "[7, 8]"]
  by (simp_all add: pipe_ok_def PIPESIZE_def)

lemma ex_pipe_open: "readopen (pipe_init P)" "writeopen (pipe_init P)"
  by (simp_all add: pipe_init_def)

lemma ex_pipewrite:
  "pipewrite_loop pi 0x1000 2 0 (pipe_init P) (ex_run 0 7 8) =
     Ok (Ret 2, 2, pipe_put 8 (pipe_put 7 (pipe_init P)), ex_run 8 7 8)"
proof -
  have nf: "\<not> pipe_full (pipe_init P)" "\<not> pipe_full (pipe_put 7 (pipe_init P))"
    by (simp_all add: pipe_full_iff ex_pipe_bytes(2) PIPESIZE_def)
  show ?thesis
    using nf ex_pipe_open by (simp add: pipewrite_loop.simps ex_run_copies)
qed

lemma ex_piperead:
  assumes "pipe_bytes P = [c, d]"
  shows "piperead pi 0x1001 1 P (ex_run l a b) = Ok (Ret 1, pipe_get P, ex_run c a c)"
proof -
  have ne: "nread P \<noteq> nwrite P" using assms by (simp add: pipe_empty_iff)
  have n: "pipe_next P = c" using pipe_bytes_get [OF ne] assms by simp
  show ?thesis using ne by (simp add: piperead_def piperead_loop.simps ex_run_copies n)
qed

text \<open>Process 2 writes the two bytes of its buffer and reads one of them back.\<close>

theorem pipe_fifo_witness:
  "\<exists>P s :: mach. mon_reach (pipe_section 0x80500000) (pipe_chans 0x80500000) (pipe_init ex_pipe, [], []) ((P, [7, 8], [7]), s) \<and>
     pipe_bytes P = [8]"
proof -
  let ?R = "mon_reach (pipe_section 0x80500000) (pipe_chans 0x80500000) (pipe_init ex_pipe, [], []) :: pipe_hist \<times> mach \<Rightarrow> bool"
  let ?P = "pipe_put 8 (pipe_put 7 (pipe_init ex_pipe))"
  have 0: "?R ((pipe_init ex_pipe, [], []), ex_user)"
    by (rule mon_reach.start) (simp_all add: asleep_on_def ex_user_def ready_table_def)
  have 1: "?R ((pipe_init ex_pipe, [], []), ex_user\<lparr>cur := Some 2, pt := upd_proc 2 (\<lambda>p. p\<lparr>pstate := RUNNING\<rparr>) (pt ex_user)\<rparr>)"
    by (rule mon_go(1) [OF 0]) (simp_all add: ex_user_def NPROC_def ready_table_def)
  have 2: "?R ((pipe_init ex_pipe, [], []), ex_run 0 7 8)"
    by (rule mon_reach.step [OF 1 mon_step.Other]) (simp_all add: ex_run_def)
  have f: "fetch 2 0x1000 (ex_run 0 7 8) = [7, 8]" by (simp add: numeral_2_eq_2 ex_run_copies)
  have "pipe_section 0x80500000 (PWrite 0x1000 2 0) ((pipe_init ex_pipe, [], []), ex_run 0 7 8) =
      Some ((?P, [7, 8], []), ex_run 8 7 8, False)"
    by (simp add: ex_pipewrite f)
  from mon_go(3) [OF 2 ex_run_sels(1) this] have 3: "?R ((?P, [7, 8], []), ex_run 8 7 8)" by simp
  have "pipe_section 0x80500000 (PRead 0x1001 1) ((?P, [7, 8], []), ex_run 8 7 8) =
      Some ((pipe_get ?P, [7, 8], [7]), ex_run 7 7 7, False)"
    using ex_piperead [OF ex_pipe_bytes(3)] by (simp add: ex_pipe_bytes(3))
  from mon_go(3) [OF 3 ex_run_sels(1) this] have 4: "?R ((pipe_get ?P, [7, 8], [7]), ex_run 7 7 7)" by simp
  then show ?thesis using pipe_fifo [OF 4] by auto
qed

text \<open>
  C26. A call of \<^verbatim>\<open>pipewrite\<close>, from where it holds the lock with \<open>i\<close> bytes already written
  until it sleeps or returns, appends to the pipe exactly the bytes \<open>bs\<close> that \<^verbatim>\<open>copyin\<close>
  yields from \<^verbatim>\<open>addr + i\<close> on, never more than fit and never more than \<open>n\<close> in all. It stops
  only for a reason: all \<open>n\<close> are written (the count is returned and the readers are
  woken); the read end is closed or the process killed (-1, with nothing written); the
  pipe is full (the readers are woken and the process sleeps); or \<^verbatim>\<open>copyin\<close> of the next
  byte fails (the count is returned and the readers are woken). It panics or diverges
  only if the \<^verbatim>\<open>copyin\<close> of the next byte does.
\<close>

theorem pipewrite_section:
  fixes s :: "'a mach_scheme"
  assumes "pipe_ok P"
  shows "\<exists>bs s1. fetched bs (addr + of_int i) s = Some s1 \<and>
    (case pipewrite_loop pi addr n i P s of
       Ok (r, i', P', s') \<Rightarrow>
         i' = i + int (length bs) \<and> P' = fold pipe_put bs P \<and> pipe_bytes P' = pipe_bytes P @ bs \<and> pipe_ok P' \<and>
         (bs \<noteq> [] \<longrightarrow> i' \<le> n) \<and>
         (if n \<le> i' then r = Ret i' \<and> s' = kwakeup (KPipeRead pi) s1
          else if \<not> readopen P \<or> killed (me s) (pt s) then r = Ret (- 1) \<and> bs = [] \<and> s' = s
          else if length (pipe_bytes P') = PIPESIZE
            then r = Sleep \<and> s' = ksleep (KPipeWrite pi) (kwakeup (KPipeRead pi) s1)
          else \<exists>s2. copyin_byte (addr + of_int i') s1 = Ok (None, s2) \<and> r = Ret i' \<and> s' = kwakeup (KPipeRead pi) s2)
     | Panic e \<Rightarrow> copyin_byte (addr + of_int (i + int (length bs))) s1 = Panic e
     | Loop \<Rightarrow> copyin_byte (addr + of_int (i + int (length bs))) s1 = Loop)"
proof -
  obtain bs s1 where f: "fetched bs (addr + of_int i) s = Some s1"
    and R: "case pipewrite_loop pi addr n i P s of
           Ok (r, i', P', s') \<Rightarrow> i' = i + int (length bs) \<and> P' = fold pipe_put bs P \<and> pipe_ok P' \<and>
             pipe_bytes P' = pipe_bytes P @ bs \<and> (bs \<noteq> [] \<longrightarrow> i' \<le> n \<and> readopen P \<and> \<not> killed (me s) (pt s)) \<and>
             write_stops pi addr n P' s1 i' r s'
         | Panic e \<Rightarrow> copyin_byte (addr + of_int (i + int (length bs))) s1 = Panic e
         | Loop \<Rightarrow> copyin_byte (addr + of_int (i + int (length bs))) s1 = Loop"
    using pipewrite_loop_spec [OF assms, of pi addr n i s] by (auto simp: write_spec_def)
  have "bs = [] \<Longrightarrow> s1 = s" using f by simp
  then show ?thesis
    using f R fetched_frame [OF f]
    by (intro exI [of _ bs] exI [of _ s1]) (auto simp: write_stops_def split: res.splits if_splits)
qed

text \<open>Both bytes of the buffer are written.\<close>

theorem pipewrite_section_witness:
  "\<exists>P'. pipewrite 0x80500000 0x1000 2 (pipe_init ex_pipe) (ex_run 0 7 8) = Ok (Ret 2, 2, P', ex_run 8 7 8) \<and> pipe_bytes P' = [7, 8]"
proof -
  obtain bs s1 where "fetched bs 0x1000 (ex_run 0 7 8) = Some s1" "length bs = 2"
    "pipe_bytes (pipe_put 8 (pipe_put 7 (pipe_init ex_pipe))) = bs"
    using pipewrite_section [OF ex_pipe_bytes(1) [of ex_pipe], of "0x1000" 0 "ex_run 0 7 8" 2 "0x80500000"]
    by (auto simp: ex_pipewrite)
  then show ?thesis by (simp add: pipewrite_def ex_pipewrite ex_pipe_bytes(3))
qed

text \<open>
  C27. A call of \<^verbatim>\<open>piperead\<close> on an empty pipe with an open write end returns -1 when the
  process is killed and otherwise sleeps on \<^verbatim>\<open>nread\<close>. In all other cases it removes the first
  \<open>k\<close> bytes of the pipe, after \<^verbatim>\<open>copyout\<close> has stored just these bytes, in order, from \<^verbatim>\<open>addr\<close> on;
  \<open>k\<close> is the smaller of \<open>n\<close> and the number of bytes there are, and the result, unless \<^verbatim>\<open>copyout\<close>
  of the next byte fails: then the result is the \<open>k\<close> bytes stored, or -1 if there is none,
  and the byte that could not be stored stays in the pipe. Either way the writers are
  woken. It panics or diverges only if a \<^verbatim>\<open>copyout\<close> does.
\<close>

theorem piperead_section:
  fixes s :: "'a mach_scheme"
  assumes "pipe_ok P"
  shows "if pipe_bytes P = [] \<and> writeopen P
    then piperead pi addr n P s =
      Ok (if killed (me s) (pt s) then (Ret (- 1), P, s) else (Sleep, P, ksleep (KPipeRead pi) s))
    else \<exists>k s1. k \<le> min (nat n) (length (pipe_bytes P)) \<and> stored (take k (pipe_bytes P)) addr s = Some s1 \<and>
      (case piperead pi addr n P s of
         Ok (r, P', s') \<Rightarrow> P' = (pipe_get ^^ k) P \<and> pipe_bytes P' = drop k (pipe_bytes P) \<and> pipe_ok P' \<and>
           (if k = min (nat n) (length (pipe_bytes P)) then r = Ret (int k) \<and> s' = kwakeup (KPipeWrite pi) s1
            else \<exists>s2. copyout_byte (addr + of_nat k) (pipe_bytes P ! k) s1 = Ok (False, s2) \<and>
                   r = Ret (if k = 0 then - 1 else int k) \<and> s' = kwakeup (KPipeWrite pi) s2)
       | Panic e \<Rightarrow> k < length (pipe_bytes P) \<and> copyout_byte (addr + of_nat k) (pipe_bytes P ! k) s1 = Panic e
       | Loop \<Rightarrow> k < length (pipe_bytes P) \<and> copyout_byte (addr + of_nat k) (pipe_bytes P ! k) s1 = Loop)"
proof (cases "pipe_bytes P = [] \<and> writeopen P")
  case True
  then show ?thesis by (simp add: piperead_def pipe_empty_iff)
next
  case False
  have pr: "piperead pi addr n P s = bind_res (piperead_loop addr n 0 P s) (\<lambda>(i, P1, s1).
      Ok (Ret i, P1, kwakeup (KPipeWrite pi) s1))"
    using False by (auto simp: piperead_def pipe_empty_iff)
  obtain k s1 where k: "k \<le> min (nat n) (length (pipe_bytes P))" "stored (take k (pipe_bytes P)) addr s = Some s1"
    and R: "case piperead_loop addr n 0 P s of
           Ok (r, P', s') \<Rightarrow> P' = (pipe_get ^^ k) P \<and> pipe_ok P' \<and> pipe_bytes P' = drop k (pipe_bytes P) \<and>
             (if k = min (nat n) (length (pipe_bytes P)) then r = int k \<and> s' = s1
              else copyout_byte (addr + of_nat k) (pipe_bytes P ! k) s1 = Ok (False, s') \<and>
                   r = (if int k = 0 then - 1 else int k))
         | Panic e \<Rightarrow> k < length (pipe_bytes P) \<and> copyout_byte (addr + of_nat k) (pipe_bytes P ! k) s1 = Panic e
         | Loop \<Rightarrow> k < length (pipe_bytes P) \<and> copyout_byte (addr + of_nat k) (pipe_bytes P ! k) s1 = Loop"
    using piperead_loop_spec [OF assms, of addr n 0 s]
    unfolding read_spec_def of_int_0 add_0_right add_0_left diff_zero by blast
  have "case piperead pi addr n P s of
         Ok (r, P', s') \<Rightarrow> P' = (pipe_get ^^ k) P \<and> pipe_bytes P' = drop k (pipe_bytes P) \<and> pipe_ok P' \<and>
           (if k = min (nat n) (length (pipe_bytes P)) then r = Ret (int k) \<and> s' = kwakeup (KPipeWrite pi) s1
            else \<exists>s2. copyout_byte (addr + of_nat k) (pipe_bytes P ! k) s1 = Ok (False, s2) \<and>
                   r = Ret (if k = 0 then - 1 else int k) \<and> s' = kwakeup (KPipeWrite pi) s2)
       | Panic e \<Rightarrow> k < length (pipe_bytes P) \<and> copyout_byte (addr + of_nat k) (pipe_bytes P ! k) s1 = Panic e
       | Loop \<Rightarrow> k < length (pipe_bytes P) \<and> copyout_byte (addr + of_nat k) (pipe_bytes P ! k) s1 = Loop"
    using R by (cases "piperead_loop addr n 0 P s") (auto simp: pr cong: if_cong)
  then show ?thesis unfolding if_not_P [OF False] using k by blast
qed

text \<open>One of two bytes is read, into the second byte of the buffer.\<close>

theorem piperead_section_witness:
  "\<exists>P' s' :: mach. piperead 0x80500000 0x1001 1 (pipe_put 8 (pipe_put 7 (pipe_init ex_pipe))) (ex_run 0 5 5) = Ok (Ret 1, P', s') \<and>
     pipe_bytes P' = [8] \<and> phys (km s') (idx2pa 202 + 1) = 7"
proof -
  let ?P = "pipe_put 8 (pipe_put 7 (pipe_init ex_pipe))"
  have r: "piperead 0x80500000 0x1001 1 ?P (ex_run 0 5 5) = Ok (Ret 1, pipe_get ?P, ex_run 7 5 7)"
    by (rule ex_piperead [OF ex_pipe_bytes(3)])
  have ne: "\<not> (pipe_bytes ?P = [] \<and> writeopen ?P)" by (simp add: ex_pipe_bytes(3))
  obtain k where k: "k \<le> min (nat 1) (length (pipe_bytes ?P))" "pipe_bytes (pipe_get ?P) = drop k (pipe_bytes ?P)"
    "pipe_get ?P = (pipe_get ^^ k) ?P"
    using piperead_section [OF ex_pipe_bytes(5) [of ex_pipe], of "0x80500000" "0x1001" 1 "ex_run 0 5 5",
      unfolded if_not_P [OF ne] r res.case prod.case] by blast
  have "k \<noteq> 0"
  proof
    assume "k = 0"
    then have "nread (pipe_get ?P) = nread ?P" using k(3) by simp
    then show False by (simp add: pipe_get_def)
  qed
  then have "k = 1" using k(1) by simp
  then have "pipe_bytes (pipe_get ?P) = [8]" using k(2) by (simp add: ex_pipe_bytes(3))
  then show ?thesis using r by simp
qed

end
