(* ===== verification/Sched.thy ===== *)
theory Sched
  imports Proc
begin

text \<open>
  The feedback-queue scheduler of \<^verbatim>\<open>taskmgr.c\<close>: the invariant of its fields, the
  process it chooses, and that it starves no process as long as the running ones
  are preempted by the clock.
\<close>

section \<open>The invariant of the scheduling fields\<close>

definition mlfq_ok :: "ptable \<Rightarrow> bool" where
  "mlfq_ok t \<longleftrightarrow> (\<forall>i < NPROC.
     let p = procs t i in 0 \<le> mlfq_level p \<and> mlfq_level p < MLFQ_LEVELS \<and>
       0 \<le> mlfq_ticks_used p \<and> mlfq_ticks_used p < mlfq_quantum (mlfq_level p) \<and>
       mlfq_stamp p \<le> mlfq_seq t)"

lemmas mlfq_consts = MLFQ_LEVELS_def MLFQ_Q0_SLICE_def MLFQ_Q1_SLICE_def MLFQ_Q2_SLICE_def

lemma mlfq_quantum_pos [simp]: "0 < mlfq_quantum l"
  by (simp add: mlfq_quantum_def mlfq_consts)

lemma mlfq_okD:
  assumes "mlfq_ok t" "i < NPROC"
  shows "0 \<le> mlfq_level (procs t i)" "mlfq_level (procs t i) < MLFQ_LEVELS"
    "0 \<le> mlfq_ticks_used (procs t i)" "mlfq_ticks_used (procs t i) < mlfq_quantum (mlfq_level (procs t i))"
    "mlfq_stamp (procs t i) \<le> mlfq_seq t"
  using assms by (auto simp: mlfq_ok_def Let_def)

lemma mlfq_ok_tick: "mlfq_ok t \<Longrightarrow> mlfq_ok (mlfq_tick cur t)"
  unfolding mlfq_ok_def mlfq_tick_def tick_proc_def Let_def
  by (auto split: option.splits)

lemma mlfq_ok_boost: "mlfq_ok t \<Longrightarrow> mlfq_ok (mlfq_boost_all t)"
  by (auto simp: mlfq_ok_def mlfq_boost_all_def Let_def mlfq_consts)

lemma mlfq_ok_yield: "mlfq_ok t \<Longrightarrow> mlfq_ok (yield ft cur t)"
  by (auto simp: mlfq_ok_def yield_def Let_def)

lemma mlfq_ok_sleep: "mlfq_ok t \<Longrightarrow> mlfq_ok (sleep_return i (sleep_enter ch cur t))" "mlfq_ok t \<Longrightarrow> mlfq_ok (sleep_enter ch cur t)"
  by (auto simp: mlfq_ok_def sleep_enter_def sleep_return_def Let_def)

lemma mlfq_ok_wakeup: "mlfq_ok t \<Longrightarrow> mlfq_ok (wakeup cur ch t)"
  by (auto simp: mlfq_ok_def wakeup_def Let_def)

section \<open>The choice\<close>

definition key :: "ptable \<Rightarrow> nat \<Rightarrow> int \<times> nat" where
  "key t i = (mlfq_level (procs t i), unat (mlfq_stamp (procs t i)))"

definition key_less :: "int \<times> nat \<Rightarrow> int \<times> nat \<Rightarrow> bool" where
  "key_less a b \<longleftrightarrow> fst a < fst b \<or> (fst a = fst b \<and> snd a < snd b)"

lemma key_less_trans: "key_less a b \<Longrightarrow> key_less b c \<Longrightarrow> key_less a c"
  by (auto simp: key_less_def)

lemma key_less_asym: "key_less a b \<Longrightarrow> \<not> key_less b a"
  by (auto simp: key_less_def)

lemma key_less_total: "\<not> key_less a b \<Longrightarrow> \<not> key_less b c \<Longrightarrow> \<not> key_less a c"
  by (auto simp: key_less_def)

definition runnable :: "ptable \<Rightarrow> nat \<Rightarrow> bool" where
  "runnable t i \<longleftrightarrow> pstate (procs t i) = RUNNABLE"

text \<open>After the scan of a prefix of the table: the first process of the least key.\<close>

lemma sched_scan_spec:
  assumes "\<And>i. i < n \<Longrightarrow> mlfq_level (procs t i) < MLFQ_LEVELS"
  shows "case sched_scan t [0..<n] of (b, l, st) \<Rightarrow>
     (case b of
        None \<Rightarrow> l = MLFQ_LEVELS \<and> (\<forall>i < n. \<not> runnable t i)
      | Some j \<Rightarrow> j < n \<and> runnable t j \<and> key t j = (l, unat st) \<and>
          (\<forall>i < n. runnable t i \<longrightarrow> \<not> key_less (key t i) (l, unat st)) \<and>
          (\<forall>i < j. runnable t i \<longrightarrow> key_less (l, unat st) (key t i)))"
  using assms
proof (induction n)
  case 0
  then show ?case by (simp add: sched_scan_def)
next
  case (Suc n)
  obtain b l st where r: "sched_scan t [0..<n] = (b, l, st)"
    by (metis prod_cases3)
  have scan: "sched_scan t [0..<Suc n] = sched_visit t n (b, l, st)"
    using r by (simp add: sched_scan_def)
  have IH: "case b of
        None \<Rightarrow> l = MLFQ_LEVELS \<and> (\<forall>i < n. \<not> runnable t i)
      | Some j \<Rightarrow> j < n \<and> runnable t j \<and> key t j = (l, unat st) \<and>
          (\<forall>i < n. runnable t i \<longrightarrow> \<not> key_less (key t i) (l, unat st)) \<and>
          (\<forall>i < j. runnable t i \<longrightarrow> key_less (l, unat st) (key t i))"
    using Suc r by (simp add: less_Suc_eq)
  show ?case
  proof (cases "runnable t n \<and> key_less (key t n) (l, unat st)")
    case True
    have v: "sched_visit t n (b, l, st) = (Some n, mlfq_level (procs t n), mlfq_stamp (procs t n))"
      using True by (auto simp: sched_visit_def runnable_def key_less_def key_def Let_def word_less_nat_alt)
    have less: "key_less (key t n) (key t i)" if "i < n" "runnable t i" for i
    proof (cases b)
      case None
      with IH that show ?thesis by simp
    next
      case (Some j)
      with IH that have "\<not> key_less (key t i) (l, unat st)" by simp
      with True show ?thesis
        by (auto simp: key_less_def)
    qed
    have k: "(mlfq_level (procs t n), unat (mlfq_stamp (procs t n))) = key t n"
      by (simp add: key_def)
    have irr: "\<not> key_less (key t n) (key t n)" by (simp add: key_less_def)
    show ?thesis
      using True less key_less_asym irr unfolding scan v prod.case option.case k by (auto simp: less_Suc_eq)
  next
    case False
    have v: "sched_visit t n (b, l, st) = (b, l, st)"
      using False by (auto simp: sched_visit_def runnable_def key_less_def key_def Let_def word_less_nat_alt)
    show ?thesis
    proof (cases b)
      case None
      with IH False Suc.prems [of n] show ?thesis
        unfolding scan v by (auto simp: less_Suc_eq key_less_def key_def)
    next
      case (Some j)
      with IH False show ?thesis
        unfolding scan v by (auto simp: less_Suc_eq)
    qed
  qed
qed

lemma sched_pick_None:
  assumes "mlfq_ok t"
  shows "sched_pick t = None \<longleftrightarrow> (\<forall>i < NPROC. \<not> runnable t i)"
  using sched_scan_spec [of NPROC t] mlfq_okD(2) [OF assms]
  by (auto simp: sched_pick_def split: prod.splits option.splits)

lemma sched_pick_Some:
  assumes "mlfq_ok t" "sched_pick t = Some j"
  shows "j < NPROC" "runnable t j" "\<forall>i < NPROC. runnable t i \<longrightarrow> \<not> key_less (key t i) (key t j)"
    "\<forall>i < j. runnable t i \<longrightarrow> key_less (key t j) (key t i)"
  using sched_scan_spec [of NPROC t] mlfq_okD(2) [OF assms(1)] assms(2)
  by (auto simp: sched_pick_def split: prod.splits option.splits)

section \<open>No starvation\<close>

text \<open>
  One time slice of a machine whose processes only compute: perhaps a boost is
  requested, the scheduler chooses, the chosen process runs until the clock
  interrupt, which charges it the tick and makes it yield.
\<close>

definition timer_slice :: "bool \<Rightarrow> ptable \<Rightarrow> nat option \<times> ptable" where
  "timer_slice boost t =
     (let (b, t1) = scheduler_round (if boost then mlfq_mark_boost t else t)
      in case b of None \<Rightarrow> (None, t1) | Some p \<Rightarrow> (Some p, yield True p (mlfq_tick (Some p) t1)))"

primrec timer_run :: "bool list \<Rightarrow> ptable \<Rightarrow> nat option list" where
  "timer_run [] t = []"
| "timer_run (b # bs) t = (let (p, t1) = timer_slice b t in p # timer_run bs t1)"

text \<open>The ticks that process \<open>j\<close> may still get before \<open>q\<close> must be preferred to it.\<close>

definition credit :: "ptable \<Rightarrow> nat \<Rightarrow> nat \<Rightarrow> nat" where
  "credit t q j =
     (if j = q \<or> mlfq_level (procs t q) < mlfq_level (procs t j) then 0
      else if mlfq_level (procs t j) = mlfq_level (procs t q)
           then (if mlfq_stamp (procs t j) \<le> mlfq_stamp (procs t q) then 1 else 0)
      else nat (sum mlfq_quantum {mlfq_level (procs t j) ..< mlfq_level (procs t q)} - mlfq_ticks_used (procs t j)))"

definition older :: "ptable \<Rightarrow> nat \<Rightarrow> nat set" where
  "older t q = {j. j < NPROC \<and> j \<noteq> q \<and> mlfq_stamp (procs t j) \<le> mlfq_stamp (procs t q)}"

definition wait_bound :: "ptable \<Rightarrow> nat \<Rightarrow> nat" where
  "wait_bound t q =
     (if mlfq_level (procs t q) = 0 then card (older t q)
      else NPROC + (\<Sum>j < NPROC. credit t q j))"

lemma quantum_sums:
  "0 \<le> a \<Longrightarrow> b < MLFQ_LEVELS \<Longrightarrow> a < b \<Longrightarrow>
     sum mlfq_quantum {a..<b} = (if a = 0 then (if b = 1 then 1 else 3) else 2)"
proof -
  assume h: "0 \<le> a" "b < MLFQ_LEVELS" "a < b"
  then have "(a = 0 \<and> b = 1) \<or> (a = 0 \<and> b = 2) \<or> (a = 1 \<and> b = 2)"
    by (auto simp: MLFQ_LEVELS_def)
  moreover have "{0..<1::int} = {0}" "{0..<2::int} = {0,1}" "{1..<2::int} = {1}" by auto
  ultimately show ?thesis
    by (auto simp: mlfq_quantum_def mlfq_consts)
qed

lemma credit_le:
  assumes "mlfq_ok t" "j < NPROC" "q < NPROC"
  shows "credit t q j \<le> 3"
  using mlfq_okD [OF assms(1,2)] mlfq_okD [OF assms(1,3)]
  by (auto simp: credit_def quantum_sums)

lemma wait_bound_le:
  assumes "mlfq_ok t" "q < NPROC"
  shows "wait_bound t q \<le> 4 * NPROC"
proof -
  have "older t q \<subseteq> {..<NPROC}" by (auto simp: older_def)
  then have "card (older t q) \<le> NPROC" by (metis card_lessThan card_mono finite_lessThan)
  moreover have "(\<Sum>j < NPROC. credit t q j) \<le> NPROC * 3"
    using sum_bounded_above [of "{..<NPROC}" "credit t q" 3] credit_le [OF assms(1) _ assms(2)] by simp
  ultimately show ?thesis by (simp add: wait_bound_def)
qed

text \<open>The table from which a slice chooses, and what it makes of the chosen process.\<close>

definition boosted :: "bool \<Rightarrow> ptable \<Rightarrow> ptable" where
  "boosted b t = (if b \<or> mlfq_need_boost t then mlfq_boost_all (t\<lparr>mlfq_need_boost := False\<rparr>) else t)"

definition after_slice :: "nat \<Rightarrow> ptable \<Rightarrow> ptable" where
  "after_slice p t =
     upd_proc p (\<lambda>x. (tick_proc (x\<lparr>pstate := RUNNING, mlfq_stamp := mlfq_seq t + 1\<rparr>))\<lparr>pstate := RUNNABLE\<rparr>)
       (t\<lparr>mlfq_seq := mlfq_seq t + 1\<rparr>)"

lemma timer_slice_eq:
  "timer_slice b t = (let t1 = boosted b t in
     case sched_pick t1 of None \<Rightarrow> (None, t1) | Some p \<Rightarrow> (Some p, after_slice p t1))"
proof -
  have 1: "(if mlfq_need_boost (if b then mlfq_mark_boost t else t)
         then mlfq_boost_all ((if b then mlfq_mark_boost t else t)\<lparr>mlfq_need_boost := False\<rparr>)
         else (if b then mlfq_mark_boost t else t)) = boosted b t"
    by (simp add: boosted_def mlfq_mark_boost_def)
  have 2: "yield True p (mlfq_tick (Some p)
      (upd_proc p (\<lambda>x. x\<lparr>pstate := RUNNING, mlfq_stamp := mlfq_seq u + 1\<rparr>) (u\<lparr>mlfq_seq := mlfq_seq u + 1\<rparr>)))
      = after_slice p u" for p u
    by (simp add: yield_def mlfq_tick_def after_slice_def upd_proc_def fun_upd_def fun_eq_iff)
  show ?thesis
    unfolding timer_slice_def scheduler_round_def 1 Let_def
    by (simp add: 2 split: option.splits)
qed

lemma mlfq_ok_boosted:
  assumes "mlfq_ok t"
  shows "mlfq_ok (boosted b t)"
proof -
  have "mlfq_ok (t\<lparr>mlfq_need_boost := False\<rparr>)" using assms by (simp add: mlfq_ok_def)
  then show ?thesis using assms by (simp add: boosted_def mlfq_ok_boost)
qed

lemma boosted_frame [simp]:
  "mlfq_seq (boosted b t) = mlfq_seq t" "runnable (boosted b t) q = runnable t q"
  "mlfq_stamp (procs (boosted b t) q) = mlfq_stamp (procs t q)"
  by (simp_all add: boosted_def mlfq_boost_all_def runnable_def)

lemma wait_bound_boosted:
  assumes "q < NPROC" "runnable t q"
  shows "wait_bound (boosted b t) q \<le> wait_bound t q"
proof (cases "b \<or> mlfq_need_boost t")
  case True
  have "mlfq_level (procs (boosted b t) q) = 0"
    using True assms by (simp add: boosted_def mlfq_boost_all_def runnable_def)
  moreover have "older (boosted b t) q = older t q"
    by (simp add: older_def)
  moreover have "older t q \<subseteq> {..<NPROC}" by (auto simp: older_def)
  then have "card (older t q) \<le> NPROC" by (metis card_lessThan card_mono finite_lessThan)
  ultimately show ?thesis by (simp add: wait_bound_def)
qed (simp add: boosted_def)

lemma after_slice_frame [simp]:
  "procs (after_slice p t) j =
     (if j = p then (tick_proc ((procs t p)\<lparr>pstate := RUNNING, mlfq_stamp := mlfq_seq t + 1\<rparr>))\<lparr>pstate := RUNNABLE\<rparr>
      else procs t j)"
  "mlfq_seq (after_slice p t) = mlfq_seq t + 1"
  by (simp_all add: after_slice_def)

lemma seq_step:
  assumes "unat s + 1 < 2 ^ 32" "x \<le> (s :: uint32)"
  shows "x < s + 1"
  using assms by (simp add: word_less_nat_alt word_le_nat_alt unat_word_ariths)

lemma tick_proc_sels [simp]:
  "mlfq_stamp (tick_proc p) = mlfq_stamp p"
  "mlfq_level (tick_proc p) =
     (if mlfq_ticks_used p + 1 \<ge> mlfq_quantum (mlfq_level p) \<and> mlfq_level p < MLFQ_LEVELS - 1
      then mlfq_level p + 1 else mlfq_level p)"
  "mlfq_ticks_used (tick_proc p) =
     (if mlfq_ticks_used p + 1 \<ge> mlfq_quantum (mlfq_level p) then 0 else mlfq_ticks_used p + 1)"
  by (auto simp: tick_proc_def Let_def)

lemma mlfq_ok_after_slice:
  assumes "mlfq_ok t" "unat (mlfq_seq t) + 1 < 2 ^ 32"
  shows "mlfq_ok (after_slice p t)"
proof -
  have "x \<le> mlfq_seq t + 1" if "x \<le> mlfq_seq t" for x
    using seq_step [OF assms(2) that] by simp
  with mlfq_okD [OF assms(1)] show ?thesis
    by (auto simp: mlfq_ok_def Let_def)
qed

lemma credit_after_slice:
  assumes ok: "mlfq_ok t" and q: "q < NPROC" and p: "p < NPROC" "p \<noteq> q"
    and le: "\<not> key_less (key t q) (key t p)" and seq: "unat (mlfq_seq t) + 1 < 2 ^ 32"
  shows "credit (after_slice p t) q p < credit t q p"
proof -
  note okp = mlfq_okD [OF ok p(1)] and okq = mlfq_okD [OF ok q]
  have st: "mlfq_stamp (procs t q) < mlfq_seq t + 1"
    using seq_step [OF seq okq(5)] .
  consider (eq) "mlfq_level (procs t p) = mlfq_level (procs t q)" "mlfq_stamp (procs t p) \<le> mlfq_stamp (procs t q)"
    | (lt) "mlfq_level (procs t p) < mlfq_level (procs t q)"
    using le by (force simp: key_less_def key_def word_le_nat_alt)
  then show ?thesis
  proof cases
    case eq
    then show ?thesis using p st by (auto simp: credit_def)
  next
    case lt
    let ?l = "mlfq_level (procs t p)" and ?k = "mlfq_level (procs t q)"
    have "(?l = 0 \<and> ?k = 1) \<or> (?l = 0 \<and> ?k = 2) \<or> (?l = 1 \<and> ?k = 2)"
      using lt okp okq by (auto simp: MLFQ_LEVELS_def)
    moreover have "{0..<1::int} = {0}" "{0..<2::int} = {0,1}" "{1..<2::int} = {1}" by auto
    ultimately show ?thesis
      using p st okp by (auto simp: credit_def mlfq_quantum_def mlfq_consts)
  qed
qed

lemma wait_bound_after_slice:
  assumes ok: "mlfq_ok t" and q: "q < NPROC" and p: "p < NPROC" "p \<noteq> q"
    and le: "\<not> key_less (key t q) (key t p)" and seq: "unat (mlfq_seq t) + 1 < 2 ^ 32"
  shows "wait_bound (after_slice p t) q < wait_bound t q"
proof (cases "mlfq_level (procs t q) = 0")
  case True
  have st: "mlfq_stamp (procs t q) < mlfq_seq t + 1"
    using seq_step [OF seq mlfq_okD(5) [OF ok q]] .
  have "p \<in> older t q"
    using True le p mlfq_okD(1) [OF ok p(1)] by (auto simp: older_def key_less_def key_def word_le_nat_alt)
  moreover have "older (after_slice p t) q = older t q - {p}"
    using st p by (auto simp: older_def)
  moreover have "finite (older t q)" by (simp add: older_def)
  ultimately have "card (older (after_slice p t) q) < card (older t q)"
    by (metis card_Diff1_less)
  then show ?thesis
    using True p by (simp add: wait_bound_def)
next
  case False
  have "(\<Sum>j < NPROC. credit (after_slice p t) q j) < (\<Sum>j < NPROC. credit t q j)"
  proof (rule sum_strict_mono_ex1)
    show "\<forall>j \<in> {..<NPROC}. credit (after_slice p t) q j \<le> credit t q j"
    proof
      fix j
      show "credit (after_slice p t) q j \<le> credit t q j"
        using credit_after_slice [OF assms] p by (cases "j = p") (auto simp: credit_def)
    qed
    show "\<exists>j \<in> {..<NPROC}. credit (after_slice p t) q j < credit t q j"
      using credit_after_slice [OF assms] p by blast
  qed simp
  then show ?thesis using False p by (simp add: wait_bound_def)
qed

lemma timer_slice_progress:
  assumes ok: "mlfq_ok t" and q: "q < NPROC" "runnable t q" and seq: "unat (mlfq_seq t) + 1 < 2 ^ 32"
    and r: "timer_slice b t = (c, t')"
  shows "mlfq_ok t'" "unat (mlfq_seq t') = unat (mlfq_seq t) + 1"
    "c = Some q \<or> (runnable t' q \<and> wait_bound t' q < wait_bound t q)"
proof -
  let ?u = "boosted b t"
  have oku: "mlfq_ok ?u" and su: "unat (mlfq_seq ?u) + 1 < 2 ^ 32" and qu: "runnable ?u q"
    using mlfq_ok_boosted [OF ok] seq q by simp_all
  have "sched_pick ?u \<noteq> None"
    using sched_pick_None [OF oku] q qu by blast
  then obtain p where p: "sched_pick ?u = Some p" by blast
  note pick = sched_pick_Some [OF oku p]
  have c: "c = Some p" "t' = after_slice p ?u"
    using r p by (simp_all add: timer_slice_eq)
  show "mlfq_ok t'" unfolding c by (rule mlfq_ok_after_slice [OF oku su])
  show "unat (mlfq_seq t') = unat (mlfq_seq t) + 1"
    using seq unfolding c by (simp add: unat_word_ariths)
  have "runnable t' q \<and> wait_bound t' q < wait_bound t q" if "p \<noteq> q"
    using wait_bound_after_slice [OF oku q(1) pick(1) that _ su] pick(3) q(1) qu that
      wait_bound_boosted [OF q, of b] unfolding c by (auto simp: runnable_def)
  then show "c = Some q \<or> (runnable t' q \<and> wait_bound t' q < wait_bound t q)"
    unfolding c by blast
qed

lemma timer_run_picks:
  assumes "mlfq_ok t" "q < NPROC" "runnable t q" "wait_bound t q < length bs"
    and "unat (mlfq_seq t) + length bs < 2 ^ 32"
  shows "Some q \<in> set (take (Suc (wait_bound t q)) (timer_run bs t))"
  using assms
proof (induction bs arbitrary: t)
  case (Cons b bs)
  obtain c t' where r: "timer_slice b t = (c, t')" by (metis surj_pair)
  have seq: "unat (mlfq_seq t) + 1 < 2 ^ 32" using Cons.prems by simp
  note pr = timer_slice_progress [OF Cons.prems(1-3) seq r]
  show ?case
  proof (cases "c = Some q")
    case False
    with pr have run: "runnable t' q" and w: "wait_bound t' q < wait_bound t q" by auto
    have "Some q \<in> set (take (Suc (wait_bound t' q)) (timer_run bs t'))"
      using Cons.IH [OF pr(1) Cons.prems(2) run] w Cons.prems(4,5) pr(2) by simp
    then have "Some q \<in> set (take (wait_bound t q) (timer_run bs t'))"
      using w by (meson Suc_leI set_take_subset_set_take subsetD)
    with r show ?thesis by simp
  qed (simp add: r)
qed simp

text \<open>
  C22. The scheduler runs a process if any is runnable, and the one it runs is
  the first in the table among those with the least level and, within the level,
  the least stamp. The other processes keep their scheduling state, apart from a
  pending boost, which is carried out exactly once before the choice; the chosen
  one gets a fresh stamp, and the invariant of levels, ticks and stamps is kept
  (as long as the sequence number \<^verbatim>\<open>mlfq_seq\<close> does not wrap around in the round).
\<close>

theorem scheduler_chooses_best:
  assumes "mlfq_ok t" and "unat (mlfq_seq t) + 1 < 2 ^ 32"
  shows "case scheduler_round t of
     (None, t') \<Rightarrow> (\<forall>i < NPROC. \<not> runnable t i) \<and> t' = boosted False t
   | (Some p, t') \<Rightarrow> p < NPROC \<and> runnable t p \<and>
       (\<forall>i < NPROC. runnable t i \<longrightarrow> \<not> key_less (key (boosted False t) i) (key (boosted False t) p)) \<and>
       (\<forall>i < p. runnable t i \<longrightarrow> key_less (key (boosted False t) p) (key (boosted False t) i)) \<and>
       pstate (procs t' p) = RUNNING \<and>
       (\<forall>i. i \<noteq> p \<longrightarrow> procs t' i = procs (boosted False t) i) \<and>
       (\<forall>i < NPROC. i \<noteq> p \<longrightarrow> mlfq_stamp (procs t' i) < mlfq_stamp (procs t' p)) \<and>
       \<not> mlfq_need_boost t' \<and> mlfq_ok t'"
proof -
  have oku: "mlfq_ok (boosted False t)" using mlfq_ok_boosted [OF assms(1)] .
  have nb: "\<not> mlfq_need_boost (boosted False t)" by (simp add: boosted_def mlfq_boost_all_def)
  have st: "x < mlfq_seq t + 1" "x \<le> mlfq_seq t + 1" if "x \<le> mlfq_seq t" for x
    using seq_step [OF assms(2) that] by simp_all
  have eq: "scheduler_round t = (case sched_pick (boosted False t) of None \<Rightarrow> (None, boosted False t)
     | Some b \<Rightarrow> (Some b, upd_proc b (\<lambda>p. p\<lparr>pstate := RUNNING, mlfq_stamp := mlfq_seq t + 1\<rparr>)
                    ((boosted False t)\<lparr>mlfq_seq := mlfq_seq t + 1\<rparr>)))"
    unfolding scheduler_round_def Let_def boosted_def simp_thms boosted_frame(1) [of False t, unfolded boosted_def simp_thms]
    by (rule TrueI)
  show ?thesis
  proof (cases "sched_pick (boosted False t)")
    case None
    then show ?thesis using sched_pick_None [OF oku] by (simp add: eq)
  next
    case (Some p)
    note pick = sched_pick_Some [OF oku Some]
    show ?thesis
      using pick mlfq_okD [OF oku] nb st unfolding eq Some by (auto simp: mlfq_ok_def Let_def)
  qed
qed

text \<open>
  C21. No process starves when the others only give up the CPU at clock
  interrupts: a runnable process is among the next \<open>4 * NPROC + 1\<close> choices, whatever
  the levels, ticks and stamps of the table and whenever boosts are requested
  (the sequence number \<^verbatim>\<open>mlfq_seq\<close> must not wrap around meanwhile).
\<close>

theorem scheduler_no_starvation:
  assumes "mlfq_ok t" "q < NPROC" "runnable t q"
    and "length bs = 4 * NPROC + 1" "unat (mlfq_seq t) + length bs < 2 ^ 32"
  shows "Some q \<in> set (timer_run bs t)"
proof -
  have "wait_bound t q < length bs"
    using wait_bound_le [OF assms(1,2)] assms(4) by simp
  then show ?thesis
    using timer_run_picks [OF assms(1-3) _ assms(5)] by (meson in_set_takeD)
qed

section \<open>A table with two processes\<close>

definition two_procs :: ptable where
  "two_procs = \<lparr>procs = (\<lambda>_. idle_proc)(0 := idle_proc\<lparr>pstate := RUNNABLE, pid := 1, mlfq_stamp := 5\<rparr>,
       1 := idle_proc\<lparr>pstate := RUNNABLE, pid := 2, mlfq_level := 2\<rparr>),
     initproc = Some 0, nextpid = 3, mlfq_seq = 5, mlfq_need_boost = False\<rparr>"

lemma two_procs_ok: "mlfq_ok two_procs"
  by (auto simp: mlfq_ok_def two_procs_def idle_proc_def mlfq_quantum_def mlfq_consts Let_def)

theorem scheduler_chooses_best_witness:
  "\<exists>t'. scheduler_round two_procs = (Some 0, t') \<and> pstate (procs t' 0) = RUNNING \<and> mlfq_ok t'"
proof -
  obtain c t' where r: "scheduler_round two_procs = (c, t')" by (metis surj_pair)
  have seq: "unat (mlfq_seq two_procs) + 1 < 2 ^ 32" by (simp add: two_procs_def)
  have run0: "runnable two_procs 0" and lt0: "0 < NPROC"
    by (simp_all add: two_procs_def idle_proc_def runnable_def NPROC_def)
  have only: "runnable two_procs p \<Longrightarrow> p = 0 \<or> p = 1" for p
    by (auto simp: two_procs_def idle_proc_def runnable_def split: if_splits)
  have less: "key_less (key (boosted False two_procs) 0) (key (boosted False two_procs) 1)"
    by (simp add: boosted_def two_procs_def idle_proc_def key_def key_less_def)
  note best = scheduler_chooses_best [OF two_procs_ok seq, unfolded r]
  obtain p where c: "c = Some p"
    using best run0 lt0 by (cases c) auto
  have p: "p = 0 \<or> p = 1" "p \<noteq> 1" "pstate (procs t' p) = RUNNING" "mlfq_ok t'"
    using best only [of p] less run0 lt0 unfolding c by auto
  then show ?thesis using r unfolding c by auto
qed

theorem scheduler_no_starvation_witness:
  "Some 1 \<in> set (timer_run (replicate (4 * NPROC + 1) False) two_procs)"
  by (rule scheduler_no_starvation [OF two_procs_ok])
    (simp_all add: two_procs_def idle_proc_def runnable_def NPROC_def)

end
