(* ===== verification/Sh.thy ===== *)
theory Sh
  imports YH_Prelude
begin

text \<open>
  \<^verbatim>\<open>user/sh.c\<close>: the shell's parser, and what a parsed command does. The line is the list of its
  characters, without the final NUL, and a \<^verbatim>\<open>char *\<close> into it is an index; \<^verbatim>\<open>es\<close> is its length. The
  allocation of a node succeeds. A call of \<^verbatim>\<open>panic\<close> is the outcome \<open>Panic\<close> with the text that goes to
  descriptor 2 before its newline. The four functions that call each other have a fuel argument, and the
  outcome without fuel is \<open>Loop\<close>.
\<close>

section \<open>Tokens\<close>

definition nul :: char where "nul = CHR 0x00"

definition whitespace :: string where "whitespace = [CHR '' '', CHR 0x09, CHR 0x0D, CHR 0x0A, CHR 0x0B]"

definition symbols :: string where "symbols = ''<|>&;()''"

definition char_at :: "string \<Rightarrow> nat \<Rightarrow> char" where
  "char_at s i = (if i < length s then s ! i else nul)"

function skipws :: "string \<Rightarrow> nat \<Rightarrow> nat" where
  "skipws s i = (if i < length s \<and> s ! i \<in> set whitespace then skipws s (Suc i) else i)"
  by pat_completeness auto
termination
  by (relation "measure (\<lambda>(s, i). length s - i)") auto

function skipword :: "string \<Rightarrow> nat \<Rightarrow> nat" where
  "skipword s i =
     (if i < length s \<and> s ! i \<notin> set whitespace \<and> s ! i \<notin> set symbols then skipword s (Suc i) else i)"
  by pat_completeness auto
termination
  by (relation "measure (\<lambda>(s, i). length s - i)") auto

declare skipws.simps [simp del] skipword.simps [simp del]

text \<open>The kind of the token, its first and its end position, and the new \<^verbatim>\<open>*ps\<close>.\<close>

definition gettoken :: "string \<Rightarrow> nat \<Rightarrow> char \<times> nat \<times> nat \<times> nat" where
  "gettoken s i =
     (let q = skipws s i;
          c = char_at s q;
          (ret, e) =
            (if c = nul then (nul, q)
             else if c \<in> set ''|();&<'' then (c, q + 1)
             else if c = CHR ''>'' then (if char_at s (q + 1) = CHR ''>'' then (CHR ''+'', q + 2) else (c, q + 1))
             else (CHR ''a'', skipword s q))
      in (ret, q, e, skipws s e))"

definition peek :: "string \<Rightarrow> nat \<Rightarrow> string \<Rightarrow> bool \<times> nat" where
  "peek s i toks = (let j = skipws s i in (char_at s j \<noteq> nul \<and> char_at s j \<in> set toks, j))"

section \<open>Commands\<close>

text \<open>A counted string is a pair of positions.\<close>

datatype cmd =
    EXEC "(nat \<times> nat) list"
  | REDIR cmd "nat \<times> nat" int int
  | PIPE cmd cmd
  | LIST cmd cmd
  | BACK cmd

definition MAXARGS :: nat where "MAXARGS = 10"

abbreviation (input) O_RDONLY :: int where "O_RDONLY \<equiv> 0"
abbreviation (input) O_WRONLY :: int where "O_WRONLY \<equiv> 1"
abbreviation (input) O_CREATE :: int where "O_CREATE \<equiv> 0x200"
abbreviation (input) O_TRUNC :: int where "O_TRUNC \<equiv> 0x400"

text \<open>The assignment to \<^verbatim>\<open>cmd->argv[argc]\<close>, where \<^verbatim>\<open>cmd\<close> is the node below the redirections of \<^verbatim>\<open>ret\<close>.\<close>

fun add_arg :: "nat \<times> nat \<Rightarrow> cmd \<Rightarrow> cmd" where
  "add_arg w (EXEC ws) = EXEC (ws @ [w])"
| "add_arg w (REDIR c f m fd) = REDIR (add_arg w c) f m fd"
| "add_arg w c = c"

definition redir_of :: "char \<Rightarrow> nat \<times> nat \<Rightarrow> cmd \<Rightarrow> cmd" where
  "redir_of tok f c =
     (if tok = CHR ''<'' then REDIR c f O_RDONLY 0
      else if tok = CHR ''>'' then REDIR c f (O_WRONLY + O_CREATE + O_TRUNC) 1
      else if tok = CHR ''+'' then REDIR c f (O_WRONLY + O_CREATE) 1
      else c)"

section \<open>Progress\<close>

lemma skipws_eq: "skipws s i = i + length (takeWhile (\<lambda>c. c \<in> set whitespace) (drop i s))"
proof (induction s i rule: skipws.induct)
  case (1 s i)
  show ?case
  proof (cases "i < length s")
    case True
    then show ?thesis using 1 skipws.simps [of s i] by (simp add: Cons_nth_drop_Suc [symmetric])
  next
    case False
    then show ?thesis using skipws.simps [of s i] by simp
  qed
qed

definition wordc :: "char \<Rightarrow> bool" where
  "wordc c \<longleftrightarrow> c \<notin> set whitespace \<and> c \<notin> set symbols"

lemma skipword_eq: "skipword s i = i + length (takeWhile wordc (drop i s))"
proof (induction s i rule: skipword.induct)
  case (1 s i)
  show ?case
  proof (cases "i < length s")
    case True
    then show ?thesis using 1 skipword.simps [of s i] by (simp add: Cons_nth_drop_Suc [symmetric] wordc_def)
  next
    case False
    then show ?thesis using skipword.simps [of s i] by simp
  qed
qed

lemma skipws_bounds: "i \<le> skipws s i" "i \<le> length s \<Longrightarrow> skipws s i \<le> length s"
  using length_takeWhile_le [of "\<lambda>c. c \<in> set whitespace" "drop i s"] by (simp_all add: skipws_eq)

lemma skipword_bounds: "i \<le> skipword s i" "i \<le> length s \<Longrightarrow> skipword s i \<le> length s"
  using length_takeWhile_le [of wordc "drop i s"] by (simp_all add: skipword_eq)

lemma skipws_stop: "skipws s i < length s \<Longrightarrow> s ! skipws s i \<notin> set whitespace"
proof -
  let ?P = "\<lambda>c. c \<in> set whitespace"
  assume a: "skipws s i < length s"
  then have "length (takeWhile ?P (drop i s)) < length (drop i s)" by (simp add: skipws_eq)
  from nth_length_takeWhile [OF this] show ?thesis using a by (simp add: skipws_eq)
qed

lemma skipword_stop: "skipword s i < length s \<Longrightarrow> \<not> wordc (s ! skipword s i)"
proof -
  assume a: "skipword s i < length s"
  then have "length (takeWhile wordc (drop i s)) < length (drop i s)" by (simp add: skipword_eq)
  from nth_length_takeWhile [OF this] show ?thesis using a by (simp add: skipword_eq)
qed

lemma skipword_chars: "i \<le> k \<Longrightarrow> k < skipword s i \<Longrightarrow> k < length s \<and> wordc (s ! k)"
proof -
  assume a: "i \<le> k" "k < skipword s i"
  then have k: "k - i < length (takeWhile wordc (drop i s))" by (simp add: skipword_eq)
  then have "wordc (takeWhile wordc (drop i s) ! (k - i))" using nth_mem set_takeWhileD by metis
  moreover have "k < length s" using k length_takeWhile_le [of wordc "drop i s"] a(1) by simp
  ultimately show ?thesis using k a(1) by (simp add: takeWhile_nth)
qed

lemma gettoken_mono: "gettoken s i = (t, q, e, k) \<Longrightarrow> i \<le> k"
  using skipws_bounds(1) [of i s] skipws_bounds(1) [of e s] skipword_bounds(1) [of "skipws s i" s]
  by (auto simp: gettoken_def Let_def split: if_splits)

lemma peek_token:
  assumes "peek s i toks = (True, j)" "set toks \<subseteq> set symbols" "gettoken s j = (t, q, e, k)"
  shows "i \<le> j" "j < k" "j < length s"
proof -
  have j: "j = skipws s i" "char_at s j \<noteq> nul" "char_at s j \<in> set symbols" using assms(1,2) by (auto simp: peek_def Let_def)
  then show "i \<le> j" "j < length s" using skipws_bounds(1) [of i s] by (auto simp: char_at_def split: if_splits)
  have "skipws s j = j" using j(3) skipws.simps [of s j] by (auto simp: char_at_def symbols_def whitespace_def split: if_splits)
  then have "j < e" using assms(3) j(2,3) by (auto simp: gettoken_def Let_def symbols_def split: if_splits)
  then show "j < k" using assms(3) skipws_bounds(1) [of e s] by (auto simp: gettoken_def Let_def split: prod.splits)
qed

lemma redir_progress:
  "peek s i ''<>'' = (True, j) \<Longrightarrow> gettoken s j = (tok, a, b, k) \<Longrightarrow> gettoken s k = (t, q, e, l) \<Longrightarrow>
     length s - l < length s - i"
  using peek_token [of s i "''<>''" j tok a b k] gettoken_mono [of s k t q e l] by (simp add: symbols_def)

lemma back_progress: "peek s i ''&'' = (True, j) \<Longrightarrow> gettoken s j = (t, q, e, k) \<Longrightarrow> length s - k < length s - i"
  using peek_token [of s i "''&''" j t q e k] by (simp add: symbols_def)

section \<open>The parser\<close>

function parseredirs :: "string \<Rightarrow> cmd \<Rightarrow> nat \<Rightarrow> (cmd \<times> nat) res" where
  "parseredirs s c i =
     (case peek s i ''<>'' of
        (False, j) \<Rightarrow> Ok (c, j)
      | (True, j) \<Rightarrow>
          (case gettoken s j of (tok, _, _, k) \<Rightarrow>
             case gettoken s k of (t, q, e, l) \<Rightarrow>
               if t \<noteq> CHR ''a'' then Panic ''missing file for redirection''
               else parseredirs s (redir_of tok (q, e) c) l))"
  by pat_completeness auto
termination
  by (relation "measure (\<lambda>(s, c, i). length s - i)") (auto intro!: redir_progress dest: sym)

declare parseredirs.simps [simp del]

text \<open>The loop of \<^verbatim>\<open>parseline\<close> over \<^verbatim>\<open>&\<close>.\<close>

function parse_backs :: "string \<Rightarrow> cmd \<Rightarrow> nat \<Rightarrow> cmd \<times> nat" where
  "parse_backs s c i =
     (case peek s i ''&'' of
        (False, j) \<Rightarrow> (c, j)
      | (True, j) \<Rightarrow> (case gettoken s j of (_, _, _, k) \<Rightarrow> parse_backs s (BACK c) k))"
  by pat_completeness auto
termination
  by (relation "measure (\<lambda>(s, c, i). length s - i)") (auto intro!: back_progress dest: sym)

declare parse_backs.simps [simp del]

text \<open>The loop of \<^verbatim>\<open>parseexec\<close>.\<close>

function parse_args :: "string \<Rightarrow> nat \<Rightarrow> cmd \<Rightarrow> nat \<Rightarrow> (cmd \<times> nat) res" where
  "parse_args s argc ret i =
     (case peek s i ''|)&;'' of
        (True, j) \<Rightarrow> Ok (ret, j)
      | (False, j) \<Rightarrow>
          (case gettoken s j of (tok, q, e, k) \<Rightarrow>
             if tok = nul then Ok (ret, k)
             else if tok \<noteq> CHR ''a'' then Panic ''syntax''
             else if argc + 1 \<ge> MAXARGS then Panic ''too many args''
             else bind_res (parseredirs s (add_arg (q, e) ret) k) (\<lambda>(ret', l). parse_args s (argc + 1) ret' l)))"
  by pat_completeness auto
termination
  by (relation "measure (\<lambda>(s, argc, ret, i). MAXARGS - argc)") auto

declare parse_args.simps [simp del]

fun parseline :: "nat \<Rightarrow> string \<Rightarrow> nat \<Rightarrow> (cmd \<times> nat) res"
  and parsepipe :: "nat \<Rightarrow> string \<Rightarrow> nat \<Rightarrow> (cmd \<times> nat) res"
  and parseexec :: "nat \<Rightarrow> string \<Rightarrow> nat \<Rightarrow> (cmd \<times> nat) res"
  and parseblock :: "nat \<Rightarrow> string \<Rightarrow> nat \<Rightarrow> (cmd \<times> nat) res" where
  "parseline 0 s i = Loop"
| "parseline (Suc n) s i =
     bind_res (parsepipe n s i) (\<lambda>(c, j).
       case parse_backs s c j of (c1, k) \<Rightarrow>
         (case peek s k '';'' of
            (False, l) \<Rightarrow> Ok (c1, l)
          | (True, l) \<Rightarrow>
              (case gettoken s l of (_, _, _, l1) \<Rightarrow>
                 bind_res (parseline n s l1) (\<lambda>(c2, l2). Ok (LIST c1 c2, l2)))))"
| "parsepipe 0 s i = Loop"
| "parsepipe (Suc n) s i =
     bind_res (parseexec n s i) (\<lambda>(c, j).
       case peek s j ''|'' of
         (False, k) \<Rightarrow> Ok (c, k)
       | (True, k) \<Rightarrow>
           (case gettoken s k of (_, _, _, k1) \<Rightarrow>
              bind_res (parsepipe n s k1) (\<lambda>(c2, k2). Ok (PIPE c c2, k2))))"
| "parseexec 0 s i = Loop"
| "parseexec (Suc n) s i =
     (case peek s i ''('' of
        (True, j) \<Rightarrow> parseblock n s j
      | (False, j) \<Rightarrow> bind_res (parseredirs s (EXEC []) j) (\<lambda>(ret, k). parse_args s 0 ret k))"
| "parseblock 0 s i = Loop"
| "parseblock (Suc n) s i =
     (case peek s i ''('' of
        (False, j) \<Rightarrow> Panic ''parseblock''
      | (True, j) \<Rightarrow>
          (case gettoken s j of (_, _, _, k) \<Rightarrow>
             bind_res (parseline n s k) (\<lambda>(c, l).
               case peek s l '')'' of
                 (False, l1) \<Rightarrow> Panic ''syntax - missing )''
               | (True, l1) \<Rightarrow> (case gettoken s l1 of (_, _, _, l2) \<Rightarrow> parseredirs s c l2))))"

text \<open>The buffer is a function from positions to characters.\<close>

fun nulterminate :: "cmd \<Rightarrow> (nat \<Rightarrow> char) \<Rightarrow> nat \<Rightarrow> char" where
  "nulterminate (EXEC ws) b = fold (\<lambda>w b. b(snd w := nul)) ws b"
| "nulterminate (REDIR c f m fd) b = (nulterminate c b)(snd f := nul)"
| "nulterminate (PIPE l r) b = nulterminate r (nulterminate l b)"
| "nulterminate (LIST l r) b = nulterminate r (nulterminate l b)"
| "nulterminate (BACK c) b = nulterminate c b"

text \<open>The fuel is more than every line needs.\<close>

definition parsecmd :: "string \<Rightarrow> (cmd \<times> (nat \<Rightarrow> char)) res" where
  "parsecmd s =
     bind_res (parseline (4 * length s + 4) s 0) (\<lambda>(c, i).
       case peek s i [] of (_, j) \<Rightarrow>
         if j \<noteq> length s then Panic (''leftovers: '' @ drop j s @ [CHR 0x0A] @ ''syntax'') else Ok (c, nulterminate c (char_at s)))"

section \<open>Running a command\<close>

text \<open>
  What a process does, as a tree: it exits, or it makes a system call and goes on with the result.
  \<^verbatim>\<open>fork\<close> goes on twice, with 0 in the child.
\<close>

datatype sysreq =
    SFork | SWait | SExec string "string list" | SOpen string int | SClose int | SDup int | SWrite int string

datatype beh =
    Exit int
  | Call sysreq "int \<Rightarrow> beh"
  | PipeCall "(int \<times> int) option \<Rightarrow> beh"

definition sh_panic :: "string \<Rightarrow> beh" where
  "sh_panic msg = Call (SWrite 2 (msg @ [CHR 0x0A])) (\<lambda>_. Exit 1)"

definition fork1 :: "beh \<Rightarrow> beh \<Rightarrow> beh" where
  "fork1 child parent = Call SFork (\<lambda>p. if p = - 1 then sh_panic ''fork'' else if p = 0 then child else parent)"

definition close_then :: "int \<Rightarrow> beh \<Rightarrow> beh" where
  "close_then fd k = Call (SClose fd) (\<lambda>_. k)"

definition str_at :: "(nat \<Rightarrow> char) \<Rightarrow> nat \<Rightarrow> nat \<Rightarrow> string" where
  "str_at b n q = takeWhile (\<lambda>c. c \<noteq> nul) (map b [q..<n])"

primrec runcmd :: "(nat \<Rightarrow> char) \<Rightarrow> nat \<Rightarrow> cmd \<Rightarrow> beh" where
  "runcmd b n (EXEC ws) =
     (if ws = [] then Exit 1
      else Call (SExec (str_at b n (fst (hd ws))) (map (\<lambda>w. str_at b n (fst w)) ws)) (\<lambda>_.
           Call (SWrite 2 (''exec '' @ str_at b n (fst (hd ws)) @ '' failed'' @ [CHR 0x0A])) (\<lambda>_. Exit 0)))"
| "runcmd b n (REDIR c f m fd) =
     close_then fd (Call (SOpen (str_at b n (fst f)) m) (\<lambda>r.
       if r < 0 then Call (SWrite 2 (''open '' @ str_at b n (fst f) @ '' failed'' @ [CHR 0x0A])) (\<lambda>_. Exit 1)
       else runcmd b n c))"
| "runcmd b n (LIST l r) = fork1 (runcmd b n l) (Call SWait (\<lambda>_. runcmd b n r))"
| "runcmd b n (PIPE l r) =
     PipeCall (\<lambda>p. case p of
        None \<Rightarrow> sh_panic ''pipe''
      | Some (p0, p1) \<Rightarrow>
          fork1 (close_then 1 (Call (SDup p1) (\<lambda>_. close_then p0 (close_then p1 (runcmd b n l)))))
            (fork1 (close_then 0 (Call (SDup p0) (\<lambda>_. close_then p0 (close_then p1 (runcmd b n r)))))
               (close_then p0 (close_then p1 (Call SWait (\<lambda>_. Call SWait (\<lambda>_. Exit 0)))))))"
| "runcmd b n (BACK c) = fork1 (runcmd b n c) (Exit 0)"

end
