(* ===== verification/Sh_Spec.thy ===== *)
theory Sh_Spec
  imports Sh
begin

text \<open>
  The shell: its parser ends on every line and its strings are the words of the line; a printer of
  commands; and the programs that \<^verbatim>\<open>runcmd\<close> starts, with their file descriptors.
\<close>

section \<open>The parser ends\<close>

lemma not_symbol: "c \<notin> set ''|();&<'' \<Longrightarrow> c \<noteq> CHR ''>'' \<Longrightarrow> c \<notin> set symbols"
  by (simp add: symbols_def)

text \<open>A line without NUL. What \<open>gettoken\<close> returns on it.\<close>

definition line_ok :: "string \<Rightarrow> bool" where
  "line_ok s \<longleftrightarrow> nul \<notin> set s"

lemma char_at_nul: "line_ok s \<Longrightarrow> char_at s i = nul \<longleftrightarrow> length s \<le> i"
  unfolding line_ok_def char_at_def using nth_mem [of i s] by (metis linorder_not_le)

definition is_word :: "string \<Rightarrow> nat \<times> nat \<Rightarrow> bool" where
  "is_word s w \<longleftrightarrow> fst w < snd w \<and> snd w \<le> length s \<and> (\<forall>k. fst w \<le> k \<and> k < snd w \<longrightarrow> wordc (s ! k)) \<and>
     (snd w < length s \<longrightarrow> \<not> wordc (s ! snd w))"

lemma gettoken_spec:
  assumes l: "line_ok s" and i: "i \<le> length s" and g: "gettoken s i = (t, q, e, k)"
  shows "i \<le> k" "k \<le> length s" "t \<noteq> nul \<Longrightarrow> i < k" "t = CHR ''a'' \<Longrightarrow> is_word s (q, e)"
proof -
  have q: "q = skipws s i" "k = skipws s e" using g by (auto simp: gettoken_def Let_def split: prod.splits)
  have b: "i \<le> q" "q \<le> length s" using skipws_bounds i q by auto
  define c where "c = char_at s q"
  consider "c = nul" "t = nul" "e = q"
    | "c \<noteq> nul" "t = c" "e = q + 1" "c \<noteq> CHR ''a''" | "c = CHR ''>''" "t = CHR ''+''" "e = q + 2" "char_at s (q + 1) = CHR ''>''"
    | "c \<noteq> nul" "c \<notin> set symbols" "t = CHR ''a''" "e = skipword s q"
    using g not_symbol [of c] by (auto simp: gettoken_def Let_def q(1) [symmetric] c_def [symmetric] split: if_splits)
  then have "q \<le> e \<and> e \<le> length s \<and> (t \<noteq> nul \<longrightarrow> q < e) \<and> (t = CHR ''a'' \<longrightarrow> is_word s (q, e))"
  proof cases
    case 1
    then show ?thesis using b by (simp add: nul_def)
  next
    case 2
    then show ?thesis using b char_at_nul [OF l, of q] by (simp add: c_def)
  next
    case 3
    then have "q + 1 < length s" using char_at_nul [OF l, of "q + 1"] by (auto simp: nul_def not_le [symmetric])
    then show ?thesis using 3 by simp
  next
    case 4
    then have lt: "q < length s" using char_at_nul [OF l, of q] by (simp add: c_def)
    then have w: "wordc (s ! q)" using 4(2) skipws_stop [of s i] q by (simp add: c_def char_at_def wordc_def)
    then have "takeWhile wordc (drop q s) \<noteq> []" using lt by (simp add: Cons_nth_drop_Suc [symmetric])
    then have "q < e" by (simp add: 4(4) skipword_eq)
    then show ?thesis
      using 4 b skipword_bounds skipword_chars skipword_stop by (auto simp: is_word_def)
  qed
  then show "i \<le> k" "k \<le> length s" "t \<noteq> nul \<Longrightarrow> i < k" "t = CHR ''a'' \<Longrightarrow> is_word s (q, e)"
    using b skipws_bounds [of e s] q(2) by auto
qed

text \<open>The strings of a command.\<close>

fun cmd_words :: "cmd \<Rightarrow> (nat \<times> nat) list" where
  "cmd_words (EXEC ws) = ws"
| "cmd_words (REDIR c f m fd) = cmd_words c @ [f]"
| "cmd_words (PIPE l r) = cmd_words l @ cmd_words r"
| "cmd_words (LIST l r) = cmd_words l @ cmd_words r"
| "cmd_words (BACK c) = cmd_words c"

text \<open>The open mode and the descriptor of each redirection belong together.\<close>

definition redir_ok :: "int \<Rightarrow> int \<Rightarrow> bool" where
  "redir_ok m fd \<longleftrightarrow>
     m = O_RDONLY \<and> fd = 0 \<or> m = O_WRONLY + O_CREATE + O_TRUNC \<and> fd = 1 \<or> m = O_WRONLY + O_CREATE \<and> fd = 1"

fun modes_ok :: "cmd \<Rightarrow> bool" where
  "modes_ok (EXEC ws) \<longleftrightarrow> True"
| "modes_ok (REDIR c f m fd) \<longleftrightarrow> modes_ok c \<and> redir_ok m fd"
| "modes_ok (PIPE l r) \<longleftrightarrow> modes_ok l \<and> modes_ok r"
| "modes_ok (LIST l r) \<longleftrightarrow> modes_ok l \<and> modes_ok r"
| "modes_ok (BACK c) \<longleftrightarrow> modes_ok c"

definition words_ok :: "string \<Rightarrow> cmd \<Rightarrow> bool" where
  "words_ok s c \<longleftrightarrow> (\<forall>w \<in> set (cmd_words c). is_word s w) \<and> modes_ok c"

lemma words_ok_simps [simp]:
  "words_ok s (EXEC [])" "words_ok s (PIPE l r) \<longleftrightarrow> words_ok s l \<and> words_ok s r" "words_ok s (LIST l r) \<longleftrightarrow> words_ok s l \<and> words_ok s r"
  "words_ok s (BACK c) \<longleftrightarrow> words_ok s c" "words_ok s (REDIR c f m fd) \<longleftrightarrow> words_ok s c \<and> is_word s f \<and> redir_ok m fd"
  by (auto simp: words_ok_def)

lemma words_ok_add: "words_ok s c \<Longrightarrow> is_word s w \<Longrightarrow> words_ok s (add_arg w c)"
  by (induction w c rule: add_arg.induct) (auto simp: words_ok_def)

lemma words_ok_redir: "words_ok s c \<Longrightarrow> is_word s f \<Longrightarrow> words_ok s (redir_of tok f c)"
  by (simp add: redir_of_def redir_ok_def)

text \<open>The parser returned: with a panic, or with a command and a later position.\<close>

definition good :: "string \<Rightarrow> nat \<Rightarrow> (cmd \<times> nat) res \<Rightarrow> bool" where
  "good s i r \<longleftrightarrow> (case r of Loop \<Rightarrow> False | Panic _ \<Rightarrow> True | Ok (c, j) \<Rightarrow> i \<le> j \<and> j \<le> length s \<and> words_ok s c)"

lemma good_simps [simp]:
  "good s i (Panic m)" "good s i (Ok (c, j)) \<longleftrightarrow> i \<le> j \<and> j \<le> length s \<and> words_ok s c" "\<not> good s i Loop"
  by (simp_all add: good_def)

lemma good_bind:
  assumes "good s i r" "\<And>c j. i \<le> j \<Longrightarrow> j \<le> length s \<Longrightarrow> words_ok s c \<Longrightarrow> good s i (f (c, j))"
  shows "good s i (bind_res r f)"
  using assms by (cases r) auto

lemma good_mono: "good s j r \<Longrightarrow> i \<le> j \<Longrightarrow> good s i r"
  by (auto simp: good_def split: res.splits)

lemma peek_bounds:
  assumes "i \<le> length s" "peek s i toks = (b, j)"
  shows "i \<le> j" "j \<le> length s"
  using assms skipws_bounds [of i s] by (auto simp: peek_def Let_def)

lemma parseredirs_good:
  assumes "line_ok s" "i \<le> length s" "words_ok s c"
  shows "good s i (parseredirs s c i)"
  using assms
proof (induction s c i rule: parseredirs.induct)
  case (1 s c i)
  obtain b j where p: "peek s i ''<>'' = (b, j)" by fastforce
  note j = peek_bounds [OF 1(3) p]
  show ?case
  proof (cases b)
    case False
    then show ?thesis using p j 1(4) parseredirs.simps [of s c i] by simp
  next
    case True
    obtain tok a d k where g: "gettoken s j = (tok, a, d, k)" using prod_cases4 by blast
    obtain t q e l where h: "gettoken s k = (t, q, e, l)" using prod_cases4 by blast
    note G = gettoken_spec [OF 1(2) j(2) g] note H = gettoken_spec [OF 1(2) G(2) h]
    show ?thesis
    proof (cases "t = CHR ''a''")
      case False
      then show ?thesis using p True g h parseredirs.simps [of s c i] by simp
    next
      case wd: True
      have "good s l (parseredirs s (redir_of tok (q, e) c) l)"
        using 1(1) [of b j] p True g h wd words_ok_redir [OF 1(4)] H 1(2) by simp
      then show ?thesis using p True g h wd parseredirs.simps [of s c i] good_mono [of s l _ i] j G H by simp
    qed
  qed
qed

lemma parse_backs_good:
  assumes "line_ok s" "i \<le> length s" "words_ok s c"
  shows "good s i (Ok (parse_backs s c i))"
  using assms
proof (induction s c i rule: parse_backs.induct)
  case (1 s c i)
  obtain b j where p: "peek s i ''&'' = (b, j)" by fastforce
  note j = peek_bounds [OF 1(3) p]
  obtain t q e k where g: "gettoken s j = (t, q, e, k)" using prod_cases4 by blast
  note G = gettoken_spec [OF 1(2) j(2) g]
  show ?case
  proof (cases b)
    case False
    then show ?thesis using p j 1(4) parse_backs.simps [of s c i] by simp
  next
    case True
    have "good s k (Ok (parse_backs s (BACK c) k))" using 1(1) [of b j] p True g G 1(2,4) by simp
    then show ?thesis using p True g parse_backs.simps [of s c i] good_mono [of s k _ i] j G by simp
  qed
qed

lemma parse_args_good:
  assumes "line_ok s" "i \<le> length s" "words_ok s c"
  shows "good s i (parse_args s argc c i)"
  using assms
proof (induction s argc c i rule: parse_args.induct)
  case (1 s argc c i)
  obtain b j where p: "peek s i ''|)&;'' = (b, j)" by fastforce
  note j = peek_bounds [OF 1(3) p]
  obtain t q e k where g: "gettoken s j = (t, q, e, k)" using prod_cases4 by blast
  note G = gettoken_spec [OF 1(2) j(2) g]
  show ?case
  proof (cases "b \<or> t \<noteq> CHR ''a'' \<or> argc + 1 \<ge> MAXARGS")
    case True
    then show ?thesis using p g j G 1(4) parse_args.simps [of s argc c i] by (cases b) auto
  next
    case False
    have n: "CHR ''a'' \<noteq> nul" by (simp add: nul_def)
    have "good s i (bind_res (parseredirs s (add_arg (q, e) c) k) (\<lambda>(ret', l). parse_args s (argc + 1) ret' l))"
    proof (rule good_bind)
      show "good s i (parseredirs s (add_arg (q, e) c) k)"
        using parseredirs_good [OF 1(2) G(2) words_ok_add [OF 1(4) G(4)]] False good_mono [of s k _ i] j G by simp
      show "good s i (case (c', l) of (ret', l) \<Rightarrow> parse_args s (argc + 1) ret' l)"
        if "i \<le> l" "l \<le> length s" "words_ok s c'" for c' l
        using 1(1) [of b j] p g False n that good_mono [of s l _ i] 1(2) by simp
    qed
    then show ?thesis using p g False n parse_args.simps [of s argc c i] by simp
  qed
qed

text \<open>What follows a separator, and a command in parentheses.\<close>

lemma good_sep:
  assumes l: "line_ok s" and j: "j \<le> length s" "words_ok s c" and x: "x \<in> set symbols"
    and f: "\<And>k. j < k \<Longrightarrow> k \<le> length s \<Longrightarrow> good s k (f k)"
    and K: "\<And>c2. words_ok s c2 \<Longrightarrow> words_ok s (K c c2)"
  shows "good s j (case peek s j [x] of (False, k) \<Rightarrow> Ok (c, k)
     | (True, k) \<Rightarrow> (case gettoken s k of (_, _, _, k1) \<Rightarrow> bind_res (f k1) (\<lambda>(c2, k2). Ok (K c c2, k2))))"
proof -
  obtain b m where p: "peek s j [x] = (b, m)" by fastforce
  obtain t q e m1 where g: "gettoken s m = (t, q, e, m1)" using prod_cases4 by blast
  note M = peek_bounds [OF j(1) p]
  show ?thesis
  proof (cases b)
    case True
    have m1: "m < m1" "m1 \<le> length s"
      using peek_token [of s j "[x]" m t q e m1] p g True x gettoken_spec(2) [OF l M(2) g] by simp_all
    have "good s m1 (bind_res (f m1) (\<lambda>(c2, k2). Ok (K c c2, k2)))"
      using m1 M K by (intro good_bind [OF f]) auto
    then show ?thesis using True p g m1 M by (simp add: good_mono [of s m1])
  qed (use p M j in simp)
qed

lemma good_paren:
  assumes l: "line_ok s" and i: "i \<le> length s" and f: "\<And>k. i < k \<Longrightarrow> k \<le> length s \<Longrightarrow> good s k (f k)"
  shows "good s i (case peek s i ''('' of (False, j) \<Rightarrow> Panic m
     | (True, j) \<Rightarrow> (case gettoken s j of (_, _, _, k) \<Rightarrow> bind_res (f k) (\<lambda>(c, l).
         case peek s l '')'' of (False, l1) \<Rightarrow> Panic m'
         | (True, l1) \<Rightarrow> (case gettoken s l1 of (_, _, _, l2) \<Rightarrow> parseredirs s c l2))))"
proof -
  obtain b j where p: "peek s i ''('' = (b, j)" by fastforce
  obtain t q e k where g: "gettoken s j = (t, q, e, k)" using prod_cases4 by blast
  note J = peek_bounds [OF i p]
  show ?thesis
  proof (cases b)
    case True
    have k: "j < k" "k \<le> length s"
      using peek_token [of s i "''(''" j t q e k] p g True gettoken_spec(2) [OF l J(2) g] by (simp_all add: symbols_def)
    have "good s k (bind_res (f k) (\<lambda>(c, l). case peek s l '')'' of (False, l1) \<Rightarrow> Panic m'
         | (True, l1) \<Rightarrow> (case gettoken s l1 of (_, _, _, l2) \<Rightarrow> parseredirs s c l2)))"
    proof (rule good_bind [OF f])
      fix c r assume r: "k \<le> r" "r \<le> length s" "words_ok s c"
      obtain b' r1 where p': "peek s r '')'' = (b', r1)" by fastforce
      obtain t' q' e' r2 where g': "gettoken s r1 = (t', q', e', r2)" using prod_cases4 by blast
      note R = peek_bounds [OF r(2) p']
      note R2 = gettoken_spec(1,2) [OF l R(2) g']
      show "good s k (case (c, r) of (c, l) \<Rightarrow> case peek s l '')'' of (False, l1) \<Rightarrow> Panic m'
         | (True, l1) \<Rightarrow> (case gettoken s l1 of (_, _, _, l2) \<Rightarrow> parseredirs s c l2))"
        using p' g' parseredirs_good [OF l R2(2) r(3)] R2 R r by (cases b') (simp_all add: good_mono [of s r2])
    qed (use J k in auto)
    then show ?thesis using True p g k J by (simp add: good_mono [of s k])
  qed (use p in simp)
qed

text \<open>How much fuel the four functions need: the position rises before a function calls itself again.\<close>

lemma parser_good:
  assumes l: "line_ok s"
  shows "(\<forall>i \<le> length s. 4 * (length s - i) + 4 \<le> n \<longrightarrow> good s i (parseline n s i)) \<and>
     (\<forall>i \<le> length s. 4 * (length s - i) + 3 \<le> n \<longrightarrow> good s i (parsepipe n s i)) \<and>
     (\<forall>i \<le> length s. 4 * (length s - i) + 2 \<le> n \<longrightarrow> good s i (parseexec n s i)) \<and>
     (\<forall>i \<le> length s. 4 * (length s - i) + 1 \<le> n \<longrightarrow> good s i (parseblock n s i))"
proof (induction n)
  case (Suc n)
  then have IH: "\<And>i. i \<le> length s \<Longrightarrow> 4 * (length s - i) + 4 \<le> n \<Longrightarrow> good s i (parseline n s i)"
    "\<And>i. i \<le> length s \<Longrightarrow> 4 * (length s - i) + 3 \<le> n \<Longrightarrow> good s i (parsepipe n s i)"
    "\<And>i. i \<le> length s \<Longrightarrow> 4 * (length s - i) + 2 \<le> n \<Longrightarrow> good s i (parseexec n s i)"
    "\<And>i. i \<le> length s \<Longrightarrow> 4 * (length s - i) + 1 \<le> n \<Longrightarrow> good s i (parseblock n s i)" by blast+
  have sy: "CHR '';'' \<in> set symbols" "CHR ''|'' \<in> set symbols" by (simp_all add: symbols_def)
  have line: "good s i (parseline (Suc n) s i)" if i: "i \<le> length s" "4 * (length s - i) + 4 \<le> Suc n" for i
    unfolding parseline.simps
  proof (rule good_bind [OF IH(2)])
    fix c j assume j: "i \<le> j" "j \<le> length s" "words_ok s c"
    obtain c1 k where k: "parse_backs s c j = (c1, k)" by fastforce
    have K: "j \<le> k" "k \<le> length s" "words_ok s c1" using parse_backs_good [OF l j(2,3)] k by simp_all
    have f: "good s m (parseline n s m)" if "k < m" "m \<le> length s" for m
      using that K j i by (intro IH(1)) auto
    show "good s i (case (c, j) of (c, j) \<Rightarrow> case parse_backs s c j of (c1, k) \<Rightarrow> (case peek s k '';'' of
        (False, l) \<Rightarrow> Ok (c1, l) | (True, l) \<Rightarrow> (case gettoken s l of (_, _, _, l1) \<Rightarrow>
          bind_res (parseline n s l1) (\<lambda>(c2, l2). Ok (LIST c1 c2, l2)))))"
      using good_mono [OF good_sep [where K = LIST, OF l K(2,3) sy(1) f], of i] K j k by simp
  qed (use i in auto)
  moreover have "good s i (parsepipe (Suc n) s i)" if i: "i \<le> length s" "4 * (length s - i) + 3 \<le> Suc n" for i
    unfolding parsepipe.simps
  proof (rule good_bind [OF IH(3)])
    fix c j assume j: "i \<le> j" "j \<le> length s" "words_ok s c"
    have f: "good s m (parsepipe n s m)" if "j < m" "m \<le> length s" for m
      using that j i by (intro IH(2)) auto
    show "good s i (case (c, j) of (c, j) \<Rightarrow> case peek s j ''|'' of (False, k) \<Rightarrow> Ok (c, k)
       | (True, k) \<Rightarrow> (case gettoken s k of (_, _, _, k1) \<Rightarrow> bind_res (parsepipe n s k1) (\<lambda>(c2, k2). Ok (PIPE c c2, k2))))"
      using good_mono [OF good_sep [where K = PIPE, OF l j(2,3) sy(2) f], of i] j by simp
  qed (use i in auto)
  moreover have "good s i (parseexec (Suc n) s i)" if i: "i \<le> length s" "4 * (length s - i) + 2 \<le> Suc n" for i
  proof -
    obtain b j where p: "peek s i ''('' = (b, j)" by fastforce
    note J = peek_bounds [OF i(1) p]
    have "good s j (bind_res (parseredirs s (EXEC []) j) (\<lambda>(ret, k). parse_args s 0 ret k))"
      by (rule good_bind [OF parseredirs_good [OF l J(2)]]) (simp_all add: good_mono [OF parse_args_good [OF l]])
    moreover have "good s j (parseblock n s j)" using IH(4) [of j] J i by simp
    ultimately show ?thesis using p J by (cases b) (simp_all add: good_mono [of s j])
  qed
  moreover have "good s i (parseblock (Suc n) s i)" if i: "i \<le> length s" "4 * (length s - i) + 1 \<le> Suc n" for i
    unfolding parseblock.simps using i IH(1) by (intro good_paren [OF l]) auto
  ultimately show ?case by blast
qed simp

section \<open>The strings of a parsed command\<close>

lemma nulterminate_eq: "nulterminate c b k = (if k \<in> snd ` set (cmd_words c) then nul else b k)"
proof (induction c arbitrary: b)
  case (EXEC ws)
  have "fold (\<lambda>w b. b(snd w := nul)) ws b k = (if k \<in> snd ` set ws then nul else b k)" for b
    by (induction ws arbitrary: b) auto
  then show ?case by simp
qed auto

definition sub :: "string \<Rightarrow> nat \<times> nat \<Rightarrow> string" where
  "sub s w = take (snd w - fst w) (drop (fst w) s)"

text \<open>Ending one string cuts off no other one.\<close>

lemma str_at_word:
  assumes l: "line_ok s" and c: "words_ok s c" and w: "w \<in> set (cmd_words c)"
  shows "str_at (nulterminate c (char_at s)) (length s) (fst w) = sub s w"
proof -
  obtain q e where qe: "w = (q, e)" by fastforce
  have W: "q < e" "e \<le> length s" "\<And>k. q \<le> k \<Longrightarrow> k < e \<Longrightarrow> wordc (s ! k)"
    using c w by (auto simp: words_ok_def is_word_def qe)
  let ?b = "nulterminate c (char_at s)"
  have keep: "?b k = s ! k \<and> s ! k \<noteq> nul" if k: "q \<le> k" "k < e" for k
  proof -
    have "k \<noteq> snd v" if "v \<in> set (cmd_words c)" for v
      using c that W(2) W(3) [OF k] k(2) by (fastforce simp: words_ok_def is_word_def)
    then have "k \<notin> snd ` set (cmd_words c)" by blast
    moreover have "s ! k \<noteq> nul" using l k W(2) nth_mem [of k s] by (metis line_ok_def order_less_le_trans)
    ultimately show ?thesis using k W(2) by (simp add: nulterminate_eq char_at_def)
  qed
  have up: "[q..<length s] = [q..<e] @ [e..<length s]" using W(1,2) upt_add_eq_append [of q e "length s - e"] by simp
  have "map ?b [q..<e] = map (\<lambda>k. s ! k) [q..<e]" using keep by simp
  moreover have "\<dots> = sub s w"
    using W(1,2) by (intro nth_equalityI) (simp_all add: sub_def qe)
  moreover have "takeWhile (\<lambda>c. c \<noteq> nul) (map ?b [e..<length s]) = []"
  proof (cases "e < length s")
    case True
    have "e \<in> snd ` set (cmd_words c)" using w by (force simp: qe)
    then have "?b e = nul" by (simp add: nulterminate_eq)
    then show ?thesis using True by (simp add: upt_conv_Cons)
  qed simp
  moreover have "\<forall>x \<in> set (map ?b [q..<e]). x \<noteq> nul" using keep by auto
  ultimately show ?thesis by (simp add: str_at_def qe up takeWhile_append2)
qed

section \<open>Printing commands\<close>

datatype rop = In | Out | App

datatype shcmd =
    Exec "string list"
  | Redir shcmd rop string
  | Pipe shcmd shcmd
  | List shcmd shcmd
  | Back shcmd

definition word_text :: "string \<Rightarrow> string" where
  "word_text w = w @ '' ''"

fun rop_text :: "rop \<Rightarrow> string" where
  "rop_text In = ''< ''" | "rop_text Out = ''> ''" | "rop_text App = ''>> ''"

fun redir_text :: "rop \<times> string \<Rightarrow> string" where
  "redir_text (r, f) = rop_text r @ word_text f"

definition par :: "bool \<Rightarrow> string \<Rightarrow> string" where
  "par b t = (if b then ''( '' @ t @ '') '' else t)"

text \<open>
  The level of the context: 0 where \<^verbatim>\<open>parseline\<close> reads, 1 before its \<^verbatim>\<open>;\<close>, 2 where
  \<^verbatim>\<open>parsepipe\<close> reads and 3 where \<^verbatim>\<open>parseexec\<close> reads.
\<close>

primrec pr :: "nat \<Rightarrow> shcmd \<Rightarrow> string" where
  "pr k (Exec ws) = concat (map word_text ws)"
| "pr k (Redir c r f) = pr 3 c @ redir_text (r, f)"
| "pr k (Pipe l r) = par (3 \<le> k) (pr 3 l @ ''| '' @ pr 2 r)"
| "pr k (Back c) = par (2 \<le> k) (pr 1 c @ ''& '')"
| "pr k (List l r) = par (1 \<le> k) (pr 1 l @ ''; '' @ pr 0 r)"

definition word_ok :: "string \<Rightarrow> bool" where
  "word_ok w \<longleftrightarrow> w \<noteq> [] \<and> (\<forall>c \<in> set w. wordc c \<and> c \<noteq> nul)"

primrec sh_ok :: "shcmd \<Rightarrow> bool" where
  "sh_ok (Exec ws) \<longleftrightarrow> length ws < MAXARGS \<and> (\<forall>w \<in> set ws. word_ok w)"
| "sh_ok (Redir c r f) \<longleftrightarrow> sh_ok c \<and> word_ok f"
| "sh_ok (Pipe l r) \<longleftrightarrow> sh_ok l \<and> sh_ok r"
| "sh_ok (List l r) \<longleftrightarrow> sh_ok l \<and> sh_ok r"
| "sh_ok (Back c) \<longleftrightarrow> sh_ok c"

text \<open>The command that the parser's tree stands for, with the strings that \<open>f\<close> reads.\<close>

definition rop_of :: "int \<Rightarrow> rop" where
  "rop_of m = (if m = O_RDONLY then In else if m = O_WRONLY + O_CREATE + O_TRUNC then Out else App)"

fun read_cmd :: "(nat \<times> nat \<Rightarrow> string) \<Rightarrow> cmd \<Rightarrow> shcmd" where
  "read_cmd f (EXEC ws) = Exec (map f ws)"
| "read_cmd f (REDIR c w m fd) = Redir (read_cmd f c) (rop_of m) (f w)"
| "read_cmd f (PIPE l r) = Pipe (read_cmd f l) (read_cmd f r)"
| "read_cmd f (LIST l r) = List (read_cmd f l) (read_cmd f r)"
| "read_cmd f (BACK c) = Back (read_cmd f c)"

lemma read_cmd_cong: "\<forall>w \<in> set (cmd_words c). f w = g w \<Longrightarrow> read_cmd f c = read_cmd g c"
  by (induction c) auto


section \<open>Running a command\<close>

text \<open>
  The system calls of \<open>beh\<close> when they all succeed, on a table of 16 descriptors as the kernel's: \<^verbatim>\<open>open\<close>, \<^verbatim>\<open>dup\<close>
  and \<^verbatim>\<open>pipe\<close> take the lowest free ones. \<open>run\<close> collects, for the process and its children, the programs
  that \<^verbatim>\<open>exec\<close> starts with the descriptors they start with; \<open>k\<close> numbers the pipes.
\<close>

datatype obj = Std nat | PipeRead nat | PipeWrite nat | Opened string int

type_synonym fdt = "nat \<Rightarrow> obj option"

definition fd_free :: "fdt \<Rightarrow> nat option" where
  "fd_free t = find (\<lambda>i. t i = None) [0..<16]"

fun fd_add :: "obj option \<Rightarrow> fdt \<Rightarrow> int \<times> fdt" where
  "fd_add None t = (- 1, t)"
| "fd_add (Some x) t = (case fd_free t of None \<Rightarrow> (- 1, t) | Some i \<Rightarrow> (int i, t(i := Some x)))"

type_synonym starts = "(string \<times> string list \<times> fdt) list \<times> nat"

definition then_run :: "starts \<Rightarrow> (nat \<Rightarrow> starts) \<Rightarrow> starts" where
  "then_run r f = (case f (snd r) of (es, k) \<Rightarrow> (fst r @ es, k))"

primrec run :: "beh \<Rightarrow> fdt \<Rightarrow> nat \<Rightarrow> starts" where
  "run (Exit e) = (\<lambda>t k. ([], k))"
| "run (Call r f) = (\<lambda>t k. case r of
      SFork \<Rightarrow> then_run (run (f 0) t k) (run (f 1) t)
    | SWait \<Rightarrow> run (f 1) t k
    | SExec p args \<Rightarrow> ([(p, args, t)], k)
    | SOpen n m \<Rightarrow> (case fd_add (Some (Opened n m)) t of (i, t') \<Rightarrow> run (f i) t' k)
    | SClose d \<Rightarrow> run (f 0) (t(nat d := None)) k
    | SDup d \<Rightarrow> (case fd_add (t (nat d)) t of (i, t') \<Rightarrow> run (f i) t' k)
    | SWrite d x \<Rightarrow> run (f (int (length x))) t k)"
| "run (PipeCall f) = (\<lambda>t k.
     case fd_add (Some (PipeRead k)) t of (i, t') \<Rightarrow>
       case fd_add (Some (PipeWrite k)) t' of (j, t'') \<Rightarrow>
         if i < 0 \<or> j < 0 then run (f None) t k else run (f (Some (i, j))) t'' (k + 1))"

text \<open>What a command means: the programs it names, each with the descriptors its redirections and pipes give it.\<close>

definition rop_file :: "rop \<Rightarrow> string \<Rightarrow> obj" where
  "rop_file r f = Opened f (case r of In \<Rightarrow> O_RDONLY | Out \<Rightarrow> O_WRONLY + O_CREATE + O_TRUNC | App \<Rightarrow> O_WRONLY + O_CREATE)"

primrec launch :: "shcmd \<Rightarrow> fdt \<Rightarrow> nat \<Rightarrow> starts" where
  "launch (Exec ws) = (\<lambda>t k. (if ws = [] then [] else [(hd ws, ws, t)], k))"
| "launch (Redir c r f) = (\<lambda>t. launch c (t((if r = In then 0 else 1) := Some (rop_file r f))))"
| "launch (Pipe l r) = (\<lambda>t k. then_run (launch l (t(1 := Some (PipeWrite k))) (k + 1)) (launch r (t(0 := Some (PipeRead k)))))"
| "launch (List l r) = (\<lambda>t k. then_run (launch l t k) (launch r t))"
| "launch (Back c) = launch c"

text \<open>The three standard descriptors are open, and no other one.\<close>

definition std_fds :: "fdt \<Rightarrow> bool" where
  "std_fds t \<longleftrightarrow> (\<forall>i. t i = None \<longleftrightarrow> 3 \<le> i)"

lemma std_fds_upd [simp]: "std_fds t \<Longrightarrow> i < 3 \<Longrightarrow> std_fds (t(i := Some x))"
  by (simp add: std_fds_def)

lemma fd_free_eq: "t i = None \<Longrightarrow> i < 16 \<Longrightarrow> \<forall>j < i. t j \<noteq> None \<Longrightarrow> fd_free t = Some i"
  by (auto simp: fd_free_def find_Some_iff intro!: exI [of _ i])

lemma fd_add_std:
  assumes "std_fds t"
  shows "i < 3 \<Longrightarrow> fd_add (Some x) (t(i := None)) = (int i, t(i := Some x))"
    "fd_add (Some x) t = (3, t(3 := Some x))" "fd_add (Some y) (t(3 := Some x)) = (4, t(3 := Some x, 4 := Some y))"
proof -
  have s: "t j = None \<longleftrightarrow> 3 \<le> j" for j using assms by (simp add: std_fds_def)
  show "fd_add (Some x) (t(i := None)) = (int i, t(i := Some x))" if "i < 3"
    using that fd_free_eq [of "t(i := None)" i] by (simp add: s)
  show "fd_add (Some x) t = (3, t(3 := Some x))" using fd_free_eq [of t 3] by (simp add: s)
  show "fd_add (Some y) (t(3 := Some x)) = (4, t(3 := Some x, 4 := Some y))"
  proof -
    have "fd_free (t(3 := Some x)) = Some 4" by (intro fd_free_eq) (auto simp: s simp del: not_None_eq)
    then show ?thesis by simp
  qed
qed

lemma run_fork1: "run (fork1 a b) t k = then_run (run a t k) (run b t)"
  by (simp add: fork1_def)

lemma run_close: "run (close_then d a) t = run a (t(nat d := None))"
  by (rule ext) (simp add: close_then_def)

text \<open>A side of a pipe: its end replaces the standard descriptor \<open>d\<close>, and the two pipe descriptors are closed.\<close>

lemma run_pipe_side:
  assumes "std_fds t" "d < 2" "e = 3 \<or> e = 4"
  shows "run (close_then (int d) (Call (SDup e) (\<lambda>_. close_then 3 (close_then 4 a)))) (t(3 := Some x, 4 := Some y)) =
    run a (t(d := Some (if e = 3 then x else y)))"
proof
  fix k
  let ?t = "t(3 := Some x, 4 := Some y)" and ?z = "if e = 3 then x else y"
  have s: "t j = None \<longleftrightarrow> 3 \<le> j" for j using assms(1) by (simp add: std_fds_def)
  have "(?t(d := None)) (nat e) = Some ?z" using assms(2,3) by auto
  moreover have "fd_free (?t(d := None)) = Some d" using assms(2) by (intro fd_free_eq) (auto simp: s)
  moreover have "((?t(d := Some ?z))(3 := None))(4 := None) = t(d := Some ?z)"
    using assms(2) s [of 3] s [of 4] by (intro ext) simp
  ultimately show "run (close_then (int d) (Call (SDup e) (\<lambda>_. close_then 3 (close_then 4 a)))) ?t k = run a (t(d := Some ?z)) k"
    by (simp add: run_close)
qed

lemma run_PipeCall:
  assumes "std_fds t"
  shows "run (PipeCall f) t k = run (f (Some (3, 4))) (t(3 := Some (PipeRead k), 4 := Some (PipeWrite k))) (k + 1)"
  by (simp add: fd_add_std(2,3) [OF assms] del: fd_add.simps)

lemma run_end: "run (close_then 3 (close_then 4 (Call SWait (\<lambda>_. Call SWait (\<lambda>_. Exit 0))))) t = (\<lambda>k. ([], k))"
  by (simp add: run_close)

lemma then_run_nil [simp]: "then_run r (\<lambda>k. ([], k)) = r"
  by (simp add: then_run_def)

lemma runcmd_launches:
  "modes_ok c \<Longrightarrow> std_fds t \<Longrightarrow> run (runcmd b n c) t k = launch (read_cmd (\<lambda>w. str_at b n (fst w)) c) t k"
proof (induction c arbitrary: t k)
  case (EXEC ws)
  then show ?case by (cases ws) simp_all
next
  case (REDIR c f m fd)
  obtain d where d: "fd = int d" "d < 2" "d = (if rop_of m = In then 0 else 1)"
    and o: "rop_file (rop_of m) (str_at b n (fst f)) = Opened (str_at b n (fst f)) m"
    using REDIR.prems(1) by (auto simp: redir_ok_def rop_of_def rop_file_def)
  show ?case using REDIR d(1,2) by (simp add: run_close fd_add_std(1) o d(3) [symmetric] del: fd_add.simps)
next
  case (PIPE l r)
  have "run (runcmd b n (PIPE l r)) t k =
    then_run (run (runcmd b n l) (t(1 := Some (PipeWrite k))) (k + 1)) (run (runcmd b n r) (t(0 := Some (PipeRead k))))"
    using run_pipe_side [OF PIPE.prems(2), of 1 4] run_pipe_side [OF PIPE.prems(2), of 0 3]
    by (simp add: run_PipeCall [OF PIPE.prems(2)] run_fork1 run_end run_fork1 [abs_def] del: run.simps)
  moreover have "run (runcmd b n r) (t(0 := Some (PipeRead k))) = launch (read_cmd (\<lambda>w. str_at b n (fst w)) r) (t(0 := Some (PipeRead k)))"
    using PIPE by (intro ext) simp
  ultimately show ?case using PIPE by simp
next
  case (LIST l r)
  then have "run (runcmd b n r) t = launch (read_cmd (\<lambda>w. str_at b n (fst w)) r) t" by (intro ext) simp
  then show ?case using LIST by (simp add: run_fork1 then_run_def)
next
  case (BACK c)
  then show ?case by (simp add: run_fork1 then_run_def)
qed

end
