(* ===== verification/Sh_Roundtrip.thy ===== *)
theory Sh_Roundtrip
  imports Sh_Spec
begin

text \<open>
  The shell's parser inverts the printer of \<^verbatim>\<open>Sh_Spec\<close>: each of its functions reads the text of its level,
  by induction on the command. The property at the end joins this with the termination and the
  string lemmas of \<^verbatim>\<open>Sh_Spec\<close>.
\<close>

section \<open>Reading back\<close>

text \<open>Text that does not start with white space.\<close>

definition clean :: "string \<Rightarrow> bool" where
  "clean t \<longleftrightarrow> t = [] \<or> hd t \<notin> set whitespace"

lemma skipws_clean:
  assumes "i \<le> length s" "clean (drop i s)"
  shows "skipws s i = i"
  using assms by (cases "drop i s") (auto simp: skipws_eq clean_def)

lemma char_at_drop: "char_at s i = (case drop i s of [] \<Rightarrow> nul | c # _ \<Rightarrow> c)"
proof (cases "i < length s")
  case True
  then show ?thesis by (simp add: char_at_def Cons_nth_drop_Suc [symmetric])
qed (simp add: char_at_def)

lemma peek_drop:
  assumes "i \<le> length s" "drop i s = t" "clean t"
  shows "peek s i toks = (t \<noteq> [] \<and> hd t \<noteq> nul \<and> hd t \<in> set toks, i)"
  using skipws_clean [of i s] assms char_at_drop [of s i] by (cases t) (auto simp: peek_def Let_def)

lemma skipws_space:
  assumes "drop i s = CHR '' '' # t" "clean t"
  shows "skipws s i = Suc i"
proof -
  have "takeWhile (\<lambda>c. c \<in> set whitespace) t = []" using assms(2) by (cases t) (auto simp: clean_def)
  then show ?thesis by (simp add: skipws_eq assms(1) whitespace_def)
qed

text \<open>The text that is left at a position.\<close>

definition at :: "string \<Rightarrow> nat \<Rightarrow> string \<Rightarrow> bool" where
  "at s i t \<longleftrightarrow> i \<le> length s \<and> drop i s = t"

lemma at_more: "at s i (u @ t) \<Longrightarrow> at s (i + length u) t"
proof -
  assume a: "at s i (u @ t)"
  then have "length u \<le> length (drop i s)" by (simp add: at_def)
  moreover have "drop (length u) (drop i s) = t" using a by (simp add: at_def)
  ultimately show ?thesis using a by (auto simp: at_def add.commute)
qed

lemma at_length: "at s i t \<Longrightarrow> length s = i + length t"
  by (auto simp: at_def)

lemma peek_at: "at s i t \<Longrightarrow> clean t \<Longrightarrow> peek s i toks = (t \<noteq> [] \<and> hd t \<noteq> nul \<and> hd t \<in> set toks, i)"
  by (simp add: at_def peek_drop)

lemma symbol_chars: "c \<in> set symbols \<Longrightarrow> c \<notin> set whitespace \<and> c \<noteq> nul"
  by (auto simp: symbols_def whitespace_def nul_def)

lemma tok_symbol:
  assumes "at s i (x # CHR '' '' # t)" "x \<in> set symbols" "clean t"
  shows "gettoken s i = (x, i, i + 1, i + 2)"
proof -
  have d: "i \<le> length s" "drop i s = x # CHR '' '' # t" "drop (Suc i) s = CHR '' '' # t"
    using assms(1) at_more [of s i "[x]" "CHR '' '' # t"] by (simp_all add: at_def)
  have q: "skipws s i = i" using symbol_chars [OF assms(2)] d by (intro skipws_clean) (simp_all add: clean_def)
  have c: "char_at s i = x" "char_at s (i + 1) = CHR '' ''" using d by (simp_all add: char_at_drop)
  have "skipws s (i + 1) = i + 2" using skipws_space [OF d(3) assms(3)] by simp
  then show ?thesis using q c assms(2) by (auto simp: gettoken_def symbols_def nul_def)
qed

lemma tok_append:
  assumes "at s i (''>> '' @ t)" "clean t"
  shows "gettoken s i = (CHR ''+'', i, i + 2, i + 3)"
proof -
  have d: "i \<le> length s" "drop i s = ''>> '' @ t" "drop (Suc i) s = ''> '' @ t" "drop (i + 2) s = CHR '' '' # t"
    using assms(1) at_more [of s i "''>''" "''> '' @ t"] at_more [of s i "''>>''" "CHR '' '' # t"] by (simp_all add: at_def)
  have q: "skipws s i = i" using d by (intro skipws_clean) (simp_all add: clean_def whitespace_def)
  have c: "char_at s i = CHR ''>''" "char_at s (i + 1) = CHR ''>''" using d by (simp_all add: char_at_drop)
  have "skipws s (i + 2) = i + 3" using skipws_space [OF d(4) assms(2)] by simp
  then show ?thesis using q c by (simp add: gettoken_def nul_def)
qed

lemma tok_word:
  assumes a: "at s i (word_text w @ t)" and w: "word_ok w" and t: "clean t"
  shows "gettoken s i = (CHR ''a'', i, i + length w, i + length w + 1)" "sub s (i, i + length w) = w"
proof -
  have d: "i \<le> length s" "drop i s = w @ CHR '' '' # t" "drop (i + length w) s = CHR '' '' # t"
    using a at_more [of s i w "CHR '' '' # t"] by (simp_all add: at_def word_text_def)
  obtain c w' where cw: "w = c # w'" "wordc c" "c \<noteq> nul" using w by (cases w) (auto simp: word_ok_def)
  have q: "skipws s i = i" using d cw by (intro skipws_clean) (simp_all add: clean_def wordc_def)
  have c: "char_at s i = c" using d cw by (simp add: char_at_drop)
  have ns: "c \<notin> set symbols" using cw by (simp add: wordc_def)
  have sp: "\<not> wordc (CHR '' '')" by (simp add: wordc_def whitespace_def)
  have "takeWhile wordc (drop i s) = w" using w sp by (simp add: d(2) word_ok_def takeWhile_append2)
  then have e: "skipword s i = i + length w" by (simp add: skipword_eq)
  have "skipws s (i + length w) = i + length w + 1" using skipws_space [OF d(3) t] by simp
  then show "gettoken s i = (CHR ''a'', i, i + length w, i + length w + 1)"
    using q c e ns cw(3) by (auto simp: gettoken_def symbols_def)
  show "sub s (i, i + length w) = w" by (simp add: sub_def d(2))
qed

lemma tok_end: "at s i [] \<Longrightarrow> gettoken s i = (nul, i, i, i)"
  using skipws_clean [of i s] by (auto simp: at_def gettoken_def Let_def char_at_drop clean_def)

text \<open>What may come next.\<close>

definition follow :: "string \<Rightarrow> string \<Rightarrow> bool" where
  "follow F t \<longleftrightarrow> t = [] \<or> hd t \<in> set F"

lemma follow_clean: "follow F t \<Longrightarrow> set F \<subseteq> set symbols \<Longrightarrow> clean t"
  using symbol_chars by (auto simp: follow_def clean_def)

lemma clean_redirs: "clean t \<Longrightarrow> clean (concat (map redir_text rs) @ t)"
proof (cases rs)
  case (Cons x rs')
  obtain r f where "x = (r, f)" by fastforce
  then show ?thesis using Cons by (cases r) (simp_all add: clean_def whitespace_def)
qed simp

lemma clean_words: "\<forall>w \<in> set ws. word_ok w \<Longrightarrow> clean t \<Longrightarrow> clean (concat (map word_text ws) @ t)"
proof (cases ws)
  case (Cons w ws')
  assume "\<forall>w \<in> set ws. word_ok w"
  then show ?thesis using Cons by (cases w) (auto simp: clean_def word_text_def word_ok_def wordc_def)
qed simp

lemma clean_symbol: "x \<in> set symbols \<Longrightarrow> clean (x # t)"
  using symbol_chars by (simp add: clean_def)

lemma clean_pr: "sh_ok a \<Longrightarrow> clean t \<Longrightarrow> clean (pr k a @ t)"
proof (induction a arbitrary: k t)
  case (Exec ws)
  then show ?case by (simp add: clean_words)
next
  case (Redir a r f)
  then show ?case using clean_redirs [of t "[(r, f)]"] by simp
qed (simp_all add: par_def clean_symbol symbols_def)


section \<open>The loops\<close>

text \<open>The result \<open>r\<close> is the command \<open>a\<close>, with \<open>t\<close> left.\<close>

definition parsed :: "string \<Rightarrow> (cmd \<times> nat) res \<Rightarrow> shcmd \<Rightarrow> string \<Rightarrow> bool" where
  "parsed s r a t \<longleftrightarrow> (\<exists>c j. r = Ok (c, j) \<and> at s j t \<and> read_cmd (sub s) c = a)"

definition redirs :: "(rop \<times> string) list \<Rightarrow> shcmd \<Rightarrow> shcmd" where
  "redirs rs a = fold (\<lambda>(r, f) a. Redir a r f) rs a"

abbreviation redirs_text :: "(rop \<times> string) list \<Rightarrow> string" where
  "redirs_text rs \<equiv> concat (map redir_text rs)"

abbreviation files_ok :: "(rop \<times> string) list \<Rightarrow> bool" where
  "files_ok rs \<equiv> \<forall>x \<in> set rs. word_ok (snd x)"

lemma parseredirs_stop:
  assumes "at s i t" "clean t" "t = [] \<or> hd t \<notin> set ''<>''"
  shows "parseredirs s c i = Ok (c, i)"
proof -
  have "peek s i ''<>'' = (False, i)" using assms by (auto simp: peek_at)
  then show ?thesis by (simp add: parseredirs.simps [of s c i])
qed

definition rop_tok :: "rop \<Rightarrow> char" where
  "rop_tok r = (case r of In \<Rightarrow> CHR ''<'' | Out \<Rightarrow> CHR ''>'' | App \<Rightarrow> CHR ''+'')"

lemma tok_rop:
  assumes "at s i (rop_text r @ t)" "clean t"
  shows "\<exists>q e. gettoken s i = (rop_tok r, q, e, i + length (rop_text r))" "peek s i ''<>'' = (True, i)"
proof -
  show "\<exists>q e. gettoken s i = (rop_tok r, q, e, i + length (rop_text r))"
    using assms tok_symbol [of s i "CHR ''<''" t] tok_symbol [of s i "CHR ''>''" t] tok_append [of s i t]
    by (cases r) (simp_all add: rop_tok_def symbols_def numeral_eq_Suc)
  show "peek s i ''<>'' = (True, i)"
    using assms by (cases r) (simp_all add: peek_at clean_symbol symbols_def nul_def)
qed

lemma read_redir_of: "read_cmd f (redir_of (rop_tok r) w c) = Redir (read_cmd f c) r (f w)"
  by (cases r) (simp_all add: redir_of_def rop_tok_def rop_of_def)

lemma word_clean: "word_ok w \<Longrightarrow> clean (word_text w @ t)"
  by (cases w) (auto simp: clean_def word_text_def word_ok_def wordc_def)

lemma parseredirs_reads:
  assumes "at s i (redirs_text rs @ t)" "files_ok rs" "clean t" "t = [] \<or> hd t \<notin> set ''<>''"
  shows "parsed s (parseredirs s c i) (redirs rs (read_cmd (sub s) c)) t"
  using assms(1,2)
proof (induction rs arbitrary: c i)
  case Nil
  then show ?case using parseredirs_stop [of s i t c] assms by (simp add: parsed_def redirs_def)
next
  case (Cons x rs)
  obtain r f where x: "x = (r, f)" by fastforce
  let ?u = "redirs_text rs @ t" and ?k = "i + length (rop_text r)"
  have f: "word_ok f" using Cons.prems x by simp
  have a1: "at s i (rop_text r @ word_text f @ ?u)" using Cons.prems x by simp
  then have a2: "at s ?k (word_text f @ ?u)" by (rule at_more)
  have a3: "at s (?k + length f + 1) ?u" using at_more [OF a2] by (simp add: word_text_def)
  have cl: "clean ?u" by (rule clean_redirs [OF assms(3)])
  obtain q e where t1: "gettoken s i = (rop_tok r, q, e, ?k)" using tok_rop(1) [OF a1 word_clean [OF f]] by blast
  note t2 = tok_word [OF a2 f cl]
  let ?c = "redir_of (rop_tok r) (?k, ?k + length f) c"
  have "parseredirs s c i = parseredirs s ?c (?k + length f + 1)"
    using tok_rop(2) [OF a1 word_clean [OF f]] t1 t2(1) by (simp add: parseredirs.simps [of s c i])
  moreover have "parsed s (parseredirs s ?c (?k + length f + 1)) (redirs rs (read_cmd (sub s) ?c)) t"
    using Cons.IH [OF a3] Cons.prems(2) by simp
  ultimately show ?case using t2(2) by (simp add: read_redir_of redirs_def x)
qed

lemma parse_backs_reads:
  assumes "at s i (concat (replicate m ''& '') @ t)" "follow '';)'' t"
  shows "parsed s (Ok (parse_backs s c i)) ((Back ^^ m) (read_cmd (sub s) c)) t"
  using assms(1)
proof (induction m arbitrary: c i)
  case 0
  have "clean t" using assms(2) by (rule follow_clean) (simp add: symbols_def)
  then have "peek s i ''&'' = (False, i)" using 0 assms(2) by (auto simp: peek_at follow_def)
  then show ?case using 0 by (simp add: parse_backs.simps [of s c i] parsed_def)
next
  case (Suc m)
  let ?u = "concat (replicate m ''& '') @ t"
  have "clean t" using assms(2) by (rule follow_clean) (simp add: symbols_def)
  then have cl: "clean ?u" by (cases m) (simp_all add: clean_symbol symbols_def)
  have a: "at s i (''& '' @ ?u)" using Suc.prems by simp
  have "peek s i ''&'' = (True, i)" using a by (simp add: peek_at clean_symbol symbols_def nul_def)
  moreover have "gettoken s i = (CHR ''&'', i, i + 1, i + 2)"
    using a cl tok_symbol [of s i "CHR ''&''" ?u] by (simp add: symbols_def)
  ultimately have "parse_backs s c i = parse_backs s (BACK c) (i + 2)" by (simp add: parse_backs.simps [of s c i])
  moreover have "at s (i + 2) ?u" using at_more [OF a] by (simp add: numeral_2_eq_2)
  ultimately show ?case using Suc.IH [of "i + 2" "BACK c"] by (simp add: funpow_swap1)
qed

lemma parse_args_stop:
  assumes "at s i t" "follow ''|)&;'' t"
  shows "parse_args s n c i = Ok (c, i)"
proof (cases "t = []")
  case True
  then have "peek s i ''|)&;'' = (False, i)" using assms(1) by (simp add: peek_at clean_def)
  then show ?thesis using tok_end [of s i] assms(1) True by (simp add: parse_args.simps [of s n c i])
next
  case False
  then have "clean t" "hd t \<noteq> nul" "hd t \<in> set ''|)&;''"
    using assms(2) follow_clean [OF assms(2)] by (auto simp: follow_def symbols_def nul_def)
  then have "peek s i ''|)&;'' = (True, i)" using assms(1) False by (simp add: peek_at)
  then show ?thesis by (simp add: parse_args.simps [of s n c i])
qed

lemma word_head: "word_ok w \<Longrightarrow> hd (word_text w @ t) \<notin> set symbols"
  by (cases w) (auto simp: word_ok_def word_text_def wordc_def)

text \<open>An argument, then what \<^verbatim>\<open>parseredirs\<close> and the loop make of the text after it.\<close>

lemma parse_args_word:
  assumes a: "at s i (word_text w @ t)" and w: "word_ok w" and t: "clean t" and n: "n + 1 < MAXARGS"
  shows "\<exists>v. sub s v = w \<and> at s (i + length w + 1) t \<and>
    parse_args s n (EXEC us) i =
      bind_res (parseredirs s (EXEC (us @ [v])) (i + length w + 1)) (\<lambda>(ret, l). parse_args s (n + 1) ret l)"
proof -
  have "peek s i ''|)&;'' = (False, i)"
    using a word_head [OF w, of t] word_clean [OF w, of t] by (auto simp: peek_at symbols_def)
  moreover note tok_word [OF a w t]
  moreover have "at s (i + length w + 1) t" using at_more [OF a] by (simp add: word_text_def)
  ultimately show ?thesis
    using n by (intro exI [of _ "(i, i + length w)"]) (simp add: parse_args.simps [of s n "EXEC us" i] nul_def)
qed

lemma parse_args_reads:
  assumes "at s i (concat (map word_text ws) @ redirs_text rs @ t)" "\<forall>w \<in> set ws. word_ok w" "ws \<noteq> []"
    "n + length ws < MAXARGS" "files_ok rs" "follow ''|)&;'' t"
  shows "parsed s (parse_args s n (EXEC us) i) (redirs rs (Exec (map (sub s) us @ ws))) t"
  using assms(1-4)
proof (induction ws arbitrary: us i n)
  case (Cons w ws)
  have ct: "clean t" using assms(6) by (rule follow_clean) (simp add: symbols_def)
  let ?u = "concat (map word_text ws) @ redirs_text rs @ t"
  have cl: "clean ?u" using Cons.prems(2) by (intro clean_words clean_redirs ct) simp
  obtain v where v: "sub s v = w" "at s (i + length w + 1) ?u"
    "parse_args s n (EXEC us) i =
      bind_res (parseredirs s (EXEC (us @ [v])) (i + length w + 1)) (\<lambda>(ret, l). parse_args s (n + 1) ret l)"
    using parse_args_word [of s i w ?u n us] Cons.prems cl by auto
  show ?case
  proof (cases "ws = []")
    case True
    have "t = [] \<or> hd t \<notin> set ''<>''" using assms(6) by (auto simp: follow_def)
    then have "parsed s (parseredirs s (EXEC (us @ [v])) (i + length w + 1)) (redirs rs (Exec (map (sub s) us @ [w]))) t"
      using parseredirs_reads [OF _ assms(5) ct, of s "i + length w + 1" "EXEC (us @ [v])"] v True by simp
    then show ?thesis using v True parse_args_stop [OF _ assms(6)] by (auto simp: parsed_def)
  next
    case False
    then have "?u = [] \<or> hd ?u \<notin> set ''<>''"
      using word_head Cons.prems(2) by (cases ws) (auto simp: symbols_def)
    then have "parse_args s n (EXEC us) i = parse_args s (n + 1) (EXEC (us @ [v])) (i + length w + 1)"
      using v parseredirs_stop [OF v(2) cl] by simp
    then show ?thesis using Cons.IH [OF v(2) _ False, of "n + 1" "us @ [v]"] Cons.prems v(1) by simp
  qed
qed simp


section \<open>The parser on a printed command\<close>

text \<open>Each function of the parser reads the text of its level, whatever may follow it.\<close>

definition reads_exec :: "string \<Rightarrow> shcmd \<Rightarrow> bool" where
  "reads_exec s a \<longleftrightarrow> (\<forall>n i rs t. at s i (pr 3 a @ redirs_text rs @ t) \<and> files_ok rs \<and> follow ''|)&;'' t \<and>
     4 * (length s - i) + 2 \<le> n \<longrightarrow> parsed s (parseexec n s i) (redirs rs a) t)"

definition reads_pipe :: "string \<Rightarrow> shcmd \<Rightarrow> bool" where
  "reads_pipe s a \<longleftrightarrow> (\<forall>n i t. at s i (pr 2 a @ t) \<and> follow '')&;'' t \<and> 4 * (length s - i) + 3 \<le> n \<longrightarrow>
     parsed s (parsepipe n s i) a t)"

definition reads_back :: "string \<Rightarrow> shcmd \<Rightarrow> bool" where
  "reads_back s a \<longleftrightarrow> (\<forall>n i m t. at s i (pr 1 a @ concat (replicate m ''& '') @ t) \<and> follow '';)'' t \<and>
     4 * (length s - i) + 3 \<le> n \<longrightarrow>
     parsed s (bind_res (parsepipe n s i) (\<lambda>(c, j). Ok (parse_backs s c j))) ((Back ^^ m) a) t)"

definition reads_line :: "string \<Rightarrow> shcmd \<Rightarrow> bool" where
  "reads_line s a \<longleftrightarrow> (\<forall>n i t. at s i (pr 0 a @ t) \<and> follow '')'' t \<and> 4 * (length s - i) + 4 \<le> n \<longrightarrow>
     parsed s (parseline n s i) a t)"

lemma follow_mono: "follow F t \<Longrightarrow> set F \<subseteq> set G \<Longrightarrow> follow G t"
  by (auto simp: follow_def)

lemma peek_symbol: "at s i (x # t) \<Longrightarrow> x \<in> set symbols \<Longrightarrow> x \<in> set toks \<Longrightarrow> peek s i toks = (True, i)"
  using symbol_chars by (simp add: peek_at clean_symbol)

lemma peek_follow: "at s i t \<Longrightarrow> follow F t \<Longrightarrow> set F \<subseteq> set symbols \<Longrightarrow> set F \<inter> set toks = {} \<Longrightarrow> peek s i toks = (False, i)"
  using follow_clean [of F t] by (auto simp: peek_at follow_def)

lemma reads_exec_paren:
  assumes l: "reads_line s a" and a: "sh_ok a" and p: "pr 3 a = ''( '' @ pr 0 a @ '') ''"
  shows "reads_exec s a"
  unfolding reads_exec_def
proof (intro allI impI, elim conjE)
  fix n i rs t
  let ?u = "redirs_text rs @ t" and ?k = "Suc (Suc i)"
  assume h: "at s i (pr 3 a @ ?u)" "files_ok rs" "follow ''|)&;'' t" "4 * (length s - i) + 2 \<le> n"
  obtain n' where n: "n = Suc (Suc n')" using h(4) by (cases n; cases "n - 1") auto
  have a1: "at s i (''( '' @ pr 0 a @ '') '' @ ?u)" using h(1) p by simp
  have a2: "at s ?k (pr 0 a @ '') '' @ ?u)" using at_more [OF a1] by simp
  have ct: "clean t" using h(3) by (rule follow_clean) (simp add: symbols_def)
  have "clean (pr 0 a @ '') '' @ ?u)" by (rule clean_pr [OF a]) (simp add: clean_symbol symbols_def)
  then have t1: "gettoken s i = (CHR ''('', i, i + 1, ?k)"
    using a1 tok_symbol [of s i "CHR ''(''" "pr 0 a @ '') '' @ ?u"] by (simp add: symbols_def)
  have "4 * (length s - ?k) + 4 \<le> n'" using at_length [OF a1] h(4) n by simp
  then have "parsed s (parseline n' s ?k) a ('') '' @ ?u)"
    using l a2 by (simp add: reads_line_def follow_def)
  then obtain c j where c: "parseline n' s ?k = Ok (c, j)" "at s j ('') '' @ ?u)" "read_cmd (sub s) c = a"
    by (auto simp: parsed_def)
  have t2: "gettoken s j = (CHR '')'', j, j + 1, Suc (Suc j))"
    using c(2) tok_symbol [of s j "CHR '')''" ?u] clean_redirs [OF ct] by (simp add: symbols_def)
  have p1: "peek s i ''('' = (True, i)" using a1 by (auto intro!: peek_symbol simp: symbols_def)
  have p2: "peek s j '')'' = (True, j)" using c(2) by (auto intro!: peek_symbol simp: symbols_def)
  have "t = [] \<or> hd t \<notin> set ''<>''" using h(3) by (auto simp: follow_def)
  moreover have "at s (Suc (Suc j)) ?u" using at_more [OF c(2)] by simp
  ultimately have "parsed s (parseredirs s c (Suc (Suc j))) (redirs rs a) t"
    using parseredirs_reads [OF _ h(2) ct, of s "Suc (Suc j)" c] c(3) by simp
  then show "parsed s (parseexec n s i) (redirs rs a) t" by (simp add: n p1 t1 c(1) p2 t2)
qed

lemma reads_pipe_exec:
  assumes "reads_exec s a" "pr 2 a = pr 3 a"
  shows "reads_pipe s a"
  unfolding reads_pipe_def
proof (intro allI impI, elim conjE)
  fix n i t
  assume h: "at s i (pr 2 a @ t)" "follow '')&;'' t" "4 * (length s - i) + 3 \<le> n"
  obtain n' where n: "n = Suc n'" using h(3) by (cases n) auto
  have "parsed s (parseexec n' s i) (redirs [] a) t"
    using assms(1) [unfolded reads_exec_def, rule_format, of i "[]" t n'] h n assms(2) follow_mono [OF h(2), of "''|)&;''"] by auto
  then obtain c j where c: "parseexec n' s i = Ok (c, j)" "at s j t" "read_cmd (sub s) c = a"
    by (auto simp: parsed_def redirs_def)
  have "peek s j ''|'' = (False, j)" by (rule peek_follow [OF c(2) h(2)]) (auto simp: symbols_def)
  then show "parsed s (parsepipe n s i) a t" using c by (simp add: n parsed_def)
qed

lemma reads_back_pipe:
  assumes "reads_pipe s a" "pr 1 a = pr 2 a"
  shows "reads_back s a"
  unfolding reads_back_def
proof (intro allI impI, elim conjE)
  fix n i m t
  let ?u = "concat (replicate m ''& '') @ t"
  assume h: "at s i (pr 1 a @ ?u)" "follow '';)'' t" "4 * (length s - i) + 3 \<le> n"
  have "follow '')&;'' ?u" using h(2) by (cases m) (auto simp: follow_def)
  then have "parsed s (parsepipe n s i) a ?u" using assms h unfolding reads_pipe_def by auto
  then obtain c j where c: "parsepipe n s i = Ok (c, j)" "at s j ?u" "read_cmd (sub s) c = a" by (auto simp: parsed_def)
  then show "parsed s (bind_res (parsepipe n s i) (\<lambda>(c, j). Ok (parse_backs s c j))) ((Back ^^ m) a) t"
    using parse_backs_reads [OF c(2) h(2), of c] by simp
qed

text \<open>What \<^verbatim>\<open>parseline\<close> has read before it looks for \<^verbatim>\<open>;\<close>.\<close>

lemma reads_back_step:
  assumes "reads_back s a" "at s i (pr 1 a @ t)" "follow '';)'' t" "4 * (length s - i) + 3 \<le> n"
  shows "\<exists>c j c1 k. parsepipe n s i = Ok (c, j) \<and> parse_backs s c j = (c1, k) \<and> at s k t \<and> read_cmd (sub s) c1 = a"
proof -
  have "parsed s (bind_res (parsepipe n s i) (\<lambda>(c, j). Ok (parse_backs s c j))) a t"
    using assms(1) [unfolded reads_back_def, rule_format, of i 0 t n] assms(2-4) by simp
  then show ?thesis by (cases "parsepipe n s i") (auto simp: parsed_def)
qed

lemma reads_line_back:
  assumes "reads_back s a" "pr 0 a = pr 1 a"
  shows "reads_line s a"
  unfolding reads_line_def
proof (intro allI impI, elim conjE)
  fix n i t
  assume h: "at s i (pr 0 a @ t)" "follow '')'' t" "4 * (length s - i) + 4 \<le> n"
  obtain n' where n: "n = Suc n'" using h(3) by (cases n) auto
  obtain c j c1 k where c: "parsepipe n' s i = Ok (c, j)" "parse_backs s c j = (c1, k)" "at s k t" "read_cmd (sub s) c1 = a"
    using reads_back_step [OF assms(1), of i t n'] h n assms(2) follow_mono [OF h(2), of "'';)''"] by auto
  have "peek s k '';'' = (False, k)" by (rule peek_follow [OF c(3) h(2)]) (auto simp: symbols_def)
  then show "parsed s (parseline n s i) a t" using c by (simp add: n parsed_def)
qed

lemma reads_exec_Exec:
  assumes "sh_ok (Exec ws)"
  shows "reads_exec s (Exec ws)"
  unfolding reads_exec_def
proof (intro allI impI, elim conjE)
  fix n i rs t
  let ?u = "redirs_text rs @ t" and ?w = "concat (map word_text ws)"
  assume h: "at s i (pr 3 (Exec ws) @ ?u)" "files_ok rs" "follow ''|)&;'' t" "4 * (length s - i) + 2 \<le> n"
  have ws: "length ws < MAXARGS" "\<forall>w \<in> set ws. word_ok w" using assms by simp_all
  obtain n' where n: "n = Suc n'" using h(4) by (cases n) auto
  have a: "at s i (?w @ ?u)" using h(1) by simp
  have ct: "clean t" using h(3) by (rule follow_clean) (simp add: symbols_def)
  have cl: "clean (?w @ ?u)" by (intro clean_words clean_redirs ct ws)
  have hd_u: "?u = [] \<or> hd ?u \<noteq> CHR ''(''"
  proof (cases rs)
    case (Cons x rs')
    then show ?thesis by (cases x; cases "fst x") auto
  qed (use h(3) in \<open>auto simp: follow_def\<close>)
  have hd_w: "hd (?w @ ?u) \<notin> set symbols" if "ws \<noteq> []"
    using that word_head ws(2) by (cases ws) auto
  have "?w @ ?u = [] \<or> hd (?w @ ?u) \<noteq> CHR ''(''"
    using hd_u hd_w by (cases "ws = []") (auto simp: symbols_def)
  then have pk: "peek s i ''('' = (False, i)" using peek_at [OF a cl] by auto
  show "parsed s (parseexec n s i) (redirs rs (Exec ws)) t"
  proof (cases "ws = []")
    case True
    have "t = [] \<or> hd t \<notin> set ''<>''" using h(3) by (auto simp: follow_def)
    then have "parsed s (parseredirs s (EXEC []) i) (redirs rs (Exec [])) t"
      using parseredirs_reads [OF _ h(2) ct, of s i "EXEC []"] a True by simp
    then show ?thesis using parse_args_stop [OF _ h(3)] True pk by (auto simp: parsed_def n)
  next
    case False
    have "parseredirs s (EXEC []) i = Ok (EXEC [], i)"
      using parseredirs_stop [OF a cl] hd_w [OF False] by (auto simp: symbols_def)
    then show ?thesis using parse_args_reads [OF a ws(2) False _ h(2,3), of 0 "[]"] ws(1) pk by (simp add: n)
  qed
qed


lemma reads_exec_Redir:
  assumes "reads_exec s a" "sh_ok (Redir a r f)"
  shows "reads_exec s (Redir a r f)"
  unfolding reads_exec_def
proof (intro allI impI, elim conjE)
  fix n i rs t
  assume h: "at s i (pr 3 (Redir a r f) @ redirs_text rs @ t)" "files_ok rs" "follow ''|)&;'' t" "4 * (length s - i) + 2 \<le> n"
  then show "parsed s (parseexec n s i) (redirs rs (Redir a r f)) t"
    using assms(1) [unfolded reads_exec_def, rule_format, of i "(r, f) # rs" t n] assms(2) by (simp add: redirs_def)
qed

lemma reads_pipe_Pipe:
  assumes "reads_exec s a" "reads_pipe s b" "sh_ok b"
  shows "reads_pipe s (Pipe a b)"
  unfolding reads_pipe_def
proof (intro allI impI, elim conjE)
  fix n i t
  assume h: "at s i (pr 2 (Pipe a b) @ t)" "follow '')&;'' t" "4 * (length s - i) + 3 \<le> n"
  obtain n' where n: "n = Suc n'" using h(3) by (cases n) auto
  have a1: "at s i (pr 3 a @ ''| '' @ pr 2 b @ t)" using h(1) by (simp add: par_def)
  have "parsed s (parseexec n' s i) (redirs [] a) (''| '' @ pr 2 b @ t)"
    using assms(1) [unfolded reads_exec_def, rule_format, of i "[]" "''| '' @ pr 2 b @ t" n'] a1 h(3) n
    by (simp add: follow_def)
  then obtain c j where c: "parseexec n' s i = Ok (c, j)" "at s j (''| '' @ pr 2 b @ t)" "read_cmd (sub s) c = a"
    by (auto simp: parsed_def redirs_def)
  have p: "peek s j ''|'' = (True, j)" using c(2) by (auto intro!: peek_symbol simp: symbols_def)
  have "clean t" using h(2) by (rule follow_clean) (simp add: symbols_def)
  then have t: "gettoken s j = (CHR ''|'', j, j + 1, Suc (Suc j))"
    using tok_symbol [of s j "CHR ''|''" "pr 2 b @ t"] c(2) clean_pr [OF assms(3)] by (simp add: symbols_def)
  have a2: "at s (Suc (Suc j)) (pr 2 b @ t)" using at_more [OF c(2)] by simp
  have "4 * (length s - Suc (Suc j)) + 3 \<le> n'" using at_length [OF a1] at_length [OF c(2)] h(3) n by simp
  then have "parsed s (parsepipe n' s (Suc (Suc j))) b t" using assms(2) a2 h(2) by (simp add: reads_pipe_def)
  then show "parsed s (parsepipe n s i) (Pipe a b) t" using c p t by (auto simp: n parsed_def)
qed

lemma reads_back_Back:
  assumes "reads_back s a"
  shows "reads_back s (Back a)"
  unfolding reads_back_def
proof (intro allI impI, elim conjE)
  fix n i m t
  assume "at s i (pr 1 (Back a) @ concat (replicate m ''& '') @ t)" "follow '';)'' t" "4 * (length s - i) + 3 \<le> n"
  then show "parsed s (bind_res (parsepipe n s i) (\<lambda>(c, j). Ok (parse_backs s c j))) ((Back ^^ m) (Back a)) t"
    using assms [unfolded reads_back_def, rule_format, of i "Suc m" t n] by (simp add: par_def funpow_swap1)
qed

lemma reads_line_List:
  assumes "reads_back s a" "reads_line s b" "sh_ok b"
  shows "reads_line s (List a b)"
  unfolding reads_line_def
proof (intro allI impI, elim conjE)
  fix n i t
  assume h: "at s i (pr 0 (List a b) @ t)" "follow '')'' t" "4 * (length s - i) + 4 \<le> n"
  obtain n' where n: "n = Suc n'" using h(3) by (cases n) auto
  have a1: "at s i (pr 1 a @ ''; '' @ pr 0 b @ t)" using h(1) by (simp add: par_def)
  obtain c j c1 k where c: "parsepipe n' s i = Ok (c, j)" "parse_backs s c j = (c1, k)" "at s k (''; '' @ pr 0 b @ t)"
    "read_cmd (sub s) c1 = a"
    using reads_back_step [OF assms(1) a1, of n'] h(3) n by (auto simp: follow_def)
  have p: "peek s k '';'' = (True, k)" using c(3) by (auto intro!: peek_symbol simp: symbols_def)
  have "clean t" using h(2) by (rule follow_clean) (simp add: symbols_def)
  then have t: "gettoken s k = (CHR '';'', k, k + 1, Suc (Suc k))"
    using tok_symbol [of s k "CHR '';''" "pr 0 b @ t"] c(3) clean_pr [OF assms(3)] by (simp add: symbols_def)
  have a2: "at s (Suc (Suc k)) (pr 0 b @ t)" using at_more [OF c(3)] by simp
  have "4 * (length s - Suc (Suc k)) + 4 \<le> n'" using at_length [OF a1] at_length [OF c(3)] h(3) n by simp
  then have "parsed s (parseline n' s (Suc (Suc k))) b t" using assms(2) a2 h(2) by (simp add: reads_line_def)
  then show "parsed s (parseline n s i) (List a b) t" using c p t by (auto simp: n parsed_def)
qed

lemma parser_reads: "sh_ok a \<Longrightarrow> reads_exec s a \<and> reads_pipe s a \<and> reads_back s a \<and> reads_line s a"
proof (induction a)
  case (Exec ws)
  have "reads_exec s (Exec ws)" by (rule reads_exec_Exec [OF Exec])
  moreover from this have "reads_pipe s (Exec ws)" by (rule reads_pipe_exec) simp
  moreover from this have "reads_back s (Exec ws)" by (rule reads_back_pipe) simp
  moreover from this have "reads_line s (Exec ws)" by (rule reads_line_back) simp
  ultimately show ?case by blast
next
  case (Redir a r f)
  let ?a = "Redir a r f"
  have "reads_exec s ?a" using Redir by (intro reads_exec_Redir) simp_all
  moreover from this have "reads_pipe s ?a" by (rule reads_pipe_exec) simp
  moreover from this have "reads_back s ?a" by (rule reads_back_pipe) simp
  moreover from this have "reads_line s ?a" by (rule reads_line_back) simp
  ultimately show ?case by blast
next
  case (Pipe a b)
  have "reads_pipe s (Pipe a b)" using Pipe by (intro reads_pipe_Pipe) simp_all
  moreover from this have "reads_back s (Pipe a b)" by (rule reads_back_pipe) (simp add: par_def)
  moreover from this have "reads_line s (Pipe a b)" by (rule reads_line_back) (simp add: par_def)
  moreover from this have "reads_exec s (Pipe a b)" using Pipe.prems by (rule reads_exec_paren) (simp add: par_def)
  ultimately show ?case by blast
next
  case (List a b)
  have "reads_line s (List a b)" using List by (intro reads_line_List) simp_all
  moreover from this have "reads_exec s (List a b)" using List.prems by (rule reads_exec_paren) (simp add: par_def)
  moreover from this have "reads_pipe s (List a b)" by (rule reads_pipe_exec) (simp add: par_def)
  moreover from this have "reads_back s (List a b)" by (rule reads_back_pipe) (simp add: par_def)
  ultimately show ?case by blast
next
  case (Back a)
  have "reads_back s (Back a)" using Back by (intro reads_back_Back) simp
  moreover from this have "reads_line s (Back a)" by (rule reads_line_back) (simp add: par_def)
  moreover from this have "reads_exec s (Back a)" using Back.prems by (rule reads_exec_paren) (simp add: par_def)
  moreover from this have "reads_pipe s (Back a)" by (rule reads_pipe_exec) (simp add: par_def)
  ultimately show ?case by blast
qed

text \<open>Printed commands have no NUL.\<close>

lemma wordc_text: "word_ok w \<Longrightarrow> nul \<notin> set (word_text w)"
  by (auto simp: word_ok_def word_text_def nul_def)

lemma pr_line_ok: "sh_ok a \<Longrightarrow> line_ok (pr k a)"
proof (induction a arbitrary: k)
  case (Redir a r f)
  then show ?case using wordc_text [of f] by (cases r) (auto simp: line_ok_def nul_def)
qed (auto simp: line_ok_def par_def nul_def dest: wordc_text [unfolded nul_def])

lemma parsecmd_good:
  assumes "line_ok s"
  shows "(\<exists>m. parsecmd s = Panic m) \<or> (\<exists>c. parsecmd s = Ok (c, nulterminate c (char_at s)) \<and> words_ok s c)"
proof -
  have "good s 0 (parseline (4 * length s + 4) s 0)" using parser_good [OF assms, of "4 * length s + 4"] by simp
  then show ?thesis by (cases "parseline (4 * length s + 4) s 0") (auto simp: parsecmd_def Let_def split: prod.splits)
qed

lemma parsecmd_printed:
  assumes "sh_ok a"
  shows "\<exists>c. parsecmd (pr 0 a) = Ok (c, nulterminate c (char_at (pr 0 a))) \<and> read_cmd (sub (pr 0 a)) c = a"
proof -
  let ?s = "pr 0 a"
  have "parsed ?s (parseline (4 * length ?s + 4) ?s 0) a []"
    using parser_reads [OF assms, of ?s] by (simp add: reads_line_def at_def follow_def)
  then obtain c j where c: "parseline (4 * length ?s + 4) ?s 0 = Ok (c, j)" "at ?s j []" "read_cmd (sub ?s) c = a"
    by (auto simp: parsed_def)
  have "peek ?s j [] = (False, j)" "j = length ?s"
    using peek_at [OF c(2), of "[]"] c(2) by (simp_all add: clean_def at_def)
  then show ?thesis using c by (simp add: parsecmd_def)
qed

text \<open>
  C7. The shell on a line. The parser comes to an end on every line, with a command or with a call of
  \<^verbatim>\<open>panic\<close>. Each string of the command is a maximal word of the line, and after \<^verbatim>\<open>nulterminate\<close> has
  written its NULs into the line each string reads back as exactly its word, so ending one string
  cuts off no other. When the system calls succeed, \<^verbatim>\<open>runcmd\<close> then starts exactly the programs of the
  command, each with exactly the descriptors that its redirections and pipes give it and no end of a
  pipe left open. And the parser inverts printing: the text of a command, with parentheses where the
  precedence of \<^verbatim>\<open>;\<close>, \<^verbatim>\<open>&\<close> and \<^verbatim>\<open>|\<close> asks for them, parses to that command.
\<close>

theorem shell_parses_and_runs:
  assumes "line_ok s"
  shows "parsecmd s \<noteq> Loop
    \<and> (\<forall>c b. parsecmd s = Ok (c, b) \<longrightarrow>
        (\<forall>w \<in> set (cmd_words c). is_word s w \<and> str_at b (length s) (fst w) = sub s w)
        \<and> (\<forall>t k. std_fds t \<longrightarrow> run (runcmd b (length s) c) t k = launch (read_cmd (sub s) c) t k))
    \<and> (\<forall>a. sh_ok a \<and> s = pr 0 a \<longrightarrow> (\<exists>c b. parsecmd s = Ok (c, b) \<and> read_cmd (sub s) c = a))"
proof (intro conjI allI impI)
  show "parsecmd s \<noteq> Loop" using parsecmd_good [OF assms] by auto
  fix c b assume "parsecmd s = Ok (c, b)"
  then have c: "words_ok s c" "b = nulterminate c (char_at s)" using parsecmd_good [OF assms] by auto
  then show w: "\<forall>w \<in> set (cmd_words c). is_word s w \<and> str_at b (length s) (fst w) = sub s w"
    using str_at_word [OF assms] by (auto simp: words_ok_def)
  fix t k assume "std_fds t"
  then show "run (runcmd b (length s) c) t k = launch (read_cmd (sub s) c) t k"
    using runcmd_launches [of c t b "length s" k] c(1) w
      read_cmd_cong [of c "\<lambda>w. str_at b (length s) (fst w)" "sub s"] by (simp add: words_ok_def)
next
  show "\<exists>c b. parsecmd s = Ok (c, b) \<and> read_cmd (sub s) c = a" if "sh_ok a \<and> s = pr 0 a" for a
    using parsecmd_printed that by blast
qed

theorem shell_parses_and_runs_witness:
  "let s = ''( a | bb x ) > c ''; t = (\<lambda>i. if i < 3 then Some (Std i) else None);
       out = Some (Opened ''c'' (O_WRONLY + O_CREATE + O_TRUNC)) in
     line_ok s \<and> std_fds t \<and>
     (\<exists>c b. parsecmd s = Ok (c, b) \<and> run (runcmd b (length s) c) t 0 =
        ([(''a'', [''a''], t(1 := Some (PipeWrite 0))), (''bb'', [''bb'', ''x''], t(1 := out, 0 := Some (PipeRead 0)))], 1))"
proof -
  let ?s = "''( a | bb x ) > c ''" and ?a = "Redir (Pipe (Exec [''a'']) (Exec [''bb'', ''x''])) Out ''c''"
  let ?t = "\<lambda>i::nat. if i < 3 then Some (Std i) else None"
  have l: "line_ok ?s" by (simp add: line_ok_def nul_def)
  have a: "sh_ok ?a" by (simp add: word_ok_def wordc_def whitespace_def symbols_def nul_def MAXARGS_def)
  have p: "?s = pr 0 ?a" by (simp add: par_def word_text_def)
  have t: "std_fds ?t" by (simp add: std_fds_def)
  note T = shell_parses_and_runs [OF l]
  obtain c b where c: "parsecmd ?s = Ok (c, b)" "read_cmd (sub ?s) c = ?a"
    using T [THEN conjunct2, THEN conjunct2, rule_format, OF conjI, OF a p] by blast
  have "run (runcmd b (length ?s) c) ?t 0 = launch ?a ?t 0"
    using T [THEN conjunct2, THEN conjunct1, rule_format, OF c(1), THEN conjunct2, rule_format, OF t, of 0] c(2) by simp
  moreover have "launch ?a ?t 0 = ([(''a'', [''a''], ?t(1 := Some (PipeWrite 0))),
     (''bb'', [''bb'', ''x''], ?t(1 := Some (Opened ''c'' (O_WRONLY + O_CREATE + O_TRUNC)), 0 := Some (PipeRead 0)))], 1)"
    by (simp add: then_run_def rop_file_def)
  ultimately show ?thesis unfolding Let_def using l t c(1) by (intro conjI exI) simp_all
qed

end
