(* ===== verification/Console.thy ===== *)
theory Console
  imports Fs Ring
begin

text \<open>
  \<^verbatim>\<open>kernel/uart.c\<close>, \<^verbatim>\<open>kernel/console.c\<close> and \<^verbatim>\<open>kernel/printf.c\<close>. The UART is a device: \<open>u_reads t r\<close> is what
  it answers to the \<open>t\<close>-th register read when that reads register \<open>r\<close>, an arbitrary function;
  \<open>u_writes\<close> lists the register writes it has received.
\<close>

section \<open>State\<close>

record uartdev =
  tx_busy :: bool
  u_writes :: "(nat \<times> uint8) list"
  u_reads :: "nat \<Rightarrow> nat \<Rightarrow> uint8"
  u_pos :: nat

definition INPUT_BUF_SIZE :: nat where "INPUT_BUF_SIZE = 128"

record consbuf =
  cbuf :: "nat \<Rightarrow> uint8"
  c_r :: uint32
  c_w :: uint32
  c_e :: uint32

text \<open>\<open>outbuf\<close> is the local \<^verbatim>\<open>buf[32]\<close> of \<^verbatim>\<open>consolewrite\<close>; \<open>dev_console\<close> tells that \<^verbatim>\<open>devsw[CONSOLE]\<close> is set.\<close>

record cstate = fstate +
  uart :: uartdev
  cons :: consbuf
  panicked :: bool
  outbuf :: addr
  dev_console :: bool

section \<open>The UART driver\<close>

abbreviation (input) RHR :: nat where "RHR \<equiv> 0"
abbreviation (input) THR :: nat where "THR \<equiv> 0"
abbreviation (input) IER :: nat where "IER \<equiv> 1"
abbreviation (input) FCR :: nat where "FCR \<equiv> 2"
abbreviation (input) ISR :: nat where "ISR \<equiv> 2"
abbreviation (input) LCR :: nat where "LCR \<equiv> 3"
abbreviation (input) LSR :: nat where "LSR \<equiv> 5"
abbreviation (input) LSR_RX_READY :: uint8 where "LSR_RX_READY \<equiv> push_bit 0 1"
abbreviation (input) LSR_TX_IDLE :: uint8 where "LSR_TX_IDLE \<equiv> push_bit 5 1"
abbreviation (input) LCR_BAUD_LATCH :: uint8 where "LCR_BAUD_LATCH \<equiv> push_bit 7 1"
abbreviation (input) LCR_EIGHT_BITS :: uint8 where "LCR_EIGHT_BITS \<equiv> push_bit 0 3"
abbreviation (input) FCR_FIFO_ENABLE :: uint8 where "FCR_FIFO_ENABLE \<equiv> push_bit 0 1"
abbreviation (input) FCR_FIFO_CLEAR :: uint8 where "FCR_FIFO_CLEAR \<equiv> push_bit 1 3"
abbreviation (input) IER_RX_ENABLE :: uint8 where "IER_RX_ENABLE \<equiv> push_bit 0 1"
abbreviation (input) IER_TX_ENABLE :: uint8 where "IER_TX_ENABLE \<equiv> push_bit 1 1"

definition ReadReg :: "nat \<Rightarrow> uartdev \<Rightarrow> uint8 \<times> uartdev" where
  "ReadReg r u = (u_reads u (u_pos u) r, u\<lparr>u_pos := u_pos u + 1\<rparr>)"

definition WriteReg :: "nat \<Rightarrow> uint8 \<Rightarrow> uartdev \<Rightarrow> uartdev" where
  "WriteReg r v u = u\<lparr>u_writes := u_writes u @ [(r, v)]\<rparr>"

definition uartinit :: "uartdev \<Rightarrow> uartdev" where
  "uartinit u =
     (let u1 = WriteReg IER 0 u;
          u2 = WriteReg LCR LCR_BAUD_LATCH u1;
          u3 = WriteReg 0 3 u2;
          u4 = WriteReg 1 0 u3;
          u5 = WriteReg LCR LCR_EIGHT_BITS u4;
          u6 = WriteReg FCR (FCR_FIFO_ENABLE OR FCR_FIFO_CLEAR) u5
      in WriteReg IER (IER_TX_ENABLE OR IER_RX_ENABLE) u6)"

text \<open>
  One critical section of \<^verbatim>\<open>uartwrite\<close>, from byte \<open>i\<close> on: it sleeps when the transmitter is
  busy.
\<close>

function uartwrite_section :: "addr \<Rightarrow> int \<Rightarrow> int \<Rightarrow> 'a cstate_scheme \<Rightarrow> unit blk \<times> int \<times> 'a cstate_scheme" where
  "uartwrite_section buf n i s =
     (if i < n then
        if tx_busy (uart s) then (Sleep, i, ksleep KUartTx s)
        else uartwrite_section buf n (i + 1)
               (s\<lparr>uart := (WriteReg THR (phys (km s) (buf + of_int i)) (uart s))\<lparr>tx_busy := True\<rparr>\<rparr>)
      else (Ret (), i, s))"
  by pat_completeness auto
termination
  by (relation "measure (\<lambda>(buf, n, i, s). nat (n - i))") auto

declare uartwrite_section.simps [simp del]

partial_function (option) spin_tx_idle :: "uartdev \<Rightarrow> uartdev option" where
  "spin_tx_idle u =
     (case ReadReg LSR u of (v, u1) \<Rightarrow> if v AND LSR_TX_IDLE = 0 then spin_tx_idle u1 else Some u1)"

declare spin_tx_idle.simps [code]

definition uartputc_sync :: "int \<Rightarrow> 'a cstate_scheme \<Rightarrow> 'a cstate_scheme res" where
  "uartputc_sync c s =
     (if panicked s then Loop
      else of_opt (Option.bind (spin_tx_idle (uart s)) (\<lambda>u. Some (s\<lparr>uart := WriteReg THR (of_int c) u\<rparr>))))"

definition uartgetc :: "uartdev \<Rightarrow> int \<times> uartdev" where
  "uartgetc u =
     (case ReadReg LSR u of (v, u1) \<Rightarrow>
        if v AND LSR_RX_READY \<noteq> 0 then (case ReadReg RHR u1 of (c, u2) \<Rightarrow> (uint c, u2)) else (- 1, u1))"

section \<open>Console output\<close>

definition BACKSPACE :: int where "BACKSPACE = 0x100"

definition consputc :: "int \<Rightarrow> 'a cstate_scheme \<Rightarrow> 'a cstate_scheme res" where
  "consputc c s =
     (if c = BACKSPACE then
        bind_res (uartputc_sync 8 s) (\<lambda>s1. bind_res (uartputc_sync 32 s1) (uartputc_sync 8))
      else uartputc_sync c s)"

lemma uartputc_sync_frame: "uartputc_sync c s = Ok s' \<Longrightarrow> \<exists>u. s' = s\<lparr>uart := u\<rparr>"
  by (auto simp: uartputc_sync_def of_opt_def split: if_splits option.splits bind_splits)

lemma consputc_frame: "consputc c s = Ok s' \<Longrightarrow> \<exists>u. s' = s\<lparr>uart := u\<rparr>"
  by (auto simp: consputc_def bind_res_Ok_iff dest!: uartputc_sync_frame split: if_splits)

lemma consputc_cons: "consputc c s = Ok s' \<Longrightarrow> cons s' = cons s"
  by (auto dest: consputc_frame)

text \<open>\<^verbatim>\<open>printint\<close>: \<^verbatim>\<open>long\<close> has 32 bits. The characters are produced in the order in which they are printed.\<close>

definition digits :: string where "digits = ''0123456789abcdef''"

function int_digits :: "nat \<Rightarrow> nat \<Rightarrow> char list \<Rightarrow> char list" where
  "int_digits base x acc =
     (let acc' = digits ! (x mod base) # acc
      in if base < 2 \<or> x div base = 0 then acc' else int_digits base (x div base) acc')"
  by pat_completeness auto
termination
  by (relation "measure (\<lambda>(base, x, acc). x)")
    (auto intro!: div_less_dividend simp: not_less intro: ccontr)

declare int_digits.simps [simp del]

definition printint :: "uint32 \<Rightarrow> nat \<Rightarrow> bool \<Rightarrow> string" where
  "printint xx base is_signed =
     (let neg = (is_signed \<and> sint xx < 0);
          x = (if neg then - xx else xx)
      in (if neg then ''-'' else []) @ int_digits base (unat x) [])"

primrec ptr_digits :: "nat \<Rightarrow> uint64 \<Rightarrow> string" where
  "ptr_digits 0 x = []"
| "ptr_digits (Suc i) x = digits ! unat (drop_bit 60 x) # ptr_digits i (push_bit 4 x)"

definition printptr :: "uint64 \<Rightarrow> string" where
  "printptr x = ''0x'' @ ptr_digits 16 x"

text \<open>Arguments of \<^verbatim>\<open>printf\<close>: \<^verbatim>\<open>va_arg\<close> takes the next one.\<close>

datatype varg = VInt uint32 | VLong uint64 | VStr "string option"

fun arg32 :: "varg list \<Rightarrow> uint32" where
  "arg32 (VInt x # _) = x" | "arg32 (VLong x # _) = ucast x" | "arg32 _ = 0"

fun arg64 :: "varg list \<Rightarrow> uint64" where
  "arg64 (VLong x # _) = x" | "arg64 (VInt x # _) = ucast x" | "arg64 _ = 0"

fun argstring :: "varg list \<Rightarrow> string" where
  "argstring (VStr (Some t) # _) = t" | "argstring _ = ''(null)''"

text \<open>What \<^verbatim>\<open>printf\<close> prints. A \<^verbatim>\<open>long\<close> argument is converted to the 32-bit parameter of \<^verbatim>\<open>printint\<close>.\<close>

fun fmt_out :: "string \<Rightarrow> varg list \<Rightarrow> string" where
  "fmt_out [] as = []"
| "fmt_out (cx # f) as =
     (if cx \<noteq> CHR ''%'' then cx # fmt_out f as
      else case f of
        [] \<Rightarrow> []
      | c0 # f1 \<Rightarrow>
          if c0 = CHR ''d'' then printint (arg32 as) 10 True @ fmt_out f1 (tl as)
          else if c0 = CHR ''l'' \<and> take 1 f1 = ''d'' then printint (ucast (arg64 as)) 10 True @ fmt_out (drop 1 f1) (tl as)
          else if c0 = CHR ''l'' \<and> take 2 f1 = ''ld'' then printint (ucast (arg64 as)) 10 True @ fmt_out (drop 2 f1) (tl as)
          else if c0 = CHR ''u'' then printint (arg32 as) 10 False @ fmt_out f1 (tl as)
          else if c0 = CHR ''l'' \<and> take 1 f1 = ''u'' then printint (ucast (arg64 as)) 10 False @ fmt_out (drop 1 f1) (tl as)
          else if c0 = CHR ''l'' \<and> take 2 f1 = ''lu'' then printint (ucast (arg64 as)) 10 False @ fmt_out (drop 2 f1) (tl as)
          else if c0 = CHR ''x'' then printint (arg32 as) 16 False @ fmt_out f1 (tl as)
          else if c0 = CHR ''l'' \<and> take 1 f1 = ''x'' then printint (ucast (arg64 as)) 16 False @ fmt_out (drop 1 f1) (tl as)
          else if c0 = CHR ''l'' \<and> take 2 f1 = ''lx'' then printint (ucast (arg64 as)) 16 False @ fmt_out (drop 2 f1) (tl as)
          else if c0 = CHR ''p'' then printptr (arg64 as) @ fmt_out f1 (tl as)
          else if c0 = CHR ''c'' then char_of (unat (arg32 as) mod 256) # fmt_out f1 (tl as)
          else if c0 = CHR ''s'' then argstring as @ fmt_out f1 (tl as)
          else if c0 = CHR ''%'' then CHR ''%'' # fmt_out f1 as
          else CHR ''%'' # c0 # fmt_out f1 as)"

definition printf :: "string \<Rightarrow> varg list \<Rightarrow> 'a cstate_scheme \<Rightarrow> 'a cstate_scheme res" where
  "printf fmt as s = for_res (\<lambda>c. consputc (of_char c)) (fmt_out fmt as) s"

section \<open>Console input\<close>

definition ctrl :: "char \<Rightarrow> int" where
  "ctrl x = of_char x - of_char (CHR ''@'')"

definition state_name :: "procstate \<Rightarrow> string" where
  "state_name st = (case st of UNUSED \<Rightarrow> ''unused'' | USED \<Rightarrow> ''used'' | SLEEPING \<Rightarrow> ''sleep '' | RUNNABLE \<Rightarrow> ''runble''
     | RUNNING \<Rightarrow> ''run   '' | ZOMBIE \<Rightarrow> ''zombie'')"

definition procdump_line :: "nat \<Rightarrow> 'a cstate_scheme \<Rightarrow> 'a cstate_scheme res" where
  "procdump_line i s =
     (let p = procs (pt s) i
      in if pstate p = UNUSED then Ok s
         else bind_res (printf ''%d %s %s'' [VInt (pid p), VStr (Some (state_name (pstate p))), VStr (Some (pname p))] s)
                (printf [CHR 0x0A] []))"

definition procdump :: "'a cstate_scheme \<Rightarrow> 'a cstate_scheme res" where
  "procdump s = bind_res (printf [CHR 0x0A] [] s) (for_res procdump_line [0..<NPROC])"

definition cslot :: "uint32 \<Rightarrow> nat" where
  "cslot i = unat i mod INPUT_BUF_SIZE"

text \<open>The loop of \<^verbatim>\<open>C('U')\<close>.\<close>

function kill_line :: "'a cstate_scheme \<Rightarrow> 'a cstate_scheme res" where
  "kill_line s =
     (if c_e (cons s) \<noteq> c_w (cons s) \<and> cbuf (cons s) (cslot (c_e (cons s) - 1)) \<noteq> 10
      then (case consputc BACKSPACE (s\<lparr>cons := (cons s)\<lparr>c_e := c_e (cons s) - 1\<rparr>\<rparr>) of
              Ok s1 \<Rightarrow> kill_line s1
            | e \<Rightarrow> e)
      else Ok s)"
  by pat_completeness auto
termination
proof (relation "measure (\<lambda>s. unat (c_e (cons s) - c_w (cons s)))", simp)
  fix s s1 :: "'a cstate_scheme"
  assume "c_e (cons s) \<noteq> c_w (cons s) \<and> cbuf (cons s) (cslot (c_e (cons s) - 1)) \<noteq> 10"
    and o: "consputc BACKSPACE (s\<lparr>cons := (cons s)\<lparr>c_e := c_e (cons s) - 1\<rparr>\<rparr>) = Ok s1"
  then have "c_e (cons s) - c_w (cons s) \<noteq> 0" by simp
  then have "unat (c_e (cons s) - c_w (cons s) - 1) < unat (c_e (cons s) - c_w (cons s))"
    by (rule measure_unat)
  moreover have "c_e (cons s) - 1 - c_w (cons s) = c_e (cons s) - c_w (cons s) - 1" by (simp add: algebra_simps)
  ultimately have "unat (c_e (cons s) - 1 - c_w (cons s)) < unat (c_e (cons s) - c_w (cons s))" by (simp only:)
  then show "(s1, s) \<in> measure (\<lambda>s. unat (c_e (cons s) - c_w (cons s)))"
    using consputc_cons [OF o] by simp
qed

declare kill_line.simps [simp del]

text \<open>The store of a character, and the wakeup at the end of a line.\<close>

definition store_char :: "uint8 \<Rightarrow> consbuf \<Rightarrow> consbuf" where
  "store_char c b = b\<lparr>cbuf := (cbuf b)(cslot (c_e b) := c), c_e := c_e b + 1\<rparr>"

definition line_done :: "int \<Rightarrow> consbuf \<Rightarrow> bool" where
  "line_done c b \<longleftrightarrow> c = 10 \<or> c = ctrl (CHR ''D'') \<or> c_e b - c_r b = of_nat INPUT_BUF_SIZE"

definition consoleintr :: "int \<Rightarrow> 'a cstate_scheme \<Rightarrow> 'a cstate_scheme res" where
  "consoleintr c s =
     (if c = ctrl (CHR ''P'') then procdump s
      else if c = ctrl (CHR ''U'') then kill_line s
      else if c = ctrl (CHR ''H'') \<or> c = 0x7f then
        (if c_e (cons s) \<noteq> c_w (cons s) then consputc BACKSPACE (s\<lparr>cons := (cons s)\<lparr>c_e := c_e (cons s) - 1\<rparr>\<rparr>) else Ok s)
      else if c \<noteq> 0 \<and> c_e (cons s) - c_r (cons s) < of_nat INPUT_BUF_SIZE then
        let c = (if c = 13 then 10 else c)
        in bind_res (consputc c s) (\<lambda>s1.
             let s2 = s1\<lparr>cons := store_char (of_int c) (cons s1)\<rparr>
             in Ok (if line_done c (cons s2) then kwakeup KCons (s2\<lparr>cons := (cons s2)\<lparr>c_w := c_e (cons s2)\<rparr>\<rparr>) else s2))
      else Ok s)"

partial_function (option) uart_input :: "'a cstate_scheme \<Rightarrow> 'a cstate_scheme res option" where
  "uart_input s =
     (case uartgetc (uart s) of (c, u) \<Rightarrow>
        if c = - 1 then Some (Ok (s\<lparr>uart := u\<rparr>))
        else case consoleintr c (s\<lparr>uart := u\<rparr>) of
               Ok s1 \<Rightarrow> uart_input s1
             | Panic e \<Rightarrow> Some (Panic e)
             | Loop \<Rightarrow> None)"

declare uart_input.simps [code]

text \<open>The part of \<^verbatim>\<open>uartintr\<close> for the transmitter.\<close>

definition uart_tx_done :: "'a cstate_scheme \<Rightarrow> 'a cstate_scheme" where
  "uart_tx_done s =
     (case ReadReg LSR (uart s) of (v, u) \<Rightarrow>
        if v AND LSR_TX_IDLE \<noteq> 0 then kwakeup KUartTx (s\<lparr>uart := u\<lparr>tx_busy := False\<rparr>\<rparr>) else s\<lparr>uart := u\<rparr>)"

definition uartintr :: "'a cstate_scheme \<Rightarrow> 'a cstate_scheme res" where
  "uartintr s = run_loop (uart_input (uart_tx_done (s\<lparr>uart := snd (ReadReg ISR (uart s))\<rparr>)))"

text \<open>
  \<^verbatim>\<open>uartwrite\<close> as a whole, when nothing else runs: while the process sleeps, UART
  interrupts arrive until one finds the transmitter idle and makes it runnable; the
  scheduler then runs it again.
\<close>

definition resume :: "nat \<Rightarrow> 'a mach_scheme \<Rightarrow> 'a mach_scheme" where
  "resume p s = s\<lparr>cur := Some p, pt := sleep_return p (upd_proc p (\<lambda>x. x\<lparr>pstate := RUNNING\<rparr>) (pt s))\<rparr>"

partial_function (option) wait_tx :: "'a cstate_scheme \<Rightarrow> 'a cstate_scheme res option" where
  "wait_tx s =
     (if tx_busy (uart s)
      then (case uartintr s of Ok s1 \<Rightarrow> wait_tx s1 | Panic e \<Rightarrow> Some (Panic e) | Loop \<Rightarrow> None)
      else Some (Ok s))"

declare wait_tx.simps [code]

partial_function (option) uartwrite_from :: "addr \<Rightarrow> int \<Rightarrow> int \<Rightarrow> 'a cstate_scheme \<Rightarrow> 'a cstate_scheme res option" where
  "uartwrite_from buf n i s =
     (case uartwrite_section buf n i s of
        (Ret _, _, s1) \<Rightarrow> Some (Ok s1)
      | (Sleep, i1, s1) \<Rightarrow>
          Option.bind (wait_tx (s1\<lparr>cur := None\<rparr>)) (\<lambda>r.
            case r of
              Ok s2 \<Rightarrow> uartwrite_from buf n i1 (resume (me s1) s2)
            | Panic e \<Rightarrow> Some (Panic e)
            | Loop \<Rightarrow> None))"

declare uartwrite_from.simps [code]

definition uartwrite :: "addr \<Rightarrow> int \<Rightarrow> 'a cstate_scheme \<Rightarrow> 'a cstate_scheme res" where
  "uartwrite buf n s = run_loop (uartwrite_from buf n 0 s)"

function consolewrite_loop :: "bool \<Rightarrow> uint32 \<Rightarrow> int \<Rightarrow> int \<Rightarrow> 'a cstate_scheme \<Rightarrow> (int \<times> 'a cstate_scheme) res" where
  "consolewrite_loop user_src src n i s =
     (if i < n then
        bind_res (either_copyin (outbuf s) user_src (src + of_int i) (of_int (min 32 (n - i))) s) (\<lambda>(ok, s1).
          if \<not> ok then Ok (i, s1)
          else bind_res (uartwrite (outbuf s1) (min 32 (n - i)) s1) (consolewrite_loop user_src src n (i + min 32 (n - i))))
      else Ok (i, s))"
  by pat_completeness auto
termination
  by (relation "measure (\<lambda>(u, src, n, i, s). nat (n - i))") auto

declare consolewrite_loop.simps [simp del]

definition consolewrite :: "bool \<Rightarrow> uint32 \<Rightarrow> int \<Rightarrow> 'a cstate_scheme \<Rightarrow> (int \<times> 'a cstate_scheme) res" where
  "consolewrite user_src src n s = consolewrite_loop user_src src n 0 s"

text \<open>One byte from a local variable at \<open>klocal\<close>, as in \<^verbatim>\<open>consoleread\<close>.\<close>

definition put_byte :: "bool \<Rightarrow> uint32 \<Rightarrow> uint8 \<Rightarrow> 'a mach_scheme \<Rightarrow> (bool \<times> 'a mach_scheme) res" where
  "put_byte user_dst dst c s =
     either_copyout user_dst dst (klocal s) 1 (s\<lparr>km := (km s)\<lparr>phys := (phys (km s))(klocal s := c)\<rparr>\<rparr>)"

text \<open>
  A critical section of \<^verbatim>\<open>consoleread\<close>: \<open>target\<close> bytes were asked for and \<open>n\<close> are still
  wanted.
\<close>

function consoleread_section ::
    "bool \<Rightarrow> int \<Rightarrow> uint32 \<Rightarrow> int \<Rightarrow> 'a cstate_scheme \<Rightarrow> (int blk \<times> uint32 \<times> int \<times> 'a cstate_scheme) res" where
  "consoleread_section user_dst target dst n s =
     (if n > 0 then
        if c_r (cons s) = c_w (cons s) then
          (if killed (me s) (pt s) then Ok (Ret (- 1), dst, n, s) else Ok (Sleep, dst, n, ksleep KCons s))
        else
          let c = cbuf (cons s) (cslot (c_r (cons s)));
              s1 = s\<lparr>cons := (cons s)\<lparr>c_r := c_r (cons s) + 1\<rparr>\<rparr>
          in if uint c = ctrl (CHR ''D'') then
               Ok (Ret (target - n), dst, n, if n < target then s1\<lparr>cons := (cons s1)\<lparr>c_r := c_r (cons s1) - 1\<rparr>\<rparr> else s1)
             else bind_res (put_byte user_dst dst c s1) (\<lambda>(ok, s2).
               if \<not> ok then Ok (Ret (target - n), dst, n, s2)
               else if c = 10 then Ok (Ret (target - (n - 1)), dst + 1, n - 1, s2)
               else consoleread_section user_dst target (dst + 1) (n - 1) s2)
      else Ok (Ret (target - n), dst, n, s))"
  by pat_completeness auto
termination
  by (relation "measure (\<lambda>(u, target, dst, n, s). nat n)") auto

declare consoleread_section.simps [simp del]

definition consoleread :: "bool \<Rightarrow> uint32 \<Rightarrow> int \<Rightarrow> 'a cstate_scheme \<Rightarrow> (int blk \<times> uint32 \<times> int \<times> 'a cstate_scheme) res" where
  "consoleread user_dst dst n s = consoleread_section user_dst n dst n s"

definition consoleinit :: "'a cstate_scheme \<Rightarrow> 'a cstate_scheme" where
  "consoleinit s = s\<lparr>uart := uartinit (uart s), dev_console := True\<rparr>"

end
