(* ===== verification/File.thy ===== *)
theory File
  imports Console Pipe
begin

text \<open>
  \<^verbatim>\<open>kernel/file.c\<close>, \<^verbatim>\<open>pipealloc\<close> of \<^verbatim>\<open>kernel/pipe.c\<close> and the allocation of semaphores of
  \<^verbatim>\<open>kernel/sem.c\<close>: the table of open files and the objects behind them. A \<^verbatim>\<open>struct file *\<close> is an
  index into \<^verbatim>\<open>ftable\<close>; the pipes and semaphores that live in pages from \<^verbatim>\<open>kalloc\<close> are kept in
  \<open>pipes\<close> and \<open>sems\<close> by address. A call that has to sleep has the outcome \<open>Loop\<close>, since nothing
  else runs.
\<close>

section \<open>State\<close>

definition NFILE :: nat where "NFILE = 100"
definition NDEV :: int where "NDEV = 10"
definition CONSOLE :: int where "CONSOLE = 1"

datatype fdtype = FD_NONE | FD_PIPE | FD_INODE | FD_DEVICE | FD_SEM

record kfile =
  f_type :: fdtype
  f_ref :: int
  f_readable :: bool
  f_writable :: bool
  f_pipe :: addr
  f_sem :: addr
  f_ip :: "nat option"
  f_off :: uint32
  f_major :: uint16

text \<open>The value of a semaphore is a 32-bit \<^verbatim>\<open>int\<close>, read with \<open>sint\<close>.\<close>

record semaphore =
  sem_value :: uint32
  sem_ref :: int
  sem_destroyed :: bool

record kstate = cstate +
  ftable :: "nat \<Rightarrow> kfile"
  pipes :: "addr \<Rightarrow> pipe"
  sems :: "addr \<Rightarrow> semaphore"

definition upd_file :: "nat \<Rightarrow> (kfile \<Rightarrow> kfile) \<Rightarrow> 'a kstate_scheme \<Rightarrow> 'a kstate_scheme" where
  "upd_file f g s = s\<lparr>ftable := (ftable s)(f := g (ftable s f))\<rparr>"

definition upd_sem :: "addr \<Rightarrow> (semaphore \<Rightarrow> semaphore) \<Rightarrow> 'a kstate_scheme \<Rightarrow> 'a kstate_scheme" where
  "upd_sem a g s = s\<lparr>sems := (sems s)(a := g (sems s a))\<rparr>"

definition upd_me :: "(proc \<Rightarrow> proc) \<Rightarrow> 'a mach_scheme \<Rightarrow> 'a mach_scheme" where
  "upd_me g s = s\<lparr>pt := upd_proc (me s) g (pt s)\<rparr>"

section \<open>Semaphores\<close>

definition sem_alloc :: "int \<Rightarrow> 'a kstate_scheme \<Rightarrow> addr \<times> 'a kstate_scheme" where
  "sem_alloc v s =
     (case kalloc (km s) of (a, k) \<Rightarrow>
        let s1 = s\<lparr>km := k\<rparr>
        in if a = 0 then (0, s1)
           else (a, upd_sem a (\<lambda>x. x\<lparr>sem_value := of_int v, sem_ref := 0, sem_destroyed := False\<rparr>) s1))"

definition sem_close :: "addr \<Rightarrow> 'a kstate_scheme \<Rightarrow> 'a kstate_scheme res" where
  "sem_close a s =
     (let s1 = upd_sem a (\<lambda>x. x\<lparr>sem_ref := sem_ref x - 1\<rparr>) s
      in if sem_ref (sems s1 a) > 0 then Ok s1
         else bind_res (kfree a (km s1)) (\<lambda>k. Ok (s1\<lparr>km := k\<rparr>)))"

section \<open>Files\<close>

definition filealloc :: "'a kstate_scheme \<Rightarrow> nat option \<times> 'a kstate_scheme" where
  "filealloc s =
     (case find (\<lambda>f. f_ref (ftable s f) = 0) [0..<NFILE] of
        None \<Rightarrow> (None, s)
      | Some f \<Rightarrow> (Some f, upd_file f (\<lambda>x. x\<lparr>f_ref := 1\<rparr>) s))"

definition filedup :: "nat \<Rightarrow> 'a kstate_scheme \<Rightarrow> 'a kstate_scheme res" where
  "filedup f s =
     (if f_ref (ftable s f) < 1 then Panic ''filedup'' else Ok (upd_file f (\<lambda>x. x\<lparr>f_ref := f_ref x + 1\<rparr>) s))"

definition transaction :: "('a lstate_scheme \<Rightarrow> 'a lstate_scheme res) \<Rightarrow> 'a lstate_scheme \<Rightarrow> 'a lstate_scheme res" where
  "transaction g s = bind_res (alone (begin_op s)) (\<lambda>(_, s1). bind_res (g s1) end_op)"

definition close_object :: "kfile \<Rightarrow> 'a kstate_scheme \<Rightarrow> 'a kstate_scheme res" where
  "close_object ff s =
     (case f_type ff of
        FD_PIPE \<Rightarrow>
          bind_res (pipeclose (f_pipe ff) (f_writable ff) (pipes s (f_pipe ff)) s) (\<lambda>(P, s1).
            Ok (s1\<lparr>pipes := (pipes s1)(f_pipe ff := P)\<rparr>))
      | FD_SEM \<Rightarrow> sem_close (f_sem ff) s
      | FD_NONE \<Rightarrow> Ok s
      | _ \<Rightarrow> (case f_ip ff of None \<Rightarrow> Panic ''kerneltrap'' | Some ip \<Rightarrow> transaction (iput ip) s))"

definition fileclose :: "nat \<Rightarrow> 'a kstate_scheme \<Rightarrow> 'a kstate_scheme res" where
  "fileclose f s =
     (if f_ref (ftable s f) < 1 then Panic ''fileclose''
      else let s1 = upd_file f (\<lambda>x. x\<lparr>f_ref := f_ref x - 1\<rparr>) s
      in if f_ref (ftable s1 f) > 0 then Ok s1
         else let ff = ftable s1 f
              in close_object ff (upd_file f (\<lambda>x. x\<lparr>f_ref := 0, f_type := FD_NONE\<rparr>) s1))"

text \<open>\<^verbatim>\<open>struct stat\<close> in memory; the size is a 64-bit field at offset 16.\<close>

definition sizeof_stat :: uint32 where "sizeof_stat = 24"

definition store_stat :: "mem \<Rightarrow> addr \<Rightarrow> stat \<Rightarrow> mem" where
  "store_stat m a st =
     st32 (st32 (st16 (st16 (st32 (st32 m a (st_dev st)) (a + 4) (st_ino st)) (a + 8) (st_type st)) (a + 10) (st_nlink st))
       (a + 16) (ucast (st_size st))) (a + 20) (ucast (drop_bit 32 (st_size st)))"

text \<open>\<^verbatim>\<open>copyout\<close> of the local variable at \<open>klocal\<close>.\<close>

definition copyout_local :: "uint32 \<Rightarrow> uint32 \<Rightarrow> 'a mach_scheme \<Rightarrow> (bool \<times> 'a mach_scheme) res" where
  "copyout_local va len s = either_copyout True va (klocal s) len s"

definition poke :: "(mem \<Rightarrow> mem) \<Rightarrow> 'a mach_scheme \<Rightarrow> 'a mach_scheme" where
  "poke g s = s\<lparr>km := (km s)\<lparr>phys := g (phys (km s))\<rparr>\<rparr>"

definition filestat :: "nat \<Rightarrow> uint32 \<Rightarrow> 'a kstate_scheme \<Rightarrow> (int \<times> 'a kstate_scheme) res" where
  "filestat f addr s =
     (let x = ftable s f
      in if f_type x = FD_INODE \<or> f_type x = FD_DEVICE then
           bind_res (ilock (f_ip x) s) (\<lambda>s1.
             let st = stati (the (f_ip x)) s1
             in bind_res (iunlock (f_ip x) s1) (\<lambda>s2.
                bind_res (copyout_local addr sizeof_stat (poke (\<lambda>m. store_stat m (klocal s2) st) s2)) (\<lambda>(ok, s3).
                  Ok (if ok then 0 else - 1, s3))))
         else Ok (- 1, s))"

text \<open>The device switch has the console only.\<close>

definition devsw_set :: "int \<Rightarrow> 'a cstate_scheme \<Rightarrow> bool" where
  "devsw_set mj s \<longleftrightarrow> 0 \<le> mj \<and> mj < NDEV \<and> mj = CONSOLE \<and> dev_console s"

definition returned :: "'a blk \<Rightarrow> 's \<Rightarrow> ('a \<times> 's) res" where
  "returned r s = alone (r, s)"

definition fileread :: "nat \<Rightarrow> uint32 \<Rightarrow> int \<Rightarrow> 'a kstate_scheme \<Rightarrow> (int \<times> 'a kstate_scheme) res" where
  "fileread f addr n s =
     (let x = ftable s f
      in if \<not> f_readable x then Ok (- 1, s)
         else case f_type x of
           FD_PIPE \<Rightarrow>
             bind_res (piperead (f_pipe x) addr n (pipes s (f_pipe x)) s) (\<lambda>(r, P, s1).
               returned r (s1\<lparr>pipes := (pipes s1)(f_pipe x := P)\<rparr>))
         | FD_DEVICE \<Rightarrow>
             if \<not> devsw_set (sint (f_major x)) s then Ok (- 1, s)
             else bind_res (consoleread True addr n s) (\<lambda>(r, _, _, s1). returned r s1)
         | FD_INODE \<Rightarrow>
             bind_res (ilock (f_ip x) s) (\<lambda>s1.
             bind_res (readi (the (f_ip x)) True addr (f_off x) (of_int n) s1) (\<lambda>(r, s2).
               let s3 = (if r > 0 then upd_file f (\<lambda>y. y\<lparr>f_off := f_off y + of_int r\<rparr>) s2 else s2)
               in bind_res (iunlock (f_ip x) s3) (\<lambda>s4. Ok (r, s4))))
         | _ \<Rightarrow> Panic ''fileread'')"

definition write_max :: int where
  "write_max = (int MAXOPBLOCKS - 1 - 1 - 2) div 2 * int BSIZE"

text \<open>One turn of the loop of \<^verbatim>\<open>filewrite\<close>: a transaction that writes up to \<^verbatim>\<open>max\<close> bytes.\<close>

definition write_chunk :: "nat \<Rightarrow> uint32 \<Rightarrow> int \<Rightarrow> int \<Rightarrow> 'a kstate_scheme \<Rightarrow> (int \<times> 'a kstate_scheme) res" where
  "write_chunk f addr i n1 s =
     (let ip = f_ip (ftable s f)
      in bind_res (alone (begin_op s)) (\<lambda>(_, s1).
         bind_res (ilock ip s1) (\<lambda>s2.
         bind_res (writei (the ip) True (addr + of_int i) (f_off (ftable s2 f)) (of_int n1) s2) (\<lambda>(r, s3).
           let s4 = (if r > 0 then upd_file f (\<lambda>y. y\<lparr>f_off := f_off y + of_int r\<rparr>) s3 else s3)
           in bind_res (iunlock ip s4) (\<lambda>s5. bind_res (end_op s5) (\<lambda>s6. Ok (r, s6)))))))"

function filewrite_loop :: "nat \<Rightarrow> uint32 \<Rightarrow> int \<Rightarrow> int \<Rightarrow> 'a kstate_scheme \<Rightarrow> (int \<times> 'a kstate_scheme) res" where
  "filewrite_loop f addr n i s =
     (if i < n then
        bind_res (write_chunk f addr i (min (n - i) write_max) s) (\<lambda>(r, s1).
          if r \<noteq> min (n - i) write_max then Ok (i, s1)
          else filewrite_loop f addr n (i + min (n - i) write_max) s1)
      else Ok (i, s))"
  by pat_completeness auto
termination
  by (relation "measure (\<lambda>(f, addr, n, i, s). nat (n - i))") (auto simp: write_max_def MAXOPBLOCKS_def BSIZE_def)

declare filewrite_loop.simps [simp del]

definition filewrite :: "nat \<Rightarrow> uint32 \<Rightarrow> int \<Rightarrow> 'a kstate_scheme \<Rightarrow> (int \<times> 'a kstate_scheme) res" where
  "filewrite f addr n s =
     (let x = ftable s f
      in if \<not> f_writable x then Ok (- 1, s)
         else case f_type x of
           FD_PIPE \<Rightarrow>
             bind_res (pipewrite (f_pipe x) addr n (pipes s (f_pipe x)) s) (\<lambda>(r, _, P, s1).
               returned r (s1\<lparr>pipes := (pipes s1)(f_pipe x := P)\<rparr>))
         | FD_DEVICE \<Rightarrow> if \<not> devsw_set (sint (f_major x)) s then Ok (- 1, s) else consolewrite True addr n s
         | FD_INODE \<Rightarrow> bind_res (filewrite_loop f addr n 0 s) (\<lambda>(i, s1). Ok (if i = n then n else - 1, s1))
         | _ \<Rightarrow> Panic ''filewrite'')"

section \<open>Pipes\<close>

definition close_opt :: "nat option \<Rightarrow> 'a kstate_scheme \<Rightarrow> 'a kstate_scheme res" where
  "close_opt fo s = (case fo of None \<Rightarrow> Ok s | Some f \<Rightarrow> fileclose f s)"

text \<open>The \<^verbatim>\<open>bad\<close> exit: there is no page to free, since its allocation is the last step.\<close>

definition pipealloc :: "'a kstate_scheme \<Rightarrow> ((nat \<times> nat) option \<times> 'a kstate_scheme) res" where
  "pipealloc s =
     (case filealloc s of (f0, s1) \<Rightarrow>
      case (case f0 of None \<Rightarrow> (None, s1) | Some _ \<Rightarrow> filealloc s1) of (f1, s2) \<Rightarrow>
      case (if f0 = None \<or> f1 = None then (0, s2) else case kalloc (km s2) of (a, k) \<Rightarrow> (a, s2\<lparr>km := k\<rparr>)) of (pi, s3) \<Rightarrow>
        if pi = 0 then bind_res (close_opt f0 s3) (\<lambda>s4. bind_res (close_opt f1 s4) (\<lambda>s5. Ok (None, s5)))
        else
          let s4 = s3\<lparr>pipes := (pipes s3)(pi := pipe_init (pipes s3 pi))\<rparr>;
              s5 = upd_file (the f0) (\<lambda>x. x\<lparr>f_type := FD_PIPE, f_readable := True, f_writable := False, f_pipe := pi\<rparr>) s4;
              s6 = upd_file (the f1) (\<lambda>x. x\<lparr>f_type := FD_PIPE, f_readable := False, f_writable := True, f_pipe := pi\<rparr>) s5
          in Ok (Some (the f0, the f1), s6))"

end
