(* ===== verification/Process.thy ===== *)
theory Process
  imports File
begin

text \<open>
  The life of a process: the parts of \<^verbatim>\<open>kernel/taskmgr.c\<close> that allocate, copy, end and
  collect processes, and grow their memory.
\<close>

section \<open>State\<close>

text \<open>
  What remains of the kernel's state. \<open>k_trampoline\<close>, \<open>k_uservec\<close>, \<open>k_userret\<close>, \<open>k_forkret\<close>, \<open>k_usertrap\<close> and
  \<open>k_kernelvec\<close> are the addresses of those symbols; \<open>k_times\<close> is what \<^verbatim>\<open>r_time()\<close> answers, in the order of the
  calls; \<open>pathbuf\<close>, \<open>pathbuf2\<close>, \<open>elfbuf\<close>, \<open>phbuf\<close> and \<open>ustackbuf\<close> are the local arrays and structures of the system
  calls, \<open>str_dot\<close> and \<open>str_dotdot\<close> the addresses of the string literals \<^verbatim>\<open>"."\<close> and \<^verbatim>\<open>".."\<close>. \<open>k_csr\<close> holds the control registers.
\<close>

record csrs =
  sstatus :: uint32
  sepc :: uint32
  scause :: uint32
  stval :: uint32
  stvec :: uint32
  satp :: uint32
  stimecmp :: uint32

record kernel = kstate +
  k_trampoline :: addr
  k_uservec :: addr
  k_userret :: addr
  k_forkret :: addr
  k_usertrap :: addr
  k_kernelvec :: addr
  k_times :: "nat \<Rightarrow> uint32"
  k_timepos :: nat
  k_csr :: csrs
  k_first :: bool
  ticks :: uint32
  aslr_state :: uint32
  pathbuf :: addr
  pathbuf2 :: addr
  elfbuf :: addr
  phbuf :: addr
  ustackbuf :: addr
  str_dot :: addr
  str_dotdot :: addr

section \<open>Trap frames\<close>

text \<open>Offsets of the fields of \<^verbatim>\<open>struct trapframe\<close>.\<close>

abbreviation (input) TF_kernel_satp :: uint32 where "TF_kernel_satp \<equiv> 0"
abbreviation (input) TF_kernel_sp :: uint32 where "TF_kernel_sp \<equiv> 4"
abbreviation (input) TF_kernel_trap :: uint32 where "TF_kernel_trap \<equiv> 8"
abbreviation (input) TF_epc :: uint32 where "TF_epc \<equiv> 12"
abbreviation (input) TF_kernel_hartid :: uint32 where "TF_kernel_hartid \<equiv> 16"
abbreviation (input) TF_sp :: uint32 where "TF_sp \<equiv> 24"
abbreviation (input) TF_a0 :: uint32 where "TF_a0 \<equiv> 56"
abbreviation (input) TF_a1 :: uint32 where "TF_a1 \<equiv> 60"
abbreviation (input) TF_a7 :: uint32 where "TF_a7 \<equiv> 84"
definition sizeof_trapframe :: uint32 where "sizeof_trapframe = 144"

definition tf_get :: "uint32 \<Rightarrow> 'a mach_scheme \<Rightarrow> uint32" where
  "tf_get off s = ld32 (phys (km s)) (trapframe (myproc s) + off)"

definition tf_set :: "uint32 \<Rightarrow> uint32 \<Rightarrow> 'a mach_scheme \<Rightarrow> 'a mach_scheme" where
  "tf_set off v s = poke (\<lambda>m. st32 m (trapframe (myproc s) + off) v) s"

section \<open>Allocation\<close>

definition set_proc :: "nat \<Rightarrow> (proc \<Rightarrow> proc) \<Rightarrow> 'a mach_scheme \<Rightarrow> 'a mach_scheme" where
  "set_proc i g s = s\<lparr>pt := upd_proc i g (pt s)\<rparr>"

definition null_as :: addr_space where "null_as = \<lparr>pagetable = 0, regions = []\<rparr>"

definition freeproc :: "nat \<Rightarrow> 'a mach_scheme \<Rightarrow> 'a mach_scheme res" where
  "freeproc i s =
     bind_res (if trapframe (procs (pt s) i) \<noteq> 0 then kfree (trapframe (procs (pt s) i)) (km s) else Ok (km s)) (\<lambda>k1.
     bind_res (if pagetable (p_as (procs (pt s) i)) \<noteq> 0
               then bind_res (proc_addrspace_free (p_as (procs (pt s) i)) k1) (\<lambda>(_, k2). Ok k2) else Ok k1) (\<lambda>k3.
       Ok (set_proc i (\<lambda>p. p\<lparr>trapframe := 0, p_as := null_as, pid := 0, parent := None, pname := [], chan := KNull,
             killed_flag := False, xstate := 0, mlfq_level := 0, mlfq_ticks_used := 0, mlfq_stamp := 0,
             pstate := UNUSED\<rparr>) (s\<lparr>km := k3\<rparr>))))"

definition allocproc :: "'a kernel_scheme \<Rightarrow> (nat option \<times> 'a kernel_scheme) res" where
  "allocproc s =
     (case find_unused (pt s) of
        None \<Rightarrow> Ok (None, s)
      | Some i \<Rightarrow>
          (case allocpid (pt s) of (newpid, t1) \<Rightarrow>
             let s1 = set_proc i (\<lambda>p. mlfq_reset_proc (p\<lparr>pid := newpid, pstate := USED\<rparr>)) (s\<lparr>pt := t1\<rparr>)
             in case kalloc (km s1) of (tf, k) \<Rightarrow>
                  let s2 = set_proc i (\<lambda>p. p\<lparr>trapframe := tf\<rparr>) (s1\<lparr>km := k\<rparr>)
                  in if tf = 0 then bind_res (freeproc i s2) (\<lambda>s3. Ok (None, s3))
                     else bind_res (proc_addrspace_create (k_trampoline s2) tf (km s2)) (\<lambda>(as, k1).
                       let s3 = set_proc i (\<lambda>p. p\<lparr>p_as := as\<rparr>) (s2\<lparr>km := k1\<rparr>)
                       in if pagetable as = 0 then bind_res (freeproc i s3) (\<lambda>s4. Ok (None, s4))
                          else Ok (Some i, set_proc i (\<lambda>p. p\<lparr>pcontext := (\<lambda>_. 0)(0 := k_forkret s3,
                                 1 := kstack p + PGSIZE)\<rparr>) s3))))"

text \<open>The string \<^verbatim>\<open>"/"\<close> is at \<open>pathbuf\<close>.\<close>

definition userinit :: "'a kernel_scheme \<Rightarrow> 'a kernel_scheme res" where
  "userinit s =
     bind_res (allocproc s) (\<lambda>(io, s1).
       let s2 = s1\<lparr>pt := (pt s1)\<lparr>initproc := io\<rparr>\<rparr>
       in case io of
            None \<Rightarrow> Panic ''kerneltrap''
          | Some i \<Rightarrow>
              bind_res (namei (pathbuf s2) (poke (\<lambda>m. m(pathbuf s2 := slash, pathbuf s2 + 1 := 0)) s2)) (\<lambda>(ip, s3).
                Ok (set_proc i (\<lambda>p. p\<lparr>cwd := ip, pstate := RUNNABLE\<rparr>) s3)))"

section \<open>Memory\<close>

definition growproc :: "int \<Rightarrow> 'a mach_scheme \<Rightarrow> (int \<times> 'a mach_scheme) res" where
  "growproc n s =
     (let as = p_as (myproc s)
      in case as_region_index as MR_HEAP of
           None \<Rightarrow> Ok (- 1, s)
         | Some idx \<Rightarrow>
             let sz = va_end (regions as ! idx);
                 newsz = sz + of_int n;
                 finish = (\<lambda>newsz s1.
                   case as_resize_region as MR_HEAP newsz of
                     None \<Rightarrow> Ok (- 1, s1)
                   | Some as' \<Rightarrow> Ok (0, upd_me (\<lambda>p. p\<lparr>p_as := as'\<rparr>) s1))
             in if n > 0 then
                  if newsz < sz \<or> (ucast newsz :: uint64) > TRAPFRAME then Ok (- 1, s)
                  else bind_res (uvmalloc as sz newsz PTE_W (km s)) (\<lambda>(r, k).
                    if r = 0 then Ok (- 1, s\<lparr>km := k\<rparr>) else finish r (s\<lparr>km := k\<rparr>))
                else if n < 0 then
                  if newsz > sz \<or> newsz < va_start (regions as ! idx) then finish sz s
                  else bind_res (uvmdealloc as sz newsz (km s)) (\<lambda>(r, k). finish r (s\<lparr>km := k\<rparr>))
                else finish newsz s)"

section \<open>Fork, exit and wait\<close>

definition fork_file :: "nat \<Rightarrow> nat \<Rightarrow> nat \<Rightarrow> 'a kstate_scheme \<Rightarrow> 'a kstate_scheme res" where
  "fork_file p np fd s =
     (case ofile (procs (pt s) p) fd of
        None \<Rightarrow> Ok s
      | Some f \<Rightarrow> bind_res (filedup f s) (\<lambda>s1. Ok (set_proc np (\<lambda>x. x\<lparr>ofile := (ofile x)(fd := Some f)\<rparr>) s1)))"

definition kfork :: "'a kernel_scheme \<Rightarrow> (int \<times> 'a kernel_scheme) res" where
  "kfork s =
     bind_res (allocproc s) (\<lambda>(npo, s1).
       case npo of
         None \<Rightarrow> Ok (- 1, s1)
       | Some np \<Rightarrow>
           bind_res (uvmcopy (p_as (procs (pt s1) np)) (p_as (myproc s1)) (km s1)) (\<lambda>(ok, as, k).
             let s2 = set_proc np (\<lambda>x. x\<lparr>p_as := as\<rparr>) (s1\<lparr>km := k\<rparr>)
             in if \<not> ok then bind_res (freeproc np s2) (\<lambda>s3. Ok (- 1, s3))
                else
                  let ntf = trapframe (procs (pt s2) np);
                      s3 = poke (\<lambda>m. memmove m ntf (trapframe (myproc s2)) sizeof_trapframe) s2;
                      s4 = set_proc np (\<lambda>x. x\<lparr>mlfq_level := 0, mlfq_ticks_used := 0, mlfq_stamp := 0\<rparr>) s3;
                      s5 = poke (\<lambda>m. st32 m (ntf + TF_a0) 0) s4
                  in bind_res (for_res (fork_file (me s5) np) [0..<NOFILE] s5) (\<lambda>s6.
                       case cwd (myproc s6) of
                         None \<Rightarrow> Panic ''kerneltrap''
                       | Some ip \<Rightarrow>
                           let s7 = set_proc np (\<lambda>x. x\<lparr>cwd := Some ip, pname := take 15 (pname (myproc s6))\<rparr>) (idup ip s6);
                               npid = pid (procs (pt s7) np)
                           in Ok (sint npid, set_proc np (\<lambda>x. x\<lparr>parent := Some (me s7), pstate := RUNNABLE\<rparr>) s7))))"

definition close_fd :: "nat \<Rightarrow> 'a kstate_scheme \<Rightarrow> 'a kstate_scheme res" where
  "close_fd fd s =
     (case ofile (myproc s) fd of
        None \<Rightarrow> Ok s
      | Some f \<Rightarrow> bind_res (fileclose f s) (\<lambda>s1. Ok (upd_me (\<lambda>x. x\<lparr>ofile := (ofile x)(fd := None)\<rparr>) s1)))"

text \<open>\<open>kexit\<close> up to the switch to the scheduler, from which it never returns.\<close>

definition kexit :: "uint32 \<Rightarrow> 'a kstate_scheme \<Rightarrow> 'a kstate_scheme res" where
  "kexit status s =
     (if Some (me s) = initproc (pt s) then Panic ''init exiting''
      else bind_res (for_res close_fd [0..<NOFILE] s) (\<lambda>s1.
        case cwd (myproc s1) of
          None \<Rightarrow> Panic ''kerneltrap''
        | Some ip \<Rightarrow>
            bind_res (transaction (iput ip) s1) (\<lambda>s2.
              let s3 = upd_me (\<lambda>x. x\<lparr>cwd := None\<rparr>) s2;
                  s4 = s3\<lparr>pt := reparent (cur s3) (me s3) (pt s3)\<rparr>;
                  s5 = kwakeup (proc_chan (parent (myproc s4))) s4
              in Ok (upd_me (\<lambda>x. x\<lparr>xstate := status, pstate := ZOMBIE\<rparr>) s5))))"

primrec kwait_scan :: "nat list \<Rightarrow> nat \<Rightarrow> bool \<Rightarrow> ptable \<Rightarrow> bool \<times> nat option" where
  "kwait_scan [] p havekids t = (havekids, None)"
| "kwait_scan (pp # is) p havekids t =
     (if parent (procs t pp) = Some p
      then (if pstate (procs t pp) = ZOMBIE then (True, Some pp) else kwait_scan is p True t)
      else kwait_scan is p havekids t)"

text \<open>\<open>kwait\<close> until it returns or sleeps.\<close>

definition kwait :: "uint32 \<Rightarrow> 'a mach_scheme \<Rightarrow> (int blk \<times> 'a mach_scheme) res" where
  "kwait addr s =
     (case kwait_scan [0..<NPROC] (me s) False (pt s) of
        (_, Some pp) \<Rightarrow>
          let zpid = pid (procs (pt s) pp)
          in bind_res
               (if addr \<noteq> 0 then copyout_local addr 4 (poke (\<lambda>m. st32 m (klocal s) (xstate (procs (pt s) pp))) s)
                else Ok (True, s)) (\<lambda>(ok, s1).
               if \<not> ok then Ok (Ret (- 1), s1)
               else bind_res (freeproc pp s1) (\<lambda>s2. Ok (Ret (sint zpid), s2)))
      | (havekids, None) \<Rightarrow>
          if \<not> havekids \<or> killed (me s) (pt s) then Ok (Ret (- 1), s) else Ok (Sleep, ksleep (KProc (me s)) s))"

end
