(* ===== verification/Exec.thy ===== *)
theory Exec
  imports Process
begin

text \<open>
  \<^verbatim>\<open>kernel/loader_exec.c\<close>: \<^verbatim>\<open>kexec\<close> and its helpers, with the ELF headers of \<^verbatim>\<open>kernel/elf.h\<close>. The
  headers are read into the kernel memory at \<open>elfbuf\<close> and \<open>phbuf\<close>. A step that may take the
  exit \<^verbatim>\<open>bad\<close> yields \<open>None\<close> then.
\<close>

section \<open>Address-space randomisation\<close>

definition ASLR_CODE_MAX_PAGES :: uint32 where "ASLR_CODE_MAX_PAGES = 2"
definition ASLR_STACK_GAP_MAX_PAGES :: uint32 where "ASLR_STACK_GAP_MAX_PAGES = 1"
definition ASLR_HEAP_GAP_MAX_PAGES :: uint32 where "ASLR_HEAP_GAP_MAX_PAGES = 0"
definition USERSTACK :: uint32 where "USERSTACK = 1"
definition MAXARG :: nat where "MAXARG = 32"

definition r_time :: "'a kernel_scheme \<Rightarrow> uint32 \<times> 'a kernel_scheme" where
  "r_time s = (k_times s (k_timepos s), s\<lparr>k_timepos := k_timepos s + 1\<rparr>)"

definition aslr_next :: "'a kernel_scheme \<Rightarrow> uint32 \<times> 'a kernel_scheme" where
  "aslr_next s =
     (case r_time s of (t, s1) \<Rightarrow>
        let x0 = aslr_state s1 XOR (t + 0x7f4a7c15);
            x1 = x0 XOR push_bit 13 x0;
            x2 = x1 XOR drop_bit 17 x1;
            x3 = x2 XOR push_bit 5 x2
        in (x3, s1\<lparr>aslr_state := x3\<rparr>))"

definition aslr_pages :: "uint32 \<Rightarrow> 'a kernel_scheme \<Rightarrow> uint32 \<times> 'a kernel_scheme" where
  "aslr_pages max_pages s =
     (if max_pages = 0 then (0, s) else case aslr_next s of (x, s1) \<Rightarrow> (x mod (max_pages + 1), s1))"

section \<open>Segments\<close>

partial_function (option) allocseg_loop :: "addr \<Rightarrow> uint32 \<Rightarrow> uint32 \<Rightarrow> uint32 \<Rightarrow> kmem \<Rightarrow> (bool \<times> kmem) res option" where
  "allocseg_loop pgt a lst pm s =
     (case walk pgt a False s of
        Panic e \<Rightarrow> Some (Panic e)
      | Loop \<Rightarrow> None
      | Ok (pte, s1) \<Rightarrow>
          if pte \<noteq> 0 \<and> has (pte_at s1 pte) PTE_V then
            let s2 = set_pte pte (pte_at s1 pte OR (PTE_R OR PTE_U OR pm)) s1
            in if a = lst then Some (Ok (True, s2)) else allocseg_loop pgt (a + PGSIZE) lst pm s2
          else
            (case kalloc s1 of (pg, s2) \<Rightarrow>
               if pg = 0 then Some (Ok (False, s2))
               else (case mappages pgt a PGSIZE pg (PTE_R OR PTE_U OR pm) (s2\<lparr>phys := memset (phys s2) pg 0 PGSIZE\<rparr>) of
                       Panic e \<Rightarrow> Some (Panic e)
                     | Loop \<Rightarrow> None
                     | Ok (ok, s3) \<Rightarrow>
                         if \<not> ok then Some (bind_res (kfree pg s3) (\<lambda>s4. Ok (False, s4)))
                         else if a = lst then Some (Ok (True, s3)) else allocseg_loop pgt (a + PGSIZE) lst pm s3)))"

declare allocseg_loop.simps [code]

definition allocseg :: "addr \<Rightarrow> uint32 \<Rightarrow> uint32 \<Rightarrow> uint32 \<Rightarrow> kmem \<Rightarrow> (bool \<times> kmem) res" where
  "allocseg pgt va sz pm s =
     (if sz = 0 then Ok (True, s) else run_loop (allocseg_loop pgt va (PGROUNDDOWN (va + sz - 1)) pm s))"

definition flags2perm :: "uint32 \<Rightarrow> uint32" where
  "flags2perm fl =
     (let p = (if fl AND 1 \<noteq> 0 then PTE_X else 0) in if fl AND 2 \<noteq> 0 then p OR PTE_W else p)"

partial_function (option) loadseg_loop ::
    "addr \<Rightarrow> uint32 \<Rightarrow> nat \<Rightarrow> uint32 \<Rightarrow> uint32 \<Rightarrow> uint32 \<Rightarrow> 'a fstate_scheme \<Rightarrow> (bool \<times> 'a fstate_scheme) res option" where
  "loadseg_loop pgt va ip off sz i s =
     (if i < sz then
        (case walkaddr pgt (va + i) (km s) of
           Panic e \<Rightarrow> Some (Panic e)
         | Loop \<Rightarrow> None
         | Ok pa \<Rightarrow>
             if pa = 0 then Some (Panic ''loadseg: address should exist'')
             else let n = (if sz - i < PGSIZE then sz - i else PGSIZE)
             in (case readi ip False pa (off + i) n s of
                   Panic e \<Rightarrow> Some (Panic e)
                 | Loop \<Rightarrow> None
                 | Ok (r, s1) \<Rightarrow> if r \<noteq> uint n then Some (Ok (False, s1)) else loadseg_loop pgt va ip off sz (i + PGSIZE) s1))
      else Some (Ok (True, s)))"

declare loadseg_loop.simps [code]

definition loadseg ::
    "addr \<Rightarrow> uint32 \<Rightarrow> nat \<Rightarrow> uint32 \<Rightarrow> uint32 \<Rightarrow> 'a fstate_scheme \<Rightarrow> (bool \<times> 'a fstate_scheme) res" where
  "loadseg pgt va ip off sz s = run_loop (loadseg_loop pgt va ip off sz 0 s)"

section \<open>Headers\<close>

definition ELF_MAGIC :: uint32 where "ELF_MAGIC = 0x464C457F"
definition ELF_PROG_LOAD :: uint32 where "ELF_PROG_LOAD = 1"

text \<open>The fields of \<^verbatim>\<open>struct elfhdr\<close> and \<^verbatim>\<open>struct proghdr\<close> that are used.\<close>

record elfhdr =
  e_magic :: uint32
  e_entry :: uint32
  e_phoff :: uint32
  e_phnum :: uint16

definition sizeof_elfhdr :: uint32 where "sizeof_elfhdr = 52"

definition get_elfhdr :: "mem \<Rightarrow> addr \<Rightarrow> elfhdr" where
  "get_elfhdr m a = \<lparr>e_magic = ld32 m a, e_entry = ld32 m (a + 24), e_phoff = ld32 m (a + 28), e_phnum = ld16 m (a + 44)\<rparr>"

record proghdr =
  ph_type :: uint32
  ph_off :: uint32
  ph_vaddr :: uint32
  ph_filesz :: uint32
  ph_memsz :: uint32
  ph_flags :: uint32

definition sizeof_proghdr :: uint32 where "sizeof_proghdr = 32"

definition get_proghdr :: "mem \<Rightarrow> addr \<Rightarrow> proghdr" where
  "get_proghdr m a = \<lparr>ph_type = ld32 m a, ph_off = ld32 m (a + 4), ph_vaddr = ld32 m (a + 8), ph_filesz = ld32 m (a + 16),
     ph_memsz = ld32 m (a + 20), ph_flags = ld32 m (a + 24)\<rparr>"

text \<open>The checks of a segment before it is loaded.\<close>

definition seg_valid :: "proghdr \<Rightarrow> bool" where
  "seg_valid ph \<longleftrightarrow>
     \<not> ph_memsz ph < ph_filesz ph \<and>
     \<not> ph_vaddr ph + ph_memsz ph < ph_vaddr ph \<and>
     \<not> (ucast (ph_vaddr ph + ph_memsz ph) :: uint64) \<ge> TRAPFRAME \<and>
     ph_vaddr ph mod PGSIZE = 0"

text \<open>The loop over the program headers; \<open>sz\<close> is the end of the image so far.\<close>

primrec load_segs ::
    "nat \<Rightarrow> addr \<Rightarrow> nat \<Rightarrow> uint32 \<Rightarrow> uint32 \<Rightarrow> 'a kernel_scheme \<Rightarrow> (uint32 option \<times> 'a kernel_scheme) res" where
  "load_segs 0 pgt ip off sz s = Ok (Some sz, s)"
| "load_segs (Suc n) pgt ip off sz s =
     bind_res (readi ip False (phbuf s) off sizeof_proghdr s) (\<lambda>(r, s1).
       let ph = get_proghdr (phys (km s1)) (phbuf s1)
       in if r \<noteq> uint sizeof_proghdr then Ok (None, s1)
          else if ph_type ph \<noteq> ELF_PROG_LOAD then load_segs n pgt ip (off + sizeof_proghdr) sz s1
          else if \<not> seg_valid ph then Ok (None, s1)
          else bind_res (allocseg pgt (ph_vaddr ph) (ph_memsz ph) (flags2perm (ph_flags ph)) (km s1)) (\<lambda>(ok, k).
            let s2 = s1\<lparr>km := k\<rparr>; segend = ph_vaddr ph + ph_memsz ph
            in if \<not> ok then Ok (None, s2)
               else bind_res (loadseg pgt (ph_vaddr ph) ip (ph_off ph) (ph_filesz ph) s2) (\<lambda>(ok, s3).
                 if \<not> ok then Ok (None, s3)
                 else load_segs n pgt ip (off + sizeof_proghdr) (if segend > sz then segend else sz) s3)))"

section \<open>The stack and the arguments\<close>

text \<open>
  Copies the argument strings below \<open>sp\<close> and their addresses into \<^verbatim>\<open>ustack\<close>. The result is
  the number of arguments and the stack pointer.
\<close>

primrec push_args ::
    "addr list \<Rightarrow> addr \<Rightarrow> uint32 \<Rightarrow> nat \<Rightarrow> uint32 \<Rightarrow> 'a kernel_scheme \<Rightarrow> ((nat \<times> uint32) option \<times> 'a kernel_scheme) res" where
  "push_args [] pgt stackbase argc sp s = Ok (Some (argc, sp), s)"
| "push_args (arg # args) pgt stackbase argc sp s =
     (if argc \<ge> MAXARG then Ok (None, s)
      else bind_res (of_opt (strlen (phys (km s)) arg)) (\<lambda>len.
        let sp1 = sp - (of_nat len + 1);
            sp2 = sp1 - sp1 mod 16
        in if sp2 < stackbase then Ok (None, s)
           else bind_res (copyout (p_as (myproc s)) pgt sp2 arg (of_nat len + 1) (km s)) (\<lambda>(ok, k).
             let s1 = s\<lparr>km := k\<rparr>
             in if \<not> ok then Ok (None, s1)
                else push_args args pgt stackbase (argc + 1) sp2
                       (poke (\<lambda>m. st32 m (ustackbuf s1 + 4 * of_nat argc) sp2) s1))))"

text \<open>The last component of the path, for \<^verbatim>\<open>p->name\<close>.\<close>

partial_function (option) path_last :: "mem \<Rightarrow> addr \<Rightarrow> addr \<Rightarrow> addr option" where
  "path_last m s lst = (if m s \<noteq> 0 then path_last m (s + 1) (if m s = slash then s + 1 else lst) else Some lst)"

declare path_last.simps [code]

definition name_of :: "mem \<Rightarrow> addr \<Rightarrow> string" where
  "name_of m a = map (\<lambda>b. char_of (unat b)) (cstr m a 15)"

text \<open>The exit \<^verbatim>\<open>bad\<close>.\<close>

primrec free_pages :: "addr list \<Rightarrow> kmem \<Rightarrow> kmem res" where
  "free_pages [] k = Ok k"
| "free_pages (a # as) k = bind_res (kfree a k) (free_pages as)"

definition exec_bad :: "addr list \<Rightarrow> addr_space \<Rightarrow> nat option \<Rightarrow> 'a kernel_scheme \<Rightarrow> (int \<times> 'a kernel_scheme) res" where
  "exec_bad jitter new_as ipo s =
     bind_res (free_pages jitter (km s)) (\<lambda>k1.
     bind_res (if pagetable new_as \<noteq> 0 then bind_res (as_destroy new_as k1) (\<lambda>(_, k2). Ok k2) else Ok k1) (\<lambda>k3.
       let s1 = s\<lparr>km := k3\<rparr>
       in case ipo of
            None \<Rightarrow> Ok (- 1, s1)
          | Some ip \<Rightarrow> bind_res (iunlockput ip s1) (\<lambda>s2. bind_res (end_op s2) (\<lambda>s3. Ok (- 1, s3)))))"

text \<open>From the commitment to the new image on.\<close>

definition exec_commit :: "addr_space \<Rightarrow> uint32 \<Rightarrow> nat \<Rightarrow> uint32 \<Rightarrow> 'a kernel_scheme \<Rightarrow> (int \<times> 'a kernel_scheme) res" where
  "exec_commit new_as ent argc sp s =
     (let old_as = p_as (myproc s);
          s1 = upd_me (\<lambda>p. p\<lparr>p_as := new_as\<rparr>) s;
          s2 = tf_set TF_sp sp (tf_set TF_epc ent s1)
      in bind_res (as_destroy old_as (km s2)) (\<lambda>(_, k). Ok (int argc, s2\<lparr>km := k\<rparr>)))"

text \<open>The arguments and the rest, on the new stack.\<close>

definition exec_args ::
    "addr_space \<Rightarrow> uint32 \<Rightarrow> uint32 \<Rightarrow> uint32 \<Rightarrow> addr \<Rightarrow> addr list \<Rightarrow> 'a kernel_scheme \<Rightarrow> (int \<times> 'a kernel_scheme) res" where
  "exec_args new_as ent sp stackbase path argv s =
     bind_res (push_args argv (pagetable new_as) stackbase 0 sp s) (\<lambda>(ro, s1).
       case ro of
         None \<Rightarrow> exec_bad [] new_as None s1
       | Some (argc, sp1) \<Rightarrow>
           let s2 = poke (\<lambda>m. st32 m (ustackbuf s1 + 4 * of_nat argc) 0) s1;
               sp2 = sp1 - (of_nat argc + 1) * 4;
               sp3 = sp2 - sp2 mod 16
           in if sp3 < stackbase then exec_bad [] new_as None s2
              else bind_res (copyout (p_as (myproc s2)) (pagetable new_as) sp3 (ustackbuf s2) ((of_nat argc + 1) * 4) (km s2))
                (\<lambda>(ok, k).
                  let s3 = s2\<lparr>km := k\<rparr>
                  in if \<not> ok then exec_bad [] new_as None s3
                     else let s4 = tf_set TF_a1 sp3 s3
                     in bind_res (of_opt (path_last (phys (km s4)) path path)) (\<lambda>lst.
                          let s5 = upd_me (\<lambda>p. p\<lparr>pname := name_of (phys (km s4)) lst\<rparr>) s4
                          in if (ucast ent :: uint64) \<ge> TRAPFRAME then exec_bad [] new_as None s5
                             else exec_commit new_as ent argc sp3 s5)))"

definition add_regions :: "addr_space \<Rightarrow> uint32 \<Rightarrow> uint32 \<Rightarrow> uint32 \<Rightarrow> uint32 \<Rightarrow> addr_space option \<times> addr_space" where
  "add_regions as0 text_end stack_guard sz1 heap_base =
     (case as_add_region as0 0 text_end MR_TEXT (PTE_R OR PTE_W OR PTE_X) of
        None \<Rightarrow> (None, as0)
      | Some as1 \<Rightarrow>
          (case as_add_region as1 stack_guard sz1 MR_STACK (PTE_R OR PTE_W) of
             None \<Rightarrow> (None, as1)
           | Some as2 \<Rightarrow>
               (case as_add_region as2 heap_base heap_base MR_HEAP (PTE_R OR PTE_W) of
                  None \<Rightarrow> (None, as2)
                | Some as3 \<Rightarrow> (Some as3, as3))))"

text \<open>After the file is closed: the stack, the heap and the regions.\<close>

definition exec_stack ::
    "addr_space \<Rightarrow> uint32 \<Rightarrow> uint32 \<Rightarrow> addr \<Rightarrow> addr list \<Rightarrow> 'a kernel_scheme \<Rightarrow> (int \<times> 'a kernel_scheme) res" where
  "exec_stack as0 ent sz path argv s =
     (let text_end = PGROUNDUP sz
      in case aslr_pages ASLR_STACK_GAP_MAX_PAGES s of (g, s1) \<Rightarrow>
         let stack_end = text_end + g * PGSIZE + (USERSTACK + 1) * PGSIZE;
             stack_guard = stack_end - (USERSTACK + 1) * PGSIZE
         in if stack_end < text_end \<or> (ucast stack_end :: uint64) \<ge> TRAPFRAME then exec_bad [] as0 None s1
            else bind_res (uvmalloc as0 stack_guard stack_end PTE_W (km s1)) (\<lambda>(sz1, k).
              let s2 = s1\<lparr>km := k\<rparr>
              in if sz1 = 0 then exec_bad [] as0 None s2
                 else bind_res (uvmclear (pagetable as0) stack_guard (km s2)) (\<lambda>k2.
                   case aslr_pages ASLR_HEAP_GAP_MAX_PAGES (s2\<lparr>km := k2\<rparr>) of (h, s3) \<Rightarrow>
                     let heap_base = sz1 + h * PGSIZE
                     in if heap_base < sz1 \<or> (ucast heap_base :: uint64) \<ge> TRAPFRAME then exec_bad [] as0 None s3
                        else case add_regions as0 text_end stack_guard sz1 heap_base of
                          (None, as') \<Rightarrow> exec_bad [] as' None s3
                        | (Some as3, _) \<Rightarrow> exec_args as3 ent sz1 (sz1 - USERSTACK * PGSIZE) path argv s3)))"

primrec take_jitter :: "nat \<Rightarrow> kmem \<Rightarrow> addr list \<times> kmem" where
  "take_jitter 0 k = ([], k)"
| "take_jitter (Suc n) k =
     (case kalloc k of (a, k1) \<Rightarrow>
        if a = 0 then ([], k1) else case take_jitter n k1 of (as, k2) \<Rightarrow> (a # as, k2))"

definition kexec :: "addr \<Rightarrow> addr list \<Rightarrow> 'a kernel_scheme \<Rightarrow> (int \<times> 'a kernel_scheme) res" where
  "kexec path argv s0 =
     bind_res (alone (begin_op s0)) (\<lambda>(_, s).
     bind_res (namei path s) (\<lambda>(ipo, s1).
       case ipo of
         None \<Rightarrow> bind_res (end_op s1) (\<lambda>s2. Ok (- 1, s2))
       | Some ip \<Rightarrow>
           bind_res (ilock (Some ip) s1) (\<lambda>s2.
           bind_res (readi ip False (elfbuf s2) 0 sizeof_elfhdr s2) (\<lambda>(r, s3).
             let elf = get_elfhdr (phys (km s3)) (elfbuf s3)
             in if r \<noteq> uint sizeof_elfhdr \<or> e_magic elf \<noteq> ELF_MAGIC then exec_bad [] null_as (Some ip) s3
                else bind_res (proc_addrspace_create (k_trampoline s3) (trapframe (myproc s3)) (km s3)) (\<lambda>(as0, k).
                  let s4 = s3\<lparr>km := k\<rparr>
                  in if pagetable as0 = 0 then exec_bad [] as0 (Some ip) s4
                     else case aslr_pages ASLR_CODE_MAX_PAGES s4 of (j, s5) \<Rightarrow>
                       case take_jitter (unat j) (km s5) of (jitter, k2) \<Rightarrow>
                         bind_res (load_segs (unat (e_phnum elf)) (pagetable as0) ip (e_phoff elf) 0 (s5\<lparr>km := k2\<rparr>)) (\<lambda>(szo, s6).
                           case szo of
                             None \<Rightarrow> exec_bad jitter as0 (Some ip) s6
                           | Some sz \<Rightarrow>
                               bind_res (free_pages jitter (km s6)) (\<lambda>k3.
                               bind_res (iunlockput ip (s6\<lparr>km := k3\<rparr>)) (\<lambda>s7.
                               bind_res (end_op s7) (exec_stack as0 (e_entry elf) sz path argv)))))))))"

end
