(* ===== verification/Syscall.thy ===== *)
theory Syscall
  imports Exec
begin

text \<open>
  \<^verbatim>\<open>kernel/syscall_gate.c\<close>, \<^verbatim>\<open>kernel/sysproc.c\<close>, \<^verbatim>\<open>kernel/sysfile.c\<close> and the system calls of
  \<^verbatim>\<open>kernel/sem.c\<close>: arguments, handlers and the dispatcher. A handler that has to sleep has the
  outcome \<open>Loop\<close>, since nothing else runs; the sections of the blocking ones up to the sleep are
  separate definitions.
\<close>

section \<open>Arguments\<close>

definition argraw :: "nat \<Rightarrow> 'a mach_scheme \<Rightarrow> uint32 res" where
  "argraw n s = (if n \<le> 5 then Ok (tf_get (TF_a0 + 4 * of_nat n) s) else Panic ''argraw'')"

definition argint :: "nat \<Rightarrow> 'a mach_scheme \<Rightarrow> int res" where
  "argint n s = bind_res (argraw n s) (\<lambda>v. Ok (sint v))"

definition argaddr :: "nat \<Rightarrow> 'a mach_scheme \<Rightarrow> uint64 res" where
  "argaddr n s = bind_res (argraw n s) (\<lambda>v. Ok (ucast v))"

text \<open>The 8 bytes go to the local variable at \<open>klocal\<close>.\<close>

definition fetchaddr :: "uint64 \<Rightarrow> 'a mach_scheme \<Rightarrow> (int \<times> 'a mach_scheme) res" where
  "fetchaddr addr s =
     (let as = p_as (myproc s);
          heap_end = ucast (as_region_start as MR_HEAP + as_region_size as MR_HEAP) :: uint64
      in if addr \<ge> heap_end \<or> addr + 8 > heap_end then Ok (- 1, s)
         else bind_res (either_copyin (klocal s) True (ucast addr) 8 s) (\<lambda>(ok, s1). Ok (if ok then 0 else - 1, s1)))"

definition fetchstr :: "uint64 \<Rightarrow> addr \<Rightarrow> uint32 \<Rightarrow> 'a mach_scheme \<Rightarrow> (int \<times> 'a mach_scheme) res" where
  "fetchstr addr buf mx s =
     bind_res (copyinstr (pagetable (p_as (myproc s))) buf (ucast addr) mx (km s)) (\<lambda>(ok, k).
       let s1 = s\<lparr>km := k\<rparr>
       in if \<not> ok then Ok (- 1, s1)
          else bind_res (of_opt (strlen (phys (km s1)) buf)) (\<lambda>n. Ok (int n, s1)))"

definition argstr :: "nat \<Rightarrow> addr \<Rightarrow> uint32 \<Rightarrow> 'a mach_scheme \<Rightarrow> (int \<times> 'a mach_scheme) res" where
  "argstr n buf mx s = bind_res (argaddr n s) (\<lambda>a. fetchstr a buf mx s)"

definition MAXPATH :: uint32 where "MAXPATH = 128"

section \<open>Processes\<close>




definition sys_exit :: "'a kstate_scheme \<Rightarrow> 'a kstate_scheme res" where
  "sys_exit s = bind_res (argint 0 s) (\<lambda>n. kexit (of_int n) s)"

definition sys_getpid :: "'a mach_scheme \<Rightarrow> (int \<times> 'a mach_scheme) res" where
  "sys_getpid s = Ok (sint (pid (myproc s)), s)"

definition sys_fork :: "'a kernel_scheme \<Rightarrow> (int \<times> 'a kernel_scheme) res" where
  "sys_fork s = kfork s"

definition sys_wait :: "'a mach_scheme \<Rightarrow> (int \<times> 'a mach_scheme) res" where
  "sys_wait s = bind_res (argaddr 0 s) (\<lambda>p. bind_res (kwait (ucast p) s) alone)"

definition SBRK_EAGER :: int where "SBRK_EAGER = 1"
definition SBRK_LAZY :: int where "SBRK_LAZY = 2"

definition sys_sbrk :: "'a mach_scheme \<Rightarrow> (int \<times> 'a mach_scheme) res" where
  "sys_sbrk s =
     bind_res (argint 0 s) (\<lambda>n. bind_res (argint 1 s) (\<lambda>t.
       let as = p_as (myproc s);
           addr = ucast (as_region_start as MR_HEAP + as_region_size as MR_HEAP) :: uint64
       in if t = SBRK_EAGER \<or> n < 0 then
            bind_res (growproc n s) (\<lambda>(r, s1). Ok (if r < 0 then - 1 else uint addr, s1))
          else if addr + of_int n < addr then Ok (- 1, s)
          else if addr + of_int n > TRAPFRAME then Ok (- 1, s)
          else case as_resize_region as MR_HEAP (ucast (addr + of_int n)) of
                 None \<Rightarrow> Ok (- 1, s)
               | Some as' \<Rightarrow> Ok (uint addr, upd_me (\<lambda>p. p\<lparr>p_as := as'\<rparr>) s)))"

text \<open>The loop of \<^verbatim>\<open>sys_pause\<close>, entered with the tick count \<open>ticks0\<close> of the call.\<close>

definition pause_section :: "int \<Rightarrow> uint32 \<Rightarrow> 'a kernel_scheme \<Rightarrow> int blk \<times> 'a kernel_scheme" where
  "pause_section n ticks0 s =
     (if ticks s - ticks0 < of_int n then
        if killed (me s) (pt s) then (Ret (- 1), s) else (Sleep, ksleep KTicks s)
      else (Ret 0, s))"

definition sys_pause :: "'a kernel_scheme \<Rightarrow> (int \<times> 'a kernel_scheme) res" where
  "sys_pause s = bind_res (argint 0 s) (\<lambda>n. alone (pause_section (if n < 0 then 0 else n) (ticks s) s))"

definition sys_kill :: "'a mach_scheme \<Rightarrow> (int \<times> 'a mach_scheme) res" where
  "sys_kill s =
     bind_res (argint 0 s) (\<lambda>p.
       case kkill (of_int p) (pt s) of (ok, t) \<Rightarrow> Ok (if ok then 0 else - 1, s\<lparr>pt := t\<rparr>))"

definition sys_uptime :: "'a kernel_scheme \<Rightarrow> (int \<times> 'a kernel_scheme) res" where
  "sys_uptime s = Ok (uint (ticks s), s)"

section \<open>File descriptors\<close>

definition argfd :: "nat \<Rightarrow> 'a mach_scheme \<Rightarrow> (nat \<times> nat) option res" where
  "argfd n s =
     bind_res (argint n s) (\<lambda>fd.
       Ok (if fd < 0 \<or> fd \<ge> int NOFILE then None
           else map_option (\<lambda>f. (nat fd, f)) (ofile (myproc s) (nat fd))))"

definition fdalloc :: "nat \<Rightarrow> 'a mach_scheme \<Rightarrow> nat option \<times> 'a mach_scheme" where
  "fdalloc f s =
     (case find (\<lambda>fd. ofile (myproc s) fd = None) [0..<NOFILE] of
        None \<Rightarrow> (None, s)
      | Some fd \<Rightarrow> (Some fd, upd_me (\<lambda>p. p\<lparr>ofile := (ofile p)(fd := Some f)\<rparr>) s))"

definition clear_fd :: "nat \<Rightarrow> 'a mach_scheme \<Rightarrow> 'a mach_scheme" where
  "clear_fd fd s = upd_me (\<lambda>p. p\<lparr>ofile := (ofile p)(fd := None)\<rparr>) s"

definition sys_dup :: "'a kstate_scheme \<Rightarrow> (int \<times> 'a kstate_scheme) res" where
  "sys_dup s =
     bind_res (argfd 0 s) (\<lambda>r.
       case r of
         None \<Rightarrow> Ok (- 1, s)
       | Some (_, f) \<Rightarrow>
           (case fdalloc f s of
              (None, s1) \<Rightarrow> Ok (- 1, s1)
            | (Some fd, s1) \<Rightarrow> bind_res (filedup f s1) (\<lambda>s2. Ok (int fd, s2))))"

definition sys_read :: "'a kstate_scheme \<Rightarrow> (int \<times> 'a kstate_scheme) res" where
  "sys_read s =
     bind_res (argaddr 1 s) (\<lambda>p. bind_res (argint 2 s) (\<lambda>n. bind_res (argfd 0 s) (\<lambda>r.
       case r of None \<Rightarrow> Ok (- 1, s) | Some (_, f) \<Rightarrow> fileread f (ucast p) n s)))"

definition sys_write :: "'a kstate_scheme \<Rightarrow> (int \<times> 'a kstate_scheme) res" where
  "sys_write s =
     bind_res (argaddr 1 s) (\<lambda>p. bind_res (argint 2 s) (\<lambda>n. bind_res (argfd 0 s) (\<lambda>r.
       case r of None \<Rightarrow> Ok (- 1, s) | Some (_, f) \<Rightarrow> filewrite f (ucast p) n s)))"

definition sys_close :: "'a kstate_scheme \<Rightarrow> (int \<times> 'a kstate_scheme) res" where
  "sys_close s =
     bind_res (argfd 0 s) (\<lambda>r.
       case r of
         None \<Rightarrow> Ok (- 1, s)
       | Some (fd, f) \<Rightarrow> bind_res (fileclose f (clear_fd fd s)) (\<lambda>s1. Ok (0, s1)))"

definition sys_fstat :: "'a kstate_scheme \<Rightarrow> (int \<times> 'a kstate_scheme) res" where
  "sys_fstat s =
     bind_res (argaddr 1 s) (\<lambda>st. bind_res (argfd 0 s) (\<lambda>r.
       case r of None \<Rightarrow> Ok (- 1, s) | Some (_, f) \<Rightarrow> filestat f (ucast st) s))"

section \<open>Semaphores\<close>

definition sys_sem_create :: "'a kstate_scheme \<Rightarrow> (int \<times> 'a kstate_scheme) res" where
  "sys_sem_create s =
     bind_res (argint 0 s) (\<lambda>v.
       if v < 0 then Ok (- 1, s)
       else case filealloc s of
         (None, s1) \<Rightarrow> Ok (- 1, s1)
       | (Some f, s1) \<Rightarrow>
           (case sem_alloc v s1 of (a, s2) \<Rightarrow>
              if a = 0 then bind_res (fileclose f s2) (\<lambda>s3. Ok (- 1, s3))
              else case fdalloc f s2 of
                (None, s3) \<Rightarrow> bind_res (fileclose f s3) (\<lambda>s4. Ok (- 1, s4))
              | (Some fd, s3) \<Rightarrow>
                  let s4 = upd_file f (\<lambda>x. x\<lparr>f_type := FD_SEM, f_readable := True, f_writable := True, f_sem := a\<rparr>) s3
                  in Ok (int fd, upd_sem a (\<lambda>x. x\<lparr>sem_ref := sem_ref x + 1\<rparr>) s4)))"

text \<open>The descriptor of a semaphore: the checks that three of the calls make.\<close>

definition argsem :: "nat \<Rightarrow> 'a kstate_scheme \<Rightarrow> (nat \<times> nat) option res" where
  "argsem n s =
     bind_res (argfd n s) (\<lambda>r.
       Ok (case r of None \<Rightarrow> None | Some (fd, f) \<Rightarrow> if f_type (ftable s f) \<noteq> FD_SEM then None else Some (fd, f)))"

text \<open>The loop of \<^verbatim>\<open>sys_sem_wait\<close>, until it returns or sleeps.\<close>

definition sem_wait_section :: "addr \<Rightarrow> 'a kstate_scheme \<Rightarrow> int blk \<times> 'a kstate_scheme" where
  "sem_wait_section a s =
     (if sint (sem_value (sems s a)) \<le> 0 then
        if sem_destroyed (sems s a) \<or> killed (me s) (pt s) then (Ret (- 1), s) else (Sleep, ksleep (KSem a) s)
      else (Ret 0, upd_sem a (\<lambda>x. x\<lparr>sem_value := sem_value x - 1\<rparr>) s))"

definition sys_sem_wait :: "'a kstate_scheme \<Rightarrow> (int \<times> 'a kstate_scheme) res" where
  "sys_sem_wait s =
     bind_res (argsem 0 s) (\<lambda>r.
       case r of None \<Rightarrow> Ok (- 1, s) | Some (_, f) \<Rightarrow> alone (sem_wait_section (f_sem (ftable s f)) s))"

definition sys_sem_post :: "'a kstate_scheme \<Rightarrow> (int \<times> 'a kstate_scheme) res" where
  "sys_sem_post s =
     bind_res (argsem 0 s) (\<lambda>r.
       case r of
         None \<Rightarrow> Ok (- 1, s)
       | Some (_, f) \<Rightarrow>
           let a = f_sem (ftable s f)
           in Ok (0, kwakeup (KSem a) (upd_sem a (\<lambda>x. x\<lparr>sem_value := sem_value x + 1\<rparr>) s)))"

definition sys_sem_destroy :: "'a kstate_scheme \<Rightarrow> (int \<times> 'a kstate_scheme) res" where
  "sys_sem_destroy s =
     bind_res (argsem 0 s) (\<lambda>r.
       case r of
         None \<Rightarrow> Ok (- 1, s)
       | Some (fd, f) \<Rightarrow>
           let a = f_sem (ftable s f);
               s1 = kwakeup (KSem a) (upd_sem a (\<lambda>x. x\<lparr>sem_destroyed := True\<rparr>) s)
           in bind_res (fileclose f (clear_fd fd s1)) (\<lambda>s2. Ok (0, s2)))"

section \<open>Names\<close>

definition finish_op :: "int \<Rightarrow> 'a lstate_scheme \<Rightarrow> (int \<times> 'a lstate_scheme) res" where
  "finish_op r s = bind_res (end_op s) (\<lambda>s1. Ok (r, s1))"

text \<open>\<^verbatim>\<open>iunlockput(ip); end_op(); return -1;\<close>\<close>

definition put_fail :: "nat \<Rightarrow> 'a fstate_scheme \<Rightarrow> (int \<times> 'a fstate_scheme) res" where
  "put_fail ip s = bind_res (iunlockput ip s) (finish_op (- 1))"

definition add_nlink :: "uint16 \<Rightarrow> nat \<Rightarrow> 'a fstate_scheme \<Rightarrow> 'a fstate_scheme res" where
  "add_nlink d ip s = iupdate ip (upd_inode ip (\<lambda>p. p\<lparr>i_nlink := i_nlink p + d\<rparr>) s)"

text \<open>The exit \<^verbatim>\<open>bad\<close> of \<^verbatim>\<open>sys_link\<close>.\<close>

definition link_bad :: "nat \<Rightarrow> 'a fstate_scheme \<Rightarrow> (int \<times> 'a fstate_scheme) res" where
  "link_bad ip s =
     bind_res (ilock (Some ip) s) (\<lambda>s1. bind_res (add_nlink (- 1) ip s1) (put_fail ip))"

definition sys_link :: "'a kernel_scheme \<Rightarrow> (int \<times> 'a kernel_scheme) res" where
  "sys_link s0 =
     bind_res (argstr 0 (pathbuf2 s0) MAXPATH s0) (\<lambda>(r0, s1).
       if r0 < 0 then Ok (- 1, s1)
       else bind_res (argstr 1 (pathbuf s1) MAXPATH s1) (\<lambda>(r1, s2).
         if r1 < 0 then Ok (- 1, s2)
         else bind_res (alone (begin_op s2)) (\<lambda>(_, s3).
           bind_res (namei (pathbuf2 s3) s3) (\<lambda>(ipo, s4).
             case ipo of
               None \<Rightarrow> finish_op (- 1) s4
             | Some ip \<Rightarrow>
                 bind_res (ilock (Some ip) s4) (\<lambda>s5.
                   if i_type (itable s5 ip) = T_DIR then put_fail ip s5
                   else bind_res (add_nlink 1 ip s5) (\<lambda>s6.
                     bind_res (iunlock (Some ip) s6) (\<lambda>s7.
                     bind_res (nameiparent (pathbuf s7) (namebuf s7) s7) (\<lambda>(dpo, s8).
                       case dpo of
                         None \<Rightarrow> link_bad ip s8
                       | Some dp \<Rightarrow>
                           bind_res (ilock (Some dp) s8) (\<lambda>s9.
                           bind_res
                             (if i_dev (itable s9 dp) \<noteq> i_dev (itable s9 ip) then Ok (False, s9)
                              else dirlink dp (namebuf s9) (i_inum (itable s9 ip)) s9) (\<lambda>(ok, s10).
                             if \<not> ok then bind_res (iunlockput dp s10) (link_bad ip)
                             else bind_res (iunlockput dp s10) (\<lambda>s11.
                                  bind_res (iput ip s11) (finish_op 0))))))))))))"

partial_function (option) isdirempty_loop :: "nat \<Rightarrow> uint32 \<Rightarrow> 'a fstate_scheme \<Rightarrow> (bool \<times> 'a fstate_scheme) res option" where
  "isdirempty_loop dp off s =
     (if off < i_size (itable s dp) then
        (case read_dirent ''isdirempty: readi'' dp off s of
           Panic e \<Rightarrow> Some (Panic e)
         | Loop \<Rightarrow> None
         | Ok s1 \<Rightarrow> if de_inum s1 \<noteq> 0 then Some (Ok (False, s1)) else isdirempty_loop dp (off + sizeof_dirent) s1)
      else Some (Ok (True, s)))"

declare isdirempty_loop.simps [code]

definition isdirempty :: "nat \<Rightarrow> 'a fstate_scheme \<Rightarrow> (bool \<times> 'a fstate_scheme) res" where
  "isdirempty dp s = run_loop (isdirempty_loop dp (2 * sizeof_dirent) s)"

text \<open>The removal of the entry at offset \<open>off\<close> of \<open>dp\<close>, which names \<open>ip\<close>.\<close>

definition unlink_entry :: "nat \<Rightarrow> nat \<Rightarrow> uint32 \<Rightarrow> 'a fstate_scheme \<Rightarrow> (int \<times> 'a fstate_scheme) res" where
  "unlink_entry dp ip off s =
     bind_res (writei dp False (klocal s) off sizeof_dirent (poke (\<lambda>m. memset m (klocal s) 0 sizeof_dirent) s)) (\<lambda>(r, s1).
       if r \<noteq> uint sizeof_dirent then Panic ''unlink: writei''
       else bind_res (if i_type (itable s1 ip) = T_DIR then add_nlink (- 1) dp s1 else Ok s1) (\<lambda>s2.
            bind_res (iunlockput dp s2) (\<lambda>s3.
            bind_res (add_nlink (- 1) ip s3) (\<lambda>s4.
            bind_res (iunlockput ip s4) (finish_op 0)))))"

definition sys_unlink :: "'a kernel_scheme \<Rightarrow> (int \<times> 'a kernel_scheme) res" where
  "sys_unlink s0 =
     bind_res (argstr 0 (pathbuf s0) MAXPATH s0) (\<lambda>(r0, s1).
       if r0 < 0 then Ok (- 1, s1)
       else bind_res (alone (begin_op s1)) (\<lambda>(_, s2).
         bind_res (nameiparent (pathbuf s2) (namebuf s2) s2) (\<lambda>(dpo, s3).
           case dpo of
             None \<Rightarrow> finish_op (- 1) s3
           | Some dp \<Rightarrow>
               bind_res (ilock (Some dp) s3) (\<lambda>s4.
                 if namecmp (phys (km s4)) (namebuf s4) (str_dot s4) = 0 \<or>
                    namecmp (phys (km s4)) (namebuf s4) (str_dotdot s4) = 0 then put_fail dp s4
                 else bind_res (dirlookup dp (namebuf s4) s4) (\<lambda>(found, s5).
                   case found of
                     None \<Rightarrow> put_fail dp s5
                   | Some (ip, off) \<Rightarrow>
                       bind_res (ilock (Some ip) s5) (\<lambda>s6.
                         if sint (i_nlink (itable s6 ip)) < 1 then Panic ''unlink: nlink < 1''
                         else bind_res (if i_type (itable s6 ip) = T_DIR then isdirempty ip s6 else Ok (True, s6)) (\<lambda>(emp, s7).
                           if \<not> emp then bind_res (iunlockput ip s7) (put_fail dp)
                           else unlink_entry dp ip off s7)))))))"

text \<open>The exit \<^verbatim>\<open>fail\<close> of \<^verbatim>\<open>create\<close>.\<close>

definition create_fail :: "nat \<Rightarrow> nat \<Rightarrow> 'a fstate_scheme \<Rightarrow> (nat option \<times> 'a fstate_scheme) res" where
  "create_fail dp ip s =
     bind_res (iupdate ip (upd_inode ip (\<lambda>p. p\<lparr>i_nlink := 0\<rparr>) s)) (\<lambda>s1.
     bind_res (iunlockput ip s1) (\<lambda>s2.
     bind_res (iunlockput dp s2) (\<lambda>s3. Ok (None, s3))))"

text \<open>The entries \<^verbatim>\<open>"."\<close> and \<^verbatim>\<open>".."\<close> of a new directory.\<close>

definition link_dots :: "nat \<Rightarrow> nat \<Rightarrow> 'a kernel_scheme \<Rightarrow> (bool \<times> 'a kernel_scheme) res" where
  "link_dots dp ip s =
     bind_res (dirlink ip (str_dot s) (i_inum (itable s ip)) s) (\<lambda>(ok, s1).
       if \<not> ok then Ok (False, s1) else dirlink ip (str_dotdot s1) (i_inum (itable s1 dp)) s1)"

definition create :: "addr \<Rightarrow> uint16 \<Rightarrow> uint16 \<Rightarrow> uint16 \<Rightarrow> 'a kernel_scheme \<Rightarrow> (nat option \<times> 'a kernel_scheme) res" where
  "create path ty mj mn s =
     bind_res (nameiparent path (namebuf s) s) (\<lambda>(dpo, s1).
       case dpo of
         None \<Rightarrow> Ok (None, s1)
       | Some dp \<Rightarrow>
           bind_res (ilock (Some dp) s1) (\<lambda>s2.
           bind_res (dirlookup dp (namebuf s2) s2) (\<lambda>(found, s3).
             case found of
               Some (ip, _) \<Rightarrow>
                 bind_res (iunlockput dp s3) (\<lambda>s4.
                 bind_res (ilock (Some ip) s4) (\<lambda>s5.
                   if ty = T_FILE \<and> (i_type (itable s5 ip) = T_FILE \<or> i_type (itable s5 ip) = T_DEVICE)
                   then Ok (Some ip, s5)
                   else bind_res (iunlockput ip s5) (\<lambda>s6. Ok (None, s6))))
             | None \<Rightarrow>
                 bind_res (ialloc (i_dev (itable s3 dp)) ty s3) (\<lambda>(ipo, s4).
                   case ipo of
                     None \<Rightarrow> bind_res (iunlockput dp s4) (\<lambda>s5. Ok (None, s5))
                   | Some ip \<Rightarrow>
                       bind_res (ilock (Some ip) s4) (\<lambda>s5.
                       bind_res (iupdate ip (upd_inode ip (\<lambda>p. p\<lparr>i_major := mj, i_minor := mn, i_nlink := 1\<rparr>) s5)) (\<lambda>s6.
                       bind_res (if ty = T_DIR then link_dots dp ip s6 else Ok (True, s6)) (\<lambda>(ok, s7).
                         if \<not> ok then create_fail dp ip s7
                         else bind_res (dirlink dp (namebuf s7) (i_inum (itable s7 ip)) s7) (\<lambda>(ok, s8).
                           if \<not> ok then create_fail dp ip s8
                           else bind_res (if ty = T_DIR then add_nlink 1 dp s8 else Ok s8) (\<lambda>s9.
                                bind_res (iunlockput dp s9) (\<lambda>s10. Ok (Some ip, s10)))))))))))"

definition O_RDONLY :: uint32 where "O_RDONLY = 0"
definition O_WRONLY :: uint32 where "O_WRONLY = 1"
definition O_RDWR :: uint32 where "O_RDWR = 2"
definition O_CREATE :: uint32 where "O_CREATE = 0x200"
definition O_TRUNC :: uint32 where "O_TRUNC = 0x400"

text \<open>The first part of \<^verbatim>\<open>sys_open\<close>: the locked inode, or the error has been dealt with.\<close>

definition open_inode :: "uint32 \<Rightarrow> 'a kernel_scheme \<Rightarrow> (nat option \<times> 'a kernel_scheme) res" where
  "open_inode omode s =
     (if omode AND O_CREATE \<noteq> 0 then
        bind_res (create (pathbuf s) T_FILE 0 0 s) (\<lambda>(ipo, s1).
          case ipo of None \<Rightarrow> bind_res (end_op s1) (\<lambda>s2. Ok (None, s2)) | Some ip \<Rightarrow> Ok (Some ip, s1))
      else
        bind_res (namei (pathbuf s) s) (\<lambda>(ipo, s1).
          case ipo of
            None \<Rightarrow> bind_res (end_op s1) (\<lambda>s2. Ok (None, s2))
          | Some ip \<Rightarrow>
              bind_res (ilock (Some ip) s1) (\<lambda>s2.
                if i_type (itable s2 ip) = T_DIR \<and> omode \<noteq> O_RDONLY
                then bind_res (put_fail ip s2) (\<lambda>(_, s3). Ok (None, s3)) else Ok (Some ip, s2))))"

definition open_file :: "uint32 \<Rightarrow> nat \<Rightarrow> nat \<Rightarrow> 'a kstate_scheme \<Rightarrow> 'a kstate_scheme" where
  "open_file omode ip f s =
     upd_file f (\<lambda>x.
       let x1 = (if i_type (itable s ip) = T_DEVICE then x\<lparr>f_type := FD_DEVICE, f_major := i_major (itable s ip)\<rparr>
                 else x\<lparr>f_type := FD_INODE, f_off := 0\<rparr>)
       in x1\<lparr>f_ip := Some ip, f_readable := (omode AND O_WRONLY = 0),
             f_writable := (omode AND O_WRONLY \<noteq> 0 \<or> omode AND O_RDWR \<noteq> 0)\<rparr>) s"

definition sys_open :: "'a kernel_scheme \<Rightarrow> (int \<times> 'a kernel_scheme) res" where
  "sys_open s0 =
     bind_res (argraw 1 s0) (\<lambda>omode.
     bind_res (argstr 0 (pathbuf s0) MAXPATH s0) (\<lambda>(n, s1).
       if n < 0 then Ok (- 1, s1)
       else bind_res (alone (begin_op s1)) (\<lambda>(_, s2).
         bind_res (open_inode omode s2) (\<lambda>(ipo, s3).
           case ipo of
             None \<Rightarrow> Ok (- 1, s3)
           | Some ip \<Rightarrow>
               if i_type (itable s3 ip) = T_DEVICE \<and> (sint (i_major (itable s3 ip)) < 0 \<or> sint (i_major (itable s3 ip)) \<ge> NDEV)
               then put_fail ip s3
               else case filealloc s3 of
                 (None, s4) \<Rightarrow> put_fail ip s4
               | (Some f, s4) \<Rightarrow>
                   (case fdalloc f s4 of
                      (None, s5) \<Rightarrow> bind_res (fileclose f s5) (put_fail ip)
                    | (Some fd, s5) \<Rightarrow>
                        let s6 = open_file omode ip f s5
                        in bind_res (if omode AND O_TRUNC \<noteq> 0 \<and> i_type (itable s6 ip) = T_FILE then itrunc ip s6 else Ok s6) (\<lambda>s7.
                           bind_res (iunlock (Some ip) s7) (finish_op (int fd))))))))"

definition sys_mkdir :: "'a kernel_scheme \<Rightarrow> (int \<times> 'a kernel_scheme) res" where
  "sys_mkdir s =
     bind_res (alone (begin_op s)) (\<lambda>(_, s1).
     bind_res (argstr 0 (pathbuf s1) MAXPATH s1) (\<lambda>(r, s2).
       if r < 0 then finish_op (- 1) s2
       else bind_res (create (pathbuf s2) T_DIR 0 0 s2) (\<lambda>(ipo, s3).
         case ipo of
           None \<Rightarrow> finish_op (- 1) s3
         | Some ip \<Rightarrow> bind_res (iunlockput ip s3) (finish_op 0))))"

definition sys_mknod :: "'a kernel_scheme \<Rightarrow> (int \<times> 'a kernel_scheme) res" where
  "sys_mknod s =
     bind_res (alone (begin_op s)) (\<lambda>(_, s1).
     bind_res (argraw 1 s1) (\<lambda>mj. bind_res (argraw 2 s1) (\<lambda>mn.
     bind_res (argstr 0 (pathbuf s1) MAXPATH s1) (\<lambda>(r, s2).
       if r < 0 then finish_op (- 1) s2
       else bind_res (create (pathbuf s2) T_DEVICE (ucast mj) (ucast mn) s2) (\<lambda>(ipo, s3).
         case ipo of
           None \<Rightarrow> finish_op (- 1) s3
         | Some ip \<Rightarrow> bind_res (iunlockput ip s3) (finish_op 0))))))"

definition sys_chdir :: "'a kernel_scheme \<Rightarrow> (int \<times> 'a kernel_scheme) res" where
  "sys_chdir s =
     bind_res (alone (begin_op s)) (\<lambda>(_, s1).
     bind_res (argstr 0 (pathbuf s1) MAXPATH s1) (\<lambda>(r, s2).
       if r < 0 then finish_op (- 1) s2
       else bind_res (namei (pathbuf s2) s2) (\<lambda>(ipo, s3).
         case ipo of
           None \<Rightarrow> finish_op (- 1) s3
         | Some ip \<Rightarrow>
             bind_res (ilock (Some ip) s3) (\<lambda>s4.
               if i_type (itable s4 ip) \<noteq> T_DIR then put_fail ip s4
               else bind_res (iunlock (Some ip) s4) (\<lambda>s5.
                 case cwd (myproc s5) of
                   None \<Rightarrow> Panic ''kerneltrap''
                 | Some old \<Rightarrow>
                     bind_res (iput old s5) (\<lambda>s6.
                     bind_res (end_op s6) (\<lambda>s7. Ok (0, upd_me (\<lambda>p. p\<lparr>cwd := Some ip\<rparr>) s7))))))))"

text \<open>
  The loop of \<^verbatim>\<open>sys_exec\<close> that copies the argument strings; \<open>n\<close> is the number of entries of
  \<^verbatim>\<open>argv\<close> that are left. The result lists the pages in \<^verbatim>\<open>argv\<close>, with \<open>False\<close> for the exit \<^verbatim>\<open>bad\<close>.
\<close>

primrec fetch_args :: "nat \<Rightarrow> uint32 \<Rightarrow> 'a mach_scheme \<Rightarrow> (bool \<times> addr list \<times> 'a mach_scheme) res" where
  "fetch_args 0 uarg s = Ok (False, [], s)"
| "fetch_args (Suc n) uarg s =
     bind_res (either_copyin (klocal s) True uarg 4 s) (\<lambda>(ok, s1).
       let p = ld32 (phys (km s1)) (klocal s1)
       in if \<not> ok then Ok (False, [], s1)
          else if p = 0 then Ok (True, [], s1)
          else case kalloc (km s1) of (a, k) \<Rightarrow>
            let s2 = s1\<lparr>km := k\<rparr>
            in if a = 0 then Ok (False, [], s2)
               else bind_res (fetchstr (ucast p) a PGSIZE s2) (\<lambda>(r, s3).
                 if r < 0 then Ok (False, [a], s3)
                 else bind_res (fetch_args n (uarg + 4) s3) (\<lambda>(ok, as, s4). Ok (ok, a # as, s4))))"

definition sys_exec :: "'a kernel_scheme \<Rightarrow> (int \<times> 'a kernel_scheme) res" where
  "sys_exec s =
     bind_res (argaddr 1 s) (\<lambda>uargv.
     bind_res (argstr 0 (pathbuf s) MAXPATH s) (\<lambda>(r, s1).
       if r < 0 then Ok (- 1, s1)
       else bind_res (fetch_args MAXARG (ucast uargv) s1) (\<lambda>(ok, argv, s2).
         bind_res (if ok then kexec (pathbuf s2) argv s2 else Ok (- 1, s2)) (\<lambda>(ret, s3).
         bind_res (free_pages argv (km s3)) (\<lambda>k. Ok (ret, s3\<lparr>km := k\<rparr>))))))"

text \<open>\<open>out_fd\<close>: \<^verbatim>\<open>copyout\<close> of an \<^verbatim>\<open>int\<close>.\<close>

definition out_fd :: "uint32 \<Rightarrow> nat \<Rightarrow> 'a mach_scheme \<Rightarrow> (bool \<times> 'a mach_scheme) res" where
  "out_fd va fd s = copyout_local va 4 (poke (\<lambda>m. st32 m (klocal s) (of_nat fd)) s)"

definition close_both :: "nat \<Rightarrow> nat \<Rightarrow> 'a kstate_scheme \<Rightarrow> (int \<times> 'a kstate_scheme) res" where
  "close_both rfile wfile s = bind_res (fileclose rfile s) (\<lambda>s1. bind_res (fileclose wfile s1) (\<lambda>s2. Ok (- 1, s2)))"

definition sys_pipe :: "'a kstate_scheme \<Rightarrow> (int \<times> 'a kstate_scheme) res" where
  "sys_pipe s =
     bind_res (argaddr 0 s) (\<lambda>fdarray.
     bind_res (pipealloc s) (\<lambda>(ro, s1).
       case ro of
         None \<Rightarrow> Ok (- 1, s1)
       | Some (rfile, wfile) \<Rightarrow>
           (case fdalloc rfile s1 of
              (None, s2) \<Rightarrow> close_both rfile wfile s2
            | (Some fd0, s2) \<Rightarrow>
                (case fdalloc wfile s2 of
                   (None, s3) \<Rightarrow> close_both rfile wfile (clear_fd fd0 s3)
                 | (Some fd1, s3) \<Rightarrow>
                     bind_res (out_fd (ucast fdarray) fd0 s3) (\<lambda>(ok, s4).
                     bind_res (if ok then out_fd (ucast fdarray + 4) fd1 s4 else Ok (False, s4)) (\<lambda>(ok, s5).
                       if \<not> ok then close_both rfile wfile (clear_fd fd1 (clear_fd fd0 s5)) else Ok (0, s5)))))))"

section \<open>The dispatcher\<close>

text \<open>The table \<^verbatim>\<open>syscalls[]\<close>, by the numbers of \<^verbatim>\<open>kernel/syscall.h\<close>; \<^verbatim>\<open>exit\<close> is number 2.\<close>

definition syscalls :: "int \<Rightarrow> ('a kernel_scheme \<Rightarrow> (int \<times> 'a kernel_scheme) res) option" where
  "syscalls num =
     (if num = 1 then Some sys_fork else if num = 3 then Some sys_wait else if num = 4 then Some sys_pipe
      else if num = 5 then Some sys_read else if num = 6 then Some sys_kill else if num = 7 then Some sys_exec
      else if num = 8 then Some sys_fstat else if num = 9 then Some sys_chdir else if num = 10 then Some sys_dup
      else if num = 11 then Some sys_getpid else if num = 12 then Some sys_sbrk else if num = 13 then Some sys_pause
      else if num = 14 then Some sys_uptime else if num = 15 then Some sys_open else if num = 16 then Some sys_write
      else if num = 17 then Some sys_mknod else if num = 18 then Some sys_unlink else if num = 19 then Some sys_link
      else if num = 20 then Some sys_mkdir else if num = 21 then Some sys_close
      else if num = 22 then Some sys_sem_create else if num = 23 then Some sys_sem_wait
      else if num = 24 then Some sys_sem_post else if num = 25 then Some sys_sem_destroy else None)"

definition SYS_exit :: int where "SYS_exit = 2"

text \<open>The flag in the result tells that the process has exited.\<close>

definition syscall :: "'a kernel_scheme \<Rightarrow> (bool \<times> 'a kernel_scheme) res" where
  "syscall s =
     (let num = sint (tf_get TF_a7 s)
      in if num = SYS_exit then bind_res (sys_exit s) (\<lambda>s1. Ok (True, s1))
         else case syscalls num of
           Some h \<Rightarrow> bind_res (h s) (\<lambda>(r, s1). Ok (False, tf_set TF_a0 (of_int r) s1))
         | None \<Rightarrow>
             bind_res (printf (''%d %s: unknown sys call %d'' @ [CHR 0x0A])
               [VInt (pid (myproc s)), VStr (Some (pname (myproc s))), VInt (of_int num)] s) (\<lambda>s1.
               Ok (False, tf_set TF_a0 (- 1) s1)))"

end
