(* ===== verification/Virtio.thy ===== *)
theory Virtio
  imports Process
begin

text \<open>
  \<^verbatim>\<open>kernel/virtio_disk.c\<close>: the driver of the disk. The device is outside the program: what its
  registers answer is \<open>v_reads\<close>, an arbitrary function, and it writes the fields \<open>used_dev\<close> and
  \<open>used_ring\<close> (the used ring) and \<open>info_status\<close>. The addresses the descriptors hold are those of three kinds of kernel objects
  and are kept symbolic. \<^verbatim>\<open>virtio_disk_rw\<close> is modelled in the pieces between its sleeps: the
  submission of a request and its completion.
\<close>

section \<open>State\<close>

definition NUM :: nat where "NUM = 8"
definition VRING_DESC_F_NEXT :: uint16 where "VRING_DESC_F_NEXT = 1"
definition VRING_DESC_F_WRITE :: uint16 where "VRING_DESC_F_WRITE = 2"
definition VIRTIO_BLK_T_IN :: uint32 where "VIRTIO_BLK_T_IN = 0"
definition VIRTIO_BLK_T_OUT :: uint32 where "VIRTIO_BLK_T_OUT = 1"

text \<open>\<^verbatim>\<open>&disk.ops[i]\<close>, \<^verbatim>\<open>b->data\<close> and \<^verbatim>\<open>&disk.info[i].status\<close>.\<close>

datatype dma_addr = DmaNull | DmaOps nat | DmaData nat | DmaStatus nat

record virtq_desc =
  vd_addr :: dma_addr
  vd_len :: uint32
  vd_flags :: uint16
  vd_next :: uint16

record virtio_blk_req =
  rq_type :: uint32
  rq_reserved :: uint32
  rq_sector :: uint64

text \<open>\<open>v_busy b\<close> is \<^verbatim>\<open>b->disk\<close>. \<open>desc_page\<close>, \<open>avail_page\<close> and \<open>used_page\<close> are the pages of the queues.\<close>

record vdisk =
  desc :: "nat \<Rightarrow> virtq_desc"
  avail_idx :: uint16
  avail_ring :: "nat \<Rightarrow> uint16"
  used_dev :: uint16
  used_ring :: "nat \<Rightarrow> uint32"
  vfree :: "nat \<Rightarrow> bool"
  used_idx :: uint16
  info_b :: "nat \<Rightarrow> nat option"
  info_status :: "nat \<Rightarrow> uint8"
  ops :: "nat \<Rightarrow> virtio_blk_req"
  v_busy :: "nat \<Rightarrow> bool"
  desc_page :: addr
  avail_page :: addr
  used_page :: addr
  v_reads :: "nat \<Rightarrow> uint32 \<Rightarrow> uint32"
  v_pos :: nat
  v_writes :: "(uint32 \<times> uint32) list"

record vkernel = kernel +
  vd :: vdisk

definition upd_vd :: "(vdisk \<Rightarrow> vdisk) \<Rightarrow> 'a vkernel_scheme \<Rightarrow> 'a vkernel_scheme" where
  "upd_vd g s = s\<lparr>vd := g (vd s)\<rparr>"

section \<open>Registers\<close>

abbreviation (input) MMIO_MAGIC_VALUE :: uint32 where "MMIO_MAGIC_VALUE \<equiv> 0x000"
abbreviation (input) MMIO_VERSION :: uint32 where "MMIO_VERSION \<equiv> 0x004"
abbreviation (input) MMIO_DEVICE_ID :: uint32 where "MMIO_DEVICE_ID \<equiv> 0x008"
abbreviation (input) MMIO_VENDOR_ID :: uint32 where "MMIO_VENDOR_ID \<equiv> 0x00c"
abbreviation (input) MMIO_DEVICE_FEATURES :: uint32 where "MMIO_DEVICE_FEATURES \<equiv> 0x010"
abbreviation (input) MMIO_DRIVER_FEATURES :: uint32 where "MMIO_DRIVER_FEATURES \<equiv> 0x020"
abbreviation (input) MMIO_QUEUE_SEL :: uint32 where "MMIO_QUEUE_SEL \<equiv> 0x030"
abbreviation (input) MMIO_QUEUE_NUM_MAX :: uint32 where "MMIO_QUEUE_NUM_MAX \<equiv> 0x034"
abbreviation (input) MMIO_QUEUE_NUM :: uint32 where "MMIO_QUEUE_NUM \<equiv> 0x038"
abbreviation (input) MMIO_QUEUE_READY :: uint32 where "MMIO_QUEUE_READY \<equiv> 0x044"
abbreviation (input) MMIO_QUEUE_NOTIFY :: uint32 where "MMIO_QUEUE_NOTIFY \<equiv> 0x050"
abbreviation (input) MMIO_INTERRUPT_STATUS :: uint32 where "MMIO_INTERRUPT_STATUS \<equiv> 0x060"
abbreviation (input) MMIO_INTERRUPT_ACK :: uint32 where "MMIO_INTERRUPT_ACK \<equiv> 0x064"
abbreviation (input) MMIO_STATUS :: uint32 where "MMIO_STATUS \<equiv> 0x070"
abbreviation (input) MMIO_QUEUE_DESC_LOW :: uint32 where "MMIO_QUEUE_DESC_LOW \<equiv> 0x080"
abbreviation (input) MMIO_DRIVER_DESC_LOW :: uint32 where "MMIO_DRIVER_DESC_LOW \<equiv> 0x090"
abbreviation (input) MMIO_DEVICE_DESC_LOW :: uint32 where "MMIO_DEVICE_DESC_LOW \<equiv> 0x0a0"

abbreviation (input) S_ACKNOWLEDGE :: uint32 where "S_ACKNOWLEDGE \<equiv> 1"
abbreviation (input) S_DRIVER :: uint32 where "S_DRIVER \<equiv> 2"
abbreviation (input) S_DRIVER_OK :: uint32 where "S_DRIVER_OK \<equiv> 4"
abbreviation (input) S_FEATURES_OK :: uint32 where "S_FEATURES_OK \<equiv> 8"

definition v_read :: "uint32 \<Rightarrow> vdisk \<Rightarrow> uint32 \<times> vdisk" where
  "v_read r v = (v_reads v (v_pos v) r, v\<lparr>v_pos := v_pos v + 1\<rparr>)"

definition v_write :: "uint32 \<Rightarrow> uint32 \<Rightarrow> vdisk \<Rightarrow> vdisk" where
  "v_write r x v = v\<lparr>v_writes := v_writes v @ [(r, x)]\<rparr>"

section \<open>Initialisation\<close>

text \<open>The feature bits that the driver refuses.\<close>

definition refused_features :: "nat list" where
  "refused_features = [5, 7, 11, 12, 27, 29, 28]"

definition negotiate :: "uint32 \<Rightarrow> uint32" where
  "negotiate f = fold (\<lambda>b x. x AND NOT (push_bit b 1)) refused_features f"

text \<open>The identification of the device, with the short-circuit evaluation of the four tests.\<close>

definition v_identify :: "vdisk \<Rightarrow> bool \<times> vdisk" where
  "v_identify v =
     (case v_read MMIO_MAGIC_VALUE v of (a, v1) \<Rightarrow>
        if a \<noteq> 0x74726976 then (False, v1)
        else case v_read MMIO_VERSION v1 of (b, v2) \<Rightarrow>
          if b \<noteq> 2 then (False, v2)
          else case v_read MMIO_DEVICE_ID v2 of (c, v3) \<Rightarrow>
            if c \<noteq> 2 then (False, v3)
            else case v_read MMIO_VENDOR_ID v3 of (d, v4) \<Rightarrow> (d = 0x554d4551, v4))"

definition v_handshake :: "vdisk \<Rightarrow> uint32 \<times> vdisk" where
  "v_handshake v =
     (let v1 = v_write MMIO_STATUS 0 v;
          v2 = v_write MMIO_STATUS S_ACKNOWLEDGE v1;
          v3 = v_write MMIO_STATUS (S_ACKNOWLEDGE OR S_DRIVER) v2
      in case v_read MMIO_DEVICE_FEATURES v3 of (f, v4) \<Rightarrow>
         let v5 = v_write MMIO_DRIVER_FEATURES (negotiate f) v4;
             v6 = v_write MMIO_STATUS (S_ACKNOWLEDGE OR S_DRIVER OR S_FEATURES_OK) v5
         in v_read MMIO_STATUS v6)"

text \<open>The tail of \<^verbatim>\<open>virtio_disk_init\<close>: the addresses of the queues and the last status.\<close>

definition v_start :: "uint32 \<Rightarrow> vdisk \<Rightarrow> vdisk" where
  "v_start status v =
     (let v1 = v_write MMIO_QUEUE_NUM (of_nat NUM) v;
          v2 = v_write (MMIO_QUEUE_DESC_LOW + 4) 0 (v_write MMIO_QUEUE_DESC_LOW (desc_page v1) v1);
          v3 = v_write (MMIO_DRIVER_DESC_LOW + 4) 0 (v_write MMIO_DRIVER_DESC_LOW (avail_page v2) v2);
          v4 = v_write (MMIO_DEVICE_DESC_LOW + 4) 0 (v_write MMIO_DEVICE_DESC_LOW (used_page v3) v3);
          v5 = v_write MMIO_QUEUE_READY 1 v4;
          v6 = v5\<lparr>vfree := (\<lambda>i. if i < NUM then True else vfree v5 i)\<rparr>
      in v_write MMIO_STATUS (status OR S_DRIVER_OK) v6)"

text \<open>The three zeroed pages hold an empty descriptor table and two empty rings.\<close>

definition zero_queues :: "vdisk \<Rightarrow> vdisk" where
  "zero_queues v = v\<lparr>desc := (\<lambda>_. \<lparr>vd_addr = DmaNull, vd_len = 0, vd_flags = 0, vd_next = 0\<rparr>), avail_idx := 0,
     avail_ring := (\<lambda>_. 0), used_dev := 0, used_ring := (\<lambda>_. 0)\<rparr>"

definition zero_pages :: "addr \<Rightarrow> addr \<Rightarrow> addr \<Rightarrow> kmem \<Rightarrow> kmem" where
  "zero_pages a b c k =
     k\<lparr>phys := memset (memset (memset (phys k) a 0 PGSIZE) b 0 PGSIZE) c 0 PGSIZE\<rparr>"

definition virtio_disk_init :: "'a vkernel_scheme \<Rightarrow> 'a vkernel_scheme res" where
  "virtio_disk_init s =
     (case v_identify (vd s) of (ok, v1) \<Rightarrow>
        if \<not> ok then Panic ''could not find virtio disk''
        else case v_handshake v1 of (status, v2) \<Rightarrow>
          if status AND S_FEATURES_OK = 0 then Panic ''virtio disk FEATURES_OK unset''
          else case v_read MMIO_QUEUE_READY (v_write MMIO_QUEUE_SEL 0 v2) of (rdy, v3) \<Rightarrow>
            if rdy \<noteq> 0 then Panic ''virtio disk should not be ready''
            else case v_read MMIO_QUEUE_NUM_MAX v3 of (mx, v4) \<Rightarrow>
              if mx = 0 then Panic ''virtio disk has no queue 0''
              else if mx < of_nat NUM then Panic ''virtio disk max queue too short''
              else case kalloc (km s) of (d, k1) \<Rightarrow> case kalloc k1 of (a, k2) \<Rightarrow> case kalloc k2 of (u, k3) \<Rightarrow>
                if d = 0 \<or> a = 0 \<or> u = 0 then Panic ''virtio disk kalloc''
                else Ok (s\<lparr>km := zero_pages d a u k3,
                       vd := v_start status (zero_queues (v4\<lparr>desc_page := d, avail_page := a, used_page := u\<rparr>))\<rparr>))"

section \<open>Descriptors\<close>

definition alloc_desc :: "vdisk \<Rightarrow> nat option \<times> vdisk" where
  "alloc_desc v =
     (case find (vfree v) [0..<NUM] of
        None \<Rightarrow> (None, v)
      | Some i \<Rightarrow> (Some i, v\<lparr>vfree := (vfree v)(i := False)\<rparr>))"

definition free_desc :: "nat \<Rightarrow> 'a vkernel_scheme \<Rightarrow> 'a vkernel_scheme res" where
  "free_desc i s =
     (if i \<ge> NUM then Panic ''free_desc 1''
      else if vfree (vd s) i then Panic ''free_desc 2''
      else Ok (kwakeup KDiskFree (upd_vd (\<lambda>v. v\<lparr>desc := (desc v)(i := \<lparr>vd_addr = DmaNull, vd_len = 0, vd_flags = 0,
             vd_next = 0\<rparr>), vfree := (vfree v)(i := True)\<rparr>) s)))"

partial_function (option) free_chain_loop :: "nat \<Rightarrow> 'a vkernel_scheme \<Rightarrow> 'a vkernel_scheme res option" where
  "free_chain_loop i s =
     (let flag = vd_flags (desc (vd s) i); nxt = unat (vd_next (desc (vd s) i))
      in case free_desc i s of
           Ok s1 \<Rightarrow> if flag AND VRING_DESC_F_NEXT \<noteq> 0 then free_chain_loop nxt s1 else Some (Ok s1)
         | e \<Rightarrow> Some e)"

declare free_chain_loop.simps [code]

definition free_chain :: "nat \<Rightarrow> 'a vkernel_scheme \<Rightarrow> 'a vkernel_scheme res" where
  "free_chain i s = run_loop (free_chain_loop i s)"

text \<open>The loop of \<^verbatim>\<open>alloc3_desc\<close>: \<open>idx\<close> lists the descriptors taken so far, \<open>n\<close> are wanted.\<close>

primrec alloc_descs :: "nat \<Rightarrow> nat list \<Rightarrow> 'a vkernel_scheme \<Rightarrow> (nat list option \<times> 'a vkernel_scheme) res" where
  "alloc_descs 0 idx s = Ok (Some idx, s)"
| "alloc_descs (Suc n) idx s =
     (case alloc_desc (vd s) of
        (Some i, v) \<Rightarrow> alloc_descs n (idx @ [i]) (s\<lparr>vd := v\<rparr>)
      | (None, v) \<Rightarrow> bind_res (for_res free_desc idx (s\<lparr>vd := v\<rparr>)) (\<lambda>s1. Ok (None, s1)))"

definition alloc3_desc :: "'a vkernel_scheme \<Rightarrow> (nat list option \<times> 'a vkernel_scheme) res" where
  "alloc3_desc s = alloc_descs 3 [] s"

section \<open>Requests\<close>

definition sector_of :: "uint32 \<Rightarrow> uint64" where
  "sector_of bno = ucast (bno * of_nat (BSIZE div 512))"

text \<open>The three descriptors of a request for buffer \<open>b\<close>, which holds block \<open>bno\<close>.\<close>

definition format_request :: "nat \<Rightarrow> nat \<Rightarrow> nat \<Rightarrow> nat \<Rightarrow> uint32 \<Rightarrow> bool \<Rightarrow> vdisk \<Rightarrow> vdisk" where
  "format_request i0 i1 i2 b bno write v =
     (let v1 = v\<lparr>ops := (ops v)(i0 := \<lparr>rq_type = (if write then VIRTIO_BLK_T_OUT else VIRTIO_BLK_T_IN), rq_reserved = 0,
                  rq_sector = sector_of bno\<rparr>)\<rparr>;
          d0 = \<lparr>vd_addr = DmaOps i0, vd_len = 16, vd_flags = VRING_DESC_F_NEXT, vd_next = of_nat i1\<rparr>;
          d1 = \<lparr>vd_addr = DmaData b, vd_len = of_nat BSIZE,
                vd_flags = (if write then 0 else VRING_DESC_F_WRITE) OR VRING_DESC_F_NEXT, vd_next = of_nat i2\<rparr>;
          d2 = \<lparr>vd_addr = DmaStatus i0, vd_len = 1, vd_flags = VRING_DESC_F_WRITE, vd_next = 0\<rparr>
      in v1\<lparr>desc := (desc v1)(i0 := d0, i1 := d1, i2 := d2), info_status := (info_status v1)(i0 := 0xff)\<rparr>)"

text \<open>The entry into the available ring and the notification.\<close>

definition publish :: "nat \<Rightarrow> nat \<Rightarrow> vdisk \<Rightarrow> vdisk" where
  "publish i0 b v =
     (let v1 = v\<lparr>v_busy := (v_busy v)(b := True), info_b := (info_b v)(i0 := Some b)\<rparr>;
          v2 = v1\<lparr>avail_ring := (avail_ring v1)(unat (avail_idx v1) mod NUM := of_nat i0)\<rparr>;
          v3 = v2\<lparr>avail_idx := avail_idx v2 + 1\<rparr>
      in v_write MMIO_QUEUE_NOTIFY 0 v3)"

text \<open>
  \<^verbatim>\<open>virtio_disk_rw\<close> from its start to the first \<^verbatim>\<open>sleep\<close>: it sleeps for descriptors, or it has sent the
  request with head \<open>i0\<close> and sleeps for its completion.
\<close>

definition rw_submit :: "nat \<Rightarrow> bool \<Rightarrow> 'a vkernel_scheme \<Rightarrow> (nat blk \<times> 'a vkernel_scheme) res" where
  "rw_submit b write s =
     bind_res (alloc3_desc s) (\<lambda>(r, s1).
       case r of
         Some [i0, i1, i2] \<Rightarrow>
           Ok (Ret i0, upd_vd (\<lambda>v. publish i0 b (format_request i0 i1 i2 b (blockno (bufs s1 b)) write v)) s1)
       | _ \<Rightarrow> Ok (Sleep, ksleep KDiskFree s1))"

text \<open>From the wakeup on: it sleeps again while the buffer is with the device.\<close>

definition rw_finish :: "nat \<Rightarrow> nat \<Rightarrow> 'a vkernel_scheme \<Rightarrow> (unit blk \<times> 'a vkernel_scheme) res" where
  "rw_finish b i0 s =
     (if v_busy (vd s) b then Ok (Sleep, ksleep (KDiskBuf b) s)
      else bind_res (free_chain i0 (upd_vd (\<lambda>v. v\<lparr>info_b := (info_b v)(i0 := None)\<rparr>) s)) (\<lambda>s1. Ok (Ret (), s1)))"

partial_function (option) intr_loop :: "'a vkernel_scheme \<Rightarrow> 'a vkernel_scheme res option" where
  "intr_loop s =
     (if used_idx (vd s) \<noteq> used_dev (vd s) then
        let i = unat (used_ring (vd s) (unat (used_idx (vd s)) mod NUM))
        in if info_status (vd s) i \<noteq> 0 then Some (Panic ''virtio_disk_intr status'')
           else case info_b (vd s) i of
             None \<Rightarrow> Some (Panic ''kerneltrap'')
           | Some b \<Rightarrow>
               intr_loop (upd_vd (\<lambda>v. v\<lparr>used_idx := used_idx v + 1\<rparr>)
                 (kwakeup (KDiskBuf b) (upd_vd (\<lambda>v. v\<lparr>v_busy := (v_busy v)(b := False)\<rparr>) s)))
      else Some (Ok s))"

declare intr_loop.simps [code]

definition virtio_disk_intr :: "'a vkernel_scheme \<Rightarrow> 'a vkernel_scheme res" where
  "virtio_disk_intr s =
     (case v_read MMIO_INTERRUPT_STATUS (vd s) of (st, v) \<Rightarrow>
        run_loop (intr_loop (s\<lparr>vd := v_write MMIO_INTERRUPT_ACK (st AND 3) v\<rparr>)))"

end
