(* ===== verification/Trap.thy ===== *)
theory Trap
  imports Syscall Virtio
begin

text \<open>
  \<^verbatim>\<open>kernel/irqtrap.c\<close>, \<^verbatim>\<open>kernel/plic.c\<close>, \<^verbatim>\<open>forkret\<close> of \<^verbatim>\<open>kernel/taskmgr.c\<close>, \<^verbatim>\<open>kernel/bootflow.c\<close> and
  \<^verbatim>\<open>kernel/start.c\<close>: traps, interrupts, the return to user space and the boot. The control registers
  are fields of \<open>k_csr\<close>; what the interrupt controller answers to a claim is \<open>plic_claims\<close>, an
  arbitrary function.
\<close>

section \<open>State\<close>

record machine = vkernel +
  plic_claims :: "nat \<Rightarrow> uint32"
  plic_pos :: nat
  plic_writes :: "(uint32 \<times> uint32) list"

definition SSTATUS_SPP :: uint32 where "SSTATUS_SPP = push_bit 8 1"
definition SSTATUS_SPIE :: uint32 where "SSTATUS_SPIE = push_bit 5 1"
definition SSTATUS_SIE :: uint32 where "SSTATUS_SIE = push_bit 1 1"
definition SATP_SV32 :: uint32 where "SATP_SV32 = push_bit 31 1"

definition MAKE_SATP :: "addr \<Rightarrow> uint32" where
  "MAKE_SATP pgt = SATP_SV32 OR drop_bit 12 pgt"

definition upd_csr :: "(csrs \<Rightarrow> csrs) \<Rightarrow> 'a kernel_scheme \<Rightarrow> 'a kernel_scheme" where
  "upd_csr g s = s\<lparr>k_csr := g (k_csr s)\<rparr>"

definition intr_on :: "'a kernel_scheme \<Rightarrow> 'a kernel_scheme" where
  "intr_on s = upd_csr (\<lambda>c. c\<lparr>sstatus := sstatus c OR SSTATUS_SIE\<rparr>) s"

definition intr_off :: "'a kernel_scheme \<Rightarrow> 'a kernel_scheme" where
  "intr_off s = upd_csr (\<lambda>c. c\<lparr>sstatus := sstatus c AND NOT SSTATUS_SIE\<rparr>) s"

definition intr_get :: "'a kernel_scheme \<Rightarrow> bool" where
  "intr_get s \<longleftrightarrow> sstatus (k_csr s) AND SSTATUS_SIE \<noteq> 0"

section \<open>The interrupt controller\<close>

definition UART0_IRQ :: uint32 where "UART0_IRQ = 10"
definition VIRTIO0_IRQ :: uint32 where "VIRTIO0_IRQ = 1"

definition PLIC_SENABLE :: "uint32 \<Rightarrow> uint32" where "PLIC_SENABLE h = PLIC + 0x2080 + h * 0x100"
definition PLIC_SPRIORITY :: "uint32 \<Rightarrow> uint32" where "PLIC_SPRIORITY h = PLIC + 0x201000 + h * 0x2000"
definition PLIC_SCLAIM :: "uint32 \<Rightarrow> uint32" where "PLIC_SCLAIM h = PLIC + 0x201004 + h * 0x2000"

definition plic_write :: "uint32 \<Rightarrow> uint32 \<Rightarrow> 'a machine_scheme \<Rightarrow> 'a machine_scheme" where
  "plic_write a x s = s\<lparr>plic_writes := plic_writes s @ [(a, x)]\<rparr>"

definition plicinit :: "'a machine_scheme \<Rightarrow> 'a machine_scheme" where
  "plicinit s = plic_write (PLIC + VIRTIO0_IRQ * 4) 1 (plic_write (PLIC + UART0_IRQ * 4) 1 s)"

definition plicinithart :: "'a machine_scheme \<Rightarrow> 'a machine_scheme" where
  "plicinithart s =
     plic_write (PLIC_SPRIORITY 0) 0
       (plic_write (PLIC_SENABLE 0) (push_bit (unat UART0_IRQ) 1 OR push_bit (unat VIRTIO0_IRQ) 1) s)"

definition plic_claim :: "'a machine_scheme \<Rightarrow> uint32 \<times> 'a machine_scheme" where
  "plic_claim s = (plic_claims s (plic_pos s), s\<lparr>plic_pos := plic_pos s + 1\<rparr>)"

definition plic_complete :: "uint32 \<Rightarrow> 'a machine_scheme \<Rightarrow> 'a machine_scheme" where
  "plic_complete irq s = plic_write (PLIC_SCLAIM 0) irq s"

section \<open>Interrupts\<close>

definition MLFQ_BOOST_TICKS :: uint32 where "MLFQ_BOOST_TICKS = 64"

definition clockintr :: "'a kernel_scheme \<Rightarrow> 'a kernel_scheme" where
  "clockintr s =
     (let s1 = s\<lparr>ticks := ticks s + 1\<rparr>;
          now = ticks s1;
          s2 = kwakeup KTicks s1;
          s3 = s2\<lparr>pt := mlfq_tick (cur s2) (pt s2)\<rparr>;
          s4 = (if now mod MLFQ_BOOST_TICKS = 0 then s3\<lparr>pt := mlfq_mark_boost (pt s3)\<rparr> else s3)
      in case r_time s4 of (t, s5) \<Rightarrow> upd_csr (\<lambda>c. c\<lparr>stimecmp := t + 1000000\<rparr>) s5)"

text \<open>The result is 2 for the timer, 1 for another device and 0 for no interrupt.\<close>

definition devintr :: "'a machine_scheme \<Rightarrow> (nat \<times> 'a machine_scheme) res" where
  "devintr s =
     (if scause (k_csr s) = 0x80000009 then
        (case plic_claim s of (irq, s1) \<Rightarrow>
           bind_res
             (if irq = UART0_IRQ then uartintr s1
              else if irq = VIRTIO0_IRQ then virtio_disk_intr s1
              else if irq \<noteq> 0 then printf (''unexpected interrupt irq=%d'' @ [CHR 0x0A]) [VInt irq] s1
              else Ok s1) (\<lambda>s2.
             Ok (1, if irq \<noteq> 0 then plic_complete irq s2 else s2)))
      else if scause (k_csr s) = 0x80000005 then Ok (2, clockintr s)
      else Ok (0, s))"

definition trapinithart :: "'a kernel_scheme \<Rightarrow> 'a kernel_scheme" where
  "trapinithart s = upd_csr (\<lambda>c. c\<lparr>stvec := k_kernelvec s\<rparr>) s"

section \<open>The return to user space\<close>

definition prepare_return :: "'a kernel_scheme \<Rightarrow> 'a kernel_scheme" where
  "prepare_return s =
     (let s1 = intr_off s;
          s2 = upd_csr (\<lambda>c. c\<lparr>stvec := ucast TRAMPOLINE + (k_uservec s1 - k_trampoline s1)\<rparr>) s1;
          s3 = tf_set TF_kernel_satp (satp (k_csr s2)) s2;
          s4 = tf_set TF_kernel_sp (kstack (myproc s3) + PGSIZE) s3;
          s5 = tf_set TF_kernel_trap (k_usertrap s4) s4;
          s6 = tf_set TF_kernel_hartid 0 s5;
          s7 = upd_csr (\<lambda>c. c\<lparr>sstatus := (sstatus c AND NOT SSTATUS_SPP) OR SSTATUS_SPIE\<rparr>) s6
      in upd_csr (\<lambda>c. c\<lparr>sepc := tf_get TF_epc s7\<rparr>) s7)"

text \<open>How a trap ends: the process has exited, gives up the CPU, or returns with this \<^verbatim>\<open>satp\<close>.\<close>

datatype trap_end = TrapExit | TrapYield | TrapReturn uint32

definition trap_return :: "'a kernel_scheme \<Rightarrow> (trap_end \<times> 'a kernel_scheme) res" where
  "trap_return s = Ok (TrapReturn (MAKE_SATP (pagetable (p_as (myproc s)))), prepare_return s)"

definition trap_exit :: "'a kernel_scheme \<Rightarrow> (trap_end \<times> 'a kernel_scheme) res" where
  "trap_exit s = bind_res (kexit (- 1) s) (\<lambda>s1. Ok (TrapExit, s1))"

text \<open>The tail of \<^verbatim>\<open>usertrap\<close>. After the \<^verbatim>\<open>yield\<close> it goes on with \<open>trap_return\<close> when the process runs again.\<close>

definition usertrap_end :: "nat \<Rightarrow> 'a kernel_scheme \<Rightarrow> (trap_end \<times> 'a kernel_scheme) res" where
  "usertrap_end which_dev s =
     (if killed (me s) (pt s) then trap_exit s
      else if which_dev = 2 then Ok (TrapYield, s\<lparr>pt := yield True (me s) (pt s)\<rparr>)
      else trap_return s)"

definition unexpected_trap :: "'a kernel_scheme \<Rightarrow> 'a kernel_scheme res" where
  "unexpected_trap s =
     bind_res (printf (''usertrap(): unexpected scause 0x%x pid=%d'' @ [CHR 0x0A])
       [VInt (scause (k_csr s)), VInt (pid (myproc s))] s) (\<lambda>s1.
     bind_res (printf (''            sepc=0x%x stval=0x%x'' @ [CHR 0x0A])
       [VInt (sepc (k_csr s1)), VInt (stval (k_csr s1))] s1) (\<lambda>s2.
       Ok (s2\<lparr>pt := setkilled (me s2) (pt s2)\<rparr>)))"

definition user_syscall :: "'a kernel_scheme \<Rightarrow> (trap_end \<times> 'a kernel_scheme) res" where
  "user_syscall s =
     (if killed (me s) (pt s) then trap_exit s
      else bind_res (syscall (intr_on (tf_set TF_epc (tf_get TF_epc s + 4) s))) (\<lambda>(exited, s1).
             if exited then Ok (TrapExit, s1) else usertrap_end 0 s1))"

definition usertrap :: "'a machine_scheme \<Rightarrow> (trap_end \<times> 'a machine_scheme) res" where
  "usertrap s =
     (if sstatus (k_csr s) AND SSTATUS_SPP \<noteq> 0 then Panic ''usertrap: not from user mode''
      else
        let s1 = tf_set TF_epc (sepc (k_csr s)) (trapinithart s)
        in if scause (k_csr s1) = 8 then user_syscall s1
           else bind_res (devintr s1) (\<lambda>(which_dev, s2).
             if which_dev \<noteq> 0 then usertrap_end which_dev s2
             else if scause (k_csr s2) = 15 \<or> scause (k_csr s2) = 13 then
               bind_res (vmfault (p_as (myproc s2)) (pagetable (p_as (myproc s2))) (stval (k_csr s2))
                 (scause (k_csr s2) = 13) (km s2)) (\<lambda>(pa, k).
                 let s3 = s2\<lparr>km := k\<rparr>
                 in if pa \<noteq> 0 then usertrap_end 0 s3 else bind_res (unexpected_trap s3) (usertrap_end 0))
             else bind_res (unexpected_trap s2) (usertrap_end 0)))"

text \<open>
  \<^verbatim>\<open>kerneltrap\<close> up to the \<^verbatim>\<open>yield\<close>, if it yields, and the restoring of the registers after it. The saved
  values are those at the entry.
\<close>

definition kerneltrap_end :: "uint32 \<Rightarrow> uint32 \<Rightarrow> 'a kernel_scheme \<Rightarrow> 'a kernel_scheme" where
  "kerneltrap_end epc st s = upd_csr (\<lambda>c. c\<lparr>sepc := epc, sstatus := st\<rparr>) s"

definition kerneltrap :: "'a machine_scheme \<Rightarrow> (bool \<times> 'a machine_scheme) res" where
  "kerneltrap s =
     (let epc = sepc (k_csr s); st = sstatus (k_csr s)
      in if st AND SSTATUS_SPP = 0 then Panic ''kerneltrap: not from supervisor mode''
         else if intr_get s then Panic ''kerneltrap: interrupts enabled''
         else bind_res (devintr s) (\<lambda>(which_dev, s1).
           if which_dev = 0 then Panic ''kerneltrap''
           else if which_dev = 2 \<and> cur s1 \<noteq> None then Ok (True, s1\<lparr>pt := yield True (me s1) (pt s1)\<rparr>)
           else Ok (False, kerneltrap_end epc st s1)))"

section \<open>The first return, and the boot\<close>

text \<open>The string \<^verbatim>\<open>"/init"\<close>, which is the path and the argument.\<close>

definition store_string :: "addr \<Rightarrow> uint8 list \<Rightarrow> mem \<Rightarrow> mem" where
  "store_string a bs m = fold (\<lambda>(i, b) m. m(a + of_nat i := b)) (enumerate 0 (bs @ [0])) m"

definition init_path :: "uint8 list" where
  "init_path = map of_char ''/init''"

definition forkret :: "'a kernel_scheme \<Rightarrow> (trap_end \<times> 'a kernel_scheme) res" where
  "forkret s =
     bind_res
       (if k_first s then
          bind_res (fsinit ROOTDEV s) (\<lambda>s1.
            let s2 = poke (store_string (pathbuf s1) init_path) (s1\<lparr>k_first := False\<rparr>)
            in bind_res (kexec (pathbuf s2) [pathbuf s2] s2) (\<lambda>(r, s3).
                 if r = - 1 then Panic ''exec'' else Ok (tf_set TF_a0 (of_int r) s3)))
        else Ok s) trap_return"

text \<open>\<open>etext\<close> is the linker symbol; the scheduler takes over from the state at the end.\<close>

definition banner :: "'a cstate_scheme \<Rightarrow> 'a cstate_scheme res" where
  "banner s =
     bind_res (printf [CHR 0x0A] [] s) (\<lambda>s1.
     bind_res (printf (''YHsys RV32-UP kernel booting'' @ [CHR 0x0A]) [] s1) (\<lambda>s2.
     bind_res (printf (''YHsys: Sv32 + COW + LazyAlloc + UP'' @ [CHR 0x0A]) [] s2) (printf [CHR 0x0A] [])))"

definition kvminit :: "addr \<Rightarrow> 'a kernel_scheme \<Rightarrow> (addr \<times> 'a kernel_scheme) res" where
  "kvminit etext s = bind_res (kvmmake etext (k_trampoline s) (km s)) (\<lambda>(pgt, k). Ok (pgt, s\<lparr>km := k\<rparr>))"

definition kvminithart :: "addr \<Rightarrow> 'a kernel_scheme \<Rightarrow> 'a kernel_scheme" where
  "kvminithart pgt s = upd_csr (\<lambda>c. c\<lparr>satp := MAKE_SATP pgt\<rparr>) s"

definition boot :: "addr \<Rightarrow> 'a machine_scheme \<Rightarrow> 'a machine_scheme res" where
  "boot etext s =
     bind_res (banner (consoleinit s)) (\<lambda>s1.
     bind_res (kinit (km s1)) (\<lambda>k.
     bind_res (kvminit etext (s1\<lparr>km := k\<rparr>)) (\<lambda>(pgt, s2).
       let s3 = kvminithart pgt s2;
           s4 = s3\<lparr>pt := procinit (pt s3)\<rparr>;
           s5 = plicinithart (plicinit (trapinithart s4));
           s6 = iinit (binit s5)
       in bind_res (virtio_disk_init s6) userinit)))"

section \<open>Machine mode\<close>

record mcsrs =
  mstatus :: uint32
  mepc :: uint32
  msatp :: uint32
  medeleg :: uint32
  mideleg :: uint32
  msie :: uint32
  pmpaddr0 :: uint32
  pmpcfg0 :: uint32
  mie :: uint32
  mcounteren :: uint32
  mstimecmp :: uint32

text \<open>\<open>now\<close> is what \<^verbatim>\<open>r_time()\<close> answers.\<close>

definition timerinit :: "uint32 \<Rightarrow> mcsrs \<Rightarrow> mcsrs" where
  "timerinit now c =
     (let c1 = c\<lparr>mie := mie c OR push_bit 5 1\<rparr>;
          c2 = c1\<lparr>mcounteren := mcounteren c1 OR 2\<rparr>
      in c2\<lparr>mstimecmp := now + 1000000\<rparr>)"

definition start :: "addr \<Rightarrow> uint32 \<Rightarrow> mcsrs \<Rightarrow> mcsrs" where
  "start main_addr now c =
     (let c1 = c\<lparr>mstatus := (mstatus c AND NOT (push_bit 11 3)) OR push_bit 11 1\<rparr>;
          c2 = c1\<lparr>mepc := main_addr\<rparr>;
          c3 = c2\<lparr>msatp := 0\<rparr>;
          c4 = c3\<lparr>medeleg := 0xffff, mideleg := 0xffff\<rparr>;
          c5 = c4\<lparr>msie := msie c4 OR push_bit 9 1 OR push_bit 5 1\<rparr>;
          c6 = c5\<lparr>pmpaddr0 := 0xffffffff, pmpcfg0 := 0xf\<rparr>
      in timerinit now c6)"

end
