(* ===== verification/Console_Spec.thy ===== *)
theory Console_Spec
  imports Console Fs_Blocks
begin

text \<open>
  The console as a line editor: what \<^verbatim>\<open>consoleintr\<close> does to the input buffer, for every sequence
  of characters that arrives.
\<close>

section \<open>The editor\<close>

text \<open>The bytes that \<^verbatim>\<open>consoleread\<close> may take, and the line that is being typed.\<close>

type_synonym editor = "uint8 list \<times> uint8 list"

definition edit :: "int \<Rightarrow> editor \<Rightarrow> editor" where
  "edit c ed = (case ed of (ready, line) \<Rightarrow>
     if c = 16 then (ready, line)
     else if c = 21 then (ready, [])
     else if c = 8 \<or> c = 127 then (ready, butlast line)
     else if c \<noteq> 0 \<and> length ready + length line < INPUT_BUF_SIZE then
       let line' = line @ [of_int (if c = 13 then 10 else c)]
       in if c = 10 \<or> c = 13 \<or> c = 4 \<or> length ready + length line' = INPUT_BUF_SIZE
          then (ready @ line', []) else (ready, line')
     else (ready, line))"

definition cabs :: "consbuf \<Rightarrow> editor" where
  "cabs b = (ring_list INPUT_BUF_SIZE (cbuf b) (c_r b) (c_w b), ring_list INPUT_BUF_SIZE (cbuf b) (c_w b) (c_e b))"

definition cons_ok :: "consbuf \<Rightarrow> bool" where
  "cons_ok b \<longleftrightarrow> unat (c_w b - c_r b) + unat (c_e b - c_w b) = unat (c_e b - c_r b) \<and>
     unat (c_e b - c_r b) \<le> INPUT_BUF_SIZE \<and> 10 \<notin> set (snd (cabs b)) \<and>
     (unat (c_e b - c_r b) = INPUT_BUF_SIZE \<longrightarrow> c_w b = c_e b)"

section \<open>Pieces of the ring\<close>

lemma ring_list_append:
  assumes "unat (w - r) + unat (e - w) = unat (e - r)"
  shows "ring_list n d r w @ ring_list n d w e = ring_list n d r e"
proof -
  have "map (\<lambda>k. k + unat (w - r)) [0..<unat (e - w)] = [unat (w - r)..<unat (e - r)]"
    using assms by (simp add: map_add_upt add.commute)
  then have "[0..<unat (e - r)] = [0..<unat (w - r)] @ map (\<lambda>k. unat (w - r) + k) [0..<unat (e - w)]"
    using upt_add_eq_append [of 0 "unat (w - r)" "unat (e - w)"] assms by (simp add: add.commute)
  moreover have "r + of_nat (unat (w - r) + k) = w + of_nat k" for k by simp
  ultimately show ?thesis by (simp add: ring_list_def comp_def)
qed

lemma index_back:
  assumes "w \<noteq> (e :: uint32)"
  shows "unat (e - 1 - w) = unat (e - w) - 1"
proof -
  have "1 \<le> e - w" using assms by (simp add: word_le_nat_alt Suc_le_eq unat_gt_0)
  then have "unat (e - w - 1) = unat (e - w) - 1" using unat_sub [of 1 "e - w"] by simp
  moreover have "e - 1 - w = e - w - 1" by (simp add: algebra_simps)
  ultimately show ?thesis by (simp only:)
qed

lemma ring_list_keep:
  assumes "n dvd 4294967296" "unat (w - r) \<le> unat (e - r)" "unat (e - r) < n"
  shows "ring_list n (d(slot n e := c)) r w = ring_list n d r w"
  using slot_distinct [OF assms(1) _ assms(3)] assms(2) by (auto simp: ring_list_def)

lemma ring_list_last:
  assumes "w \<noteq> e"
  shows "d (unat (e - 1) mod n) = last (ring_list n d w e)"
proof -
  have "0 < unat (e - w)" using assms by (simp add: unat_gt_0)
  moreover from this have "w + of_nat (unat (e - w) - 1) = e - 1" by (simp add: of_nat_diff)
  ultimately show ?thesis by (simp add: ring_list_def last_map)
qed

section \<open>The transmitter\<close>

text \<open>The UART becomes idle again and again.\<close>

definition uart_live :: "uartdev \<Rightarrow> bool" where
  "uart_live u \<longleftrightarrow> (\<forall>t. \<exists>k. u_reads u (t + k) LSR AND LSR_TX_IDLE \<noteq> 0)"

lemma spin_tx_idle_ends:
  assumes "u_reads u (u_pos u + k) LSR AND LSR_TX_IDLE \<noteq> 0"
  shows "\<exists>u'. spin_tx_idle u = Some u' \<and> u_reads u' = u_reads u"
  using assms
proof (induction k arbitrary: u)
  case 0
  then show ?case by (subst spin_tx_idle.simps) (simp add: ReadReg_def)
next
  case (Suc k)
  from Suc.IH [of "u\<lparr>u_pos := u_pos u + 1\<rparr>"] Suc.prems obtain u' where
    "spin_tx_idle (u\<lparr>u_pos := u_pos u + 1\<rparr>) = Some u'" "u_reads u' = u_reads u" by auto
  then show ?case by (subst spin_tx_idle.simps) (auto simp: ReadReg_def)
qed

definition out_ok :: "'a cstate_scheme \<Rightarrow> bool" where
  "out_ok s \<longleftrightarrow> \<not> panicked s \<and> uart_live (uart s)"

text \<open>Output returns, and changes nothing but the UART.\<close>

definition silent :: "'a cstate_scheme res \<Rightarrow> 'a cstate_scheme \<Rightarrow> bool" where
  "silent r s \<longleftrightarrow> (\<exists>u. r = Ok (s\<lparr>uart := u\<rparr>) \<and> uart_live u)"

lemma uartputc_silent: "out_ok s \<Longrightarrow> silent (uartputc_sync c s) s"
  using spin_tx_idle_ends [of "uart s"]
  by (fastforce simp: out_ok_def uart_live_def silent_def uartputc_sync_def of_opt_def WriteReg_def)

lemma silent_bind:
  assumes "silent r s" "out_ok s" "\<And>s1. out_ok s1 \<Longrightarrow> silent (f s1) s1"
  shows "silent (bind_res r f) s"
proof -
  obtain u where r: "r = Ok (s\<lparr>uart := u\<rparr>)" "uart_live u" using assms(1) by (auto simp: silent_def)
  then have "silent (f (s\<lparr>uart := u\<rparr>)) (s\<lparr>uart := u\<rparr>)" using assms(2) by (intro assms(3)) (simp add: out_ok_def)
  then show ?thesis using r by (auto simp: silent_def)
qed

lemma consputc_silent: "out_ok s \<Longrightarrow> silent (consputc c s) s"
  by (auto simp: consputc_def intro!: silent_bind uartputc_silent)

lemma silent_Ok: "out_ok s \<Longrightarrow> silent (Ok s) s"
  by (auto simp: silent_def out_ok_def intro!: exI [of _ "uart s"])

lemma for_res_silent: "out_ok s \<Longrightarrow> (\<And>x s1. out_ok s1 \<Longrightarrow> silent (f x s1) s1) \<Longrightarrow> silent (for_res f xs s) s"
proof (induction xs arbitrary: s)
  case Nil
  then show ?case by (simp add: silent_Ok)
next
  case (Cons x xs)
  then show ?case by (auto intro!: silent_bind)
qed

lemma printf_silent: "out_ok s \<Longrightarrow> silent (printf f as s) s"
  by (auto simp: printf_def intro!: for_res_silent consputc_silent)

lemma procdump_silent: "out_ok s \<Longrightarrow> silent (procdump s) s"
  unfolding procdump_def procdump_line_def
  by (intro silent_bind for_res_silent printf_silent)
    (auto simp: Let_def intro!: silent_bind printf_silent silent_Ok)

section \<open>One character\<close>

lemma ring_128: "INPUT_BUF_SIZE dvd 4294967296" "INPUT_BUF_SIZE \<le> 4294967295" "INPUT_BUF_SIZE = 128"
  by (simp_all add: INPUT_BUF_SIZE_def)

lemma slot_cslot: "cslot i = slot INPUT_BUF_SIZE i"
  by (simp add: cslot_def slot_def)

lemma cabs_lengths:
  "length (fst (cabs b)) = unat (c_w b - c_r b)" "length (snd (cabs b)) = unat (c_e b - c_w b)"
  by (simp_all add: cabs_def)

lemma cons_ok_back:
  assumes ok: "cons_ok b" and ne: "c_e b \<noteq> c_w b"
  shows "cons_ok (b\<lparr>c_e := c_e b - 1\<rparr>)" "cabs (b\<lparr>c_e := c_e b - 1\<rparr>) = (fst (cabs b), butlast (snd (cabs b)))"
proof -
  have e: "cabs (b\<lparr>c_e := c_e b - 1\<rparr>) = (fst (cabs b), butlast (snd (cabs b)))"
    using ring_list_unput [of "c_w b" "c_e b"] ne by (simp add: cabs_def)
  then show "cabs (b\<lparr>c_e := c_e b - 1\<rparr>) = (fst (cabs b), butlast (snd (cabs b)))" .
  have pos: "0 < unat (c_e b - c_w b)" using ne by (simp add: unat_gt_0)
  then have "c_e b \<noteq> c_r b" using ok by (auto simp: cons_ok_def)
  then have "unat (c_e b - 1 - c_r b) = unat (c_e b - c_r b) - 1" "unat (c_e b - 1 - c_w b) = unat (c_e b - c_w b) - 1"
    using index_back ne by metis+
  then show "cons_ok (b\<lparr>c_e := c_e b - 1\<rparr>)"
    using ok pos e unfolding cons_ok_def by (auto dest: in_set_butlastD)
qed

lemma cons_ok_store:
  assumes ok: "cons_ok b" and room: "unat (c_e b - c_r b) < INPUT_BUF_SIZE"
  shows "cabs (store_char c b) = (fst (cabs b), snd (cabs b) @ [c])"
    "unat (c_e (store_char c b) - c_r b) = Suc (unat (c_e b - c_r b))"
    "unat (c_e (store_char c b) - c_w b) = Suc (unat (c_e b - c_w b))"
proof -
  have le: "unat (c_w b - c_r b) \<le> unat (c_e b - c_r b)" "unat (c_e b - c_w b) \<le> unat (c_e b - c_r b)"
    using ok by (auto simp: cons_ok_def)
  have "unat (c_e b - c_w b) < INPUT_BUF_SIZE" using le(2) room by linarith
  then show "cabs (store_char c b) = (fst (cabs b), snd (cabs b) @ [c])"
    using ring_list_put [OF ring_128(1) _ ring_128(2), of "c_e b" "c_w b" "cbuf b"] ring_list_keep [OF ring_128(1) le(1) room, of "cbuf b"]
    by (simp add: cabs_def store_char_def slot_cslot)
  show "unat (c_e (store_char c b) - c_r b) = Suc (unat (c_e b - c_r b))" "unat (c_e (store_char c b) - c_w b) = Suc (unat (c_e b - c_w b))"
    using room le(2) by (auto simp: store_char_def ring_128(3) intro!: index_advance)
qed

lemma cons_ok_commit:
  assumes "unat (c_w b - c_r b) + unat (c_e b - c_w b) = unat (c_e b - c_r b)" "unat (c_e b - c_r b) \<le> INPUT_BUF_SIZE"
  shows "cons_ok (b\<lparr>c_w := c_e b\<rparr>)" "cabs (b\<lparr>c_w := c_e b\<rparr>) = (fst (cabs b) @ snd (cabs b), [])"
  using assms ring_list_append [OF assms(1), of INPUT_BUF_SIZE "cbuf b"] by (simp_all add: cons_ok_def cabs_def)

lemma kill_line_spec:
  assumes "out_ok s" "cons_ok (cons s)"
  shows "\<exists>s'. kill_line s = Ok s' \<and> out_ok s' \<and> cons_ok (cons s') \<and> cabs (cons s') = (fst (cabs (cons s)), [])"
  using assms
proof (induction "unat (c_e (cons s) - c_w (cons s))" arbitrary: s)
  case 0
  then have "c_e (cons s) = c_w (cons s)" by (simp add: unat_eq_0)
  then show ?case using 0 by (subst kill_line.simps) (simp add: cabs_def)
next
  case (Suc k)
  let ?b = "cons s"
  have ne: "c_e ?b \<noteq> c_w ?b" using Suc.hyps(2) by auto
  have "last (snd (cabs ?b)) \<in> set (snd (cabs ?b))" using ne by (intro last_in_set) (simp add: cabs_def ring_list_Nil_iff)
  then have nl: "cbuf ?b (cslot (c_e ?b - 1)) \<noteq> 10"
    using ring_list_last [of "c_w ?b" "c_e ?b" "cbuf ?b" INPUT_BUF_SIZE] ne Suc.prems(2) by (auto simp: cons_ok_def cabs_def cslot_def)
  let ?s1 = "s\<lparr>cons := ?b\<lparr>c_e := c_e ?b - 1\<rparr>\<rparr>"
  note b = cons_ok_back [OF Suc.prems(2) ne]
  have "out_ok ?s1" using Suc.prems(1) by (simp add: out_ok_def)
  from consputc_silent [OF this] obtain u where u: "consputc BACKSPACE ?s1 = Ok (?s1\<lparr>uart := u\<rparr>)" "uart_live u"
    by (auto simp: silent_def)
  have "k = unat (c_e (cons (?s1\<lparr>uart := u\<rparr>)) - c_w (cons (?s1\<lparr>uart := u\<rparr>)))"
    using Suc.hyps(2) index_back [of "c_w ?b" "c_e ?b"] ne by simp
  from Suc.hyps(1) [OF this] b u(2) Suc.prems(1) show ?case
    using ne nl u(1) by (subst kill_line.simps) (simp add: out_ok_def)
qed

lemma ctrl_vals: "ctrl (CHR ''P'') = 16" "ctrl (CHR ''U'') = 21" "ctrl (CHR ''H'') = 8" "ctrl (CHR ''D'') = 4"
  by (simp_all add: ctrl_def)

lemma of_int_10: "0 \<le> c \<Longrightarrow> c < 256 \<Longrightarrow> (10 :: uint8) = of_int c \<longleftrightarrow> c = 10"
proof -
  assume "0 \<le> c" "c < 256"
  then have "uint (of_int c :: uint8) = c" by (simp add: uint_word_of_int_eq take_bit_int_eq_self)
  moreover have "uint (10 :: uint8) = 10" by simp
  ultimately show ?thesis by (metis of_int_numeral)
qed

lemma consoleintr_store:
  assumes out: "out_ok s" and ok: "cons_ok (cons s)" and c: "c \<notin> {0, 8, 16, 21, 127}" and r: "0 \<le> c" "c < 256"
    and room: "unat (c_e (cons s) - c_r (cons s)) < INPUT_BUF_SIZE"
  shows "\<exists>s'. consoleintr c s = Ok s' \<and> out_ok s' \<and> cons_ok (cons s') \<and> cabs (cons s') = edit c (cabs (cons s))"
proof -
  let ?c = "if c = 13 then 10 else c" and ?b = "cons s"
  define b' where "b' = store_char (of_int ?c) ?b"
  obtain u where u: "consputc ?c s = Ok (s\<lparr>uart := u\<rparr>)" "uart_live u"
    using consputc_silent [OF out] by (auto simp: silent_def)
  note st = cons_ok_store [OF ok room, of "of_int ?c", folded b'_def]
  have same: "c_r b' = c_r ?b" "c_w b' = c_w ?b" by (simp_all add: b'_def store_char_def)
  have sum: "unat (c_w b' - c_r b') + unat (c_e b' - c_w b') = unat (c_e b' - c_r b')" "unat (c_e b' - c_r b') \<le> INPUT_BUF_SIZE"
    using ok st room by (simp_all add: cons_ok_def same)
  have full: "c_e b' - c_r b' = of_nat INPUT_BUF_SIZE \<longleftrightarrow> unat (c_e b' - c_r b') = INPUT_BUF_SIZE"
    by (simp add: ring_128(3) word_unat_eq_iff)
  have lens: "length (fst (cabs ?b)) + length (snd (cabs ?b)) = unat (c_e ?b - c_r ?b)"
    using ok by (simp add: cabs_lengths cons_ok_def)
  have dn: "line_done ?c b' \<longleftrightarrow> c = 10 \<or> c = 13 \<or> c = 4 \<or> unat (c_e b' - c_r b') = INPUT_BUF_SIZE"
    unfolding line_done_def full ctrl_vals by auto
  have lt: "c_e ?b - c_r ?b < of_nat INPUT_BUF_SIZE" using room by (simp add: word_less_nat_alt ring_128(3))
  let ?s2 = "s\<lparr>uart := u, cons := b'\<rparr>" and ?b2 = "b'\<lparr>c_w := c_e b'\<rparr>"
  have e: "consoleintr c s = Ok (if line_done ?c b' then kwakeup KCons (?s2\<lparr>cons := ?b2\<rparr>) else ?s2)"
    using u(1) c lt by (simp add: consoleintr_def ctrl_vals Let_def b'_def)
  have ed: "edit c (cabs ?b) = (if line_done ?c b' then (fst (cabs b') @ snd (cabs b'), []) else cabs b')"
    using c lens room st by (auto simp: edit_def dn same case_prod_beta Let_def)
  have "cons_ok b'" if "\<not> line_done ?c b'"
    using that sum ok st(1) by (auto simp: cons_ok_def dn of_int_10 [OF r])
  then show ?thesis
    using cons_ok_commit [OF sum] e ed out u(2) by (auto simp: out_ok_def kwakeup_def)
qed

section \<open>Sequences of characters\<close>

lemma consoleintr_step:
  assumes out: "out_ok s" and ok: "cons_ok (cons s)" and r: "0 \<le> c" "c < 256"
  shows "\<exists>s'. consoleintr c s = Ok s' \<and> out_ok s' \<and> cons_ok (cons s') \<and> cabs (cons s') = edit c (cabs (cons s))"
proof -
  let ?b = "cons s"
  have lens: "length (fst (cabs ?b)) + length (snd (cabs ?b)) = unat (c_e ?b - c_r ?b)"
    using ok by (simp add: cabs_lengths cons_ok_def)
  consider "c = 16" | "c = 21" | "c = 8 \<or> c = 127" | "c = 0" | "c \<notin> {0, 8, 16, 21, 127}" by auto
  then show ?thesis
  proof cases
    case 1
    obtain u where "procdump s = Ok (s\<lparr>uart := u\<rparr>)" "uart_live u" using procdump_silent [OF out] by (auto simp: silent_def)
    then show ?thesis using 1 out ok by (simp add: consoleintr_def ctrl_vals edit_def case_prod_beta out_ok_def)
  next
    case 2
    then show ?thesis using kill_line_spec [OF out ok] by (auto simp: consoleintr_def ctrl_vals edit_def case_prod_beta)
  next
    case 3
    show ?thesis
    proof (cases "c_e ?b = c_w ?b")
      case True
      then have "snd (cabs ?b) = []" by (simp add: cabs_def)
      then show ?thesis using True 3 out ok by (auto simp: consoleintr_def ctrl_vals edit_def case_prod_beta prod_eq_iff)
    next
      case False
      let ?s1 = "s\<lparr>cons := ?b\<lparr>c_e := c_e ?b - 1\<rparr>\<rparr>"
      have "out_ok ?s1" using out by (simp add: out_ok_def)
      from consputc_silent [OF this] obtain u where "consputc BACKSPACE ?s1 = Ok (?s1\<lparr>uart := u\<rparr>)" "uart_live u"
        by (auto simp: silent_def)
      then show ?thesis using False 3 out cons_ok_back [OF ok False]
        by (auto simp: consoleintr_def ctrl_vals edit_def case_prod_beta out_ok_def)
    qed
  next
    case 4
    then show ?thesis using out ok by (simp add: consoleintr_def ctrl_vals edit_def case_prod_beta)
  next
    case 5
    show ?thesis
    proof (cases "unat (c_e ?b - c_r ?b) < INPUT_BUF_SIZE")
      case False
      then have "\<not> c_e ?b - c_r ?b < of_nat INPUT_BUF_SIZE" by (simp add: word_less_nat_alt ring_128(3))
      then show ?thesis using 5 False lens out ok by (simp add: consoleintr_def ctrl_vals edit_def case_prod_beta)
    qed (rule consoleintr_store [OF out ok 5 r])
  qed
qed

text \<open>
  C9. The console is a line editor. Whatever characters arrive, \<^verbatim>\<open>consoleintr\<close> handles them all
  and leaves the buffer with the lines and the unfinished line that the editor has: backspace
  and kill edit the unfinished line only, a newline, \<^verbatim>\<open>^D\<close> or a full buffer hands the line over
  to readers, and characters that do not fit are dropped.
\<close>

theorem consoleintr_refines:
  assumes "out_ok s" "cons_ok (cons s)" "\<forall>c \<in> set cs. 0 \<le> c \<and> c < 256"
  shows "\<exists>s'. for_res consoleintr cs s = Ok s' \<and> cons_ok (cons s') \<and> cabs (cons s') = fold edit cs (cabs (cons s))"
  using assms
proof (induction cs arbitrary: s)
  case (Cons c cs)
  obtain s1 where "consoleintr c s = Ok s1" "out_ok s1" "cons_ok (cons s1)" "cabs (cons s1) = edit c (cabs (cons s))"
    using consoleintr_step [OF Cons.prems(1,2), of c] Cons.prems(3) by auto
  with Cons.IH [of s1] Cons.prems(3) show ?case by auto
qed auto

text \<open>A UART that is always idle; \<^verbatim>\<open>ab\<close>, backspace, \<^verbatim>\<open>c\<close>, return, \<^verbatim>\<open>d\<close>.\<close>

definition ex_cons :: cstate where
  "ex_cons = fstate.extend ex_fs (cstate.fields \<lparr>tx_busy = False, u_writes = [], u_reads = (\<lambda>_ _. 32), u_pos = 0\<rparr>
     \<lparr>cbuf = (\<lambda>_. 0), c_r = 0xffffffff, c_w = 0xffffffff, c_e = 0xffffffff\<rparr> False 0x80012000 True)"

theorem consoleintr_refines_witness:
  "\<exists>s'. for_res consoleintr [97, 98, 8, 99, 13, 100] ex_cons = Ok s' \<and> cabs (cons s') = ([97, 99, 10], [100])"
proof -
  have c: "out_ok ex_cons" "cons_ok (cons ex_cons)" "cabs (cons ex_cons) = ([], [])"
    by (simp_all add: ex_cons_def fstate.defs cstate.defs out_ok_def uart_live_def cons_ok_def cabs_def)
  moreover have "fold edit [97, 98, 8, 99, 13, 100] ([], []) = ([97, 99, 10], [100])"
    by (simp add: edit_def INPUT_BUF_SIZE_def Let_def)
  ultimately show ?thesis using consoleintr_refines [OF c(1,2), of "[97, 98, 8, 99, 13, 100]"] by auto
qed

section \<open>Numbers\<close>

definition dval :: "char \<Rightarrow> nat" where
  "dval c = (if of_char c < (58 :: nat) then of_char c - 48 else of_char c - 87)"

definition num_val :: "nat \<Rightarrow> string \<Rightarrow> nat" where
  "num_val base cs = fold (\<lambda>c v. base * v + dval c) cs 0"

definition int_val :: "nat \<Rightarrow> string \<Rightarrow> int" where
  "int_val base cs = (if take 1 cs = ''-'' then - int (num_val base (tl cs)) else int (num_val base cs))"

lemma digit_facts:
  assumes "k < 16"
  shows "dval (digits ! k) = k" "digits ! k \<noteq> CHR ''-''"
proof -
  have "\<forall>k < 16. dval (digits ! k) = k \<and> digits ! k \<noteq> CHR ''-''"
    by (simp add: digits_def dval_def All_less_Suc numeral_eq_Suc)
  then show "dval (digits ! k) = k" "digits ! k \<noteq> CHR ''-''" using assms by auto
qed

lemma int_digits_val:
  "2 \<le> base \<Longrightarrow> base \<le> 16 \<Longrightarrow> fold (\<lambda>c v. base * v + dval c) (int_digits base x acc) 0 = fold (\<lambda>c v. base * v + dval c) acc x"
proof (induction base x acc rule: int_digits.induct)
  case (1 base x acc)
  have "x mod base < 16" using 1(2,3) mod_less_divisor [of base x] by linarith
  then have d: "dval (digits ! (x mod base)) = x mod base" by (rule digit_facts)
  show ?case
  proof (cases "x div base = 0")
    case True
    then have "x mod base = x" using div_mult_mod_eq [of x base] by simp
    then show ?thesis using True d by (subst int_digits.simps) simp
  next
    case False
    then show ?thesis using 1 d by (subst int_digits.simps) (simp add: Let_def)
  qed
qed

lemma int_digits_hd:
  "2 \<le> base \<Longrightarrow> base \<le> 16 \<Longrightarrow> \<exists>k < 16. \<exists>ds. int_digits base x acc = digits ! k # ds"
proof (induction base x acc rule: int_digits.induct)
  case (1 base x acc)
  have "x mod base < 16" using 1(2,3) mod_less_divisor [of base x] by linarith
  then show ?case using 1 by (subst int_digits.simps) (auto simp: Let_def)
qed

lemma int_digits_length:
  "2 \<le> base \<Longrightarrow> x < base ^ Suc n \<Longrightarrow> length (int_digits base x acc) \<le> Suc n + length acc"
proof (induction n arbitrary: x acc)
  case 0
  then show ?case by (subst int_digits.simps) simp
next
  case (Suc n)
  have "x div base < base ^ Suc n" using Suc.prems by (simp add: less_mult_imp_div_less mult.commute)
  from Suc.IH [OF Suc.prems(1) this, of "digits ! (x mod base) # acc"] Suc.prems show ?case by (subst int_digits.simps) (auto simp: Let_def)
qed

lemma uint_of_small: "0 \<le> k \<Longrightarrow> k < 4294967296 \<Longrightarrow> uint (of_int k :: uint32) = k"
  by (simp add: uint_word_of_int_eq take_bit_int_eq_self)

lemma sint_range: "- 2147483648 \<le> sint (w :: uint32)" "sint (w :: uint32) < 2147483648"
  using sint_ge [of w] sint_lt [of w] by simp_all

lemma uint_neg_sint: "sint (w :: uint32) < 0 \<Longrightarrow> uint (- w) = - sint w"
  using uint_of_small [of "- sint w"] sint_range [of w] by simp

lemma uint_pos_sint: "0 \<le> sint (w :: uint32) \<Longrightarrow> uint w = sint w"
  using uint_of_small [of "sint w"] sint_range [of w] by simp

text \<open>
  C38. Printed numbers read back. In base 10 or 16, and in every base between, the text that
  \<^verbatim>\<open>printint\<close> prints denotes its argument: as a signed number when \<^verbatim>\<open>sign\<close> is set, the most
  negative one included, and as an unsigned number otherwise. It has at most 11 characters,
  so it fits into \<^verbatim>\<open>buf[20]\<close>.
\<close>

theorem printint_roundtrip:
  assumes "10 \<le> base" "base \<le> 16"
  shows "int_val base (printint xx base is_signed) = (if is_signed then sint xx else uint xx) \<and>
     length (printint xx base is_signed) \<le> 11"
proof -
  have b: "2 \<le> base" using assms(1) by simp
  define neg where "neg = (is_signed \<and> sint xx < 0)"
  define x where "x = (if neg then - xx else xx)"
  define ds where "ds = int_digits base (unat x) []"
  have p: "printint xx base is_signed = (if neg then CHR ''-'' # ds else ds)"
    unfolding printint_def neg_def [symmetric] x_def [symmetric] Let_def ds_def by simp
  have val: "num_val base ds = unat x" using int_digits_val [OF b assms(2), of "unat x" "[]"] by (simp add: num_val_def ds_def)
  obtain k ds' where "k < 16" "ds = digits ! k # ds'" using int_digits_hd [OF b assms(2)] unfolding ds_def by blast
  then have nodash: "int_val base ds = int (num_val base ds)" using digit_facts(2) by (auto simp: int_val_def)
  have "(10 :: nat) ^ 10 \<le> base ^ 10" using assms(1) by (rule power_mono) simp
  then have "unat x < base ^ Suc 9" using unat_less_32 [of x] by simp
  then have len: "length ds \<le> 10" using int_digits_length [OF b, of "unat x" 9 "[]"] by (simp add: ds_def)
  have "int_val base (printint xx base is_signed) = (if neg then - int (unat x) else int (unat x))"
    using nodash val by (cases neg) (simp_all add: p, simp add: int_val_def)
  also have "\<dots> = (if is_signed then sint xx else uint xx)"
    using uint_neg_sint [of xx] uint_pos_sint [of xx] by (auto simp: neg_def x_def)
  finally show ?thesis using len by (simp add: p)
qed

theorem printint_roundtrip_witness:
  "int_val 10 (printint (- 42) 10 True) = - 42 \<and> int_val 16 (printint 0xbeef 16 False) = 0xbeef"
  using printint_roundtrip [of 10 "- 42" True] printint_roundtrip [of 16 "0xbeef" False] by simp

end
