(* ===== verification/Sem_Spec.thy ===== *)
theory Sem_Spec
  imports Syscall Console_Spec
begin

text \<open>
  Semaphores: the critical sections of \<^verbatim>\<open>sem_wait\<close>, \<^verbatim>\<open>sem_post\<close> and \<^verbatim>\<open>sem_destroy\<close> under every
  interleaving, and what becomes of the descriptor of a semaphore.
\<close>

section \<open>The critical sections\<close>

text \<open>
  A semaphore with the number of posts and of completed waits so far. The critical sections on
  the semaphore at \<open>a\<close> are the loop of \<^verbatim>\<open>sys_sem_wait\<close> and the calls \<^verbatim>\<open>sys_sem_post\<close> and
  \<^verbatim>\<open>sys_sem_destroy\<close> of a process whose first argument is a descriptor of this semaphore.
\<close>

datatype sem_op = SWait | SPost | SDestroy

type_synonym sem_hist = "semaphore \<times> nat \<times> nat"

definition put_sem :: "addr \<Rightarrow> semaphore \<Rightarrow> 'a kstate_scheme \<Rightarrow> 'a kstate_scheme" where
  "put_sem a x s = upd_sem a (\<lambda>_. x) s"

definition names_sem :: "addr \<Rightarrow> 'a kstate_scheme \<Rightarrow> bool" where
  "names_sem a s = (case argsem 0 s of Ok (Some (_, f)) \<Rightarrow> f_sem (ftable s f) = a | _ \<Rightarrow> False)"

fun sem_section :: "addr \<Rightarrow> sem_op \<Rightarrow> sem_hist \<times> 'a kstate_scheme \<Rightarrow> (sem_hist \<times> 'a kstate_scheme \<times> bool) option" where
  "sem_section a SWait ((x, p, w), s) =
     (case sem_wait_section a (put_sem a x s) of
        (Ret r, s') \<Rightarrow> Some ((sems s' a, p, if r = 0 then w + 1 else w), s', False)
      | (Sleep, s') \<Rightarrow> Some ((sems s' a, p, w), s', True))"
| "sem_section a SPost ((x, p, w), s) =
     (if names_sem a s
      then case sys_sem_post (put_sem a x s) of Ok (_, s') \<Rightarrow> Some ((sems s' a, p + 1, w), s', False) | _ \<Rightarrow> None
      else None)"
| "sem_section a SDestroy ((x, p, w), s) =
     (if names_sem a s
      then case sys_sem_destroy (put_sem a x s) of Ok (_, s') \<Rightarrow> Some ((sems s' a, p, w), s', False) | _ \<Rightarrow> None
      else None)"

definition sem_blocked :: "sem_hist \<Rightarrow> bool" where
  "sem_blocked m = (case m of (x, _) \<Rightarrow> sint (sem_value x) \<le> 0 \<and> \<not> sem_destroyed x)"

text \<open>
  The value is the 32-bit number \<open>v\<close> plus the posts minus the waits. As long as \<open>v\<close> and the posts
  do not exceed the largest \<^verbatim>\<open>int\<close>, there are no more waits than these.
\<close>

definition sem_hist_ok :: "int \<Rightarrow> sem_hist \<Rightarrow> bool" where
  "sem_hist_ok v m = (case m of (x, p, w) \<Rightarrow>
     sem_value x = word_of_int (v + int p - int w) \<and> (v + int p < 2 ^ 31 \<longrightarrow> int w \<le> v + int p))"

text \<open>What a section does to the semaphore, the counts and the process table.\<close>

inductive sem_effect :: "addr \<Rightarrow> nat option \<Rightarrow> nat \<Rightarrow> sem_hist \<Rightarrow> ptable \<Rightarrow> sem_hist \<Rightarrow> ptable \<Rightarrow> bool \<Rightarrow> bool" where
  Fails: "sem_effect a cu i m t m t False"
| Takes: "0 < sint (sem_value x) \<Longrightarrow>
    sem_effect a cu i (x, p, w) t (x\<lparr>sem_value := sem_value x - 1\<rparr>, p, w + 1) t False"
| Waits: "sem_blocked m \<Longrightarrow> sem_effect a cu i m t m (sleep_enter (KSem a) i t) True"
| Posts: "sem_effect a cu i (x, p, w) t (x\<lparr>sem_value := sem_value x + 1\<rparr>, p + 1, w) (wakeup cu (KSem a) t) False"
| Destroys: "sem_value x' = sem_value x \<Longrightarrow> sem_destroyed x' \<Longrightarrow>
    (\<And>j. pstate (procs t' j) = pstate (procs (wakeup cu (KSem a) t) j)) \<Longrightarrow>
    (\<And>j. chan (procs t' j) = chan (procs (wakeup cu (KSem a) t) j)) \<Longrightarrow>
    sem_effect a cu i (x, p, w) t (x', p, w) t' False"

lemma put_sem_sels [simp]: "pt (put_sem a x s) = pt s" "cur (put_sem a x s) = cur s" "me (put_sem a x s) = me s"
  "ftable (put_sem a x s) = ftable s" "sems (put_sem a x s) a = x" "argsem n (put_sem a x s) = argsem n s"
  by (simp_all add: put_sem_def upd_sem_def me_def argsem_def argfd_def argint_def argraw_def tf_get_def myproc_def
      split: option.split)

lemma sems_wakeup_sleep [simp]: "sems (kwakeup ch s) = sems s" "sems (ksleep ch s) = sems s"
  by (simp_all add: kwakeup_def ksleep_def)

lemma names_semE:
  assumes "names_sem a s"
  obtains fd f where "argsem 0 s = Ok (Some (fd, f))" "f_sem (ftable s f) = a" "f_type (ftable s f) = FD_SEM"
proof -
  obtain fd f where e: "argsem 0 s = Ok (Some (fd, f))" "f_sem (ftable s f) = a"
    using assms by (auto simp: names_sem_def split: res.splits option.splits)
  then have "f_type (ftable s f) = FD_SEM"
    by (auto simp: argsem_def bind_res_Ok_iff split: option.splits if_splits)
  with e show thesis by (rule that)
qed

lemma fileclose_sem:
  assumes "fileclose f s = Ok s'" "f_type (ftable s f) = FD_SEM"
  shows "pt s' = pt s \<and> cur s' = cur s \<and> sem_value (sems s' a) = sem_value (sems s a) \<and>
    sem_destroyed (sems s' a) = sem_destroyed (sems s a)"
  using assms
  by (auto simp: fileclose_def close_object_def sem_close_def upd_file_def upd_sem_def Let_def bind_res_Ok_iff split: if_splits)

lemma sem_wait_effect:
  assumes "sem_section a SWait (m, s) = Some (m', s', slept)"
  shows "cur s' = cur s \<and> sem_effect a (cur s) (me s) m (pt s) m' (pt s') slept"
proof -
  obtain x p w where m: "m = (x, p, w)" by (metis prod_cases3)
  show ?thesis
    using assms sem_effect.Fails [of a "cur s" "me s" m "pt s"] sem_effect.Takes [of x a "cur s" "me s" p w "pt s"]
      sem_effect.Waits [of m a "cur s" "me s" "pt s"]
    by (auto simp: m sem_wait_section_def sem_blocked_def upd_sem_def split: if_splits)
qed

lemma sem_post_effect:
  assumes "sem_section a SPost (m, s) = Some (m', s', slept)"
  shows "cur s' = cur s \<and> sem_effect a (cur s) (me s) m (pt s) m' (pt s') slept"
proof -
  obtain x p w where m: "m = (x, p, w)" by (metis prod_cases3)
  have n: "names_sem a s" using assms by (simp add: m split: if_splits)
  then obtain fd f where f: "argsem 0 s = Ok (Some (fd, f))" "f_sem (ftable s f) = a" by (rule names_semE)
  then show ?thesis
    using assms n sem_effect.Posts [of a "cur s" "me s" x p w "pt s"]
    by (auto simp: m sys_sem_post_def upd_sem_def Let_def)
qed

lemma sem_destroy_effect:
  assumes "sem_section a SDestroy (m, s) = Some (m', s', slept)"
  shows "cur s' = cur s \<and> sem_effect a (cur s) (me s) m (pt s) m' (pt s') slept"
proof -
  obtain x p w where m: "m = (x, p, w)" by (metis prod_cases3)
  have n: "names_sem a s" using assms by (simp add: m split: if_splits)
  then obtain fd f where f: "argsem 0 s = Ok (Some (fd, f))" "f_sem (ftable s f) = a" "f_type (ftable s f) = FD_SEM"
    by (rule names_semE)
  define s1 where "s1 = clear_fd fd (kwakeup (KSem a) (upd_sem a (\<lambda>x. x\<lparr>sem_destroyed := True\<rparr>) (put_sem a x s)))"
  have c: "fileclose f s1 = Ok s'" and m': "m' = (sems s' a, p, w)" "\<not> slept"
    using assms n f by (auto simp: m sys_sem_destroy_def Let_def s1_def bind_res_Ok_iff split: res.splits)
  have s1: "f_type (ftable s1 f) = FD_SEM" "cur s1 = cur s" "sem_value (sems s1 a) = sem_value x" "sem_destroyed (sems s1 a)"
    "\<And>j. pstate (procs (pt s1) j) = pstate (procs (wakeup (cur s) (KSem a) (pt s)) j)"
    "\<And>j. chan (procs (pt s1) j) = chan (procs (wakeup (cur s) (KSem a) (pt s)) j)"
    using f(3) by (simp_all add: s1_def clear_fd_def upd_me_def upd_sem_def put_sem_def kwakeup_def)
  from fileclose_sem [OF c s1(1)] s1 show ?thesis
    unfolding m m' by (auto intro!: sem_effect.Destroys simp: m'(2))
qed

lemma sem_section_effect:
  assumes "sem_section a oper (m, s) = Some (m', s', slept)"
  shows "cur s' = cur s \<and> sem_effect a (cur s) (me s) m (pt s) m' (pt s') slept"
  using assms by (cases oper) (blast dest: sem_wait_effect sem_post_effect sem_destroy_effect)+

lemma sint_word_small: "0 \<le> i \<Longrightarrow> i < 2 ^ 31 \<Longrightarrow> sint (word_of_int i :: uint32) = i"
  by (subst signed_of_int) (simp add: signed_take_bit_int_eq_self_iff)

lemma sem_effect_ok: "sem_effect a cu i m t m' t' slept \<Longrightarrow> sem_hist_ok v m \<Longrightarrow> sem_hist_ok v m'"
proof (induction rule: sem_effect.induct)
  case (Takes x a cu i p w t)
  then have v: "sem_value x = word_of_int (v + int p - int w)" "v + int p < 2 ^ 31 \<longrightarrow> int w \<le> v + int p"
    by (simp_all add: sem_hist_ok_def)
  have "int w < v + int p" if "v + int p < 2 ^ 31"
    using that v Takes.hyps sint_word_small [of "v + int p - int w"] by simp
  moreover have "sem_value x - 1 = word_of_int (v + int p - int (w + 1))" using v(1) by simp
  ultimately show ?case by (auto simp: sem_hist_ok_def)
next
  case (Posts a cu i x p w t)
  then show ?case by (auto simp: sem_hist_ok_def)
qed (auto simp: sem_hist_ok_def)

interpretation sem_waiters: sleep_channel "sem_hist_ok v" sem_blocked "sem_section a" "{KSem a}" "KSem a" for v a
proof
  fix s s' :: "'a kstate_scheme" and i j m m' oper slept
  assume c: "cur s = Some i" and ok: "sem_hist_ok v m" and e: "sem_section a oper (m, s) = Some (m', s', slept)"
  have eff: "cur s' = Some i" "sem_effect a (Some i) i m (pt s) m' (pt s') slept"
    using sem_section_effect [OF e] c by (simp_all add: me_cur)
  show "sem_hist_ok v m'" by (rule sem_effect_ok [OF eff(2) ok])
  show "cur s' = Some i \<and> (slept \<or> pstate (procs (pt s') i) = RUNNING)" if "pstate (procs (pt s) i) = RUNNING"
    using eff that by (auto simp: running_wakeup elim!: sem_effect.cases)
  show "asleep_on (KSem a) (pt s) j" if "j \<noteq> i" "asleep_on (KSem a) (pt s') j"
    using eff(2) that by (auto simp: asleep_on_def sleep_enter_def wakeup_def Let_def elim!: sem_effect.cases split: if_splits)
  show "sem_blocked m'" if "j \<noteq> i" "asleep_on (KSem a) (pt s') j" "sem_blocked m"
    using eff(2) that by (auto simp: sem_blocked_def asleep_on_def wakeup_def elim!: sem_effect.cases split: if_splits)
  show "sem_blocked m'" if "pstate (procs (pt s) i) = RUNNING" "asleep_on (KSem a) (pt s') i"
    using eff(2) that by (auto simp: sem_blocked_def asleep_on_def wakeup_def elim!: sem_effect.cases split: if_splits)
qed simp

text \<open>
  C8. Semaphores count, up to the range of an \<^verbatim>\<open>int\<close>. In every interleaving of waits, posts and
  destruction by processes that hold a descriptor of the semaphore, with interrupts, kills and other
  sleeps and wakeups, the 32-bit value is the initial value plus the posts minus the completed
  waits, modulo \<open>2 ^ 32\<close>; a process sleeps on it only while it is not positive and not destroyed; and
  \<^verbatim>\<open>sys_sem_wait\<close> takes a unit exactly if it is positive, and otherwise sleeps, unless the
  semaphore is destroyed or the process killed, when it fails. As long as the initial value and
  the posts together stay below \<open>2 ^ 31\<close>, the value is that number itself and never negative: no
  more waits complete than the initial value and the posts allow. Beyond that the increment in
  \<^verbatim>\<open>sys_sem_post\<close>, which nothing checks, wraps.
\<close>

theorem semaphore_counts:
  fixes s :: "'a kstate_scheme"
  assumes "mon_reach (sem_section a) {KSem a} (x0, 0, 0) ((x, posts, waits), s)" "0 \<le> sint (sem_value x0)"
  shows "sem_value x = word_of_int (sint (sem_value x0) + int posts - int waits) \<and>
     (\<forall>j. asleep_on (KSem a) (pt s) j \<longrightarrow> sint (sem_value x) \<le> 0 \<and> \<not> sem_destroyed x) \<and>
     sem_wait_section a (put_sem a x s) =
       (if 0 < sint (sem_value x) then (Ret 0, put_sem a (x\<lparr>sem_value := sem_value x - 1\<rparr>) s)
        else if sem_destroyed x \<or> killed (me s) (pt s) then (Ret (- 1), put_sem a x s)
        else (Sleep, ksleep (KSem a) (put_sem a x s))) \<and>
     (sint (sem_value x0) + int posts < 2 ^ 31 \<longrightarrow>
        sint (sem_value x) = sint (sem_value x0) + int posts - int waits \<and> 0 \<le> sint (sem_value x))"
proof -
  let ?v = "sint (sem_value x0)"
  have i: "sem_hist_ok ?v (x0, 0, 0)" using assms(2) by (simp add: sem_hist_ok_def)
  have h: "sem_value x = word_of_int (?v + int posts - int waits)" "?v + int posts < 2 ^ 31 \<longrightarrow> int waits \<le> ?v + int posts"
    using sem_waiters.object_ok [OF assms(1) i] by (simp_all add: sem_hist_ok_def)
  have w: "sem_wait_section a (put_sem a x s) =
       (if 0 < sint (sem_value x) then (Ret 0, put_sem a (x\<lparr>sem_value := sem_value x - 1\<rparr>) s)
        else if sem_destroyed x \<or> killed (me s) (pt s) then (Ret (- 1), put_sem a x s)
        else (Sleep, ksleep (KSem a) (put_sem a x s)))"
    by (auto simp: sem_wait_section_def) (simp add: put_sem_def upd_sem_def)
  have sl: "sint (sem_value x) \<le> 0 \<and> \<not> sem_destroyed x" if "asleep_on (KSem a) (pt s) j" for j
    using sem_waiters.no_lost_wakeup [OF assms(1) i that] by (simp add: sem_blocked_def)
  have "sint (sem_value x) = ?v + int posts - int waits \<and> 0 \<le> sint (sem_value x)" if "?v + int posts < 2 ^ 31"
    using that h sint_word_small [of "?v + int posts - int waits"] by simp
  then show ?thesis using h(1) sl w by blast
qed

section \<open>The descriptor of a semaphore\<close>

lemma sem_create_file:
  assumes "sys_sem_create s = Ok (fd, s1)" "0 \<le> fd"
  shows "\<exists>f. ofile (myproc s1) (nat fd) = Some f \<and> f_type (ftable s1 f) = FD_SEM \<and> f_writable (ftable s1 f) \<and>
     f_readable (ftable s1 f) \<and> nat fd < NOFILE"
  using assms
  by (auto simp: sys_sem_create_def bind_res_Ok_iff Let_def fdalloc_def filealloc_def upd_file_def upd_sem_def upd_me_def
        myproc_def me_def find_Some_iff split: if_splits option.splits prod.splits)

text \<open>
  C39. A semaphore's descriptor is fatal to read and write. The descriptor that \<^verbatim>\<open>sys_sem_create\<close>
  returns is marked readable and writable, and a process that passes it to \<^verbatim>\<open>write\<close> or \<^verbatim>\<open>read\<close>
  makes the kernel panic.
\<close>

theorem sem_descriptor_panics:
  fixes s1 s2 :: "'a kstate_scheme"
  assumes "sys_sem_create s = Ok (fd, s1)" "0 \<le> fd"
    "ofile (myproc s2) = ofile (myproc s1)" "ftable s2 = ftable s1" "argint 0 s2 = Ok fd"
  shows "sys_write s2 = Panic ''filewrite'' \<and> sys_read s2 = Panic ''fileread''"
proof -
  obtain f where f: "ofile (myproc s1) (nat fd) = Some f" "f_type (ftable s1 f) = FD_SEM" "f_writable (ftable s1 f)"
      "f_readable (ftable s1 f)" "nat fd < NOFILE"
    using sem_create_file [OF assms(1,2)] by blast
  then have "argfd 0 s2 = Ok (Some (nat fd, f))" using assms(2-5) by (simp add: argfd_def)
  moreover have "argaddr 1 s2 = Ok (ucast (tf_get (TF_a0 + 4) s2))" "argint 2 s2 = Ok (sint (tf_get (TF_a0 + 8) s2))"
    by (simp_all add: argaddr_def argint_def argraw_def)
  ultimately show ?thesis using f assms(4) by (simp add: sys_write_def sys_read_def filewrite_def fileread_def Let_def)
qed

section \<open>Examples\<close>

text \<open>A kernel with one free page, at \<open>0x80040000\<close>, no open file and a semaphore of value 0.\<close>

definition ex_file :: kfile where
  "ex_file = \<lparr>f_type = FD_NONE, f_ref = 0, f_readable = False, f_writable = False, f_pipe = 0, f_sem = 0, f_ip = None, f_off = 0, f_major = 0\<rparr>"

definition ex_kernel :: kstate where
  "ex_kernel = (cstate.extend ex_cons (kstate.fields (\<lambda>_. ex_file) (\<lambda>_. pipe_init ex_pipe)
       (\<lambda>_. \<lparr>sem_value = 0, sem_ref = 1, sem_destroyed = False\<rparr>)))
     \<lparr>km := (km ex_cons)\<lparr>free_areas := (\<lambda>_. \<lparr>freelist = 0, nr_free = 0\<rparr>)(0 := \<lparr>freelist = 0x80040000, nr_free = 1\<rparr>)\<rparr>\<rparr>"

lemma ex_kernel_sels [simp]:
  "phys (km ex_kernel) = (\<lambda>_. 0)" "pt ex_kernel = ready_table" "cur ex_kernel = Some 2" "ftable ex_kernel = (\<lambda>_. ex_file)"
  "free_areas (km ex_kernel) 0 = \<lparr>freelist = 0x80040000, nr_free = 1\<rparr>"
  "sems ex_kernel = (\<lambda>_. \<lparr>sem_value = 0, sem_ref = 1, sem_destroyed = False\<rparr>)"
  by (simp_all add: ex_kernel_def cstate.defs kstate.defs ex_cons_def fstate.defs ex_fs_def)

lemma kalloc_ex_kernel: "fst (kalloc (km ex_kernel)) \<noteq> 0"
proof -
  have "find_order (km ex_kernel) 0 = 0" by (subst find_order.simps) simp
  then have "fst (buddy_alloc_order0 (km ex_kernel)) = idx2pa (pa2idx 0x80040000)"
    by (simp add: buddy_alloc_order0_def freelist_pop_def MAX_ORDER_def Let_def)
  moreover have "idx2pa (pa2idx 0x80040000) \<noteq> 0" by (simp add: idx2pa_def pa2idx_def layout_defs)
  ultimately show ?thesis by (simp add: kalloc_def case_prod_beta)
qed

lemma find_first_upt: "0 < n \<Longrightarrow> Q 0 \<Longrightarrow> find Q [0..<n] = Some 0"
  by (simp add: upt_conv_Cons)

theorem sem_descriptor_panics_witness:
  "\<exists>s1. sys_sem_create ex_kernel = Ok (0, s1) \<and> sys_write (s1\<lparr>km := km ex_kernel\<rparr>) = Panic ''filewrite''"
proof -
  have a0: "argint 0 s = Ok 0" if "phys (km s) = (\<lambda>_. 0)" for s :: kstate
    using that by (simp add: argint_def argraw_def tf_get_def ld32_def)
  have "\<exists>s1. sys_sem_create ex_kernel = Ok (0, s1)"
    using kalloc_ex_kernel
    by (simp add: sys_sem_create_def a0 filealloc_def find_first_upt NFILE_def upd_file_def ex_file_def sem_alloc_def upd_sem_def
        fdalloc_def myproc_def me_def ready_table_def idle_proc_def NOFILE_def case_prod_beta Let_def)
  then obtain s1 where c: "sys_sem_create ex_kernel = Ok (0, s1)" by blast
  let ?s2 = "s1\<lparr>km := km ex_kernel\<rparr>"
  have "ofile (myproc ?s2) = ofile (myproc s1)" "ftable ?s2 = ftable s1" by (simp_all add: myproc_def me_def)
  from sem_descriptor_panics [OF c _ this a0] have "sys_write ?s2 = Panic ''filewrite''" by simp
  then show ?thesis using c by blast
qed

text \<open>
  Process 2 waits for a semaphore of value 0 and sleeps; process 3 posts, which wakes it, and then
  takes the unit itself.
\<close>

definition ex_sem :: "uint32 \<Rightarrow> semaphore" where
  "ex_sem v = \<lparr>sem_value = v, sem_ref = 1, sem_destroyed = False\<rparr>"

definition ex_sem_boot :: kstate where
  "ex_sem_boot = ex_kernel\<lparr>cur := None, ftable := (\<lambda>_. ex_file\<lparr>f_type := FD_SEM\<rparr>), sems := (\<lambda>_. ex_sem 0),
     pt := ready_table\<lparr>procs := (\<lambda>i. (procs ready_table i)\<lparr>ofile := (\<lambda>_. Some 0)\<rparr>)\<rparr>\<rparr>"

lemma ex_sem_boot_sels [simp]: "cur ex_sem_boot = None" "ftable ex_sem_boot = (\<lambda>_. ex_file\<lparr>f_type := FD_SEM\<rparr>)"
  "phys (km ex_sem_boot) = (\<lambda>_. 0)" "pt ex_sem_boot = ready_table\<lparr>procs := (\<lambda>i. (procs ready_table i)\<lparr>ofile := (\<lambda>_. Some 0)\<rparr>)\<rparr>"
  by (simp_all add: ex_sem_boot_def)

lemma ex_names_sem:
  assumes "phys (km s) = (\<lambda>_. 0)" "ftable s = (\<lambda>_. ex_file\<lparr>f_type := FD_SEM\<rparr>)" "ofile (myproc s) = (\<lambda>_. Some 0)"
  shows "argsem 0 s = Ok (Some (0, 0))" "names_sem 0 s"
proof -
  show "argsem 0 s = Ok (Some (0, 0))"
    using assms by (simp add: argsem_def argfd_def argint_def argraw_def tf_get_def ld32_def NOFILE_def)
  then show "names_sem 0 s" using assms(2) by (simp add: names_sem_def ex_file_def)
qed

theorem semaphore_counts_witness:
  "\<exists>s :: kstate. mon_reach (sem_section 0) {KSem 0} (ex_sem 0, 0, 0) ((ex_sem 0, 1, 1), s) \<and> \<not> asleep_on (KSem 0) (pt s) 2 \<and>
     sint (sem_value (ex_sem 0)) = 0 + int 1 - int 1"
proof -
  let ?R = "mon_reach (sem_section 0) {KSem 0} (ex_sem 0, 0, 0) :: sem_hist \<times> kstate \<Rightarrow> bool"
  let ?run = "\<lambda>i s :: kstate. s\<lparr>cur := Some i, pt := upd_proc i (\<lambda>p. p\<lparr>pstate := RUNNING\<rparr>) (pt s)\<rparr>"
  let ?put = "\<lambda>v s :: kstate. put_sem 0 (ex_sem v) s"
  define s1 where "s1 = ?run 2 ex_sem_boot"
  define s2 where "s2 = (ksleep (KSem 0) (?put 0 s1))\<lparr>cur := None\<rparr>"
  define s3 where "s3 = ?run 3 s2"
  define s4 where "s4 = kwakeup (KSem 0) (?put 1 s3)"
  have 0: "?R ((ex_sem 0, 0, 0), ex_sem_boot)" by (rule mon_reach.start) (simp_all add: asleep_on_def)
  have 1: "?R ((ex_sem 0, 0, 0), s1)" unfolding s1_def by (rule mon_go(1) [OF 0]) (simp_all add: NPROC_def)
  have "sem_section 0 SWait ((ex_sem 0, 0, 0), s1) = Some ((ex_sem 0, 0, 0), ksleep (KSem 0) (?put 0 s1), True)"
    by (simp add: sem_wait_section_def ex_sem_def s1_def me_def killed_def ready_table_def idle_proc_def)
  from mon_go(3) [OF 1 _ this, of 2] have 2: "?R ((ex_sem 0, 0, 0), s2)" by (simp add: s1_def s2_def)
  have p2: "pstate (procs (pt s2) 3) = RUNNABLE" "cur s2 = None"
    by (simp_all add: s2_def s1_def sleep_enter_def me_def Let_def)
  have 3: "?R ((ex_sem 0, 0, 0), s3)" unfolding s3_def by (rule mon_go(1) [OF 2 p2(2)]) (simp_all add: NPROC_def p2)
  have fr: "phys (km s3) = (\<lambda>_. 0)" "ftable s3 = (\<lambda>_. ex_file\<lparr>f_type := FD_SEM\<rparr>)" "cur s3 = Some 3"
    by (simp_all add: s3_def s2_def s1_def put_sem_def upd_sem_def ksleep_def)
  have of: "ofile (myproc s3) = (\<lambda>_. Some 0)"
    by (simp add: myproc_def me_def s3_def s2_def s1_def sleep_enter_def Let_def)
  note nm = ex_names_sem [OF fr(1,2) of]
  have u: "upd_sem 0 (\<lambda>x. x\<lparr>sem_value := sem_value x + 1\<rparr>) (?put 0 s3) = ?put 1 s3"
    by (simp add: put_sem_def upd_sem_def ex_sem_def)
  have ps: "sys_sem_post (?put 0 s3) = Ok (0, s4)"
    by (simp add: sys_sem_post_def nm(1) fr(2) s4_def Let_def ex_file_def u)
  have "sem_section 0 SPost ((ex_sem 0, 0, 0), s3) = Some ((ex_sem 1, 1, 0), s4, False)"
    by (simp add: nm(2) ps) (simp add: s4_def)
  from mon_go(3) [OF 3 fr(3) this] have 4: "?R ((ex_sem 1, 1, 0), s4)" by simp
  have "sem_section 0 SWait ((ex_sem 1, 1, 0), s4) = Some ((ex_sem 0, 1, 1), ?put 0 s4, False)"
    by (simp add: sem_wait_section_def ex_sem_def upd_sem_def put_sem_def)
  from mon_go(3) [OF 4 _ this, of 3] have 5: "?R ((ex_sem 0, 1, 1), ?put 0 s4)" using fr(3) by (simp add: s4_def)
  have "\<not> asleep_on (KSem 0) (pt (?put 0 s4)) 2" using fr(3) by (simp add: s4_def asleep_on_wakeup)
  moreover have "sint (sem_value (ex_sem 0)) = 0 + int 1 - int 1"
    using semaphore_counts [OF 5] by (simp add: ex_sem_def)
  ultimately show ?thesis using 5 by blast
qed

end
