(* ===== verification/Virtio_Spec.thy ===== *)
theory Virtio_Spec
  imports Virtio Sem_Spec
begin

text \<open>
  The descriptors of the disk driver: each is free or part of one request that is with the
  device.
\<close>

section \<open>Requests that are with the device\<close>

text \<open>The three descriptors of a request, the buffer, and whether it is a write.\<close>

type_synonym request = "nat \<times> nat \<times> nat \<times> nat \<times> bool"

fun req_descs :: "request \<Rightarrow> nat list" where
  "req_descs (i0, i1, i2, b, w) = [i0, i1, i2]"

text \<open>What the device reads: the header, the data and the status, in this order.\<close>

fun req_ok :: "vdisk \<Rightarrow> request \<Rightarrow> bool" where
  "req_ok v (i0, i1, i2, b, w) \<longleftrightarrow>
     desc v i0 = \<lparr>vd_addr = DmaOps i0, vd_len = 16, vd_flags = VRING_DESC_F_NEXT, vd_next = of_nat i1\<rparr> \<and>
     desc v i1 = \<lparr>vd_addr = DmaData b, vd_len = of_nat BSIZE,
       vd_flags = (if w then 0 else VRING_DESC_F_WRITE) OR VRING_DESC_F_NEXT, vd_next = of_nat i2\<rparr> \<and>
     desc v i2 = \<lparr>vd_addr = DmaStatus i0, vd_len = 1, vd_flags = VRING_DESC_F_WRITE, vd_next = 0\<rparr> \<and>
     info_b v i0 = Some b"

definition in_use :: "request list \<Rightarrow> nat list" where
  "in_use R = concat (map req_descs R)"

definition vd_ok :: "vdisk \<Rightarrow> request list \<Rightarrow> bool" where
  "vd_ok v R \<longleftrightarrow> distinct (in_use R) \<and> set (in_use R) \<subseteq> {..<NUM} \<and>
     (\<forall>i < NUM. vfree v i \<longleftrightarrow> i \<notin> set (in_use R)) \<and> (\<forall>r \<in> set R. req_ok v r)"

definition free_set_of :: "vdisk \<Rightarrow> nat set" where
  "free_set_of v = {i. i < NUM \<and> vfree v i}"

lemma finite_free [simp]: "finite (free_set_of v)"
  by (simp add: free_set_of_def)

lemma in_use_simps [simp]: "in_use [] = []" "in_use (r # R) = req_descs r @ in_use R"
  by (simp_all add: in_use_def)

lemma req_descs_in_use: "r \<in> set R \<Longrightarrow> set (req_descs r) \<subseteq> set (in_use R)"
  by (auto simp: in_use_def)

text \<open>Changes outside the descriptors of the requests keep them.\<close>

lemma req_ok_cong:
  assumes "req_ok v r" "\<forall>i \<in> set (req_descs r). desc v' i = desc v i \<and> info_b v' i = info_b v i"
  shows "req_ok v' r"
  using assms by (cases r) auto

section \<open>Freeing and allocating\<close>

definition clear_descs :: "nat set \<Rightarrow> vdisk \<Rightarrow> vdisk" where
  "clear_descs I v = v\<lparr>desc := (\<lambda>i. if i \<in> I then \<lparr>vd_addr = DmaNull, vd_len = 0, vd_flags = 0, vd_next = 0\<rparr> else desc v i),
     vfree := (\<lambda>i. i \<in> I \<or> vfree v i)\<rparr>"

lemma clear_descs_empty [simp]: "clear_descs {} v = v"
  by (simp add: clear_descs_def)

lemma clear_descs_comp: "clear_descs J (clear_descs I v) = clear_descs (I \<union> J) v"
  by (rule vdisk.equality) (auto simp: clear_descs_def fun_eq_iff)

lemma free_desc_spec:
  assumes "i < NUM" "\<not> vfree (vd s) i"
  shows "\<exists>s'. free_desc i s = Ok s' \<and> vd s' = clear_descs {i} (vd s)"
proof -
  have "(vd s)\<lparr>desc := (desc (vd s))(i := \<lparr>vd_addr = DmaNull, vd_len = 0, vd_flags = 0, vd_next = 0\<rparr>), vfree := (vfree (vd s))(i := True)\<rparr>
      = clear_descs {i} (vd s)"
    by (rule vdisk.equality) (auto simp: clear_descs_def fun_eq_iff)
  then show ?thesis using assms by (simp add: free_desc_def kwakeup_def upd_vd_def)
qed

lemma free_descs_spec:
  assumes "distinct idx" "set idx \<subseteq> {..<NUM}" "\<forall>i \<in> set idx. \<not> vfree (vd s) i"
  shows "\<exists>s'. for_res free_desc idx s = Ok s' \<and> vd s' = clear_descs (set idx) (vd s)"
  using assms
proof (induction idx arbitrary: s)
  case (Cons i idx)
  obtain s1 where s1: "free_desc i s = Ok s1" "vd s1 = clear_descs {i} (vd s)"
    using free_desc_spec [of i s] Cons.prems by auto
  have "\<forall>j \<in> set idx. \<not> vfree (vd s1) j" using Cons.prems by (auto simp: s1(2) clear_descs_def)
  from Cons.IH [OF _ _ this] Cons.prems s1 show ?case
    by (auto simp: clear_descs_comp)
qed auto

definition take_descs :: "nat set \<Rightarrow> vdisk \<Rightarrow> vdisk" where
  "take_descs I v = v\<lparr>vfree := (\<lambda>i. i \<notin> I \<and> vfree v i)\<rparr>"

lemma alloc_desc_cases:
  obtains "free_set_of v = {}" "alloc_desc v = (None, v)"
  | i where "i \<in> free_set_of v" "alloc_desc v = (Some i, take_descs {i} v)"
proof (cases "find (vfree v) [0..<NUM]")
  case None
  then have "free_set_of v = {}" by (auto simp: find_None_iff free_set_of_def)
  then show ?thesis using that(1) None by (simp add: alloc_desc_def)
next
  case (Some i)
  then have "i \<in> free_set_of v" by (auto simp: find_Some_iff free_set_of_def)
  moreover have "v\<lparr>vfree := (vfree v)(i := False)\<rparr> = take_descs {i} v"
    by (rule vdisk.equality) (auto simp: take_descs_def fun_eq_iff)
  ultimately show ?thesis using that(2) Some by (simp add: alloc_desc_def)
qed

lemma take_descs_facts:
  "free_set_of (take_descs I v) = free_set_of v - I" "take_descs J (take_descs I v) = take_descs (I \<union> J) v"
  "K \<subseteq> I \<Longrightarrow> clear_descs I (take_descs K v) = clear_descs I v"
  by (auto simp: free_set_of_def take_descs_def clear_descs_def fun_eq_iff intro!: vdisk.equality)

lemma alloc_descs_spec:
  assumes "distinct idx" "set idx \<subseteq> {..<NUM}" "\<forall>i \<in> set idx. \<not> vfree (vd s) i"
  shows "if n \<le> card (free_set_of (vd s))
     then \<exists>js. length js = n \<and> distinct js \<and> set js \<subseteq> free_set_of (vd s) \<and>
       alloc_descs n idx s = Ok (Some (idx @ js), s\<lparr>vd := take_descs (set js) (vd s)\<rparr>)
     else \<exists>K s'. K \<subseteq> free_set_of (vd s) \<and> alloc_descs n idx s = Ok (None, s') \<and> vd s' = clear_descs (set idx \<union> K) (vd s)"
  using assms
proof (induction n arbitrary: idx s)
  case 0
  have "s\<lparr>vd := take_descs {} (vd s)\<rparr> = s" by (simp add: take_descs_def)
  then show ?case by simp
next
  case (Suc n)
  show ?case
  proof (rule alloc_desc_cases [of "vd s"])
    assume a: "free_set_of (vd s) = {}" "alloc_desc (vd s) = (None, vd s)"
    obtain s' where "for_res free_desc idx s = Ok s'" "vd s' = clear_descs (set idx) (vd s)"
      using free_descs_spec [OF Suc.prems] by blast
    then show ?thesis using a by auto
  next
    fix i assume a: "i \<in> free_set_of (vd s)" "alloc_desc (vd s) = (Some i, take_descs {i} (vd s))"
    let ?s1 = "s\<lparr>vd := take_descs {i} (vd s)\<rparr>"
    have i: "i \<notin> set idx" "i < NUM" using Suc.prems(3) a(1) by (auto simp: free_set_of_def)
    have pre: "distinct (idx @ [i])" "set (idx @ [i]) \<subseteq> {..<NUM}" "\<forall>j \<in> set (idx @ [i]). \<not> vfree (vd ?s1) j"
      using Suc.prems i by (auto simp: take_descs_def)
    have c: "card (free_set_of (vd ?s1)) = card (free_set_of (vd s)) - 1" "0 < card (free_set_of (vd s))"
      using a(1) by (auto simp: take_descs_facts card_Diff_singleton card_gt_0_iff)
    have step: "alloc_descs (Suc n) idx s = alloc_descs n (idx @ [i]) ?s1" by (simp add: a(2))
    note IH = Suc.IH [OF pre]
    show ?thesis
    proof (cases "Suc n \<le> card (free_set_of (vd s))")
      case True
      then have "n \<le> card (free_set_of (vd ?s1))" using c by linarith
      from IH [unfolded if_P [OF this]] obtain js where "length js = n" "distinct js" "set js \<subseteq> free_set_of (vd s) - {i}"
        "alloc_descs n (idx @ [i]) ?s1 = Ok (Some ((idx @ [i]) @ js), s\<lparr>vd := take_descs ({i} \<union> set js) (vd s)\<rparr>)"
        by (auto simp: take_descs_facts)
      then show ?thesis using True step a(1) by (auto intro!: exI [of _ "i # js"])
    next
      case False
      then have "\<not> n \<le> card (free_set_of (vd ?s1))" using c by linarith
      from IH [unfolded if_not_P [OF this]] obtain K s' where "K \<subseteq> free_set_of (vd s) - {i}" "alloc_descs n (idx @ [i]) ?s1 = Ok (None, s')"
        "vd s' = clear_descs (set (idx @ [i]) \<union> K) (take_descs {i} (vd s))"
        by (auto simp: take_descs_facts)
      then show ?thesis using False step a(1)
        by (auto simp: take_descs_facts intro!: exI [of _ "insert i K"] exI [of _ s'])
    qed
  qed
qed

section \<open>Submitting and finishing\<close>

lemma vd_ok_clear_free:
  assumes "vd_ok v R" "K \<subseteq> free_set_of v"
  shows "vd_ok (clear_descs K v) R"
proof -
  have k: "i \<notin> K" if "i \<in> set (in_use R)" for i using assms that by (auto simp: vd_ok_def free_set_of_def)
  have "req_ok (clear_descs K v) r" if "r \<in> set R" for r
  proof (rule req_ok_cong [of v r])
    show "req_ok v r" using assms(1) that by (simp add: vd_ok_def)
    have "\<forall>i \<in> set (req_descs r). i \<notin> K" using k req_descs_in_use [OF that] by blast
    then show "\<forall>i \<in> set (req_descs r). desc (clear_descs K v) i = desc v i \<and> info_b (clear_descs K v) i = info_b v i"
      by (simp add: clear_descs_def)
  qed
  moreover have "vfree (clear_descs K v) i \<longleftrightarrow> vfree v i" if "i < NUM" for i
    using assms(2) by (auto simp: clear_descs_def free_set_of_def)
  ultimately show ?thesis using assms(1) by (simp add: vd_ok_def)
qed

lemma vd_ok_submit:
  fixes w :: bool and bno :: uint32 and b :: nat
  assumes ok: "vd_ok v R" and js: "distinct [i0, i1, i2]" "{i0, i1, i2} \<subseteq> free_set_of v"
  defines "v' \<equiv> publish i0 b (format_request i0 i1 i2 b bno w (take_descs {i0, i1, i2} v))"
  shows "vd_ok v' ((i0, i1, i2, b, w) # R)"
proof -
  have nu: "i0 \<notin> set (in_use R)" "i1 \<notin> set (in_use R)" "i2 \<notin> set (in_use R)" "i0 < NUM" "i1 < NUM" "i2 < NUM"
    using js(2) ok by (auto simp: vd_ok_def free_set_of_def)
  have f: "desc v' j = desc v j \<and> info_b v' j = info_b v j" if "j \<notin> {i0, i1, i2}" for j
    using that by (simp add: v'_def publish_def format_request_def take_descs_def v_write_def Let_def)
  have "req_ok v' r" if "r \<in> set R" for r
  proof (rule req_ok_cong [of v r])
    show "req_ok v r" using ok that by (auto simp: vd_ok_def)
    show "\<forall>i \<in> set (req_descs r). desc v' i = desc v i \<and> info_b v' i = info_b v i"
    proof
      fix i assume "i \<in> set (req_descs r)"
      then have "i \<in> set (in_use R)" using req_descs_in_use [OF that] by blast
      then have "i \<notin> {i0, i1, i2}" using nu by auto
      then show "desc v' i = desc v i \<and> info_b v' i = info_b v i" by (rule f)
    qed
  qed
  moreover have "req_ok v' (i0, i1, i2, b, w)"
    using js(1) by (auto simp: v'_def publish_def format_request_def take_descs_def v_write_def Let_def)
  moreover have "vfree v' i \<longleftrightarrow> i \<notin> {i0, i1, i2} \<and> vfree v i" for i
    by (simp add: v'_def publish_def format_request_def take_descs_def v_write_def Let_def)
  ultimately show ?thesis using ok js(1) nu by (auto simp: vd_ok_def)
qed

lemma flag_next: "VRING_DESC_F_NEXT AND VRING_DESC_F_NEXT \<noteq> 0"
    "((if w then 0 else VRING_DESC_F_WRITE) OR VRING_DESC_F_NEXT) AND VRING_DESC_F_NEXT \<noteq> 0"
    "VRING_DESC_F_WRITE AND VRING_DESC_F_NEXT = 0"
  by (simp_all add: VRING_DESC_F_NEXT_def VRING_DESC_F_WRITE_def)

lemma unat_desc: "i < NUM \<Longrightarrow> unat (of_nat i :: uint16) = i"
  by (simp add: NUM_def unat_of_nat take_bit_eq_mod)

lemma free_chain_three:
  fixes s :: "'a vkernel_scheme"
  assumes r: "req_ok ((vd s)\<lparr>info_b := I\<rparr>) (i0, i1, i2, b, w)" and i: "i0 < NUM" "i1 < NUM" "i2 < NUM" "distinct [i0, i1, i2]"
    and f: "\<not> vfree (vd s) i0" "\<not> vfree (vd s) i1" "\<not> vfree (vd s) i2"
  shows "\<exists>s'. free_chain i0 s = Ok s' \<and> vd s' = clear_descs {i0, i1, i2} (vd s)"
proof -
  obtain s1 where s1: "free_desc i0 s = Ok s1" "vd s1 = clear_descs {i0} (vd s)" using free_desc_spec [OF i(1) f(1)] by blast
  have "\<not> vfree (vd s1) i1" using f(2) i(4) by (simp add: s1(2) clear_descs_def)
  from free_desc_spec [OF i(2) this] obtain s2 where s2: "free_desc i1 s1 = Ok s2" "vd s2 = clear_descs {i0, i1} (vd s)"
    by (auto simp: s1(2) clear_descs_comp insert_commute)
  have "\<not> vfree (vd s2) i2" using f(3) i(4) by (simp add: s2(2) clear_descs_def)
  from free_desc_spec [OF i(3) this] obtain s3 where s3: "free_desc i2 s2 = Ok s3" "vd s3 = clear_descs {i0, i1, i2} (vd s)"
    by (auto simp: s2(2) clear_descs_comp insert_commute)
  have d: "desc (vd s1) i1 = desc (vd s) i1" "desc (vd s2) i2 = desc (vd s) i2"
    using i(4) by (simp_all add: s1(2) s2(2) clear_descs_def)
  have "free_chain_loop i2 s2 = Some (Ok s3)"
    using r s3(1) d flag_next by (subst free_chain_loop.simps) (simp add: Let_def)
  then have "free_chain_loop i1 s1 = Some (Ok s3)"
    using r s2(1) d flag_next unat_desc i by (subst free_chain_loop.simps) (simp add: Let_def)
  then have "free_chain_loop i0 s = Some (Ok s3)"
    using r s1(1) flag_next unat_desc i by (subst free_chain_loop.simps) (simp add: Let_def)
  then show ?thesis using s3(2) by (simp add: free_chain_def run_loop_def)
qed

lemma vd_ok_finish:
  assumes ok: "vd_ok v R" and r: "r = (i0, i1, i2, b, w)" "r \<in> set R"
  shows "vd_ok (clear_descs {i0, i1, i2} (v\<lparr>info_b := (info_b v)(i0 := None)\<rparr>)) (remove1 r R)" (is "vd_ok ?v' _")
proof -
  obtain R1 R2 where R: "R = R1 @ r # R2" "r \<notin> set R1" using split_list_first [OF r(2)] by blast
  then have rm: "remove1 r R = R1 @ R2" by (simp add: remove1_append)
  have u: "in_use R = in_use R1 @ [i0, i1, i2] @ in_use R2" "in_use (R1 @ R2) = in_use R1 @ in_use R2"
    by (simp_all add: R r in_use_def)
  have d: "distinct (in_use R)" "set (in_use R) \<subseteq> {..<NUM}" using ok by (simp_all add: vd_ok_def)
  then have apart: "i \<notin> {i0, i1, i2}" if "i \<in> set (in_use (R1 @ R2))" for i using that unfolding u by auto
  have "req_ok ?v' q" if "q \<in> set (R1 @ R2)" for q
  proof (rule req_ok_cong [of v q])
    show "req_ok v q" using ok that R by (auto simp: vd_ok_def)
    show "\<forall>i \<in> set (req_descs q). desc ?v' i = desc v i \<and> info_b ?v' i = info_b v i"
    proof
      fix i assume "i \<in> set (req_descs q)"
      then have "i \<notin> {i0, i1, i2}" using apart req_descs_in_use [OF that] by blast
      then show "desc ?v' i = desc v i \<and> info_b ?v' i = info_b v i" by (simp add: clear_descs_def)
    qed
  qed
  moreover have "vfree ?v' i \<longleftrightarrow> i \<notin> set (in_use (R1 @ R2))" if "i < NUM" for i
  proof -
    have "vfree v i \<longleftrightarrow> i \<notin> set (in_use R)" using ok that by (simp add: vd_ok_def)
    then show ?thesis using apart [of i] unfolding u by (auto simp: clear_descs_def)
  qed
  ultimately show ?thesis using d unfolding rm vd_ok_def u by auto
qed

lemma rw_submit_spec:
  fixes s :: "'a vkernel_scheme"
  assumes ok: "vd_ok (vd s) R"
  shows "\<exists>s'. (card (free_set_of (vd s)) < 3 \<and> rw_submit b w s = Ok (Sleep, s') \<and> vd_ok (vd s') R) \<or>
      (\<exists>i0 i1 i2. rw_submit b w s = Ok (Ret i0, s') \<and> vd_ok (vd s') ((i0, i1, i2, b, w) # R) \<and> v_busy (vd s') b \<and>
        rq_sector (ops (vd s') i0) = sector_of (blockno (bufs s b)) \<and>
        avail_idx (vd s') = avail_idx (vd s) + 1 \<and> avail_ring (vd s') (unat (avail_idx (vd s)) mod NUM) = of_nat i0)"
proof (cases "3 \<le> card (free_set_of (vd s))")
  case True
  then obtain js where j: "length js = 3" "distinct js" "set js \<subseteq> free_set_of (vd s)"
      "alloc_descs 3 [] s = Ok (Some js, s\<lparr>vd := take_descs (set js) (vd s)\<rparr>)"
    using alloc_descs_spec [of "[]" s 3] by auto
  then obtain i0 i1 i2 where js: "js = [i0, i1, i2]" by (auto simp: numeral_3_eq_3 length_Suc_conv)
  define v' where "v' = publish i0 b (format_request i0 i1 i2 b (blockno (bufs s b)) w (take_descs {i0, i1, i2} (vd s)))"
  have "rw_submit b w s = Ok (Ret i0, s\<lparr>vd := v'\<rparr>)"
    using j(4) by (simp add: rw_submit_def alloc3_desc_def js upd_vd_def v'_def)
  moreover have "vd_ok v' ((i0, i1, i2, b, w) # R)" using vd_ok_submit [OF ok] j(2,3) by (simp add: js v'_def)
  moreover have "v_busy v' b" "rq_sector (ops v' i0) = sector_of (blockno (bufs s b))" "avail_idx v' = avail_idx (vd s) + 1"
      "avail_ring v' (unat (avail_idx (vd s)) mod NUM) = of_nat i0"
    by (simp_all add: v'_def publish_def format_request_def take_descs_def v_write_def Let_def)
  ultimately show ?thesis by (intro exI [of _ "s\<lparr>vd := v'\<rparr>"]) auto
next
  case False
  then obtain K s1 where "K \<subseteq> free_set_of (vd s)" "alloc_descs 3 [] s = Ok (None, s1)" "vd s1 = clear_descs K (vd s)"
    using alloc_descs_spec [of "[]" s 3] by auto
  then show ?thesis using vd_ok_clear_free [OF ok, of K] False
    by (intro exI [of _ "ksleep KDiskFree s1"]) (simp add: rw_submit_def alloc3_desc_def ksleep_def)
qed

lemma rw_finish_spec:
  fixes s :: "'a vkernel_scheme"
  assumes ok: "vd_ok (vd s) R" and r: "(i0, i1, i2, b, w) \<in> set R" "\<not> v_busy (vd s) b"
  shows "\<exists>s'. rw_finish b i0 s = Ok (Ret (), s') \<and> vd_ok (vd s') (remove1 (i0, i1, i2, b, w) R) \<and>
        free_set_of (vd s') = free_set_of (vd s) \<union> {i0, i1, i2}"
proof -
  let ?v = "(vd s)\<lparr>info_b := (info_b (vd s))(i0 := None)\<rparr>" and ?s1 = "upd_vd (\<lambda>v. v\<lparr>info_b := (info_b v)(i0 := None)\<rparr>) s"
  have sub: "{i0, i1, i2} \<subseteq> set (in_use R)" using req_descs_in_use [OF r(1)] by simp
  have lt: "i0 < NUM" "i1 < NUM" "i2 < NUM" and nf: "\<not> vfree (vd s) i0" "\<not> vfree (vd s) i1" "\<not> vfree (vd s) i2"
    using ok sub by (auto simp: vd_ok_def)
  have "distinct (req_descs (i0, i1, i2, b, w))"
    using ok r(1) distinct_concat_iff [of "map req_descs R"] by (auto simp: vd_ok_def in_use_def simp del: req_descs.simps)
  then have d: "distinct [i0, i1, i2]" by simp
  have "req_ok (vd s) (i0, i1, i2, b, w)" using ok r(1) by (auto simp: vd_ok_def)
  then have "req_ok ((vd ?s1)\<lparr>info_b := info_b (vd s)\<rparr>) (i0, i1, i2, b, w)" by (simp add: upd_vd_def)
  from free_chain_three [OF this lt d] nf obtain s' where
    s': "free_chain i0 ?s1 = Ok s'" "vd s' = clear_descs {i0, i1, i2} ?v" by (auto simp: upd_vd_def)
  have "free_set_of (vd s') = free_set_of (vd s) \<union> {i0, i1, i2}"
    using lt by (auto simp: s'(2) free_set_of_def clear_descs_def)
  then show ?thesis using s' r(2) vd_ok_finish [OF ok refl r(1)] by (simp add: rw_finish_def)
qed

text \<open>
  C10. The descriptors of the disk. In every state in which each descriptor is free or belongs to
  one request, \<^verbatim>\<open>virtio_disk_rw\<close> either takes three free ones and hands the device a request whose
  chain is the header, the data and the status, or, when fewer than three are free, gives back
  those it took and sleeps; when the device is done it gives back exactly its three, without a
  panic. The state after each of these is again of this kind.
\<close>

theorem virtio_descriptors:
  fixes s :: "'a vkernel_scheme"
  assumes "vd_ok (vd s) R"
  shows "(\<exists>s'. (card (free_set_of (vd s)) < 3 \<and> rw_submit b w s = Ok (Sleep, s') \<and> vd_ok (vd s') R) \<or>
      (\<exists>i0 i1 i2. rw_submit b w s = Ok (Ret i0, s') \<and> vd_ok (vd s') ((i0, i1, i2, b, w) # R) \<and> v_busy (vd s') b \<and>
        rq_sector (ops (vd s') i0) = sector_of (blockno (bufs s b)) \<and>
        avail_idx (vd s') = avail_idx (vd s) + 1 \<and> avail_ring (vd s') (unat (avail_idx (vd s)) mod NUM) = of_nat i0)) \<and>
    (\<forall>i0 i1 i2. (i0, i1, i2, b, w) \<in> set R \<and> \<not> v_busy (vd s) b \<longrightarrow>
      (\<exists>s'. rw_finish b i0 s = Ok (Ret (), s') \<and> vd_ok (vd s') (remove1 (i0, i1, i2, b, w) R) \<and>
        free_set_of (vd s') = free_set_of (vd s) \<union> {i0, i1, i2}))"
  using rw_submit_spec [OF assms] rw_finish_spec [OF assms] by blast

text \<open>A kernel whose disk is idle.\<close>

definition ex_vdisk :: vdisk where
  "ex_vdisk = \<lparr>desc = (\<lambda>_. \<lparr>vd_addr = DmaNull, vd_len = 0, vd_flags = 0, vd_next = 0\<rparr>), avail_idx = 0, avail_ring = (\<lambda>_. 0),
     used_dev = 0, used_ring = (\<lambda>_. 0), vfree = (\<lambda>_. True), used_idx = 0, info_b = (\<lambda>_. None), info_status = (\<lambda>_. 0),
     ops = (\<lambda>_. \<lparr>rq_type = 0, rq_reserved = 0, rq_sector = 0\<rparr>), v_busy = (\<lambda>_. False), desc_page = 0x80100000,
     avail_page = 0x80101000, used_page = 0x80102000, v_reads = (\<lambda>_ _. 0), v_pos = 0, v_writes = []\<rparr>"

definition ex_csrs :: csrs where
  "ex_csrs = \<lparr>sstatus = 0, sepc = 0x1000, scause = 8, stval = 0, stvec = 0, satp = 0, stimecmp = 0\<rparr>"

definition ex_vkernel :: vkernel where
  "ex_vkernel = kernel.extend (kstate.extend ex_kernel (kernel.fields 0x80001000 0x80001000 0x80001090 0x80002000 0x80003000 0x80004000
     (\<lambda>_. 0) 0 ex_csrs False 7 1 0x80011100 0x80011200 0x80011300 0x80011400 0x80011500 0x80011600 0x80011700)) (vkernel.fields ex_vdisk)"

lemma ex_vkernel_sels [simp]:
  "vd ex_vkernel = ex_vdisk" "k_csr ex_vkernel = ex_csrs" "pt ex_vkernel = ready_table" "cur ex_vkernel = Some 2"
  "phys (km ex_vkernel) = (\<lambda>_. 0)" "uart ex_vkernel = uart ex_cons" "panicked ex_vkernel = False"
  by (simp_all add: ex_vkernel_def kernel.defs vkernel.defs kstate.defs)
    (simp_all add: ex_kernel_def cstate.defs kstate.defs ex_cons_def fstate.defs)

theorem virtio_descriptors_witness:
  "\<exists>s' i0 i1 i2. rw_submit 3 True ex_vkernel = Ok (Ret i0, s') \<and> vd_ok (vd s') [(i0, i1, i2, 3, True)]"
proof -
  have "vd_ok (vd ex_vkernel) []" by (simp add: vd_ok_def ex_vdisk_def)
  moreover have "free_set_of (vd ex_vkernel) = {..<8}" by (auto simp: free_set_of_def ex_vdisk_def NUM_def)
  ultimately show ?thesis using virtio_descriptors [of ex_vkernel "[]" 3 True] by auto
qed

end
