(* ===== verification/Trap_Spec.thy ===== *)
theory Trap_Spec
  imports Trap Virtio_Spec
begin

text \<open>System calls from the trap to the return to user space.\<close>

section \<open>The trap frame\<close>

lemma tf_set_sels [simp]:
  "myproc (tf_set off v s) = myproc s" "pt (tf_set off v s) = pt s" "cur (tf_set off v s) = cur s" "me (tf_set off v s) = me s"
  by (simp_all add: tf_set_def poke_def myproc_def me_def)

lemma tf_set_csr [simp]: "k_csr (tf_set off v s) = k_csr s"
  by (simp add: tf_set_def poke_def)

lemma upd_csr_sels [simp]:
  "k_csr (upd_csr g s) = g (k_csr s)" "myproc (upd_csr g s) = myproc s" "pt (upd_csr g s) = pt s" "cur (upd_csr g s) = cur s"
  "tf_get off (upd_csr g s) = tf_get off s" "me (upd_csr g s) = me s"
  by (simp_all add: upd_csr_def myproc_def me_def tf_get_def)

lemma tf_get_same [simp]: "tf_get off (tf_set off v s) = v"
  by (simp add: tf_get_def) (simp add: tf_set_def poke_def)

lemma aligned4_plus:
  fixes a b :: "32 word"
  assumes "unat a mod 4 = 0" "unat b mod 4 = 0"
  shows "unat (a + b) mod 4 = 0"
proof -
  have "unat (a + b) mod 4 = (unat a + unat b) mod 4" by (simp add: unat_word_ariths mod_mod_cancel)
  then show ?thesis using assms by (metis add_0 mod_add_left_eq)
qed

lemma tf_get_other:
  assumes "unat (trapframe (myproc s)) mod 4 = 0" "unat off mod 4 = 0" "unat off' mod 4 = 0" "off \<noteq> off'"
  shows "tf_get off (tf_set off' v s) = tf_get off s"
proof -
  have "unat (trapframe (myproc s) + off) mod 4 = 0" "unat (trapframe (myproc s) + off') mod 4 = 0"
    using assms(1-3) by (simp_all add: aligned4_plus)
  moreover have "trapframe (myproc s) + off' \<noteq> trapframe (myproc s) + off" using assms(4) by simp
  ultimately show ?thesis by (simp add: tf_get_def) (simp add: tf_set_def poke_def ld32_st32_other)
qed

lemma tf_get_uart [simp]: "tf_get off (s\<lparr>uart := u\<rparr>) = tf_get off s" "myproc (s\<lparr>uart := u\<rparr>) = myproc s" "me (s\<lparr>uart := u\<rparr>) = me s"
  by (simp_all add: tf_get_def myproc_def me_def)

section \<open>The return\<close>

lemma prepare_return_spec:
  assumes "unat (trapframe (myproc s)) mod 4 = 0"
  shows "sepc (k_csr (prepare_return s)) = tf_get TF_epc s"
    "sstatus (k_csr (prepare_return s)) = (sstatus (k_csr s) AND NOT SSTATUS_SIE AND NOT SSTATUS_SPP) OR SSTATUS_SPIE"
    "off \<notin> {0, 4, 8, 16} \<Longrightarrow> unat off mod 4 = 0 \<Longrightarrow> tf_get off (prepare_return s) = tf_get off s"
  using assms by (simp_all add: prepare_return_def Let_def intr_off_def tf_get_other and.assoc)

text \<open>The state in which the handler runs.\<close>

definition at_handler :: "'a machine_scheme \<Rightarrow> 'a machine_scheme" where
  "at_handler s = intr_on (tf_set TF_epc (sepc (k_csr s) + 4) (tf_set TF_epc (sepc (k_csr s)) (trapinithart s)))"

lemma at_handler_spec:
  assumes "unat (trapframe (myproc s)) mod 4 = 0"
  shows "myproc (at_handler s) = myproc s" "pt (at_handler s) = pt s" "me (at_handler s) = me s"
    "tf_get TF_epc (at_handler s) = sepc (k_csr s) + 4" "sstatus (k_csr (at_handler s)) = sstatus (k_csr s) OR SSTATUS_SIE"
    "off \<noteq> TF_epc \<Longrightarrow> unat off mod 4 = 0 \<Longrightarrow> tf_get off (at_handler s) = tf_get off s"
    "uart (at_handler s) = uart s" "panicked (at_handler s) = panicked s"
  using assms
  by (simp_all add: at_handler_def intr_on_def trapinithart_def tf_get_other)
    (simp_all add: upd_csr_def tf_set_def poke_def)

lemma usertrap_call:
  assumes "sstatus (k_csr s) AND SSTATUS_SPP = 0" "scause (k_csr s) = 8" "\<not> killed (me s) (pt s)"
    "syscall (at_handler s) = Ok (False, s')" "\<not> killed (me s') (pt s')"
  shows "usertrap s = Ok (TrapReturn (MAKE_SATP (pagetable (p_as (myproc s')))), prepare_return s')"
  using assms
  by (simp add: usertrap_def user_syscall_def Let_def usertrap_end_def trap_return_def at_handler_def trapinithart_def)

lemma syscall_simple:
  fixes s :: "'a kernel_scheme"
  assumes "out_ok s" "sint (tf_get TF_a7 s) = 11 \<or> sint (tf_get TF_a7 s) \<notin> {1..25}"
  shows "\<exists>u. syscall s = Ok (False, tf_set TF_a0 (if sint (tf_get TF_a7 s) = 11 then pid (myproc s) else - 1) (s\<lparr>uart := u\<rparr>))"
proof (cases "sint (tf_get TF_a7 s) = 11")
  case True
  then show ?thesis by (intro exI [of _ "uart s"]) (simp add: syscall_def SYS_exit_def syscalls_def sys_getpid_def)
next
  case False
  then have n: "sint (tf_get TF_a7 s) \<notin> {1..25}" using assms(2) by blast
  have "syscalls (sint (tf_get TF_a7 s)) = (None :: ('a kernel_scheme \<Rightarrow> (int \<times> 'a kernel_scheme) res) option)"
    using n by (auto simp: syscalls_def)
  moreover have "sint (tf_get TF_a7 s) \<noteq> SYS_exit" using n by (auto simp: SYS_exit_def)
  moreover obtain u where "printf (''%d %s: unknown sys call %d'' @ [CHR 0x0A]) [VInt (pid (myproc s)),
      VStr (Some (pname (myproc s))), VInt (of_int (sint (tf_get TF_a7 s)))] s = Ok (s\<lparr>uart := u\<rparr>)"
    using printf_silent [OF assms(1)] unfolding silent_def by blast
  ultimately show ?thesis using False by (intro exI [of _ u]) (simp add: syscall_def Let_def)
qed

lemma sstatus_bits:
  fixes x :: uint32
  shows "((x AND NOT SSTATUS_SIE AND NOT SSTATUS_SPP) OR SSTATUS_SPIE) AND SSTATUS_SPP = 0"
    "((x AND NOT SSTATUS_SIE AND NOT SSTATUS_SPP) OR SSTATUS_SPIE) AND SSTATUS_SIE = 0"
    "((x AND NOT SSTATUS_SIE AND NOT SSTATUS_SPP) OR SSTATUS_SPIE) AND SSTATUS_SPIE \<noteq> 0"
proof -
  let ?w = "(x AND NOT SSTATUS_SIE AND NOT SSTATUS_SPP) OR SSTATUS_SPIE"
  have defs: "bit SSTATUS_SPP n \<longleftrightarrow> n = 8" "bit SSTATUS_SIE n \<longleftrightarrow> n = 1" "bit SSTATUS_SPIE n \<longleftrightarrow> n = 5" for n
    unfolding SSTATUS_SPP_def SSTATUS_SIE_def SSTATUS_SPIE_def bit_push_bit_iff bit_1_iff by auto
  show "?w AND SSTATUS_SPP = 0" "?w AND SSTATUS_SIE = 0"
    by (rule bit_eqI, simp add: defs bit_simps, auto)+
  have "bit (?w AND SSTATUS_SPIE) 5" by (simp add: defs bit_simps)
  then show "?w AND SSTATUS_SPIE \<noteq> 0" by (metis bit_0_eq bot_apply bot_bool_def)
qed

text \<open>
  C11. A system call returns to the instruction after it. For a trap from user mode by an
  \<^verbatim>\<open>ecall\<close> with the number of \<^verbatim>\<open>getpid\<close> or a number that is not in the table, \<^verbatim>\<open>usertrap\<close> goes
  back to user space with \<^verbatim>\<open>sepc\<close> four bytes on, interrupts off until the \<^verbatim>\<open>sret\<close> and user mode
  after it, the process identifier or -1 in \<^verbatim>\<open>a0\<close>, and every other saved register of the user
  and the process table as they were.
\<close>

theorem system_call_returns:
  fixes s :: "'a machine_scheme"
  assumes "sstatus (k_csr s) AND SSTATUS_SPP = 0" "scause (k_csr s) = 8" "\<not> killed (me s) (pt s)"
    "unat (trapframe (myproc s)) mod 4 = 0" "out_ok s"
  defines "num \<equiv> sint (tf_get TF_a7 s)"
  assumes "num = 11 \<or> num \<notin> {1..25}"
  shows "\<exists>s'. usertrap s = Ok (TrapReturn (MAKE_SATP (pagetable (p_as (myproc s)))), s') \<and>
     tf_get TF_a0 s' = (if num = 11 then pid (myproc s) else - 1) \<and> sepc (k_csr s') = sepc (k_csr s) + 4 \<and>
     sstatus (k_csr s') AND SSTATUS_SPP = 0 \<and> sstatus (k_csr s') AND SSTATUS_SIE = 0 \<and>
     sstatus (k_csr s') AND SSTATUS_SPIE \<noteq> 0 \<and>
     (\<forall>off. unat off mod 4 = 0 \<and> off \<notin> {0, 4, 8, 12, 16, 56} \<longrightarrow> tf_get off s' = tf_get off s) \<and> pt s' = pt s"
proof -
  note H = at_handler_spec [OF assms(4)]
  have a7: "tf_get TF_a7 (at_handler s) = tf_get TF_a7 s" by (rule H(6)) simp_all
  have "out_ok (at_handler s)" using assms(5) H(7,8) by (simp add: out_ok_def)
  from syscall_simple [OF this] assms(7) obtain u where
    c: "syscall (at_handler s) = Ok (False, tf_set TF_a0 (if num = 11 then pid (myproc s) else - 1) (at_handler s\<lparr>uart := u\<rparr>))"
    unfolding a7 num_def H(1) by blast
  let ?s' = "tf_set TF_a0 (if num = 11 then pid (myproc s) else - 1) (at_handler s\<lparr>uart := u\<rparr>)"
  have k: "\<not> killed (me ?s') (pt ?s')" using assms(3) H by simp
  have al: "unat (trapframe (myproc ?s')) mod 4 = 0" using assms(4) H by simp
  have pt: "pt (prepare_return t) = pt t" for t :: "'a machine_scheme" by (simp add: prepare_return_def Let_def intr_off_def)
  note R = prepare_return_spec [OF al]
  have "tf_get off (prepare_return ?s') = tf_get off s" if "unat off mod 4 = 0" "off \<notin> {0, 4, 8, 12, 16, 56}" for off
    using that R(3) [of off] H(6) [of off] assms(4) H(1) by (simp add: tf_get_other)
  moreover have "tf_get TF_a0 (prepare_return ?s') = (if num = 11 then pid (myproc s) else - 1)"
    using R(3) [of TF_a0] by simp
  moreover have "sepc (k_csr (prepare_return ?s')) = sepc (k_csr s) + 4"
    using R(1) H(1,4) assms(4) by (simp add: tf_get_other)
  ultimately show ?thesis
    using usertrap_call [OF assms(1-3) c k] sstatus_bits H(1,2) pt by (intro exI [of _ "prepare_return ?s'"]) (simp add: R(2))
qed

text \<open>The registers of the user are all 0, so the number of the call is 0, which no call has.\<close>

definition ex_machine :: machine where
  "ex_machine = vkernel.extend ex_vkernel (machine.fields (\<lambda>_. 0) 0 [])"

theorem system_call_returns_witness:
  "\<exists>e s'. usertrap ex_machine = Ok (TrapReturn e, s') \<and> tf_get TF_a0 s' = - 1 \<and> sepc (k_csr s') = 0x1004"
proof -
  have [simp]: "k_csr ex_machine = ex_csrs" "pt ex_machine = ready_table" "cur ex_machine = Some 2"
      "phys (km ex_machine) = (\<lambda>_. 0)" "uart ex_machine = uart ex_cons" "panicked ex_machine = False"
    by (simp_all add: ex_machine_def vkernel.defs machine.defs)
  have [simp]: "uart_live (uart ex_cons)"
    by (simp add: ex_cons_def fstate.defs cstate.defs uart_live_def)
  have "sstatus (k_csr ex_machine) AND SSTATUS_SPP = 0" "scause (k_csr ex_machine) = 8" "\<not> killed (me ex_machine) (pt ex_machine)"
      "unat (trapframe (myproc ex_machine)) mod 4 = 0" "out_ok ex_machine"
    by (simp_all add: ex_csrs_def killed_def myproc_def me_def ready_table_def idle_proc_def out_ok_def)
  moreover have "sint (tf_get TF_a7 ex_machine) = 0" by (simp add: tf_get_def ld32_def)
  ultimately show ?thesis using system_call_returns [of ex_machine] by (auto simp: ex_csrs_def)
qed

end
