(* ===== verification/Yhc.thy ===== *)
theory Yhc
  imports YH_Prelude "HOL-Library.Signed_Division"
begin

text \<open>
  \<^verbatim>\<open>compiler/ir/optimizer.py\<close>: the simplification of expressions in the optimiser of the YHC compiler. The
  integers of Python are unbounded, those of the compiled program have 32 bits. A Python
  exception is the outcome \<open>Panic\<close>. The fixed point of an argument of a call is taken inside the
  simplification, so the two functions have a fuel argument; without fuel the outcome is \<open>Loop\<close>.
\<close>

unbundle bit_operations_syntax

section \<open>Expressions\<close>

datatype unop = UPlus | UMinus | UNot | UInv

datatype binop =
    BAdd | BSub | BMul | BDiv | BMod | BShl | BShr | BAnd | BOr | BXor
  | BEq | BNe | BLt | BLe | BGt | BGe | BLand | BLor

datatype expr =
    EInt int
  | EVar string
  | EArray string expr
  | ECall string "expr list"
  | EUnary unop expr
  | EBinop binop expr expr

section \<open>Folding constants\<close>

fun fold_unary :: "unop \<Rightarrow> int \<Rightarrow> int" where
  "fold_unary UPlus v = v"
| "fold_unary UMinus v = - v"
| "fold_unary UNot v = (if v \<noteq> 0 then 0 else 1)"
| "fold_unary UInv v = NOT v"

text \<open>
  Python's \<^verbatim>\<open>int(lhs / rhs)\<close>: the quotient rounded to a double (53 bits, ties to even), then cut
  to an integer. \<open>quot a b\<close> is that for naturals, with the exponent chosen such that the rounded
  mantissa has 53 bits.
\<close>

fun bitlen :: "nat \<Rightarrow> nat" where
  "bitlen n = (if n = 0 then 0 else Suc (bitlen (n div 2)))"

declare bitlen.simps [simp del]

definition half_even :: "nat \<Rightarrow> nat \<Rightarrow> nat" where
  "half_even n d =
     (let q = n div d; r = n mod d in if 2 * r < d \<or> 2 * r = d \<and> even q then q else q + 1)"

definition quot_exp :: "nat \<Rightarrow> nat \<Rightarrow> int" where
  "quot_exp a b =
     (let e = int (bitlen a) - int (bitlen b) - 53
      in if b * 2 ^ 53 * 2 ^ nat e \<le> a * 2 ^ nat (- e) then e + 1 else e)"

definition quot :: "nat \<Rightarrow> nat \<Rightarrow> nat" where
  "quot a b =
     (let e = quot_exp a b
      in if e \<ge> 0 then half_even a (b * 2 ^ nat e) * 2 ^ nat e else half_even (a * 2 ^ nat (- e)) b div 2 ^ nat (- e))"

definition py_div :: "int \<Rightarrow> int \<Rightarrow> int res" where
  "py_div a b =
     (if b = 0 then Panic ''ZeroDivisionError''
      else let q = quot (nat \<bar>a\<bar>) (nat \<bar>b\<bar>)
           in if q \<ge> 2 ^ 1024 then Panic ''OverflowError'' else Ok (sgn a * sgn b * int q))"

definition of_b :: "bool \<Rightarrow> int" where "of_b b = (if b then 1 else 0)"

fun fold_binary :: "binop \<Rightarrow> int \<Rightarrow> int \<Rightarrow> int res" where
  "fold_binary BAdd a b = Ok (a + b)"
| "fold_binary BSub a b = Ok (a - b)"
| "fold_binary BMul a b = Ok (a * b)"
| "fold_binary BDiv a b = py_div a b"
| "fold_binary BMod a b = (if b = 0 then Panic ''ZeroDivisionError'' else Ok (a mod b))"
| "fold_binary BShl a b = (if b < 0 then Panic ''ValueError'' else Ok (push_bit (nat b) a))"
| "fold_binary BShr a b = (if b < 0 then Panic ''ValueError'' else Ok (drop_bit (nat b) a))"
| "fold_binary BAnd a b = Ok (a AND b)"
| "fold_binary BOr a b = Ok (a OR b)"
| "fold_binary BXor a b = Ok (a XOR b)"
| "fold_binary BEq a b = Ok (of_b (a = b))"
| "fold_binary BNe a b = Ok (of_b (a \<noteq> b))"
| "fold_binary BLt a b = Ok (of_b (a < b))"
| "fold_binary BLe a b = Ok (of_b (a \<le> b))"
| "fold_binary BGt a b = Ok (of_b (a > b))"
| "fold_binary BGe a b = Ok (of_b (a \<ge> b))"
| "fold_binary BLand a b = Ok (of_b (a \<noteq> 0 \<and> b \<noteq> 0))"
| "fold_binary BLor a b = Ok (of_b (a \<noteq> 0 \<or> b \<noteq> 0))"

section \<open>Simplification\<close>

definition truthy_const :: "expr \<Rightarrow> bool option" where
  "truthy_const e = (case e of EInt v \<Rightarrow> Some (v \<noteq> 0) | _ \<Rightarrow> None)"

definition not_not :: "expr \<Rightarrow> expr" where
  "not_not e = EUnary UNot (EUnary UNot e)"

text \<open>The branch for \<^verbatim>\<open>binop\<close>, after both operands are simplified.\<close>

definition simplify_algebraic :: "binop \<Rightarrow> expr \<Rightarrow> expr \<Rightarrow> expr" where
  "simplify_algebraic op l r =
     (case op of
        BAdd \<Rightarrow> if l = EInt 0 then r else if r = EInt 0 then l else EBinop op l r
      | BSub \<Rightarrow> if r = EInt 0 then l else EBinop op l r
      | BMul \<Rightarrow>
          if l = EInt 0 \<or> r = EInt 0 then EInt 0
          else if l = EInt 1 then r else if r = EInt 1 then l else EBinop op l r
      | BDiv \<Rightarrow> if r = EInt 1 then l else EBinop op l r
      | BLand \<Rightarrow>
          if truthy_const l = Some False \<or> truthy_const r = Some False then EInt 0
          else if truthy_const l = Some True then not_not r
          else if truthy_const r = Some True then not_not l else EBinop op l r
      | BLor \<Rightarrow>
          if truthy_const l = Some True \<or> truthy_const r = Some True then EInt 1
          else if truthy_const l = Some False then not_not r
          else if truthy_const r = Some False then not_not l else EBinop op l r
      | _ \<Rightarrow> EBinop op l r)"

definition simplify_binop :: "binop \<Rightarrow> expr \<Rightarrow> expr \<Rightarrow> expr res" where
  "simplify_binop op l r =
     (case (l, r) of
        (EInt a, EInt b) \<Rightarrow>
          if (op = BDiv \<or> op = BMod) \<and> b = 0 then Ok (EBinop op l r)
          else bind_res (fold_binary op a b) (\<lambda>v. Ok (EInt v))
      | _ \<Rightarrow> Ok (simplify_algebraic op l r))"

definition simplify_unary :: "unop \<Rightarrow> expr \<Rightarrow> expr" where
  "simplify_unary op e = (case e of EInt v \<Rightarrow> EInt (fold_unary op v) | _ \<Rightarrow> EUnary op e)"

fun each_res :: "('a \<Rightarrow> 'b res) \<Rightarrow> 'a list \<Rightarrow> 'b list res" where
  "each_res f [] = Ok []"
| "each_res f (x # xs) = bind_res (f x) (\<lambda>y. bind_res (each_res f xs) (\<lambda>ys. Ok (y # ys)))"

lemma each_res_cong [fundef_cong]: "xs = ys \<Longrightarrow> (\<And>x. x \<in> set ys \<Longrightarrow> f x = g x) \<Longrightarrow> each_res f xs = each_res g ys"
  by (induction ys arbitrary: xs) auto

type_synonym const_env = "string \<rightharpoonup> int"

fun simplify_expr :: "nat \<Rightarrow> const_env \<Rightarrow> expr \<Rightarrow> expr res"
  and simplify_loop :: "nat \<Rightarrow> const_env \<Rightarrow> expr \<Rightarrow> expr res" where
  "simplify_expr n env (EInt v) = Ok (EInt v)"
| "simplify_expr n env (EVar x) = Ok (case env x of Some v \<Rightarrow> EInt v | None \<Rightarrow> EVar x)"
| "simplify_expr n env (EArray x i) = bind_res (simplify_expr n env i) (\<lambda>i'. Ok (EArray x i'))"
| "simplify_expr n env (ECall f args) = bind_res (each_res (simplify_loop n env) args) (\<lambda>args'. Ok (ECall f args'))"
| "simplify_expr n env (EUnary op e) = bind_res (simplify_expr n env e) (\<lambda>e'. Ok (simplify_unary op e'))"
| "simplify_expr n env (EBinop op l r) =
     bind_res (simplify_expr n env l) (\<lambda>l'. bind_res (simplify_expr n env r) (\<lambda>r'. simplify_binop op l' r'))"
| "simplify_loop 0 env e = Loop"
| "simplify_loop (Suc n) env e =
     bind_res (simplify_expr n env e) (\<lambda>e'. if e' = e then Ok e' else simplify_loop n env e')"

fun calls :: "expr \<Rightarrow> nat" where
  "calls (EInt v) = 0"
| "calls (EVar x) = 0"
| "calls (EArray x i) = calls i"
| "calls (ECall f args) = Suc (sum_list (map calls args))"
| "calls (EUnary op e) = calls e"
| "calls (EBinop op l r) = calls l + calls r"

text \<open>Two rounds for each level of calls are enough.\<close>

definition simplify_fixed_point :: "const_env \<Rightarrow> expr \<Rightarrow> expr res" where
  "simplify_fixed_point env e = simplify_loop (2 * calls e + 2) env e"

end
