(* ===== verification/Yhc_Spec.thy ===== *)
theory Yhc_Spec
  imports Yhc
begin

text \<open>
  The meaning of expressions, as the 32-bit instructions compute it that \<^verbatim>\<open>backend/riscv/codegen_rv32.py\<close> emits
  for them, and the simplification against it.
\<close>

unbundle bit_operations_syntax

section \<open>The division of constants\<close>

lemma bitlen_bound: "n < 2 ^ bitlen n"
proof (induction n rule: bitlen.induct)
  case (1 n)
  then show ?case by (cases "n = 0") (simp_all add: bitlen.simps [of n])
qed

lemma bitlen_lower: "n \<noteq> 0 \<Longrightarrow> 2 ^ bitlen n \<le> 2 * n"
proof (induction n rule: bitlen.induct)
  case (1 n)
  show ?case
  proof (cases "n div 2 = 0")
    case True
    then have "n = 1" using 1(2) by simp
    then show ?thesis by (simp add: bitlen.simps)
  next
    case False
    then have "2 ^ bitlen (n div 2) \<le> 2 * (n div 2)" using 1 by simp
    then show ?thesis using 1(2) bitlen.simps [of n] by simp
  qed
qed

lemma bitlen_le: "n < 2 ^ k \<Longrightarrow> bitlen n \<le> k"
proof (rule ccontr)
  assume n: "n < 2 ^ k" and "\<not> bitlen n \<le> k"
  then have "(2::nat) ^ Suc k \<le> 2 ^ bitlen n" by (intro power_increasing) simp_all
  moreover have "n \<noteq> 0" using \<open>\<not> bitlen n \<le> k\<close> bitlen.simps [of n] by (cases "n = 0") simp_all
  ultimately show False using bitlen_lower [of n] n by simp
qed

text \<open>Rounding to 53 bits does not reach the next integer.\<close>

lemma half_even_div:
  fixes a b k :: nat
  assumes a: "a < 2 ^ 53" and b: "b \<noteq> 0" and m: "2 ^ 52 * b \<le> a * 2 ^ k"
  shows "half_even (a * 2 ^ k) b div 2 ^ k = a div b"
proof -
  define q where "q = a * 2 ^ k div b"
  define r where "r = a * 2 ^ k mod b"
  have A: "a * 2 ^ k = b * q + r" and r: "r < b" using b by (simp_all add: q_def r_def)
  have q: "q div 2 ^ k = a div b"
    unfolding q_def by (metis div_mult2_eq div_mult_mult2 mult.commute power_not_zero zero_neq_numeral)
  have "Suc q mod 2 ^ k \<noteq> 0" if up: "b \<le> 2 * r"
  proof
    assume "Suc q mod 2 ^ k = 0"
    then have "2 ^ k dvd b * Suc q" by (intro dvd_mult mod_0_imp_dvd)
    moreover have "b * Suc q = a * 2 ^ k + (b - r)" using A r by simp
    ultimately have "2 ^ k dvd a * 2 ^ k + (b - r)" by (simp only:)
    then have "2 ^ k dvd b - r" by (simp only: dvd_add_right_iff [OF dvd_triv_right])
    then have "2 ^ k \<le> b - r" using r by (intro dvd_imp_le) simp_all
    then have "2 * 2 ^ k \<le> b" using up by simp
    then have "2 ^ 52 * (2 * 2 ^ k) \<le> a * 2 ^ k" using m by (meson le_trans mult_le_mono2)
    then have "2 ^ 53 * 2 ^ k \<le> a * 2 ^ k" by simp
    then show False using a by simp
  qed
  then have "Suc q div 2 ^ k = q div 2 ^ k" if "b \<le> 2 * r" using that by (simp add: div_Suc)
  then show ?thesis using q by (auto simp: half_even_def Let_def q_def [symmetric] r_def [symmetric])
qed

lemma quot_eq:
  assumes a: "a < 2 ^ 53" and b: "b \<noteq> 0"
  shows "quot a b = a div b"
proof (cases "a = 0")
  case True
  then show ?thesis using b by (simp add: quot_def half_even_def Let_def)
next
  case False
  define k where "k = 53 + bitlen b - bitlen a"
  have la: "bitlen a \<le> 53" by (rule bitlen_le [OF a])
  have lb: "bitlen b \<noteq> 0" using b by (simp add: bitlen.simps [of b])
  have e: "int (bitlen a) - int (bitlen b) - 53 = - int k" "k \<noteq> 0" using la lb by (simp_all add: k_def)
  have s: "53 + bitlen b = bitlen a + k" using la by (simp add: k_def)
  have "2 ^ 53 * 2 ^ bitlen b = (2::nat) ^ bitlen a * 2 ^ k" unfolding power_add [symmetric] s ..
  also have "\<dots> \<le> 2 * a * 2 ^ k" using bitlen_lower [OF False] by simp
  finally have m: "2 ^ 52 * 2 ^ bitlen b \<le> a * 2 ^ k" by simp
  then have m0: "2 ^ 52 * b \<le> a * 2 ^ k" using bitlen_bound [of b] by (meson le_trans less_imp_le mult_le_mono2)
  show ?thesis
  proof (cases "b * 2 ^ 53 \<le> a * 2 ^ k")
    case False
    then have "quot_exp a b = - int k" by (simp add: quot_exp_def e(1) Let_def)
    then show ?thesis using half_even_div [OF a b m0] e(2) by (simp add: quot_def Let_def)
  next
    case True
    obtain j where j: "k = Suc j" using e(2) by (cases k) auto
    have x: "quot_exp a b = - int j" using True by (simp add: quot_exp_def e(1) Let_def) (simp add: j)
    have m1: "2 ^ 52 * b \<le> a * 2 ^ j" using True by (simp add: j)
    show ?thesis
    proof (cases "j = 0")
      case True
      then have "half_even a b = a div b" using half_even_div [OF a b m1] by simp
      then show ?thesis using x True by (simp add: quot_def Let_def)
    next
      case False
      then show ?thesis using half_even_div [OF a b m1] x by (simp add: quot_def Let_def)
    qed
  qed
qed

lemma py_div_eq:
  assumes "\<bar>a\<bar> < 2 ^ 53" "b \<noteq> 0"
  shows "py_div a b = Ok (a sdiv b)"
proof -
  have n: "nat \<bar>a\<bar> < 2 ^ 53" using assms(1) by (simp add: nat_less_iff)
  have q: "quot (nat \<bar>a\<bar>) (nat \<bar>b\<bar>) = nat \<bar>a\<bar> div nat \<bar>b\<bar>" using assms(2) by (intro quot_eq [OF n]) simp
  have "nat \<bar>a\<bar> div nat \<bar>b\<bar> \<le> nat \<bar>a\<bar>" by simp
  also have "\<dots> < 2 ^ 1024" using n power_increasing [of 53 1024 "2::nat"] by linarith
  finally have "\<not> 2 ^ 1024 \<le> nat \<bar>a\<bar> div nat \<bar>b\<bar>" by simp
  then show ?thesis using assms(2) q
    by (simp only: py_div_def Let_def) (simp add: signed_divide_int_def zdiv_int)
qed


section \<open>What an expression computes\<close>

text \<open>
  The instructions of RV32IM: \<^verbatim>\<open>div\<close> and \<^verbatim>\<open>rem\<close> truncate and do not trap, the shifts use five bits of the
  amount, and the comparisons are signed.
\<close>

definition rv_div :: "uint32 \<Rightarrow> uint32 \<Rightarrow> uint32" where
  "rv_div x y = (if y = 0 then - 1 else word_of_int (sint x sdiv sint y))"

definition rv_rem :: "uint32 \<Rightarrow> uint32 \<Rightarrow> uint32" where
  "rv_rem x y = (if y = 0 then x else word_of_int (sint x smod sint y))"

definition of_bw :: "bool \<Rightarrow> uint32" where "of_bw b = (if b then 1 else 0)"

fun un_word :: "unop \<Rightarrow> uint32 \<Rightarrow> uint32" where
  "un_word UPlus x = x"
| "un_word UMinus x = - x"
| "un_word UNot x = of_bw (x = 0)"
| "un_word UInv x = NOT x"

fun bin_word :: "binop \<Rightarrow> uint32 \<Rightarrow> uint32 \<Rightarrow> uint32" where
  "bin_word BAdd x y = x + y"
| "bin_word BSub x y = x - y"
| "bin_word BMul x y = x * y"
| "bin_word BDiv x y = rv_div x y"
| "bin_word BMod x y = rv_rem x y"
| "bin_word BShl x y = push_bit (unat (y AND 31)) x"
| "bin_word BShr x y = signed_drop_bit (unat (y AND 31)) x"
| "bin_word BAnd x y = x AND y"
| "bin_word BOr x y = x OR y"
| "bin_word BXor x y = x XOR y"
| "bin_word BEq x y = of_bw (x = y)"
| "bin_word BNe x y = of_bw (x \<noteq> y)"
| "bin_word BLt x y = of_bw (sint x < sint y)"
| "bin_word BLe x y = of_bw (sint x \<le> sint y)"
| "bin_word BGt x y = of_bw (sint y < sint x)"
| "bin_word BGe x y = of_bw (sint y \<le> sint x)"
| "bin_word BLand x y = of_bw (x \<noteq> 0 \<and> y \<noteq> 0)"
| "bin_word BLor x y = of_bw (x \<noteq> 0 \<or> y \<noteq> 0)"

text \<open>
  The run-time state of a function: its variables and arrays, which are local and which a call cannot change, and
  what a call does to the rest of the state \<open>'s\<close>, such as the output.
\<close>

record 's rt =
  rt_var :: "string \<Rightarrow> uint32"
  rt_array :: "string \<Rightarrow> uint32 \<Rightarrow> uint32"
  rt_call :: "string \<Rightarrow> uint32 list \<Rightarrow> 's \<Rightarrow> uint32 \<times> 's"

fun eval_list :: "('a \<Rightarrow> 's \<Rightarrow> uint32 \<times> 's) \<Rightarrow> 'a list \<Rightarrow> 's \<Rightarrow> uint32 list \<times> 's" where
  "eval_list f [] s = ([], s)"
| "eval_list f (x # xs) s = (case f x s of (v, s1) \<Rightarrow> case eval_list f xs s1 of (vs, s2) \<Rightarrow> (v # vs, s2))"

lemma eval_list_cong [fundef_cong]:
  "xs = ys \<Longrightarrow> s = t \<Longrightarrow> (\<And>x s. x \<in> set ys \<Longrightarrow> f x s = g x s) \<Longrightarrow> eval_list f xs s = eval_list g ys t"
  by (induction ys arbitrary: xs s t) (auto split: prod.splits)

fun eval :: "'s rt \<Rightarrow> expr \<Rightarrow> 's \<Rightarrow> uint32 \<times> 's" where
  "eval R (EInt v) s = (word_of_int v, s)"
| "eval R (EVar x) s = (rt_var R x, s)"
| "eval R (EArray x i) s = (case eval R i s of (k, s1) \<Rightarrow> (rt_array R x k, s1))"
| "eval R (ECall f args) s = (case eval_list (eval R) args s of (vs, s1) \<Rightarrow> rt_call R f vs s1)"
| "eval R (EUnary op e) s = (case eval R e s of (v, s1) \<Rightarrow> (un_word op v, s1))"
| "eval R (EBinop op l r) s =
     (case eval R l s of (x, s1) \<Rightarrow>
        if op = BLand \<and> x = 0 then (0, s1)
        else if op = BLor \<and> x \<noteq> 0 then (1, s1)
        else case eval R r s1 of (y, s2) \<Rightarrow> (bin_word op x y, s2))"

section \<open>Folding\<close>

text \<open>The constants for which the compiler's unbounded arithmetic agrees with the machine's.\<close>

definition in32 :: "int \<Rightarrow> bool" where
  "in32 v \<longleftrightarrow> - (2 ^ 31) \<le> v \<and> v < 2 ^ 31"

definition fold_ok :: "binop \<Rightarrow> int \<Rightarrow> int \<Rightarrow> bool" where
  "fold_ok op a b \<longleftrightarrow>
     (if op \<in> {BAdd, BSub, BMul, BAnd, BOr, BXor} then True
      else if op = BShl then 0 \<le> b \<and> b < 32
      else if op = BShr then in32 a \<and> 0 \<le> b \<and> b < 32
      else if op = BMod then in32 a \<and> in32 b \<and> (b dvd a \<or> sgn a = sgn b)
      else in32 a \<and> in32 b)"

lemma sint_in32: "in32 v \<Longrightarrow> sint (word_of_int v :: uint32) = v"
  by (subst signed_of_int) (simp add: in32_def signed_take_bit_int_eq_self_iff)

lemma word_in32: "in32 a \<Longrightarrow> in32 b \<Longrightarrow> (word_of_int a :: uint32) = word_of_int b \<longleftrightarrow> a = b"
  using sint_in32 by metis

lemma word_zero_in32: "in32 a \<Longrightarrow> (word_of_int a :: uint32) = 0 \<longleftrightarrow> a = 0"
  using word_in32 [of a 0] by (simp add: in32_def)

lemma of_b_word: "word_of_int (of_b P) = of_bw P"
  by (simp add: of_b_def of_bw_def)

lemma shift_amount:
  assumes "0 \<le> b" "b < 32"
  shows "unat ((word_of_int b :: uint32) AND 31) = nat b"
proof -
  have "(word_of_int b :: uint32) AND 31 = word_of_int (b AND 31)" by (simp add: of_int_and_eq)
  also have "b AND 31 = b" using assms take_bit_int_eq_self [of b 5] by (simp add: take_bit_eq_mask mask_numeral)
  finally show ?thesis using assms by (simp add: unat_eq_nat_uint uint_word_of_int take_bit_int_eq_self_iff)
qed

lemma mod_smod:
  assumes "b \<noteq> 0" "b dvd a \<or> sgn a = sgn b"
  shows "a mod b = a smod (b::int)"
  using assms(2)
proof
  assume "b dvd a"
  then show ?thesis by (auto simp: signed_modulo_int_def abs_mult dvd_def)
next
  assume s: "sgn a = sgn b"
  show ?thesis
  proof (cases "0 < b")
    case True
    then have "0 < a" using s by (simp add: sgn_1_pos [symmetric])
    then show ?thesis using True by (simp add: signed_modulo_int_def)
  next
    case False
    then have "b < 0" "a < 0" using assms(1) s by (auto simp: sgn_if split: if_splits)
    then show ?thesis by (simp add: signed_modulo_int_def)
  qed
qed


lemma fold_unary_word: "op = UNot \<longrightarrow> in32 v \<Longrightarrow> word_of_int (fold_unary op v) = un_word op (word_of_int v)"
  using word_zero_in32 [of v] by (cases op) (auto simp: of_bw_def of_int_not_eq)

lemma fold_binary_word:
  assumes "fold_ok op a b" "op = BDiv \<or> op = BMod \<longrightarrow> b \<noteq> 0"
  shows "\<exists>v. fold_binary op a b = Ok v \<and> word_of_int v = bin_word op (word_of_int a) (word_of_int b)"
proof (cases op)
  case BDiv
  then have ab: "in32 a" "in32 b" "b \<noteq> 0" using assms by (simp_all add: fold_ok_def)
  then have "py_div a b = Ok (a sdiv b)" by (intro py_div_eq) (auto simp: in32_def)
  then show ?thesis using BDiv ab word_zero_in32 [of b] by (simp add: rv_div_def sint_in32)
next
  case BMod
  then have ab: "in32 a" "in32 b" "b \<noteq> 0" and m: "a mod b = a smod b" using assms mod_smod by (auto simp: fold_ok_def)
  then show ?thesis using BMod word_zero_in32 [of b] by (simp add: rv_rem_def sint_in32)
next
  case BShl
  then show ?thesis using assms shift_amount [of b] by (simp add: fold_ok_def push_bit_of_int)
next
  case BShr
  then have ab: "in32 a" "0 \<le> b" "b < 32" using assms by (simp_all add: fold_ok_def)
  have "word_of_int (drop_bit (nat b) a) = signed_drop_bit (nat b) (word_of_int a :: uint32)"
    using arg_cong [OF sint_signed_drop_bit_eq [of "nat b" "word_of_int a :: uint32"], of "word_of_int :: int \<Rightarrow> uint32"] sint_in32 [OF ab(1)]
    by simp
  then show ?thesis using BShr ab shift_amount [of b] by simp
qed (use assms in \<open>auto simp: fold_ok_def of_b_word of_int_and_eq of_int_or_eq of_int_xor_eq sint_in32 word_in32 word_zero_in32\<close>)


section \<open>One pass\<close>

text \<open>The reference: one pass from the leaves to the root, without the loop.\<close>

fun one_pass :: "const_env \<Rightarrow> expr \<Rightarrow> expr res" where
  "one_pass env (EInt v) = Ok (EInt v)"
| "one_pass env (EVar x) = Ok (case env x of Some v \<Rightarrow> EInt v | None \<Rightarrow> EVar x)"
| "one_pass env (EArray x i) = bind_res (one_pass env i) (\<lambda>i'. Ok (EArray x i'))"
| "one_pass env (ECall f args) = bind_res (each_res (one_pass env) args) (\<lambda>args'. Ok (ECall f args'))"
| "one_pass env (EUnary op e) = bind_res (one_pass env e) (\<lambda>e'. Ok (simplify_unary op e'))"
| "one_pass env (EBinop op l r) = bind_res (one_pass env l) (\<lambda>l'. bind_res (one_pass env r) (\<lambda>r'. simplify_binop op l' r'))"

definition is_const :: "expr \<Rightarrow> bool" where
  "is_const e \<longleftrightarrow> (case e of EInt _ \<Rightarrow> True | _ \<Rightarrow> False)"

text \<open>Normal forms: nothing is left to simplify.\<close>

fun nf :: "const_env \<Rightarrow> expr \<Rightarrow> bool" where
  "nf env (EInt v) \<longleftrightarrow> True"
| "nf env (EVar x) \<longleftrightarrow> env x = None"
| "nf env (EArray x i) \<longleftrightarrow> nf env i"
| "nf env (ECall f args) \<longleftrightarrow> (\<forall>a \<in> set args. nf env a)"
| "nf env (EUnary op e) \<longleftrightarrow> nf env e \<and> \<not> is_const e"
| "nf env (EBinop op l r) \<longleftrightarrow> nf env l \<and> nf env r \<and> simplify_binop op l r = Ok (EBinop op l r)"

lemma each_res_id: "\<forall>x \<in> set xs. f x = Ok x \<Longrightarrow> each_res f xs = Ok xs"
  by (induction xs) auto

lemma each_res_Ok: "each_res f xs = Ok ys \<Longrightarrow> list_all2 (\<lambda>x y. f x = Ok y) xs ys"
proof (induction xs arbitrary: ys)
  case (Cons x xs)
  then obtain y zs where "f x = Ok y" "each_res f xs = Ok zs" "ys = y # zs"
    by (cases "f x"; cases "each_res f xs") simp_all
  then show ?case using Cons.IH by simp
qed simp

lemma simplify_unary_nonconst: "\<not> is_const e \<Longrightarrow> simplify_unary op e = EUnary op e"
  by (cases e) (simp_all add: is_const_def simplify_unary_def)

lemma one_pass_nf: "nf env e \<Longrightarrow> one_pass env e = Ok e"
  by (induction e) (simp_all add: each_res_id simplify_unary_nonconst)

text \<open>The shapes that \<open>simplify_binop\<close> returns.\<close>

lemma truthy_is_const: "truthy_const e = Some b \<Longrightarrow> is_const e"
  by (cases e) (simp_all add: truthy_const_def is_const_def)

lemma simplify_binop_algebraic: "\<not> (is_const l \<and> is_const r) \<Longrightarrow> simplify_binop op l r = Ok (simplify_algebraic op l r)"
  by (cases l; cases r) (simp_all add: simplify_binop_def is_const_def)

lemma simplify_algebraic_cases:
  assumes "\<not> (is_const l \<and> is_const r)"
  shows "simplify_algebraic op l r \<in> {EInt 0, EInt 1, l, r, EBinop op l r} \<union>
    (if is_const l then {} else {not_not l}) \<union> (if is_const r then {} else {not_not r})"
proof -
  have "truthy_const l = Some b \<Longrightarrow> \<not> is_const r" "truthy_const r = Some b \<Longrightarrow> \<not> is_const l" for b
    using assms truthy_is_const by blast+
  then show ?thesis by (cases op) (simp_all add: simplify_algebraic_def)
qed

lemma simplify_binop_cases:
  assumes "simplify_binop op l r = Ok e"
  shows "(\<exists>v. e = EInt v) \<or> e = l \<or> e = r \<or> e = EBinop op l r \<or> e = not_not l \<and> \<not> is_const l \<or> e = not_not r \<and> \<not> is_const r"
proof (cases "is_const l \<and> is_const r")
  case True
  then obtain a b where "l = EInt a" "r = EInt b" by (cases l; cases r) (simp_all add: is_const_def)
  then show ?thesis using assms by (cases "fold_binary op a b") (auto simp: simplify_binop_def split: if_splits)
next
  case False
  then show ?thesis
    using assms simplify_algebraic_cases [OF False, of op] by (auto simp: simplify_binop_algebraic split: if_splits)
qed

lemma nf_simplify_binop: "simplify_binop op l r = Ok e \<Longrightarrow> nf env l \<Longrightarrow> nf env r \<Longrightarrow> nf env e"
  using simplify_binop_cases [of op l r e] by (auto simp: not_not_def is_const_def)

lemma calls_simplify_binop: "simplify_binop op l r = Ok e \<Longrightarrow> calls e \<le> calls l + calls r"
  using simplify_binop_cases [of op l r e] by (auto simp: not_not_def)

lemma nf_simplify_unary: "nf env e \<Longrightarrow> nf env (simplify_unary op e)"
  by (cases e) (simp_all add: simplify_unary_def is_const_def)

lemma calls_simplify_unary: "calls (simplify_unary op e) = calls e"
  by (cases e) (simp_all add: simplify_unary_def)

lemma bind_Ok: "bind_res m f = Ok y \<Longrightarrow> \<exists>x. m = Ok x \<and> f x = Ok y"
  by (cases m) simp_all

text \<open>One pass ends in a normal form and adds no call.\<close>

lemma one_pass_result: "one_pass env e = Ok e' \<Longrightarrow> nf env e' \<and> calls e' \<le> calls e"
proof (induction e arbitrary: e')
  case (ECall f args)
  then obtain as where a: "each_res (one_pass env) args = Ok as" "e' = ECall f as" by (auto dest!: bind_Ok)
  note as = each_res_Ok [OF a(1)] a(2)
  have h: "\<forall>x \<in> set args. \<forall>y. one_pass env x = Ok y \<longrightarrow> nf env y \<and> calls y \<le> calls x" using ECall.IH by blast
  have "(\<forall>y \<in> set as. nf env y) \<and> sum_list (map calls as) \<le> sum_list (map calls args)"
    using as(1) h by (induction rule: list_all2_induct) (auto intro: add_mono)
  then show ?case by (simp add: as(2))
next
  case (EBinop op l r)
  then obtain l' r' where "one_pass env l = Ok l'" "one_pass env r = Ok r'" "simplify_binop op l' r' = Ok e'"
    by (auto dest!: bind_Ok)
  then show ?case using EBinop.IH nf_simplify_binop calls_simplify_binop [of op l' r' e'] by fastforce
qed (auto dest!: bind_Ok simp: nf_simplify_unary calls_simplify_unary split: option.splits)


section \<open>The loop\<close>

lemma calls_arg: "a \<in> set args \<Longrightarrow> calls a < calls (ECall f args)"
  using member_le_sum_list [of "calls a" "map calls args"] by simp

lemma simplify_expr_nf: "nf env e \<Longrightarrow> 2 * calls e \<le> n \<Longrightarrow> simplify_expr n env e = Ok e"
proof (induction e arbitrary: n)
  case (ECall f args)
  have "simplify_loop n env a = Ok a" if a: "a \<in> set args" for a
  proof -
    obtain m where "n = Suc m" using ECall.prems(2) by (cases n) auto
    then show ?thesis using ECall.IH [OF a, of m] ECall.prems calls_arg [OF a, of f] a by simp
  qed
  then show ?case by (simp add: each_res_id)
qed (simp_all add: simplify_unary_nonconst)

lemma simplify_loop_nf: "nf env e \<Longrightarrow> 2 * calls e < n \<Longrightarrow> simplify_loop n env e = Ok e"
  by (cases n) (simp_all add: simplify_expr_nf)

text \<open>The second round of the loop changes nothing.\<close>

lemma simplify_loop_one_pass:
  assumes "simplify_expr m env e = one_pass env e" "2 * calls e < m"
  shows "simplify_loop (Suc m) env e = one_pass env e"
proof (cases "one_pass env e")
  case (Ok e')
  then have "simplify_loop m env e' = Ok e'" using one_pass_result [OF Ok] assms(2) by (intro simplify_loop_nf) auto
  then show ?thesis using assms(1) Ok by simp
qed (use assms in simp_all)

lemma simplify_expr_one_pass: "2 * calls e \<le> n \<Longrightarrow> simplify_expr n env e = one_pass env e"
proof (induction e arbitrary: n)
  case (ECall f args)
  have "simplify_loop n env a = one_pass env a" if a: "a \<in> set args" for a
  proof -
    obtain m where m: "n = Suc m" using ECall.prems by (cases n) auto
    then show ?thesis using ECall.IH [OF a, of m] ECall.prems calls_arg [OF a, of f]
      by (simp only: m) (rule simplify_loop_one_pass, simp_all)
  qed
  then show ?case by (simp cong: each_res_cong)
qed simp_all

lemma simplify_fixed_point_one_pass: "simplify_fixed_point env e = one_pass env e"
  using simplify_loop_one_pass [of "2 * calls e + 1" env e] simplify_expr_one_pass [of e "2 * calls e + 1"]
  by (simp add: simplify_fixed_point_def)

section \<open>Soundness\<close>

definition const32 :: "expr \<Rightarrow> bool" where
  "const32 e \<longleftrightarrow> (case e of EInt v \<Rightarrow> in32 v | _ \<Rightarrow> True)"

text \<open>
  Where the rules of \<open>simplify_binop\<close> are right: the constants agree with the machine's arithmetic, and an operand
  that is dropped has no call.
\<close>

definition binop_ok :: "binop \<Rightarrow> expr \<Rightarrow> expr \<Rightarrow> bool" where
  "binop_ok op l r \<longleftrightarrow>
     (if is_const l \<and> is_const r
      then (case (l, r) of (EInt a, EInt b) \<Rightarrow> (op = BDiv \<or> op = BMod) \<and> b = 0 \<or> fold_ok op a b | _ \<Rightarrow> True)
      else (op = BMul \<longrightarrow> (l = EInt 0 \<longrightarrow> calls r = 0) \<and> (r = EInt 0 \<longrightarrow> calls l = 0)) \<and>
           (op = BLand \<longrightarrow> const32 l \<and> const32 r \<and> (truthy_const r = Some False \<longrightarrow> calls l = 0)) \<and>
           (op = BLor \<longrightarrow> const32 l \<and> const32 r \<and> (truthy_const r = Some True \<longrightarrow> calls l = 0)))"

fun safe :: "const_env \<Rightarrow> expr \<Rightarrow> bool" where
  "safe env (EInt v) \<longleftrightarrow> True"
| "safe env (EVar x) \<longleftrightarrow> True"
| "safe env (EArray x i) \<longleftrightarrow> safe env i"
| "safe env (ECall f args) \<longleftrightarrow> (\<forall>a \<in> set args. safe env a)"
| "safe env (EUnary op e) \<longleftrightarrow> safe env e \<and> (op = UNot \<longrightarrow> (case one_pass env e of Ok e' \<Rightarrow> const32 e' | _ \<Rightarrow> False))"
| "safe env (EBinop op l r) \<longleftrightarrow> safe env l \<and> safe env r \<and>
     (case (one_pass env l, one_pass env r) of (Ok l', Ok r') \<Rightarrow> binop_ok op l' r' | _ \<Rightarrow> False)"

text \<open>Without calls the state stays.\<close>

lemma eval_pure: "calls e = 0 \<Longrightarrow> snd (eval R e s) = s"
  by (induction e arbitrary: s) (simp_all add: case_prod_beta)

lemma eval_not_not: "eval R (not_not e) s = (of_bw (fst (eval R e s) \<noteq> 0), snd (eval R e s))"
  by (simp add: not_not_def case_prod_beta of_bw_def)

lemma truthy_word: "truthy_const e = Some b \<Longrightarrow> const32 e \<Longrightarrow> \<exists>v. (\<forall>s. eval R e s = (v, s)) \<and> (v \<noteq> 0 \<longleftrightarrow> b)"
  by (cases e) (auto simp: truthy_const_def const32_def word_zero_in32)

lemma binop_ok_algebraic:
  assumes "\<not> (is_const l \<and> is_const r)" "binop_ok op l r"
  shows "op = BMul \<Longrightarrow> l = EInt 0 \<Longrightarrow> calls r = 0" "op = BMul \<Longrightarrow> r = EInt 0 \<Longrightarrow> calls l = 0"
    "op = BLand \<Longrightarrow> truthy_const r = Some False \<Longrightarrow> calls l = 0" "op = BLor \<Longrightarrow> truthy_const r = Some True \<Longrightarrow> calls l = 0"
    "op = BLand \<or> op = BLor \<Longrightarrow> const32 l \<and> const32 r"
  using assms by (auto simp: binop_ok_def)

lemma eval_land:
  assumes ok: "\<not> (is_const l \<and> is_const r)" "binop_ok BLand l r"
  shows "eval R (simplify_algebraic BLand l r) s = eval R (EBinop BLand l r) s"
proof -
  note O = binop_ok_algebraic [OF ok, simplified]
  note L = truthy_word [of l _ R] and R = truthy_word [of r _ R]
  consider (lF) "truthy_const l = Some False" | (rF) "truthy_const r = Some False" | (lT) "truthy_const l = Some True"
    | (rT) "truthy_const r = Some True" "truthy_const l = None" | (N) "truthy_const l = None" "truthy_const r = None"
    by (metis (full_types) option.exhaust)
  then show ?thesis
  proof cases
    case lF
    then show ?thesis using L O by (fastforce simp: simplify_algebraic_def)
  next
    case rF
    then show ?thesis using R O eval_pure [of l R s] by (fastforce simp: simplify_algebraic_def of_bw_def case_prod_beta)
  next
    case lT
    then obtain v where "\<forall>s. eval R l s = (v, s)" "v \<noteq> 0" using L O by blast
    moreover have "truthy_const r = None" using lT ok(1) truthy_is_const by (metis option.exhaust)
    ultimately show ?thesis using lT by (simp add: simplify_algebraic_def eval_not_not case_prod_beta)
  next
    case rT
    then obtain v where "\<forall>s. eval R r s = (v, s)" "v \<noteq> 0" using R O by blast
    then show ?thesis using rT by (simp add: simplify_algebraic_def eval_not_not case_prod_beta of_bw_def prod_eq_iff)
  qed (simp add: simplify_algebraic_def)
qed

lemma eval_lor:
  assumes ok: "\<not> (is_const l \<and> is_const r)" "binop_ok BLor l r"
  shows "eval R (simplify_algebraic BLor l r) s = eval R (EBinop BLor l r) s"
proof -
  note O = binop_ok_algebraic [OF ok, simplified]
  note L = truthy_word [of l _ R] and R = truthy_word [of r _ R]
  consider (lT) "truthy_const l = Some True" | (rT) "truthy_const r = Some True" | (lF) "truthy_const l = Some False"
    | (rF) "truthy_const r = Some False" "truthy_const l = None" | (N) "truthy_const l = None" "truthy_const r = None"
    by (metis (full_types) option.exhaust)
  then show ?thesis
  proof cases
    case lT
    then show ?thesis using L O by (fastforce simp: simplify_algebraic_def)
  next
    case rT
    then show ?thesis using R O eval_pure [of l R s] by (fastforce simp: simplify_algebraic_def of_bw_def case_prod_beta)
  next
    case lF
    then obtain v where "\<forall>s. eval R l s = (v, s)" "v = 0" using L O by blast
    moreover have "truthy_const r = None" using lF ok(1) truthy_is_const by (metis option.exhaust)
    ultimately show ?thesis using lF by (simp add: simplify_algebraic_def eval_not_not case_prod_beta)
  next
    case rF
    then obtain v where "\<forall>s. eval R r s = (v, s)" "v = 0" using R O by blast
    then show ?thesis using rF by (simp add: simplify_algebraic_def eval_not_not case_prod_beta of_bw_def prod_eq_iff)
  qed (simp add: simplify_algebraic_def)
qed


lemma eval_algebraic:
  assumes ok: "\<not> (is_const l \<and> is_const r)" "binop_ok op l r"
  shows "eval R (simplify_algebraic op l r) s = eval R (EBinop op l r) s"
proof (cases op)
  case BMul
  then show ?thesis
    using binop_ok_algebraic(1,2) [OF ok] eval_pure [of l R s] eval_pure [of r R s]
    by (auto simp: simplify_algebraic_def case_prod_beta prod_eq_iff)
next
  case BLand
  show ?thesis using eval_land [OF ok [unfolded BLand]] unfolding BLand .
next
  case BLor
  show ?thesis using eval_lor [OF ok [unfolded BLor]] unfolding BLor .
qed (simp_all add: simplify_algebraic_def case_prod_beta prod_eq_iff rv_div_def)

lemma binop_sound:
  assumes "binop_ok op l r"
  shows "\<exists>e. simplify_binop op l r = Ok e \<and> (\<forall>s. eval R e s = eval R (EBinop op l r) s)"
proof (cases "is_const l \<and> is_const r")
  case False
  show ?thesis by (rule exI, rule conjI, rule simplify_binop_algebraic [OF False], rule allI, rule eval_algebraic [OF False assms])
next
  case True
  then obtain a b where lr: "l = EInt a" "r = EInt b" by (cases l; cases r) (simp_all add: is_const_def)
  show ?thesis
  proof (cases "(op = BDiv \<or> op = BMod) \<and> b = 0")
    case True
    then show ?thesis by (simp add: simplify_binop_def lr)
  next
    case False
    then have "fold_ok op a b" using assms by (auto simp: binop_ok_def lr is_const_def)
    then obtain v where v: "fold_binary op a b = Ok v" "word_of_int v = bin_word op (word_of_int a) (word_of_int b)"
      using fold_binary_word [of op a b] False by auto
    then show ?thesis using False by (auto simp: simplify_binop_def lr of_bw_def)
  qed
qed

definition env_ok :: "'s rt \<Rightarrow> const_env \<Rightarrow> bool" where
  "env_ok R env \<longleftrightarrow> (\<forall>x v. env x = Some v \<longrightarrow> rt_var R x = word_of_int v)"

lemma each_res_sound:
  assumes "\<forall>x \<in> set xs. \<exists>y. f x = Ok y \<and> (\<forall>s. g y s = g x s)"
  shows "\<exists>ys. each_res f xs = Ok ys \<and> (\<forall>s. eval_list g ys s = eval_list g xs s)"
  using assms
proof (induction xs)
  case (Cons x xs)
  then obtain y ys where "f x = Ok y" "\<forall>s. g y s = g x s" "each_res f xs = Ok ys" "\<forall>s. eval_list g ys s = eval_list g xs s" by auto
  then show ?case by simp
qed simp

lemma unary_sound:
  assumes "op = UNot \<longrightarrow> const32 e"
  shows "eval R (simplify_unary op e) s = eval R (EUnary op e) s"
proof (cases "is_const e")
  case True
  then obtain v where "e = EInt v" by (cases e) (simp_all add: is_const_def)
  then show ?thesis using assms by (simp add: simplify_unary_def const32_def fold_unary_word)
qed (simp add: simplify_unary_nonconst)

lemma one_pass_sound: "env_ok R env \<Longrightarrow> safe env e \<Longrightarrow> \<exists>e'. one_pass env e = Ok e' \<and> (\<forall>s. eval R e' s = eval R e s)"
proof (induction e)
  case (EVar x)
  then show ?case by (cases "env x") (simp_all add: env_ok_def)
next
  case (EArray x i)
  then show ?case by auto
next
  case (ECall f args)
  then have "\<exists>as. each_res (one_pass env) args = Ok as \<and> (\<forall>s. eval_list (eval R) as s = eval_list (eval R) args s)"
    by (intro each_res_sound) auto
  then show ?case by auto
next
  case (EUnary op e)
  then obtain e' where e: "one_pass env e = Ok e'" "\<forall>s. eval R e' s = eval R e s" by auto
  then have "op = UNot \<longrightarrow> const32 e'" using EUnary.prems by auto
  then show ?case using unary_sound [of op e' R] e by simp
next
  case (EBinop op l r)
  then obtain l' r' where lr: "one_pass env l = Ok l'" "\<forall>s. eval R l' s = eval R l s"
    "one_pass env r = Ok r'" "\<forall>s. eval R r' s = eval R r s" by auto
  then have "binop_ok op l' r'" using EBinop.prems by simp
  then obtain e where e: "simplify_binop op l' r' = Ok e" "\<forall>s. eval R e s = eval R (EBinop op l' r') s"
    using binop_sound [of op l' r' R] by blast
  have "eval R l' = eval R l" "eval R r' = eval R r" using lr by auto
  then have "\<forall>s. eval R (EBinop op l' r') s = eval R (EBinop op l r) s" by (simp cong: if_cong)
  then show ?case using lr(1,3) e by (simp del: eval.simps)
qed simp

text \<open>
  C28. The simplification of expressions preserves what they compute. For every expression whose
  folded constants agree with the arithmetic of the machine and in which no call is dropped, and for every
  run-time state in which the known variables have their known values, \<^verbatim>\<open>_simplify_fixed_point\<close> comes to
  an end and returns an expression with the same 32-bit value and the same calls; a second round
  of its loop never changes anything.
\<close>

theorem simplify_preserves:
  assumes "env_ok R env" "safe env e"
  shows "\<exists>e'. simplify_fixed_point env e = Ok e' \<and> (\<forall>s. eval R e' s = eval R e s)
    \<and> simplify_fixed_point env e' = Ok e' \<and> calls e' \<le> calls e"
proof -
  obtain e' where e: "one_pass env e = Ok e'" "\<forall>s. eval R e' s = eval R e s" using one_pass_sound [OF assms] by blast
  then show ?thesis using one_pass_result [OF e(1)] one_pass_nf by (auto simp: simplify_fixed_point_one_pass)
qed

theorem simplify_preserves_witness:
  "let R = \<lparr>rt_var = (\<lambda>x. 7), rt_array = (\<lambda>a i. i), rt_call = (\<lambda>f vs s. (sum_list vs, s @ [f]))\<rparr>;
       e = EBinop BLand (EBinop BLt (EVar ''x'') (EInt 9)) (ECall ''f'' [EBinop BMul (EVar ''x'') (EInt 2), EVar ''y''])
   in \<exists>e'. simplify_fixed_point [''x'' \<mapsto> 7] e = Ok e' \<and> eval R e' [] = (1, [''f''])"
proof -
  let ?R = "\<lparr>rt_var = (\<lambda>x. 7), rt_array = (\<lambda>a i. i), rt_call = (\<lambda>f vs s. (sum_list vs, s @ [f]))\<rparr> :: string list rt"
  let ?e = "EBinop BLand (EBinop BLt (EVar ''x'') (EInt 9)) (ECall ''f'' [EBinop BMul (EVar ''x'') (EInt 2), EVar ''y''])"
  have "env_ok ?R [''x'' \<mapsto> 7]" by (simp add: env_ok_def)
  moreover have "safe [''x'' \<mapsto> 7] ?e"
    by (simp add: binop_ok_def is_const_def fold_ok_def in32_def simplify_binop_def const32_def of_b_def truthy_const_def)
  ultimately obtain e' where "simplify_fixed_point [''x'' \<mapsto> 7] ?e = Ok e'" "\<forall>s. eval ?R e' s = eval ?R ?e s"
    using simplify_preserves [of ?R "[''x'' \<mapsto> 7]" ?e] by blast
  moreover have "eval ?R ?e [] = (1, [''f''])" by (simp add: of_bw_def)
  ultimately show ?thesis by (simp add: Let_def)
qed

text \<open>Where it goes wrong: the remainder of a negative number, a sum beyond 32 bits, and a call times 0.\<close>

lemma fold_mod_differs:
  "simplify_fixed_point Map.empty (EBinop BMod (EInt (- 7)) (EInt 3)) = Ok (EInt 2)"
  "eval R (EBinop BMod (EInt (- 7)) (EInt 3)) s = (- 1, s)"
  by (simp_all add: simplify_fixed_point_one_pass simplify_binop_def rv_rem_def signed_modulo_int_def)

lemma fold_overflow_differs:
  "simplify_fixed_point Map.empty (EBinop BLt (EBinop BAdd (EInt 0x7fffffff) (EInt 1)) (EInt 0)) = Ok (EInt 0)"
  "eval R (EBinop BLt (EBinop BAdd (EInt 0x7fffffff) (EInt 1)) (EInt 0)) s = (1, s)"
  by (simp_all add: simplify_fixed_point_one_pass simplify_binop_def of_b_def of_bw_def)

lemma simplify_drops_call:
  "simplify_fixed_point env (EBinop BMul (ECall f []) (EInt 0)) = Ok (EInt 0)"
  "snd (eval R (EBinop BMul (ECall f []) (EInt 0)) s) = snd (rt_call R f [] s)"
  by (simp_all add: simplify_fixed_point_one_pass simplify_binop_def simplify_algebraic_def case_prod_beta)

end
