(* ===== verification/Spec2Isabelle.thy ===== *)
theory Spec2Isabelle
  imports Div64 Fs_Path Grep Pipe_Spec Sched Sh_Roundtrip Trap_Spec Yhc_Spec
begin

text \<open>
  A verification of YHsys, a teaching operating system for a 32-bit RISC-V machine with Sv32 paging
  and one CPU: its kernel (\<^verbatim>\<open>src/os/kernel\<close>), three of its user programs (\<^verbatim>\<open>src/os/user\<close>) and the expression
  optimiser of its compiler (\<^verbatim>\<open>src/compiler\<close>).

  \<^bold>\<open>The program.\<close> The boot code (\<^verbatim>\<open>start.c\<close>, \<^verbatim>\<open>bootflow.c\<close>) initialises the page allocator (\<^verbatim>\<open>kalloc.c\<close>), the
  kernel page table (\<^verbatim>\<open>addrspace.c\<close>), the process table (\<^verbatim>\<open>taskmgr.c\<close>), the buffer cache (\<^verbatim>\<open>bio.c\<close>), the inode
  and file tables and the disk driver, and enters the scheduler. A process enters the kernel by a trap
  (\<^verbatim>\<open>irqtrap.c\<close>), which serves devices, resolves page faults or calls the dispatcher of \<^verbatim>\<open>syscall_gate.c\<close>. The
  handlers of \<^verbatim>\<open>sysproc.c\<close>, \<^verbatim>\<open>sysfile.c\<close> and \<^verbatim>\<open>sem.c\<close> work on processes and on open files (\<^verbatim>\<open>file.c\<close>), which are
  inodes, pipes, the console or semaphores. The file system (\<^verbatim>\<open>fs.c\<close>) changes the disk only through the log
  (\<^verbatim>\<open>log.c\<close>), the log through the buffer cache, and the cache through \<^verbatim>\<open>virtio_disk.c\<close>. Processes wait with
  \<^verbatim>\<open>sleep\<close> and \<^verbatim>\<open>wakeup\<close> on channels, under spin locks (\<^verbatim>\<open>spinlock.c\<close>) and sleep locks (\<^verbatim>\<open>sleeplock.c\<close>).

  \<^bold>\<open>Conventions.\<close> Addresses, sizes, counters that run freely, stored fields and user values are words of their C
  width; arithmetic on them wraps, also where the C type is signed and the standard leaves an overflow
  undefined (the value of a semaphore, the negations of \<^verbatim>\<open>div64.c\<close>), since that is what the compiled code does.
  Some variables of the C type \<^verbatim>\<open>int\<close> are integers of HOL: results and loop indices, which the code keeps in
  range, the reference counts of inodes, files and semaphores, and the two counts of the log. The models do not
  wrap the reference counts; the theorems on the log bound its counts. Physical memory is one
  map from 32-bit addresses to bytes; the free lists, page tables, page contents and strings are in it.
  A C function that may panic has the type \<open>'a res\<close> (theory \<^verbatim>\<open>YH_Prelude\<close>): \<open>Ok\<close> with the result and the new
  state, \<open>Panic\<close> with the message, or \<open>Loop\<close> when it does not return or has to sleep while nothing else runs.
  Pointers to objects of a fixed array are indices into it. The state of the kernel is a chain of extensible
  records, each component adding its fields: \<open>mach\<close> (memory, processes), \<open>bstate\<close> (cache and disk),
  \<open>lstate\<close> (log), \<open>fstate\<close> (inodes), \<open>cstate\<close> (console), \<open>kstate\<close> (files), \<open>kernel\<close>, \<open>vkernel\<close> (disk driver),
  \<open>machine\<close> (traps). A device register answers with an arbitrary function of the access, so the
  theorems hold for every behaviour of the device. Operations that sleep are split into critical
  sections from one acquisition of the lock to the next \<^verbatim>\<open>sleep\<close>, and run interleaved.

  \<^bold>\<open>Theories and what they show.\<close>
  \<^item> \<^verbatim>\<open>YH_Prelude\<close>, \<^verbatim>\<open>Riscv\<close>: outcomes, memory, \<^verbatim>\<open>riscv.h\<close> and \<^verbatim>\<open>memlayout.h\<close>.
  \<^item> \<^verbatim>\<open>Kstring\<close>: every routine of \<^verbatim>\<open>string.c\<close> as its loop, with closed forms.
  \<^item> \<^verbatim>\<open>Kalloc\<close> models \<^verbatim>\<open>kalloc.c\<close>; \<^verbatim>\<open>Buddy\<close>, \<^verbatim>\<open>Buddy_Ops\<close> and \<^verbatim>\<open>Kalloc_Spec\<close> prove its invariant (linked lists in the
    pages, aligned disjoint blocks, states and reference counts), the exact effect of \<^verbatim>\<open>kalloc\<close>, \<^verbatim>\<open>kfree\<close>, \<^verbatim>\<open>kaddref\<close> and
    \<^verbatim>\<open>kinit\<close>, that no page is lost unless a 16-bit reference count wraps, and, by the locale \<open>page_allocator\<close>, that
    pages handed out are distinct.
  \<^item> \<^verbatim>\<open>Regions\<close> and \<^verbatim>\<open>Vm\<close> model \<^verbatim>\<open>addrspace.c\<close>; \<^verbatim>\<open>Vm_Walk\<close>, \<^verbatim>\<open>Vm_Map\<close> and \<^verbatim>\<open>Vm_Spec\<close> give the meaning of a page table in
    memory and the effect of \<^verbatim>\<open>walk\<close>, \<^verbatim>\<open>mappages\<close>, \<^verbatim>\<open>uvmunmap\<close> and \<^verbatim>\<open>vmfault\<close>: mapping, copy-on-write, and what a
    copy-on-write page without \<^verbatim>\<open>PTE_U\<close> allows.
  \<^item> \<^verbatim>\<open>Spinlock\<close>: \<^verbatim>\<open>spinlock.c\<close> and the discipline of nested acquires. \<^verbatim>\<open>Proc\<close>, \<^verbatim>\<open>Sched\<close>, \<^verbatim>\<open>Process\<close>: \<^verbatim>\<open>taskmgr.c\<close>; the
    feedback queue picks the best process and starves none.
  \<^item> \<^verbatim>\<open>Monitor\<close>: the interleavings \<open>mon_reach\<close> of the critical sections on an object with dispatches, interrupts, kills and
    other sleeps and wakeups, and the interface \<open>sleep_channel\<close> of every blocking operation, with the theorem that no
    wakeup is lost. It is proved once and interpreted with the functions of the source by \<^verbatim>\<open>Sleeplock\<close>
    (\<^verbatim>\<open>acquiresleep\<close>, \<^verbatim>\<open>releasesleep\<close>), \<^verbatim>\<open>Pipe\<close> (\<^verbatim>\<open>pipewrite\<close>, \<^verbatim>\<open>piperead\<close>, \<^verbatim>\<open>pipeclose\<close>) and \<^verbatim>\<open>Sem_Spec\<close> (\<^verbatim>\<open>sys_sem_wait\<close>, \<^verbatim>\<open>sys_sem_post\<close>,
    \<^verbatim>\<open>sys_sem_destroy\<close>). \<^verbatim>\<open>Ring\<close>: ring buffers with wrapping counters and the interface \<open>fifo\<close>, interpreted by \<^verbatim>\<open>Pipe\<close>.
    \<^verbatim>\<open>Pipe_Spec\<close>: which bytes go from a writer's buffer through the pipe to a reader's buffer.
  \<^item> \<^verbatim>\<open>Bio\<close>, \<^verbatim>\<open>Bio_Spec\<close>: \<^verbatim>\<open>bio.c\<close>; the linked list is an LRU list, and a read sees the current contents. \<^verbatim>\<open>Log\<close>,
    \<^verbatim>\<open>Log_Spec\<close>, \<^verbatim>\<open>Log_Safe\<close>: \<^verbatim>\<open>log.c\<close>; a commit is atomic for a crash after any of its disk writes, and what the
    reservation of \<^verbatim>\<open>begin_op\<close> guarantees to \<^verbatim>\<open>log_write\<close>.
  \<^item> \<^verbatim>\<open>Fs\<close> models \<^verbatim>\<open>fs.c\<close>; \<^verbatim>\<open>Fs_Tx\<close> is the state inside a transaction, \<^verbatim>\<open>Fs_Blocks\<close> the block allocator, \<^verbatim>\<open>Fs_Inodes\<close> the
    inodes in memory and on disk, \<^verbatim>\<open>Fs_Read\<close> \<^verbatim>\<open>readi\<close>, \<^verbatim>\<open>Fs_Dir\<close> \<^verbatim>\<open>dirlookup\<close> and \<^verbatim>\<open>Fs_Path\<close> the elements of a path.
  \<^item> \<^verbatim>\<open>Console\<close>, \<^verbatim>\<open>Console_Spec\<close>: \<^verbatim>\<open>uart.c\<close>, \<^verbatim>\<open>console.c\<close>, \<^verbatim>\<open>printf.c\<close>; the input buffer implements a line editor, and
    \<^verbatim>\<open>printint\<close> prints its argument.
  \<^item> \<^verbatim>\<open>File\<close>, \<^verbatim>\<open>Exec\<close>, \<^verbatim>\<open>Syscall\<close>: \<^verbatim>\<open>file.c\<close>, \<^verbatim>\<open>loader_exec.c\<close> and every system call handler with its error exits.
    \<^verbatim>\<open>Sem_Spec\<close>: semaphores count up to the range of an \<^verbatim>\<open>int\<close>, and what \<^verbatim>\<open>read\<close> and \<^verbatim>\<open>write\<close> do on their descriptors.
  \<^item> \<^verbatim>\<open>Virtio\<close>, \<^verbatim>\<open>Virtio_Spec\<close>: \<^verbatim>\<open>virtio_disk.c\<close>; each descriptor is free or in one well-formed request.
  \<^item> \<^verbatim>\<open>Trap\<close>, \<^verbatim>\<open>Trap_Spec\<close>: \<^verbatim>\<open>irqtrap.c\<close>, \<^verbatim>\<open>plic.c\<close>, \<^verbatim>\<open>start.c\<close>, \<^verbatim>\<open>bootflow.c\<close>; a system call from the trap to the return.
  \<^item> \<^verbatim>\<open>Sh\<close>, \<^verbatim>\<open>Sh_Spec\<close>, \<^verbatim>\<open>Sh_Roundtrip\<close>: \<^verbatim>\<open>user/sh.c\<close>; the parser ends, inverts printing, and \<^verbatim>\<open>runcmd\<close> starts the programs of
    the command with the descriptors it asks for. \<^verbatim>\<open>Grep\<close>: \<^verbatim>\<open>user/grep.c\<close>; the matcher decides its pattern
    language, and the matching lines among the complete lines that fit the buffer are printed. \<^verbatim>\<open>Div64\<close>: \<^verbatim>\<open>user/div64.c\<close>.
  \<^item> \<^verbatim>\<open>Yhc\<close>, \<^verbatim>\<open>Yhc_Spec\<close>: \<^verbatim>\<open>compiler/ir/optimizer.py\<close>; the simplification of expressions against the 32-bit meaning that the
    code generator gives them, with the constants for which they differ.

  \<^bold>\<open>Bounds and fuel.\<close> Loops with a decreasing measure are functions with a termination proof. Loops over
  pointer structures, and loops whose end depends on a device or on memory contents, are
  \<^theory_text>\<open>partial_function (option)\<close>, and the theorems about them show that they return. The four mutually recursive
  functions of the shell's parser have fuel \<open>4 * length s + 4\<close>: a call that reads no character goes
  down at most three levels (\<^verbatim>\<open>parseline\<close>, \<^verbatim>\<open>parsepipe\<close>, \<^verbatim>\<open>parseexec\<close>, \<^verbatim>\<open>parseblock\<close>) before a token is read, and the
  property of the parser shows that the fuel never runs out. The fixed point of the optimiser has fuel
  \<open>2 * calls e + 2\<close>, two rounds for each call around a subexpression, which is shown to be enough. All sizes (\<^verbatim>\<open>NPROC\<close>, \<^verbatim>\<open>NBUF\<close>, \<^verbatim>\<open>LOGBLOCKS\<close>, ...)
  are those of \<^verbatim>\<open>param.h\<close> and \<^verbatim>\<open>fs.h\<close>.

  \<^bold>\<open>Not modelled.\<close> The assembly (\<^verbatim>\<open>entry.S\<close>, \<^verbatim>\<open>swtch.S\<close>, \<^verbatim>\<open>trampoline.S\<close>, \<^verbatim>\<open>kernelvec.S\<close>): it moves registers between the
  states that the models start and end in; a context switch is one step. The accessors of control
  registers in \<^verbatim>\<open>riscv.h\<close> are fields of a record, and \<^verbatim>\<open>sfence_vma\<close> and memory fences have no effect on the
  models. Diagnostic output of the kernel is not part of the state, except of the functions of \<^verbatim>\<open>printf.c\<close>
  themselves. Of the user programs, the tests (\<^verbatim>\<open>usertests.c\<close>, \<^verbatim>\<open>forktest.c\<close>, \<^verbatim>\<open>logstress.c\<close>, \<^verbatim>\<open>semtest.c\<close>), the small
  utilities and games, which are sequences of system calls and output, the library \<^verbatim>\<open>ulib.c\<close>, \<^verbatim>\<open>printf.c\<close>,
  \<^verbatim>\<open>umalloc.c\<close> except \<^verbatim>\<open>strchr\<close>, and the loop of \<^verbatim>\<open>sh.c\<close> that reads lines. \<^verbatim>\<open>mkfs.c\<close> runs on the host; the layout it
  writes is a hypothesis of the theorems on the file system. Of the compiler (Python), the front end, the passes
  over instruction lists and the code generator, whose register allocation and assembly text are far
  from the meaning of expressions used here. The core (\<^verbatim>\<open>src/cpu\<close>, Verilog) is a separate product; the
  development takes the RISC-V architecture as its machine.
\<close>

end
